(* ===== verification/Avahi_Prelude.thy ===== *)
theory Avahi_Prelude
  imports Main "HOL-Library.Word" "HOL-Library.Monad_Syntax" "HOL-Library.Multiset"
begin

text \<open>
  Shared vocabulary of the development: the C types the sources use, C strings and the
  few functions of the C library that the sources call on them, and generic lemmas.

  \<^item> A NUL-terminated C string is a \<^typ>\<open>string\<close>: the end of the list is the NUL, so
    \<open>*s == 0\<close> is \<open>s = []\<close>. Where a length-counted byte range may hold NUL bytes, the list
    may contain the character 0.
  \<^item> A function that may fail an \<open>assert\<close> (and so abort the process) or read memory
    that holds no defined value has an \<open>option\<close> result whose \<^const>\<open>None\<close> is that
    outcome. A NULL result is a separate, inner \<^const>\<open>None\<close>.
  \<^item> The character classes are those of the C locale.
\<close>

type_synonym u8 = "8 word"
type_synonym u16 = "16 word"
type_synonym u32 = "32 word"

unbundle bit_operations_syntax

section \<open>Bits\<close>

lemma or_disjoint_shift:
  fixes a v :: nat
  assumes "a < 2 ^ k"
  shows "push_bit k v OR a = v * 2 ^ k + a"
proof -
  have a: "a = take_bit k a" using assms by (simp add: take_bit_eq_mod)
  have "push_bit k v + take_bit k a = push_bit k v OR take_bit k a"
    by (rule disjunctive_add) (auto simp: bit_simps)
  with a show ?thesis by (simp add: push_bit_eq_mult)
qed

lemma and_shifted_mask:
  fixes v :: nat
  shows "v AND push_bit m (mask k) = ((v div 2 ^ m) mod 2 ^ k) * 2 ^ m"
proof -
  have "v AND push_bit m (mask k) = push_bit m (take_bit k (drop_bit m v))"
    by (rule bit_eqI) (auto simp: bit_simps)
  then show ?thesis by (simp add: push_bit_eq_mult take_bit_eq_mod drop_bit_eq_div)
qed

lemma div_eq_block:
  fixes n k m :: nat
  assumes "0 < k"
  shows "n div k = m \<longleftrightarrow> m * k \<le> n \<and> n < Suc m * k"
proof
  assume "n div k = m"
  then have "n = m * k + n mod k" by auto
  with mod_less_divisor [OF assms, of n] show "m * k \<le> n \<and> n < Suc m * k" by auto
next
  assume "m * k \<le> n \<and> n < Suc m * k"
  then show "n div k = m" by (intro div_nat_eqI) (auto simp: mult.commute)
qed

lemma mod_block: "a < k \<Longrightarrow> (m * k + a) mod k = (a :: nat)"
  by simp

lemma div_block: "a < k \<Longrightarrow> (m * k + a) div k = (m :: nat)"
  by simp

lemma block_inject: "b < k \<Longrightarrow> d < k \<Longrightarrow> a * k + b = c * k + d \<longleftrightarrow> a = c \<and> b = (d :: nat)"
  by (metis div_block mod_block)

section \<open>Characters\<close>

definition c_dot :: char where
  "c_dot = CHR ''.''"

definition c_backslash :: char where
  "c_backslash = CHR 0x5C"

text \<open>The value of \<open>(unsigned char) c\<close>.\<close>

abbreviation ucode :: "char \<Rightarrow> nat" where
  "ucode c \<equiv> of_char c"

definition isdigit :: "char \<Rightarrow> bool" where
  "isdigit c = (48 \<le> ucode c \<and> ucode c \<le> 57)"

definition tolower :: "char \<Rightarrow> char" where
  "tolower c = (if 65 \<le> ucode c \<and> ucode c \<le> 90 then char_of (ucode c + 32) else c)"

definition digit_val :: "char \<Rightarrow> nat" where
  "digit_val c = ucode c - 48"

definition digit_char :: "nat \<Rightarrow> char" where
  "digit_char n = char_of (48 + n)"

text \<open>The \<open>int\<close> that a plain (signed) \<open>char\<close> is promoted to, reduced modulo $2^{32}$.\<close>

definition char_promote :: "char \<Rightarrow> u32" where
  "char_promote c = (if ucode c < 128 then of_nat (ucode c) else of_nat (ucode c) - 256)"

definition strcasecmp_eq :: "string \<Rightarrow> string \<Rightarrow> bool" where
  "strcasecmp_eq a b = (map tolower a = map tolower b)"

text \<open>The sign of \<open>strcmp\<close>: the comparison of the first differing unsigned characters.\<close>

fun strcmp :: "string \<Rightarrow> string \<Rightarrow> int" where
  "strcmp [] [] = 0"
| "strcmp [] (b # bs) = -1"
| "strcmp (a # as) [] = 1"
| "strcmp (a # as) (b # bs) =
     (if a = b then strcmp as bs else if ucode a < ucode b then -1 else 1)"


lemma char_of_ucode [simp]: "char_of (ucode c) = c"
  by simp

lemma ucode_char_of [simp]: "n < 256 \<Longrightarrow> ucode (char_of n) = n"
  by (simp add: of_char_of)

lemma ucode_less: "ucode c < 256"
  using nat_of_char_less_256 [of c] by simp

lemma ucode_inject: "ucode a = ucode b \<longleftrightarrow> a = b"
  by (metis char_of_ucode)

lemma digit_char_digit [simp]: "n < 10 \<Longrightarrow> isdigit (digit_char n)"
  by (simp add: isdigit_def digit_char_def)

lemma digit_val_char [simp]: "n < 10 \<Longrightarrow> digit_val (digit_char n) = n"
  by (simp add: digit_val_def digit_char_def)

lemma ucode_digit_char: "n < 10 \<Longrightarrow> ucode (digit_char n) = 48 + n"
  by (simp add: digit_char_def)

lemma isdigit_not_special [simp]:
  "isdigit c \<Longrightarrow> c \<noteq> c_dot" "isdigit c \<Longrightarrow> c \<noteq> c_backslash"
  by (auto simp: isdigit_def c_dot_def c_backslash_def)

lemma c_dot_not_backslash [simp]: "c_dot \<noteq> c_backslash" "c_backslash \<noteq> c_dot"
  by (simp_all add: c_dot_def c_backslash_def)

lemma not_isdigit_special [simp]: "\<not> isdigit c_dot" "\<not> isdigit c_backslash"
  by (auto simp: isdigit_def c_dot_def c_backslash_def)

lemma digit_char_not_special [simp]:
  "n < 10 \<Longrightarrow> digit_char n \<noteq> c_dot" "n < 10 \<Longrightarrow> digit_char n \<noteq> c_backslash"
  by (auto dest: digit_char_digit)

lemma tolower_idem [simp]: "tolower (tolower c) = tolower c"
  by (auto simp: tolower_def)

lemma strcasecmp_eq_refl [simp]: "strcasecmp_eq a a"
  by (simp add: strcasecmp_eq_def)

lemma strcasecmp_eq_sym: "strcasecmp_eq a b \<Longrightarrow> strcasecmp_eq b a"
  by (simp add: strcasecmp_eq_def)

lemma strcasecmp_eq_trans: "strcasecmp_eq a b \<Longrightarrow> strcasecmp_eq b c \<Longrightarrow> strcasecmp_eq a c"
  by (simp add: strcasecmp_eq_def)

lemma strcasecmp_eq_Nil [simp]:
  "strcasecmp_eq [] b \<longleftrightarrow> b = []" "strcasecmp_eq a [] \<longleftrightarrow> a = []"
  by (auto simp: strcasecmp_eq_def)

lemma strcmp_eq_0 [simp]: "strcmp a b = 0 \<longleftrightarrow> a = b"
  by (induction a b rule: strcmp.induct) auto

lemma strcmp_antisym: "strcmp b a = - strcmp a b"
proof (induction a b rule: strcmp.induct)
  case (4 a as b bs)
  then show ?case
    by (cases "a = b") (use ucode_inject [of a b] in \<open>auto\<close>)
qed auto

lemma strcmp_range: "strcmp a b \<in> {-1, 0, 1}"
  by (induction a b rule: strcmp.induct) auto

section \<open>Printed numbers\<close>

text \<open>The value of a digit string, and \<open>"%i"\<close> of a natural number.\<close>

definition atoi :: "string \<Rightarrow> nat" where
  "atoi s = foldl (\<lambda>n c. 10 * n + digit_val c) 0 s"

function decimal :: "nat \<Rightarrow> string" where
  "decimal n = (if n < 10 then [digit_char n] else decimal (n div 10) @ [digit_char (n mod 10)])"
  by pat_completeness auto
termination
  by (relation "measure id") auto

declare decimal.simps [simp del]

lemma atoi_append: "atoi (s @ [c]) = 10 * atoi s + digit_val c"
  by (simp add: atoi_def)

lemma atoi_decimal [simp]: "atoi (decimal n) = n"
proof (induction n rule: decimal.induct)
  case (1 n)
  show ?case
  proof (cases "n < 10")
    case True
    then show ?thesis by (simp add: decimal.simps [of n] atoi_def)
  next
    case False
    with 1 show ?thesis by (simp add: decimal.simps [of n] atoi_append)
  qed
qed

lemma decimal_digits: "list_all isdigit (decimal n)"
  by (induction n rule: decimal.induct) (subst decimal.simps, simp)

lemma decimal_not_Nil [simp]: "decimal n \<noteq> []"
  by (subst decimal.simps) simp

lemma decimal_length: "n < 10 ^ k \<Longrightarrow> 0 < k \<Longrightarrow> length (decimal n) \<le> k"
proof (induction n arbitrary: k rule: decimal.induct)
  case (1 n)
  show ?case
  proof (cases "n < 10")
    case True
    with 1 show ?thesis by (simp add: decimal.simps [of n])
  next
    case False
    obtain j where j: "k = Suc j" using "1.prems" by (cases k) auto
    with False "1.prems" have "0 < j" by (cases j) auto
    moreover have "n div 10 < 10 ^ j"
      using "1.prems"(1) by (simp add: j less_mult_imp_div_less mult.commute)
    ultimately have "length (decimal (n div 10)) \<le> j" using "1.IH" False by blast
    with False show ?thesis by (simp add: decimal.simps [of n] j)
  qed
qed

lemma decimal_inject: "decimal a = decimal b \<longleftrightarrow> a = b"
  by (metis atoi_decimal)

section \<open>Lists\<close>

definition nth_opt :: "'a list \<Rightarrow> nat \<Rightarrow> 'a option" where
  "nth_opt xs i = (if i < length xs then Some (xs ! i) else None)"

definition list_swap :: "'a list \<Rightarrow> nat \<Rightarrow> nat \<Rightarrow> 'a list" where
  "list_swap xs i j = xs[i := xs ! j, j := xs ! i]"

lemma length_list_swap [simp]: "length (list_swap xs i j) = length xs"
  by (simp add: list_swap_def)

lemma nth_list_swap:
  "i < length xs \<Longrightarrow> j < length xs \<Longrightarrow> k < length xs \<Longrightarrow>
   list_swap xs i j ! k = (if k = i then xs ! j else if k = j then xs ! i else xs ! k)"
  by (auto simp: list_swap_def nth_list_update)

lemma mset_list_swap [simp]:
  "i < length xs \<Longrightarrow> j < length xs \<Longrightarrow> mset (list_swap xs i j) = mset xs"
  by (simp add: list_swap_def mset_swap)

lemma distinct_list_swap [simp]:
  "i < length xs \<Longrightarrow> j < length xs \<Longrightarrow> distinct (list_swap xs i j) = distinct xs"
  by (simp add: list_swap_def)

lemma set_list_swap [simp]:
  "i < length xs \<Longrightarrow> j < length xs \<Longrightarrow> set (list_swap xs i j) = set xs"
  by (simp add: list_swap_def)

section \<open>Comparison functions\<close>

text \<open>
  The contract of the \<open>compare\<close> callbacks of the code: the sign of the result is antisymmetric,
  and ``not greater'' is transitive. It makes ``not greater'' a total preorder.
\<close>

locale c_compare =
  fixes cmp :: "'a \<Rightarrow> 'a \<Rightarrow> int"
  assumes cmp_swap: "cmp a b < 0 \<longleftrightarrow> cmp b a > 0"
    and cmp_trans: "cmp a b \<le> 0 \<Longrightarrow> cmp b c \<le> 0 \<Longrightarrow> cmp a c \<le> 0"
begin

lemma cmp_refl: "cmp a a = 0"
  using cmp_swap [of a a] by linarith

lemma cmp_le_swap: "cmp a b \<le> 0 \<longleftrightarrow> cmp b a \<ge> 0"
  using cmp_swap [of b a] by linarith

lemma cmp_total: "cmp a b \<le> 0 \<or> cmp b a \<le> 0"
  using cmp_le_swap [of a b] by linarith

lemma cmp_less_trans: "cmp a b < 0 \<Longrightarrow> cmp b c \<le> 0 \<Longrightarrow> cmp a c < 0"
  using cmp_trans [of b c a] cmp_le_swap [of c a] cmp_le_swap [of b a] cmp_trans [of c a b]
    cmp_swap [of a b] cmp_le_swap [of b c] cmp_swap [of a c]
  by (metis not_less)

text \<open>Comparing by \<open>cmp\<close> first and by a second comparison when it finds no difference.\<close>

lemma lex_swap:
  assumes "c_compare cmp2"
  shows "(if cmp a b \<noteq> 0 then cmp a b else cmp2 a' b') < 0 \<longleftrightarrow>
         (if cmp b a \<noteq> 0 then cmp b a else cmp2 b' a') > 0"
  using cmp_swap [of a b] cmp_swap [of b a] c_compare.cmp_swap [OF assms, of a' b'] by auto

lemma lex_trans:
  assumes "c_compare cmp2"
    and "(if cmp a b \<noteq> 0 then cmp a b else cmp2 a' b') \<le> 0"
    and "(if cmp b c \<noteq> 0 then cmp b c else cmp2 b' c') \<le> 0"
  shows "(if cmp a c \<noteq> 0 then cmp a c else cmp2 a' c') \<le> 0"
proof -
  have le: "cmp a b \<le> 0" "cmp b c \<le> 0" using assms(2,3) by (auto split: if_splits)
  then have ac: "cmp a c \<le> 0" by (rule cmp_trans)
  show ?thesis
  proof (cases "cmp a c = 0")
    case True
    then have "cmp c a \<le> 0" by (simp add: cmp_le_swap)
    with le have "cmp a b = 0" "cmp b c = 0"
      using cmp_trans [of b c a] cmp_trans [of c a b] cmp_le_swap [of b a] cmp_le_swap [of c b]
      by auto
    with True assms(2,3) show ?thesis
      using c_compare.cmp_trans [OF assms(1), of a' b' c'] by simp
  qed (use ac in simp)
qed

end

text \<open>Comparisons by a chain of criteria, and by a property of the compared things.\<close>

fun lex_chain :: "('a \<Rightarrow> 'a \<Rightarrow> int) list \<Rightarrow> 'a \<Rightarrow> 'a \<Rightarrow> int" where
  "lex_chain [] a b = 0"
| "lex_chain (c # cs) a b = (if c a b \<noteq> 0 then c a b else lex_chain cs a b)"

lemma lex_chain_0: "lex_chain cs a b = 0 \<longleftrightarrow> list_all (\<lambda>c. c a b = 0) cs"
  by (induction cs) auto

lemma c_compare_chain: "list_all c_compare cs \<Longrightarrow> c_compare (lex_chain cs)"
proof (induction cs)
  case Nil
  show ?case by unfold_locales auto
next
  case (Cons c cs)
  then have c: "c_compare c" "c_compare (lex_chain cs)" by simp_all
  show ?case
  proof
    show "lex_chain (c # cs) a b < 0 \<longleftrightarrow> lex_chain (c # cs) b a > 0" for a b
      using c_compare.lex_swap [OF c] by simp
    show "lex_chain (c # cs) a b \<le> 0 \<Longrightarrow> lex_chain (c # cs) b d \<le> 0 \<Longrightarrow>
      lex_chain (c # cs) a d \<le> 0" for a b d
      using c_compare.lex_trans [OF c, of a b a b d d] by simp
  qed
qed

lemma c_compare_on: "c_compare c \<Longrightarrow> c_compare (\<lambda>a b. c (f a) (f b))"
  by (simp add: c_compare_def)

lemma strcmp_trans: "strcmp a b \<le> 0 \<Longrightarrow> strcmp b c \<le> 0 \<Longrightarrow> strcmp a c \<le> 0"
proof (induction a b arbitrary: c rule: strcmp.induct)
  case (4 x as y bs)
  then show ?case
    by (cases c) (auto split: if_splits simp: not_less dest: less_trans)
next
  case (2 y bs)
  then show ?case by (cases c) auto
next
  case 1
  then show ?case by (cases c) auto
qed auto

interpretation strcmp_order: c_compare strcmp
proof unfold_locales
  show "strcmp a b < 0 \<longleftrightarrow> strcmp b a > 0" for a b using strcmp_antisym [of a b] by linarith
qed (rule strcmp_trans)

end
