(* ===== verification/Utf8.thy ===== *)
theory Utf8
  imports Avahi_Prelude
begin

text \<open>
  \<^verbatim>\<open>avahi-common/utf8.c\<close>: the validity check of UTF-8 strings. The theorem of this
  theory is that the check accepts exactly the encodings of sequences of code points that
  \<^verbatim>\<open>UNICODE_VALID\<close> admits.
\<close>

section \<open>The check\<close>

definition UNICODE_VALID :: "nat \<Rightarrow> bool" where
  "UNICODE_VALID c =
     (c < 0x110000 \<and>
      c AND 0xFFFFF800 \<noteq> 0xD800 \<and>
      (c < 0xFDD0 \<or> c > 0xFDEF) \<and>
      c AND 0xFFFE \<noteq> 0xFFFE)"

text \<open>
  \<open>p++; CONTINUATION_CHAR\<close>: the rest of the string is passed and returned; at the end of
  the string the byte read is the NUL, which is no continuation byte.
\<close>

definition CONTINUATION_CHAR :: "nat \<Rightarrow> string \<Rightarrow> (nat \<times> string) option" where
  "CONTINUATION_CHAR val s =
     (case s of
        [] \<Rightarrow> None
      | p # s' \<Rightarrow>
          if ucode p AND 0xC0 \<noteq> 0x80 then None
          else Some (push_bit 6 val OR (ucode p AND 0x3F), s'))"

text \<open>The code from the label \<open>TWO_REMAINING\<close>: two more continuation bytes and the range checks.\<close>

definition TWO_REMAINING :: "nat \<Rightarrow> nat \<Rightarrow> string \<Rightarrow> string option" where
  "TWO_REMAINING mn val s =
     (case CONTINUATION_CHAR val s of None \<Rightarrow> None
      | Some (val1, s1) \<Rightarrow>
         (case CONTINUATION_CHAR val1 s1 of None \<Rightarrow> None
          | Some (val2, s2) \<Rightarrow>
              if val2 < mn then None
              else if \<not> UNICODE_VALID val2 then None
              else Some s2))"

text \<open>One iteration of the loop at a byte \<open>p\<close> of 128 or more: the rest of the string after the
  sequence, \<^const>\<open>None\<close> for \<open>goto error\<close>.\<close>

definition utf8_sequence :: "char \<Rightarrow> string \<Rightarrow> string option" where
  "utf8_sequence p s =
     (if ucode p AND 0xE0 = 0xC0 then
        if ucode p AND 0x1E = 0 then None
        else (case s of
                [] \<Rightarrow> None
              | q # s' \<Rightarrow> if ucode q AND 0xC0 \<noteq> 0x80 then None else Some s')
      else if ucode p AND 0xF0 = 0xE0 then TWO_REMAINING (2 ^ 11) (ucode p AND 0x0F) s
      else if ucode p AND 0xF8 = 0xF0 then
        (case CONTINUATION_CHAR (ucode p AND 0x07) s of None \<Rightarrow> None
         | Some (val, s') \<Rightarrow> TWO_REMAINING (2 ^ 16) val s')
      else None)"

lemma CONTINUATION_CHAR_length:
  "CONTINUATION_CHAR v s = Some (v', s') \<Longrightarrow> length s = Suc (length s')"
  by (auto simp: CONTINUATION_CHAR_def split: list.splits if_splits)

lemma TWO_REMAINING_length:
  "TWO_REMAINING m v s = Some s' \<Longrightarrow> length s = Suc (Suc (length s'))"
  by (auto simp: TWO_REMAINING_def dest!: CONTINUATION_CHAR_length
           split: option.splits prod.splits if_splits)

lemma utf8_sequence_length [termination_simp]:
  "utf8_sequence p s = Some s' \<Longrightarrow> length s' < length s"
  by (auto simp: utf8_sequence_def dest!: CONTINUATION_CHAR_length TWO_REMAINING_length
           split: option.splits prod.splits if_splits list.splits)

lemma utf8_sequence_size [termination_simp]:
  "utf8_sequence p s = Some s' \<Longrightarrow> length s' < Suc (length s)"
  by (drule utf8_sequence_length) simp

fun avahi_utf8_valid :: "string \<Rightarrow> bool" where
  "avahi_utf8_valid [] = True"
| "avahi_utf8_valid (p # s) =
     (if ucode p < 128 then avahi_utf8_valid s
      else (case utf8_sequence p s of None \<Rightarrow> False | Some s' \<Rightarrow> avahi_utf8_valid s'))"

section \<open>The encoding of a code point\<close>

text \<open>The UTF-8 encoding form of RFC 3629, section 3, as a reference.\<close>

definition utf8_encode :: "nat \<Rightarrow> string" where
  "utf8_encode c =
     (if c < 0x80 then [char_of c]
      else if c < 0x800 then [char_of (0xC0 + c div 64), char_of (0x80 + c mod 64)]
      else if c < 0x10000 then
        [char_of (0xE0 + c div 64 div 64), char_of (0x80 + c div 64 mod 64), char_of (0x80 + c mod 64)]
      else
        [char_of (0xF0 + c div 64 div 64 div 64), char_of (0x80 + c div 64 div 64 mod 64),
         char_of (0x80 + c div 64 mod 64), char_of (0x80 + c mod 64)])"

lemma UNICODE_VALID_iff:
  "UNICODE_VALID c \<longleftrightarrow>
     c < 0x110000 \<and> \<not> (0xD800 \<le> c \<and> c < 0xE000) \<and> \<not> (0xFDD0 \<le> c \<and> c \<le> 0xFDEF) \<and>
     c mod 0x10000 < 0xFFFE"
proof (cases "c < 0x110000")
  case True
  have "c AND 0xFFFFF800 = (c div 2048) mod 2 ^ 21 * 2048"
    using and_shifted_mask [of c 11 21] by (simp add: push_bit_eq_mult mask_eq_exp_minus_1)
  moreover have "c div 2048 < 2 ^ 21" using True by simp
  ultimately have "c AND 0xFFFFF800 = 0xD800 \<longleftrightarrow> c div 2048 = 27" by simp
  then have 1: "c AND 0xFFFFF800 = 0xD800 \<longleftrightarrow> 0xD800 \<le> c \<and> c < 0xE000"
    by (simp add: div_eq_block)
  have "c AND 0xFFFE = (c div 2) mod 2 ^ 15 * 2"
    using and_shifted_mask [of c 1 15] by (simp add: push_bit_eq_mult mask_eq_exp_minus_1)
  also have "(c div 2) mod 2 ^ 15 = c mod 0x10000 div 2"
    using mod_mult2_eq [of c 2 "2 ^ 15"] by simp
  finally have "c AND 0xFFFE = 0xFFFE \<longleftrightarrow> c mod 0x10000 div 2 = 0x7FFF" by simp
  then have "c AND 0xFFFE = 0xFFFE \<longleftrightarrow> \<not> c mod 0x10000 < 0xFFFE"
    by (simp add: div_eq_block not_less)
  with 1 show ?thesis
    unfolding UNICODE_VALID_def by auto
qed (simp add: UNICODE_VALID_def)

text \<open>The masks of the code, as arithmetic on bytes.\<close>

lemma byte_masks:
  fixes b :: nat
  assumes "b < 256"
  shows "b AND 0xE0 = b div 32 * 32" "b AND 0xF0 = b div 16 * 16" "b AND 0xF8 = b div 8 * 8"
    "b AND 0xC0 = b div 64 * 64" "b AND 0x3F = b mod 64" "b AND 0x0F = b mod 16"
    "b AND 0x07 = b mod 8" "b AND 0x1E = b div 2 mod 16 * 2"
proof -
  have d: "b div 2 ^ 5 mod 2 ^ 3 = b div 2 ^ 5" "b div 2 ^ 4 mod 2 ^ 4 = b div 2 ^ 4" "b div 2 ^ 3 mod 2 ^ 5 = b div 2 ^ 3"
    "b div 2 ^ 6 mod 2 ^ 2 = b div 2 ^ 6"
    using assms by (simp_all add: less_mult_imp_div_less)
  show "b AND 0xE0 = b div 32 * 32" using and_shifted_mask [of b 5 3] d(1) by (simp add: push_bit_eq_mult mask_eq_exp_minus_1)
  show "b AND 0xF0 = b div 16 * 16" using and_shifted_mask [of b 4 4] d(2) by (simp add: push_bit_eq_mult mask_eq_exp_minus_1)
  show "b AND 0xF8 = b div 8 * 8" using and_shifted_mask [of b 3 5] d(3) by (simp add: push_bit_eq_mult mask_eq_exp_minus_1)
  show "b AND 0xC0 = b div 64 * 64" using and_shifted_mask [of b 6 2] d(4) by (simp add: push_bit_eq_mult mask_eq_exp_minus_1)
  show "b AND 0x3F = b mod 64" using and_shifted_mask [of b 0 6] by (simp add: push_bit_eq_mult mask_eq_exp_minus_1)
  show "b AND 0x0F = b mod 16" using and_shifted_mask [of b 0 4] by (simp add: push_bit_eq_mult mask_eq_exp_minus_1)
  show "b AND 0x07 = b mod 8" using and_shifted_mask [of b 0 3] by (simp add: push_bit_eq_mult mask_eq_exp_minus_1)
  show "b AND 0x1E = b div 2 mod 16 * 2" using and_shifted_mask [of b 1 4] by (simp add: push_bit_eq_mult mask_eq_exp_minus_1)
qed

lemma byte_classes:
  fixes b :: nat
  assumes "b < 256"
  shows "b AND 0xC0 = 0x80 \<longleftrightarrow> 128 \<le> b \<and> b < 192"
    "b AND 0xE0 = 0xC0 \<longleftrightarrow> 192 \<le> b \<and> b < 224"
    "b AND 0xF0 = 0xE0 \<longleftrightarrow> 224 \<le> b \<and> b < 240"
    "b AND 0xF8 = 0xF0 \<longleftrightarrow> 240 \<le> b \<and> b < 248"
  using div_eq_block [of 64 b 2] div_eq_block [of 32 b 6] div_eq_block [of 16 b 14]
    div_eq_block [of 8 b 30]
  unfolding byte_masks [OF assms] by auto

lemma overlong_mask:
  fixes b :: nat
  assumes "192 \<le> b" "b < 224"
  shows "b AND 0x1E = 0 \<longleftrightarrow> b < 194"
proof -
  have "b div 2 = 96 + (b - 192) div 2" using assms by linarith
  moreover have "(b - 192) div 2 < 16" using assms by linarith
  ultimately have "b div 2 mod 16 = (b - 192) div 2" 
    using mod_block [of "(b - 192) div 2" 16 6] by simp
  moreover have "(b - 192) div 2 = 0 \<longleftrightarrow> b < 194" using assms by linarith
  ultimately show ?thesis using assms by (simp add: byte_masks)
qed

lemma CONTINUATION_CHAR_Some:
  "CONTINUATION_CHAR v s = Some (v', s') \<longleftrightarrow>
     (\<exists>a < 64. s = char_of (128 + a) # s' \<and> v' = v * 64 + a)"
proof (cases s)
  case Nil
  then show ?thesis by (simp add: CONTINUATION_CHAR_def)
next
  case (Cons p t)
  have or: "push_bit 6 v OR ucode p mod 64 = v * 64 + ucode p mod 64"
    using or_disjoint_shift [of "ucode p mod 64" 6 v] by simp
  show ?thesis (is "?L \<longleftrightarrow> ?R")
  proof
    assume ?L
    then have r: "128 \<le> ucode p" "ucode p < 192" "t = s'" "v' = v * 64 + ucode p mod 64"
      by (auto simp: Cons CONTINUATION_CHAR_def byte_classes byte_masks or split: if_splits)
    then have "ucode p div 64 = 2" by (simp add: div_eq_block)
    then have "ucode p = 128 + ucode p mod 64"
      using div_mult_mod_eq [of "ucode p" 64] by simp
    then have "p = char_of (128 + ucode p mod 64)" by (metis char_of_ucode)
    with r show ?R unfolding Cons by (intro exI [of _ "ucode p mod 64"]) simp
  next
    assume ?R
    then obtain a where a: "a < 64" "p = char_of (128 + a)" "t = s'" "v' = v * 64 + a"
      by (auto simp: Cons)
    then have "ucode p = 128 + a" by simp
    moreover from this a have "ucode p mod 64 = a" using mod_block [of a 64 2] by simp
    ultimately show ?L
      using a or by (simp add: Cons CONTINUATION_CHAR_def byte_classes byte_masks)
  qed
qed

lemma TWO_REMAINING_Some:
  "TWO_REMAINING m v s = Some s' \<longleftrightarrow>
     (\<exists>a < 64. \<exists>b < 64. s = char_of (128 + a) # char_of (128 + b) # s' \<and>
        m \<le> (v * 64 + a) * 64 + b \<and> UNICODE_VALID ((v * 64 + a) * 64 + b))"
  (is "?L \<longleftrightarrow> ?R")
proof
  assume ?L
  then obtain v1 s1 v2 where
    1: "CONTINUATION_CHAR v s = Some (v1, s1)" and 2: "CONTINUATION_CHAR v1 s1 = Some (v2, s')"
    and 3: "m \<le> v2" "UNICODE_VALID v2"
    by (auto simp: TWO_REMAINING_def split: option.splits prod.splits if_splits)
  from 1 2 3 show ?R unfolding CONTINUATION_CHAR_Some by blast
next
  assume ?R
  then obtain a b where ab: "a < 64" "b < 64" "s = char_of (128 + a) # char_of (128 + b) # s'"
    "m \<le> (v * 64 + a) * 64 + b" "UNICODE_VALID ((v * 64 + a) * 64 + b)" by blast
  then have "CONTINUATION_CHAR v s = Some (v * 64 + a, char_of (128 + b) # s')"
    "CONTINUATION_CHAR (v * 64 + a) (char_of (128 + b) # s') = Some ((v * 64 + a) * 64 + b, s')"
    unfolding CONTINUATION_CHAR_Some by blast+
  with ab show ?L by (simp add: TWO_REMAINING_def)
qed

text \<open>A sequence is accepted exactly when it is the encoding of an admitted code point.\<close>

lemma utf8_encode_2:
  "\<lbrakk>2 \<le> a; a < 32; b < 64\<rbrakk> \<Longrightarrow>
   utf8_encode (a * 64 + b) = [char_of (192 + a), char_of (128 + b)]"
  using div_block [of b 64 a] mod_block [of b 64 a] by (simp add: utf8_encode_def)

lemma utf8_encode_3:
  assumes "a < 16" "b < 64" "c < 64" "2 ^ 11 \<le> (a * 64 + b) * 64 + c"
  shows "utf8_encode ((a * 64 + b) * 64 + c) =
    [char_of (224 + a), char_of (128 + b), char_of (128 + c)]"
  unfolding utf8_encode_def div_block [OF assms(3)] mod_block [OF assms(3)]
    div_block [OF assms(2)] mod_block [OF assms(2)]
  using assms by simp

lemma utf8_encode_4:
  assumes "a < 8" "b < 64" "c < 64" "d < 64" "2 ^ 16 \<le> ((a * 64 + b) * 64 + c) * 64 + d"
  shows "utf8_encode (((a * 64 + b) * 64 + c) * 64 + d) =
    [char_of (240 + a), char_of (128 + b), char_of (128 + c), char_of (128 + d)]"
  unfolding utf8_encode_def div_block [OF assms(4)] mod_block [OF assms(4)]
    div_block [OF assms(3)] mod_block [OF assms(3)] div_block [OF assms(2)] mod_block [OF assms(2)]
  using assms by simp

lemma small_UNICODE_VALID: "c < 0xD800 \<Longrightarrow> UNICODE_VALID c"
  by (simp add: UNICODE_VALID_iff)

lemma char_of_offset: "k \<le> ucode p \<Longrightarrow> char_of (k + (ucode p - k)) = p"
  by simp

lemma char_of_offset': "k \<le> ucode p \<Longrightarrow> \<exists>a. ucode p = k + a \<and> p = char_of (k + a)"
  by (intro exI [of _ "ucode p - k"]) simp

lemma utf8_sequence_2:
  fixes a b :: nat
  shows "\<lbrakk>2 \<le> a; a < 32; b < 64\<rbrakk> \<Longrightarrow>
   utf8_sequence (char_of (192 + a)) (char_of (128 + b) # s) = Some s"
  by (simp add: utf8_sequence_def byte_classes overlong_mask)

lemma utf8_sequence_3:
  assumes "a < 16"
  shows "utf8_sequence (char_of (224 + a)) s = TWO_REMAINING (2 ^ 11) a s"
proof -
  have "(14 * 16 + a) AND 0x0F = (14 * 16 + a) mod 16"
    using assms by (intro byte_masks) simp
  also have "\<dots> = a" using assms by (rule mod_block)
  finally have "(14 * 16 + a) AND 0x0F = a" .
  with assms show ?thesis by (simp add: utf8_sequence_def byte_classes)
qed

lemma utf8_sequence_4:
  assumes "a < 8"
  shows "utf8_sequence (char_of (240 + a)) s =
    (case CONTINUATION_CHAR a s of None \<Rightarrow> None | Some (v, s') \<Rightarrow> TWO_REMAINING (2 ^ 16) v s')"
proof -
  have "(30 * 8 + a) AND 0x07 = (30 * 8 + a) mod 8"
    using assms by (intro byte_masks) simp
  also have "\<dots> = a" using assms by (rule mod_block)
  finally have "(30 * 8 + a) AND 0x07 = a" .
  with assms show ?thesis by (simp add: utf8_sequence_def byte_classes)
qed

lemma utf8_sequence_sound:
  assumes "utf8_sequence p s = Some s'" "128 \<le> ucode p"
  shows "\<exists>c. UNICODE_VALID c \<and> p # s = utf8_encode c @ s'"
proof -
  consider (two) "192 \<le> ucode p" "ucode p < 224" | (three) "224 \<le> ucode p" "ucode p < 240"
    | (four) "240 \<le> ucode p" "ucode p < 248"
    using assms by (auto simp: utf8_sequence_def byte_classes split: if_splits)
  then show ?thesis
  proof cases
    case two
    obtain a where a: "ucode p = 192 + a" "p = char_of (192 + a)"
      using char_of_offset' two(1) by blast
    obtain q where q: "s = q # s'" "128 \<le> ucode q" "ucode q < 192" "194 \<le> ucode p"
      using assms two
      by (auto simp: utf8_sequence_def byte_classes overlong_mask split: if_splits list.splits)
    obtain b where b: "ucode q = 128 + b" "q = char_of (128 + b)"
      using char_of_offset' q(2) by blast
    show ?thesis
      using two a b q utf8_encode_2 [of a b]
      by (intro exI [of _ "a * 64 + b"]) (simp add: small_UNICODE_VALID)
  next
    case three
    obtain a where a: "ucode p = 224 + a" "p = char_of (224 + a)"
      using char_of_offset' three(1) by blast
    with assms three utf8_sequence_3 [of a s] have "TWO_REMAINING (2 ^ 11) a s = Some s'"
      by simp
    then obtain b c where bc: "b < 64" "c < 64" "s = char_of (128 + b) # char_of (128 + c) # s'"
      "2 ^ 11 \<le> (a * 64 + b) * 64 + c" "UNICODE_VALID ((a * 64 + b) * 64 + c)"
      unfolding TWO_REMAINING_Some by blast
    have "p # s = utf8_encode ((a * 64 + b) * 64 + c) @ s'"
      using a three bc by (subst utf8_encode_3) simp_all
    with bc(5) show ?thesis by blast
  next
    case four
    obtain a where a: "ucode p = 240 + a" "p = char_of (240 + a)"
      using char_of_offset' four(1) by blast
    with assms four utf8_sequence_4 [of a s] obtain v t
      where "CONTINUATION_CHAR a s = Some (v, t)" "TWO_REMAINING (2 ^ 16) v t = Some s'"
      by (auto split: option.splits)
    then obtain b c d where bcd: "b < 64" "c < 64" "d < 64"
      "s = char_of (128 + b) # char_of (128 + c) # char_of (128 + d) # s'"
      "2 ^ 16 \<le> ((a * 64 + b) * 64 + c) * 64 + d"
      "UNICODE_VALID (((a * 64 + b) * 64 + c) * 64 + d)"
      unfolding CONTINUATION_CHAR_Some TWO_REMAINING_Some by blast
    have "p # s = utf8_encode (((a * 64 + b) * 64 + c) * 64 + d) @ s'"
      using a four bcd by (subst utf8_encode_4) simp_all
    with bcd(6) show ?thesis by blast
  qed
qed

lemma valid_append_encode:
  assumes "UNICODE_VALID c"
  shows "avahi_utf8_valid (utf8_encode c @ s) = avahi_utf8_valid s"
proof -
  have lt: "c < 0x110000" using assms by (simp add: UNICODE_VALID_def)
  define d0 d1 d2 d3 where "d0 = c mod 64" "d1 = c div 64 mod 64" "d2 = c div 64 div 64 mod 64"
    "d3 = c div 64 div 64 div 64"
  note d = d0_d1_d2_d3_def
  have sm: "d0 < 64" "d1 < 64" "d2 < 64" by (simp_all add: d)
  have c3: "((d3 * 64 + d2) * 64 + d1) * 64 + d0 = c"
    by (simp_all only: d div_mult_mod_eq)
  consider "c < 0x80" | "0x80 \<le> c" "c < 0x800" | "0x800 \<le> c" "c < 0x10000" | "0x10000 \<le> c"
    by linarith
  then show ?thesis
  proof cases
    case 1
    then show ?thesis by (simp add: utf8_encode_def)
  next
    case 2
    then have "c div 64 < 32" "2 \<le> c div 64" by linarith+
    moreover from 2 have "utf8_encode c = [char_of (192 + c div 64), char_of (128 + d0)]"
      by (simp add: utf8_encode_def d)
    ultimately show ?thesis using sm by (simp add: utf8_sequence_2)
  next
    case 3
    define e where "e = c div 64 div 64"
    from 3 have q: "e < 16" unfolding e_def by linarith
    from 3 have enc: "utf8_encode c = [char_of (224 + e), char_of (128 + d1), char_of (128 + d0)]"
      by (simp add: utf8_encode_def d e_def)
    have "(e * 64 + d1) * 64 + d0 = c"
      by (simp only: d e_def div_mult_mod_eq)
    with sm 3 assms have "TWO_REMAINING (2 ^ 11) e (char_of (128 + d1) # char_of (128 + d0) # s) = Some s"
      unfolding TWO_REMAINING_Some by (intro exI [of _ d1] exI [of _ d0] conjI) simp_all
    with q show ?thesis by (simp add: enc utf8_sequence_3)
  next
    case 4
    from lt have q: "d3 < 8" unfolding d by linarith
    from 4 have enc: "utf8_encode c = [char_of (240 + d3), char_of (128 + d2), char_of (128 + d1), char_of (128 + d0)]"
      by (simp add: utf8_encode_def d)
    have "CONTINUATION_CHAR d3 (char_of (128 + d2) # char_of (128 + d1) # char_of (128 + d0) # s)
        = Some (d3 * 64 + d2, char_of (128 + d1) # char_of (128 + d0) # s)"
      unfolding CONTINUATION_CHAR_Some using sm by blast
    moreover have "TWO_REMAINING (2 ^ 16) (d3 * 64 + d2) (char_of (128 + d1) # char_of (128 + d0) # s) = Some s"
      unfolding TWO_REMAINING_Some using sm 4 assms c3
      by (intro exI [of _ d1] exI [of _ d0] conjI) simp_all
    ultimately show ?thesis using q by (simp add: enc utf8_sequence_4)
  qed
qed

definition utf8_string :: "nat list \<Rightarrow> string" where
  "utf8_string cs = concat (map utf8_encode cs)"

lemma avahi_utf8_valid_sound:
  "avahi_utf8_valid s \<Longrightarrow> \<exists>cs. (\<forall>c \<in> set cs. UNICODE_VALID c) \<and> s = utf8_string cs"
proof (induction s rule: avahi_utf8_valid.induct)
  case 1
  then show ?case by (intro exI [of _ "[]"]) (simp add: utf8_string_def)
next
  case (2 p s)
  obtain c s' where c: "UNICODE_VALID c" "p # s = utf8_encode c @ s'" "avahi_utf8_valid s'"
    and ih: "\<exists>cs. (\<forall>c \<in> set cs. UNICODE_VALID c) \<and> s' = utf8_string cs"
  proof (cases "ucode p < 128")
    case True
    show thesis
      by (rule that [of "ucode p" s])
        (use True 2 in \<open>simp_all add: small_UNICODE_VALID utf8_encode_def\<close>)
  next
    case False
    with "2.prems" obtain s' where s': "utf8_sequence p s = Some s'" "avahi_utf8_valid s'"
      by (auto split: option.splits)
    with False utf8_sequence_sound obtain c where "UNICODE_VALID c" "p # s = utf8_encode c @ s'"
      by (metis not_less)
    with s' False "2.IH"(2) show thesis by (blast intro: that)
  qed
  then obtain cs where "\<forall>c \<in> set cs. UNICODE_VALID c" "s' = utf8_string cs" by blast
  with c show ?case by (intro exI [of _ "c # cs"]) (simp add: utf8_string_def)
qed

lemma avahi_utf8_valid_complete:
  "\<forall>c \<in> set cs. UNICODE_VALID c \<Longrightarrow> avahi_utf8_valid (utf8_string cs)"
  by (induction cs) (simp_all add: utf8_string_def valid_append_encode)

lemma avahi_utf8_valid_append:
  assumes "avahi_utf8_valid s"
  shows "avahi_utf8_valid (s @ t) = avahi_utf8_valid t"
proof -
  obtain cs where cs: "\<forall>c \<in> set cs. UNICODE_VALID c" "s = utf8_string cs"
    using avahi_utf8_valid_sound [OF assms] by blast
  from cs(1) show ?thesis unfolding cs(2)
    by (induction cs) (simp_all add: utf8_string_def valid_append_encode)
qed

section \<open>Property\<close>

text \<open>
  C35. \<open>avahi_utf8_valid\<close> accepts a string exactly when it is the concatenation of the UTF-8
  encodings of code points, each below 0x110000, no surrogate and no noncharacter: truncated,
  overlong and misplaced sequences are all rejected, and no valid sequence is.
\<close>

theorem avahi_utf8_valid_iff:
  "avahi_utf8_valid s \<longleftrightarrow>
    (\<exists>cs. s = utf8_string cs \<and>
       list_all (\<lambda>c. c < 0x110000 \<and> \<not> (0xD800 \<le> c \<and> c < 0xE000) \<and>
                     \<not> (0xFDD0 \<le> c \<and> c \<le> 0xFDEF) \<and> c mod 0x10000 < 0xFFFE) cs)"
  unfolding UNICODE_VALID_iff [symmetric] list_all_iff
  using avahi_utf8_valid_sound avahi_utf8_valid_complete by blast

end
