(* ===== verification/Domain.thy ===== *)
theory Domain
  imports Utf8
begin

text \<open>
  \<^verbatim>\<open>avahi-common/domain.c\<close> and the name functions of \<^verbatim>\<open>avahi-core/domain-util.c\<close>:
  the escaping of labels, normalization, comparison and hashing of domain names, the validity
  predicates, and joining and splitting of service names.

  A cursor \<open>const char **name\<close> that a function advances is passed and returned as the rest of
  the string. An output buffer \<open>char *ret, size_t size\<close> is the string of the bytes written,
  with the number of bytes that are left, and a flag that says whether the terminating NUL has
  been written behind them. The shortcut \<open>a == b\<close> (equal pointers) of the comparisons has no
  counterpart on values; the reflexivity lemmas show what it returns.
\<close>

section \<open>Labels\<close>

definition AVAHI_LABEL_MAX :: nat where "AVAHI_LABEL_MAX = 64"
definition AVAHI_DOMAIN_NAME_MAX :: nat where "AVAHI_DOMAIN_NAME_MAX = 1014"

text \<open>
  One iteration of the loop of \<open>avahi_unescape_label\<close> reads the end of the label (a dot or
  the NUL), a character, which may be escaped, or a malformed escape sequence (\<open>return NULL\<close>).
\<close>

datatype unescaped = Label_End string | Malformed | Label_Char char string

definition unescape_char :: "string \<Rightarrow> unescaped" where
  "unescape_char name =
     (case name of
        [] \<Rightarrow> Label_End []
      | c # rest \<Rightarrow>
          if c = c_dot then Label_End rest
          else if c = c_backslash then
            (case rest of
               [] \<Rightarrow> Malformed
             | e # rest1 \<Rightarrow>
                 if e = c_backslash \<or> e = c_dot then Label_Char e rest1
                 else if isdigit e then
                   (case rest1 of
                      e1 # e2 # rest2 \<Rightarrow>
                        if \<not> isdigit e1 \<or> \<not> isdigit e2 then Malformed
                        else
                          let n = digit_val e * 100 + digit_val e1 * 10 + digit_val e2 in
                          if n > 255 \<or> n = 0 then Malformed
                          else Label_Char (char_of n) rest2
                    | _ \<Rightarrow> Malformed)
                 else Malformed)
          else Label_Char c rest)"

lemma unescape_char_shorter [termination_simp]:
  "unescape_char name = Label_Char c rest \<Longrightarrow> length rest < length name"
  by (auto simp: unescape_char_def Let_def split: list.splits if_splits)

lemma unescape_char_end:
  "unescape_char name = Label_End rest \<Longrightarrow> name = [] \<and> rest = [] \<or> name = c_dot # rest"
  by (auto simp: unescape_char_def Let_def split: list.splits if_splits)

text \<open>
  The loop: \<open>i\<close> bytes have been written, \<open>d\<close> holds them in reverse. The result is the
  label and the advanced cursor; \<^const>\<open>None\<close> is NULL.
\<close>

function unescape_loop :: "nat \<Rightarrow> nat \<Rightarrow> string \<Rightarrow> string \<Rightarrow> (string \<times> string) option" where
  "unescape_loop sz i d name =
     (if i \<ge> sz then None
      else (case unescape_char name of
              Label_End rest \<Rightarrow> Some (rev d, rest)
            | Malformed \<Rightarrow> None
            | Label_Char c rest \<Rightarrow> unescape_loop sz (Suc i) (c # d) rest))"
  by pat_completeness auto
termination
  by (relation "measure (\<lambda>(sz, i, d, name). length name)") (auto dest: unescape_char_shorter)

declare unescape_loop.simps [simp del]

definition avahi_unescape_label :: "string \<Rightarrow> nat \<Rightarrow> (string \<times> string) option" where
  "avahi_unescape_label name sz =
     (case unescape_loop sz 0 [] name of
        None \<Rightarrow> None
      | Some (dest, rest) \<Rightarrow> if avahi_utf8_valid dest then Some (dest, rest) else None)"

definition proper_char :: "char \<Rightarrow> bool" where
  "proper_char c = (c = CHR ''_'' \<or> c = CHR ''-'' \<or> (48 \<le> ucode c \<and> ucode c \<le> 57) \<or>
     (97 \<le> ucode c \<and> ucode c \<le> 122) \<or> (65 \<le> ucode c \<and> ucode c \<le> 90))"

text \<open>
  The loop of \<open>avahi_escape_label\<close>: whether the function returns non-NULL (and so has
  written the NUL), the bytes written, and the new \<open>*ret_size\<close>.
\<close>

fun escape_loop :: "string \<Rightarrow> nat \<Rightarrow> bool \<times> string \<times> nat" where
  "escape_loop [] sz = (True, [], sz)"
| "escape_loop (c # src) sz =
     (if c = c_dot \<or> c = c_backslash then
        if sz < 3 then (False, [], sz)
        else (let (ok, out, sz') = escape_loop src (sz - 2) in (ok, c_backslash # c # out, sz'))
      else if proper_char c then
        if sz < 2 then (False, [], sz)
        else (let (ok, out, sz') = escape_loop src (sz - 1) in (ok, c # out, sz'))
      else
        if sz < 5 then (False, [], sz)
        else (let (ok, out, sz') = escape_loop src (sz - 4) in
              (ok, c_backslash # digit_char (ucode c div 100) # digit_char (ucode c div 10 mod 10)
                   # digit_char (ucode c mod 10) # out, sz')))"

text \<open>\<^const>\<open>None\<close> is the failure of \<open>assert(*ret_size > 0)\<close>.\<close>

definition avahi_escape_label :: "string \<Rightarrow> nat \<Rightarrow> (bool \<times> string \<times> nat) option" where
  "avahi_escape_label src sz = (if sz = 0 then None else Some (escape_loop src sz))"

section \<open>Facts about labels\<close>

lemma unescape_loop_full [simp]: "sz \<le> i \<Longrightarrow> unescape_loop sz i d name = None"
  by (simp add: unescape_loop.simps)

lemma unescape_loop_end [simp]:
  "i < sz \<Longrightarrow> unescape_char name = Label_End rest \<Longrightarrow>
   unescape_loop sz i d name = Some (rev d, rest)"
  by (simp add: unescape_loop.simps)

lemma unescape_loop_bad [simp]:
  "unescape_char name = Malformed \<Longrightarrow> unescape_loop sz i d name = None"
  by (simp add: unescape_loop.simps)

lemma unescape_loop_char [simp]:
  "i < sz \<Longrightarrow> unescape_char name = Label_Char c rest \<Longrightarrow>
   unescape_loop sz i d name = unescape_loop sz (Suc i) (c # d) rest"
  by (simp add: unescape_loop.simps)

lemma unescape_loop_shorter:
  "unescape_loop sz i d name = Some (l, rest) \<Longrightarrow>
   length rest \<le> length name \<and> (name \<noteq> [] \<longrightarrow> length rest < length name)"
proof (induction sz i d name arbitrary: l rest rule: unescape_loop.induct)
  case (1 sz i d name)
  then have i: "i < sz" by (cases "i < sz") auto
  show ?case
  proof (cases "unescape_char name")
    case (Label_End r)
    with 1 i show ?thesis by (auto dest!: unescape_char_end)
  next
    case Malformed
    with 1 show ?thesis by simp
  next
    case (Label_Char c r)
    with 1 i have "length rest \<le> length r" by auto
    with unescape_char_shorter [OF Label_Char] show ?thesis by auto
  qed
qed

lemma avahi_unescape_label_shorter [termination_simp]:
  "avahi_unescape_label name sz = Some (l, rest) \<Longrightarrow> name \<noteq> [] \<Longrightarrow> length rest < length name"
  by (auto simp: avahi_unescape_label_def split: option.splits if_splits dest: unescape_loop_shorter)

lemma avahi_unescape_label_Nil [simp]:
  "0 < sz \<Longrightarrow> avahi_unescape_label [] sz = Some ([], [])"
  by (simp add: avahi_unescape_label_def unescape_loop.simps [of sz 0] unescape_char_def)

text \<open>The loops that advance two cursors make progress unless both have reached the end.\<close>

lemma avahi_unescape_label_two:
  assumes "avahi_unescape_label a AVAHI_LABEL_MAX = Some (ca, a')"
    and "avahi_unescape_label b AVAHI_LABEL_MAX = Some (cb, b')"
    and "a' = [] \<longrightarrow> b' \<noteq> []"
  shows "length a' + length b' < length a + length b"
  using assms
  by (cases "a = []"; cases "b = []")
    (auto simp: AVAHI_LABEL_MAX_def dest!: avahi_unescape_label_shorter)

section \<open>Normalization\<close>

text \<open>
  The loop of \<open>avahi_normalize_name\<close>: the rest of \<open>s\<close>, the flag \<open>empty\<close>, the bytes
  written at \<open>ret_s\<close>, the space left, and whether the bytes are followed by a NUL. The outer
  \<^const>\<open>None\<close> is a failed assertion, the inner one NULL. The result of
  \<open>avahi_escape_label\<close> is not looked at, as in the code; a label that does not fit leaves no NUL
  behind it, save where nothing has been written and the initial NUL is still there.
\<close>

function normalize_loop ::
  "string \<Rightarrow> bool \<Rightarrow> string \<Rightarrow> nat \<Rightarrow> bool \<Rightarrow> (string \<times> bool) option option" where
  "normalize_loop s emp out sz terminated =
     (if s = [] then Some (Some (out, terminated))
      else (case avahi_unescape_label s AVAHI_LABEL_MAX of
          None \<Rightarrow> Some None
        | Some (label, s') \<Rightarrow>
            if label = [] then
              if s' = [] \<and> emp then Some (Some (out, terminated)) else Some None
            else if \<not> emp \<and> sz < 1 then Some None
            else
              let out1 = (if emp then out else out @ [c_dot]);
                  sz1 = (if emp then sz else sz - 1)
              in (case avahi_escape_label label sz1 of
                    None \<Rightarrow> None
                  | Some (ok, esc, sz2) \<Rightarrow> normalize_loop s' False (out1 @ esc) sz2 (ok \<or> out1 @ esc = []))))"
  by pat_completeness auto
termination
  by (relation "measure (\<lambda>(s, _). length s)") (auto dest: avahi_unescape_label_shorter)

declare normalize_loop.simps [simp del]

definition avahi_normalize_name :: "string \<Rightarrow> nat \<Rightarrow> (string \<times> bool) option option" where
  "avahi_normalize_name s sz = (if sz = 0 then None else normalize_loop s True [] sz True)"

text \<open>
  \<open>avahi_strdup\<close> of the buffer reads up to the NUL: without one it reads bytes that were
  never written.
\<close>

definition avahi_normalize_name_strdup :: "string \<Rightarrow> string option option" where
  "avahi_normalize_name_strdup s =
     (case avahi_normalize_name s AVAHI_DOMAIN_NAME_MAX of
        None \<Rightarrow> None
      | Some None \<Rightarrow> Some None
      | Some (Some (t, terminated)) \<Rightarrow> if terminated then Some (Some t) else None)"

section \<open>Comparison and hashing\<close>

text \<open>\<^const>\<open>None\<close> is the failure of \<open>assert(r)\<close> on a malformed label.\<close>

function avahi_domain_equal :: "string \<Rightarrow> string \<Rightarrow> bool option" where
  "avahi_domain_equal a b =
     (case avahi_unescape_label a AVAHI_LABEL_MAX of
        None \<Rightarrow> None
      | Some (ca, a') \<Rightarrow>
         (case avahi_unescape_label b AVAHI_LABEL_MAX of
            None \<Rightarrow> None
          | Some (cb, b') \<Rightarrow>
              if \<not> strcasecmp_eq ca cb then Some False
              else if a' = [] \<and> b' = [] then Some True
              else avahi_domain_equal a' b'))"
  by pat_completeness auto
termination
  by (relation "measure (\<lambda>(a, b). length a + length b)")
    (auto dest: avahi_unescape_label_two)

declare avahi_domain_equal.simps [simp del]

function domain_hash_loop :: "string \<Rightarrow> u32 \<Rightarrow> u32 option" where
  "domain_hash_loop s hash =
     (if s = [] then Some hash
      else (case avahi_unescape_label s AVAHI_LABEL_MAX of
              None \<Rightarrow> None
            | Some (c, s') \<Rightarrow>
                domain_hash_loop s' (fold (\<lambda>p h. 31 * h + char_promote (tolower p)) c hash)))"
  by pat_completeness auto
termination
  by (relation "measure (\<lambda>(s, _). length s)") (auto dest: avahi_unescape_label_shorter)

declare domain_hash_loop.simps [simp del]

definition avahi_domain_hash :: "string \<Rightarrow> u32 option" where
  "avahi_domain_hash s = domain_hash_loop s 0"

text \<open>\<open>avahi_binary_domain_cmp\<close> and \<open>avahi_domain_ends_with\<close> of \<^verbatim>\<open>avahi-core/domain-util.c\<close>.\<close>

function avahi_binary_domain_cmp :: "string \<Rightarrow> string \<Rightarrow> int option" where
  "avahi_binary_domain_cmp a b =
     (case avahi_unescape_label a AVAHI_LABEL_MAX of
        None \<Rightarrow> None
      | Some (ca, a') \<Rightarrow>
         (case avahi_unescape_label b AVAHI_LABEL_MAX of
            None \<Rightarrow> None
          | Some (cb, b') \<Rightarrow>
              if strcmp ca cb \<noteq> 0 then Some (strcmp ca cb)
              else if a' = [] \<and> b' = [] then Some 0
              else avahi_binary_domain_cmp a' b'))"
  by pat_completeness auto
termination
  by (relation "measure (\<lambda>(a, b). length a + length b)")
    (auto dest: avahi_unescape_label_two)

declare avahi_binary_domain_cmp.simps [simp del]

function avahi_domain_ends_with :: "string \<Rightarrow> string \<Rightarrow> bool option" where
  "avahi_domain_ends_with domain suffix =
     (if domain = [] then Some False
      else (case avahi_domain_equal domain suffix of
              None \<Rightarrow> None
            | Some True \<Rightarrow> Some True
            | Some False \<Rightarrow>
               (case avahi_unescape_label domain AVAHI_LABEL_MAX of
                  None \<Rightarrow> None
                | Some (_, domain') \<Rightarrow> avahi_domain_ends_with domain' suffix)))"
  by pat_completeness auto
termination
  by (relation "measure (\<lambda>(d, _). length d)") (auto dest: avahi_unescape_label_shorter)

declare avahi_domain_ends_with.simps [simp del]

section \<open>Validity\<close>

text \<open>The test \<open>strlen(label) <= 2 || label[0] != '_'\<close> of the service type predicates.\<close>

definition bad_type_label :: "string \<Rightarrow> bool" where
  "bad_type_label label = (length label \<le> 2 \<or> label ! 0 \<noteq> CHR ''_'')"

function service_type_generic_loop :: "string \<Rightarrow> bool" where
  "service_type_generic_loop t =
     (case avahi_unescape_label t AVAHI_LABEL_MAX of
        None \<Rightarrow> False
      | Some (label, t') \<Rightarrow>
          if bad_type_label label then False
          else if t' \<noteq> [] then service_type_generic_loop t'
          else True)"
  by pat_completeness auto
termination
proof (relation "measure length")
  fix t x label t'
  assume "avahi_unescape_label t AVAHI_LABEL_MAX = Some x" "(label, t') = x" "t' \<noteq> []"
  then show "(t', t) \<in> measure length"
    by (cases "t = []") (auto simp: AVAHI_LABEL_MAX_def dest: avahi_unescape_label_shorter)
qed simp

declare service_type_generic_loop.simps [simp del]

definition avahi_is_valid_service_type_generic :: "string \<Rightarrow> bool" where
  "avahi_is_valid_service_type_generic t =
     (if length t \<ge> AVAHI_DOMAIN_NAME_MAX \<or> t = [] then False
      else service_type_generic_loop t)"

definition avahi_is_valid_service_type_strict :: "string \<Rightarrow> bool" where
  "avahi_is_valid_service_type_strict t =
     (if length t \<ge> AVAHI_DOMAIN_NAME_MAX \<or> t = [] then False
      else (case avahi_unescape_label t AVAHI_LABEL_MAX of
          None \<Rightarrow> False
        | Some (label, t1) \<Rightarrow>
            if bad_type_label label then False
            else if t1 = [] then False
            else (case avahi_unescape_label t1 AVAHI_LABEL_MAX of
                None \<Rightarrow> False
              | Some (label, t2) \<Rightarrow>
                  if \<not> strcasecmp_eq label ''_tcp'' \<and> \<not> strcasecmp_eq label ''_udp'' then False
                  else if t2 \<noteq> [] then False
                  else True)))"

text \<open>The result is the rest of \<open>t\<close> that \<open>ret\<close> points to; \<^const>\<open>None\<close> is NULL.\<close>

definition avahi_get_type_from_subtype :: "string \<Rightarrow> string option" where
  "avahi_get_type_from_subtype t =
     (if length t \<ge> AVAHI_DOMAIN_NAME_MAX \<or> t = [] then None
      else (case avahi_unescape_label t AVAHI_LABEL_MAX of
          None \<Rightarrow> None
        | Some (label, t1) \<Rightarrow>
            if bad_type_label label then None
            else if t1 = [] then None
            else (case avahi_unescape_label t1 AVAHI_LABEL_MAX of
                None \<Rightarrow> None
              | Some (label, t2) \<Rightarrow>
                  if \<not> strcasecmp_eq label ''_sub'' then None
                  else if t2 = [] then None
                  else (case avahi_unescape_label t2 AVAHI_LABEL_MAX of
                      None \<Rightarrow> None
                    | Some (label, t3) \<Rightarrow>
                        if bad_type_label label then None
                        else if t3 = [] then None
                        else (case avahi_unescape_label t3 AVAHI_LABEL_MAX of
                            None \<Rightarrow> None
                          | Some (label, t4) \<Rightarrow>
                              if \<not> strcasecmp_eq label ''_tcp'' \<and> \<not> strcasecmp_eq label ''_udp''
                              then None
                              else if t4 \<noteq> [] then None
                              else Some t2)))))"

definition avahi_is_valid_service_subtype :: "string \<Rightarrow> bool" where
  "avahi_is_valid_service_subtype t = (avahi_get_type_from_subtype t \<noteq> None)"

function valid_domain_name_loop :: "string \<Rightarrow> bool \<Rightarrow> bool" where
  "valid_domain_name_loop t is_first =
     (case avahi_unescape_label t AVAHI_LABEL_MAX of
        None \<Rightarrow> False
      | Some (label, t') \<Rightarrow>
          if is_first \<and> label = [] \<and> t' = [] then True
          else if label = [] then False
          else if t' \<noteq> [] then valid_domain_name_loop t' False
          else True)"
  by pat_completeness auto
termination
proof (relation "measure (\<lambda>(t, _). length t)")
  fix t f x label t'
  assume "avahi_unescape_label t AVAHI_LABEL_MAX = Some x" "(label, t') = x" "t' \<noteq> []"
  then show "((t', False), (t, f)) \<in> measure (\<lambda>(t, _). length t)"
    by (cases "t = []") (auto simp: AVAHI_LABEL_MAX_def dest: avahi_unescape_label_shorter)
qed simp

declare valid_domain_name_loop.simps [simp del]

definition avahi_is_valid_domain_name :: "string \<Rightarrow> bool" where
  "avahi_is_valid_domain_name t =
     (if length t \<ge> AVAHI_DOMAIN_NAME_MAX then False else valid_domain_name_loop t True)"

definition avahi_is_valid_service_name :: "string \<Rightarrow> bool" where
  "avahi_is_valid_service_name t = (if length t \<ge> AVAHI_LABEL_MAX \<or> t = [] then False else True)"

definition avahi_is_valid_host_name :: "string \<Rightarrow> bool" where
  "avahi_is_valid_host_name t =
     (if length t \<ge> AVAHI_DOMAIN_NAME_MAX \<or> t = [] then False
      else (case avahi_unescape_label t AVAHI_LABEL_MAX of
          None \<Rightarrow> False
        | Some (label, t') \<Rightarrow>
            if length label < 1 then False
            else if t' \<noteq> [] then False
            else True))"

text \<open>
  \<open>is_address\<close> says for a string whether \<open>avahi_address_parse\<close> (which calls \<^verbatim>\<open>inet_pton\<close>) accepts it as an
  address of any protocol. The pointer \<open>k\<close> is never NULL after a successful \<open>avahi_unescape_label\<close>.
\<close>

definition avahi_is_valid_fqdn :: "(string \<Rightarrow> bool) \<Rightarrow> string \<Rightarrow> bool option" where
  "avahi_is_valid_fqdn is_address t =
     (if length t \<ge> AVAHI_DOMAIN_NAME_MAX then Some False
      else if \<not> avahi_is_valid_domain_name t then Some False
      else
        (case avahi_unescape_label t AVAHI_LABEL_MAX of
           None \<Rightarrow> Some False
         | Some (label, k) \<Rightarrow>
             if label = [] then Some False
             else
               (case avahi_unescape_label k AVAHI_LABEL_MAX of
                  None \<Rightarrow> Some False
                | Some (label, k) \<Rightarrow>
                    if label = [] then Some False
                    else
                      (case avahi_normalize_name t AVAHI_DOMAIN_NAME_MAX of
                         None \<Rightarrow> None
                       | Some None \<Rightarrow> Some False
                       | Some (Some (normalized, _)) \<Rightarrow> Some (\<not> is_address normalized)))))"

section \<open>Service names\<close>

datatype name_error =
  AVAHI_OK | AVAHI_ERR_INVALID_SERVICE_NAME | AVAHI_ERR_INVALID_SERVICE_TYPE
| AVAHI_ERR_INVALID_DOMAIN_NAME | AVAHI_ERR_NO_MEMORY | AVAHI_ERR_FAILURE

text \<open>\<open>snprintf(p, size, ...)\<close>: the string that is in \<open>p\<close> afterwards, for \<open>size > 0\<close>.\<close>

definition snprintf :: "nat \<Rightarrow> string \<Rightarrow> string" where
  "snprintf sz s = take (sz - 1) s"

text \<open>
  The outer \<^const>\<open>None\<close> is a failed assertion or a read of a buffer that has no NUL;
  \<open>Inr\<close> is \<open>AVAHI_OK\<close> with the contents of \<open>p\<close>. \<open>name\<close> may be NULL.
\<close>

definition avahi_service_name_join ::
  "nat \<Rightarrow> string option \<Rightarrow> string \<Rightarrow> string \<Rightarrow> (name_error + string) option" where
  "avahi_service_name_join sz name type domain =
     (if (case name of None \<Rightarrow> False | Some n \<Rightarrow> \<not> avahi_is_valid_service_name n)
      then Some (Inl AVAHI_ERR_INVALID_SERVICE_NAME)
      else if \<not> avahi_is_valid_service_type_generic type
      then Some (Inl AVAHI_ERR_INVALID_SERVICE_TYPE)
      else if \<not> avahi_is_valid_domain_name domain
      then Some (Inl AVAHI_ERR_INVALID_DOMAIN_NAME)
      else
        (case (case name of
                 None \<Rightarrow> Some []
               | Some n \<Rightarrow>
                   (case avahi_escape_label n (AVAHI_LABEL_MAX * 4) of
                      Some (True, e, _) \<Rightarrow> Some (e @ [c_dot])
                    | _ \<Rightarrow> None)) of
           None \<Rightarrow> None
         | Some prefix \<Rightarrow>
             (case avahi_normalize_name type AVAHI_DOMAIN_NAME_MAX of
                None \<Rightarrow> None
              | Some None \<Rightarrow> Some (Inl AVAHI_ERR_INVALID_SERVICE_TYPE)
              | Some (Some (normalized_type, term_t)) \<Rightarrow>
                  (case avahi_normalize_name domain AVAHI_DOMAIN_NAME_MAX of
                     None \<Rightarrow> None
                   | Some None \<Rightarrow> Some (Inl AVAHI_ERR_INVALID_DOMAIN_NAME)
                   | Some (Some (normalized_domain, term_d)) \<Rightarrow>
                       if term_t \<and> term_d then
                         Some (Inr (snprintf sz (prefix @ normalized_type @ [c_dot] @ normalized_domain)))
                       else None))))"

text \<open>\<open>strlcpy(dest, src, n)\<close>: the contents of \<open>dest\<close>.\<close>

definition strlcpy :: "string \<Rightarrow> nat \<Rightarrow> string" where
  "strlcpy src n = take (n - 1) src"

text \<open>The states \<open>NAME\<close>, \<open>TYPE\<close> and \<open>DOMAIN\<close> of the function's local enum.\<close>

datatype split_state = In_Name | In_Type | In_Domain

text \<open>Appending a label to one of the outputs \<open>type\<close> and \<open>domain\<close>: a dot unless it is the
  first label, then the escaped label. \<open>Inl\<close> is \<open>return AVAHI_ERR_NO_MEMORY\<close>.\<close>

definition split_append ::
  "string \<Rightarrow> string \<Rightarrow> nat \<Rightarrow> bool \<Rightarrow> (name_error + (string \<times> nat)) option" where
  "split_append buf out sz is_empty =
     (if \<not> is_empty \<and> sz = 0 then Some (Inl AVAHI_ERR_NO_MEMORY)
      else
        let out1 = (if is_empty then out else out @ [c_dot]);
            sz1 = (if is_empty then sz else sz - 1)
        in (case avahi_escape_label buf sz1 of
              None \<Rightarrow> None
            | Some (ok, esc, sz2) \<Rightarrow>
                if \<not> ok then Some (Inl AVAHI_ERR_NO_MEMORY)
                else Some (Inr (out1 @ esc, sz2))))"

record split_out =
  so_name :: string
  so_type :: string
  so_type_size :: nat
  so_type_empty :: bool
  so_domain :: string
  so_domain_size :: nat
  so_domain_empty :: bool

function split_loop ::
  "string \<Rightarrow> nat \<Rightarrow> split_state \<Rightarrow> split_out \<Rightarrow> (name_error + split_out) option" where
  "split_loop p name_size state o1 =
     (if p = [] then Some (Inr o1)
      else (case avahi_unescape_label p 64 of
          None \<Rightarrow> Some (Inl AVAHI_ERR_FAILURE)
        | Some (buf, p') \<Rightarrow>
           if state = In_Name then
             split_loop p' name_size In_Type (o1\<lparr>so_name := strlcpy buf name_size\<rparr>)
           else if state = In_Type \<and> buf \<noteq> [] \<and> buf ! 0 = CHR ''_'' then
             (case split_append buf (so_type o1) (so_type_size o1) (so_type_empty o1) of
                None \<Rightarrow> None
              | Some (Inl e) \<Rightarrow> Some (Inl e)
              | Some (Inr (out, sz)) \<Rightarrow>
                  split_loop p' name_size In_Type
                    (o1\<lparr>so_type := out, so_type_size := sz, so_type_empty := False\<rparr>))
           else
             (case split_append buf (so_domain o1) (so_domain_size o1) (so_domain_empty o1) of
                None \<Rightarrow> None
              | Some (Inl e) \<Rightarrow> Some (Inl e)
              | Some (Inr (out, sz)) \<Rightarrow>
                  split_loop p' name_size In_Domain
                    (o1\<lparr>so_domain := out, so_domain_size := sz, so_domain_empty := False\<rparr>))))"
  by pat_completeness auto
termination
  by (relation "measure (\<lambda>(p, _). length p)") (auto dest: avahi_unescape_label_shorter)

declare split_loop.simps [simp del]

text \<open>
  \<open>avahi_service_name_split\<close>: \<open>name_size\<close> is \<^const>\<open>None\<close> when \<open>name\<close> is NULL. The
  outputs are name, type and domain; \<open>Inl AVAHI_ERR_FAILURE\<close> is \<open>return -1\<close>.
\<close>

definition avahi_service_name_split ::
  "string \<Rightarrow> nat option \<Rightarrow> nat \<Rightarrow> nat \<Rightarrow> (name_error + (string \<times> string \<times> string)) option" where
  "avahi_service_name_split p name_size type_size domain_size =
     (if type_size = 0 \<or> domain_size = 0 \<or> name_size = Some 0 then None
      else
        (case split_loop p (case name_size of None \<Rightarrow> 0 | Some n \<Rightarrow> n)
                (if name_size = None then In_Type else In_Name)
                \<lparr>so_name = [], so_type = [], so_type_size = type_size, so_type_empty = True,
                 so_domain = [], so_domain_size = domain_size, so_domain_empty = True\<rparr> of
           None \<Rightarrow> None
         | Some (Inl e) \<Rightarrow> Some (Inl e)
         | Some (Inr o1) \<Rightarrow> Some (Inr (so_name o1, so_type o1, so_domain o1))))"

end
