(* ===== verification/Domain_Labels.thy ===== *)
theory Domain_Labels
  imports Domain
begin

text \<open>
  The meaning of the functions of \<^verbatim>\<open>avahi-common/domain.c\<close> on the list of labels of a name:
  escaping and unescaping are inverse, normalization writes the escaped labels, and
  comparison and hashing depend on the labels up to the case of their letters only.
\<close>

section \<open>Escaping\<close>

definition esc_char :: "char \<Rightarrow> string" where
  "esc_char c =
     (if c = c_dot \<or> c = c_backslash then [c_backslash, c]
      else if proper_char c then [c]
      else [c_backslash, digit_char (ucode c div 100), digit_char (ucode c div 10 mod 10),
            digit_char (ucode c mod 10)])"

definition escape_str :: "string \<Rightarrow> string" where
  "escape_str s = concat (map esc_char s)"

lemma escape_str_simps [simp]:
  "escape_str [] = []" "escape_str (c # s) = esc_char c @ escape_str s"
  by (simp_all add: escape_str_def)

lemma esc_char_length: "1 \<le> length (esc_char c)" "length (esc_char c) \<le> 4"
  by (auto simp: esc_char_def)

lemma escape_str_length: "length s \<le> length (escape_str s) \<and> length (escape_str s) \<le> 4 * length s"
proof (induction s)
  case (Cons c s)
  with esc_char_length [of c] show ?case by simp
qed simp

lemma escape_str_Nil_iff [simp]: "escape_str s = [] \<longleftrightarrow> s = []"
  by (cases s) (auto simp: esc_char_def)

text \<open>The output never exceeds the space, and it is complete exactly when it and the NUL fit.\<close>

lemma escape_loop_Cons:
  "escape_loop (c # src) sz =
     (if sz \<le> length (esc_char c) then (False, [], sz)
      else let (ok, out, sz') = escape_loop src (sz - length (esc_char c))
           in (ok, esc_char c @ out, sz'))"
proof -
  have n: "length [c_backslash, c] = 2" "length [c] = 1"
    "length [c_backslash, digit_char (ucode c div 100), digit_char (ucode c div 10 mod 10),
       digit_char (ucode c mod 10)] = 4"
    by simp_all
  consider "c = c_dot \<or> c = c_backslash" | "\<not> (c = c_dot \<or> c = c_backslash)" "proper_char c"
    | "\<not> (c = c_dot \<or> c = c_backslash)" "\<not> proper_char c" by blast
  then show ?thesis
    by cases (simp_all only: esc_char_def escape_loop.simps n if_True if_False append_Cons append_Nil,
        auto split: prod.splits)
qed

lemma escape_loop_space:
  "escape_loop s sz = (ok, out, sz') \<Longrightarrow> 0 < sz \<Longrightarrow>
     sz' + length out = sz \<and> 0 < sz' \<and> (ok \<longleftrightarrow> length (escape_str s) < sz) \<and>
     (ok \<longrightarrow> out = escape_str s)"
proof (induction s arbitrary: sz ok out sz')
  case (Cons c src)
  show ?case
  proof (cases "sz \<le> length (esc_char c)")
    case True
    with Cons.prems show ?thesis by (auto simp: escape_loop_Cons simp del: escape_loop.simps)
  next
    case False
    with Cons.prems obtain out1 where
      "escape_loop src (sz - length (esc_char c)) = (ok, out1, sz')" "out = esc_char c @ out1"
      by (auto simp: escape_loop_Cons simp del: escape_loop.simps split: prod.splits)
    with Cons.IH [of "sz - length (esc_char c)" ok out1 sz'] False show ?thesis by auto
  qed
qed simp

lemma escape_loop_fits:
  "length (escape_str s) < sz \<Longrightarrow>
   escape_loop s sz = (True, escape_str s, sz - length (escape_str s))"
  using escape_loop_space [of s sz] by (cases "escape_loop s sz") fastforce

lemma avahi_escape_label_fits:
  "length (escape_str s) < sz \<Longrightarrow>
   avahi_escape_label s sz = Some (True, escape_str s, sz - length (escape_str s))"
  by (simp add: avahi_escape_label_def escape_loop_fits)

section \<open>Unescaping\<close>

lemma proper_char_plain: "proper_char c \<Longrightarrow> c \<noteq> c_dot \<and> c \<noteq> c_backslash"
  by (auto simp: proper_char_def c_dot_def c_backslash_def)

lemma three_digits: "n div 100 * 100 + n div 10 mod 10 * 10 + n mod 10 = (n :: nat)"
proof -
  have "n div 100 = n div 10 div 10" by (simp flip: div_mult2_eq)
  with div_mult_mod_eq [of "n div 10" 10] div_mult_mod_eq [of n 10] show ?thesis by linarith
qed

lemma of_char_lt: "\<not> 255 < ucode c"
  using nat_of_char_less_256 [of c] by linarith

lemma unescape_char_esc_char [simp]:
  assumes "c \<noteq> CHR 0x00"
  shows "unescape_char (esc_char c @ rest) = Label_Char c rest"
proof (cases "c = c_dot \<or> c = c_backslash \<or> proper_char c")
  case True
  then show ?thesis
    by (auto simp: unescape_char_def esc_char_def dest: proper_char_plain)
next
  case False
  have "ucode c \<noteq> ucode (CHR 0x00)" using assms ucode_inject by blast
  then have "0 < ucode c" by simp
  moreover have "ucode c div 100 < 10" using nat_of_char_less_256 [of c] by linarith
  ultimately show ?thesis
    using False of_char_lt [of c]
    by (simp add: unescape_char_def esc_char_def three_digits Let_def)
qed

lemma unescape_loop_escape_str:
  "CHR 0x00 \<notin> set s \<Longrightarrow> i + length s < sz \<Longrightarrow>
   unescape_loop sz i d (escape_str s @ rest) = unescape_loop sz (i + length s) (rev s @ d) rest"
proof (induction s arbitrary: i d)
  case (Cons c s)
  then have "unescape_char (esc_char c @ escape_str s @ rest) = Label_Char c (escape_str s @ rest)"
    by (intro unescape_char_esc_char) auto
  with Cons show ?case by simp
qed simp

definition label_ok :: "string \<Rightarrow> bool" where
  "label_ok l = (l \<noteq> [] \<and> length l < AVAHI_LABEL_MAX \<and> avahi_utf8_valid l \<and> CHR 0x00 \<notin> set l)"

text \<open>The end of a label: the end of the name, or a dot with what follows it.\<close>

lemma unescape_char_ends [simp]:
  "unescape_char [] = Label_End []" "unescape_char (c_dot # rest) = Label_End rest"
  by (simp_all add: unescape_char_def)

lemma avahi_unescape_label_escape_str:
  assumes "CHR 0x00 \<notin> set l" "length l < sz" "avahi_utf8_valid l"
    and "unescape_char rest = Label_End rest'"
  shows "avahi_unescape_label (escape_str l @ rest) sz = Some (l, rest')"
proof -
  have "unescape_loop sz 0 [] (escape_str l @ rest) = Some (l, rest')"
    using assms by (subst unescape_loop_escape_str) simp_all
  with assms(3) show ?thesis by (simp add: avahi_unescape_label_def)
qed

text \<open>What a successful \<open>avahi_unescape_label\<close> guarantees of the label.\<close>

lemma unescape_char_nonzero:
  "unescape_char name = Label_Char c rest \<Longrightarrow> CHR 0x00 \<notin> set name \<Longrightarrow>
   c \<noteq> CHR 0x00 \<and> CHR 0x00 \<notin> set rest"
proof -
  have "char_of n \<noteq> CHR 0x00" if "0 < n" "n < 256" for n :: nat
  proof
    assume "char_of n = CHR 0x00"
    then have "ucode (char_of n) = 0" by simp
    with that show False by simp
  qed
  then show "unescape_char name = Label_Char c rest \<Longrightarrow> CHR 0x00 \<notin> set name \<Longrightarrow>
      c \<noteq> CHR 0x00 \<and> CHR 0x00 \<notin> set rest"
    by (fastforce simp: unescape_char_def Let_def split: list.splits if_splits)
qed

lemma unescape_loop_label:
  "unescape_loop sz i d name = Some (l, rest) \<Longrightarrow> i = length d \<Longrightarrow> CHR 0x00 \<notin> set d \<Longrightarrow>
   CHR 0x00 \<notin> set name \<Longrightarrow> length l < sz \<and> CHR 0x00 \<notin> set l \<and> CHR 0x00 \<notin> set rest"
proof (induction sz i d name arbitrary: l rest rule: unescape_loop.induct)
  case (1 sz i d name)
  then have i: "i < sz" by (cases "i < sz") auto
  show ?case
  proof (cases "unescape_char name")
    case (Label_End r)
    with 1 i show ?thesis by (auto dest!: unescape_char_end)
  next
    case Malformed
    with 1 show ?thesis by simp
  next
    case (Label_Char c r)
    with unescape_char_nonzero "1.prems"(4) have "c \<noteq> CHR 0x00 \<and> CHR 0x00 \<notin> set r" by blast
    with 1 i Label_Char show ?thesis by auto
  qed
qed

lemma avahi_unescape_label_label:
  assumes "avahi_unescape_label name sz = Some (l, rest)" "CHR 0x00 \<notin> set name"
  shows "length l < sz \<and> avahi_utf8_valid l \<and> CHR 0x00 \<notin> set l \<and> CHR 0x00 \<notin> set rest"
  using assms
  by (auto simp: avahi_unescape_label_def split: option.splits if_splits dest: unescape_loop_label)

section \<open>The labels of a name\<close>

text \<open>The labels that the loops over a name see; \<^const>\<open>None\<close> for a name with a malformed label.\<close>

function name_labels :: "string \<Rightarrow> string list option" where
  "name_labels s =
     (if s = [] then Some []
      else (case avahi_unescape_label s AVAHI_LABEL_MAX of
              None \<Rightarrow> None
            | Some (l, s') \<Rightarrow> map_option ((#) l) (name_labels s')))"
  by pat_completeness auto
termination
  by (relation "measure length") (auto dest: avahi_unescape_label_shorter)

declare name_labels.simps [simp del]

lemma name_labels_Nil [simp]: "name_labels [] = Some []"
  by (simp add: name_labels.simps)

lemma name_labels_step:
  assumes "s \<noteq> []" "name_labels s = Some ls"
  obtains l s' ls' where "avahi_unescape_label s AVAHI_LABEL_MAX = Some (l, s')" "ls = l # ls'"
    "name_labels s' = Some ls'"
  using assms by (auto simp: name_labels.simps [of s] split: option.splits)

lemma name_labels_Some_Nil [simp]: "name_labels s = Some [] \<longleftrightarrow> s = []"
  by (auto simp: name_labels.simps [of s] split: option.splits)

lemma name_labels_ok:
  "name_labels s = Some ls \<Longrightarrow> CHR 0x00 \<notin> set s \<Longrightarrow>
   \<forall>l \<in> set ls. l \<noteq> [] \<longrightarrow> label_ok l"
proof (induction s arbitrary: ls rule: name_labels.induct)
  case (1 s)
  show ?case
  proof (cases "s = []")
    case False
    then obtain l s' ls' where u: "avahi_unescape_label s AVAHI_LABEL_MAX = Some (l, s')"
      "ls = l # ls'" "name_labels s' = Some ls'"
      using "1.prems"(1) by (rule name_labels_step)
    with avahi_unescape_label_label "1.prems"(2)
    have l: "length l < AVAHI_LABEL_MAX \<and> avahi_utf8_valid l \<and> CHR 0x00 \<notin> set l \<and> CHR 0x00 \<notin> set s'"
      by blast
    with "1.IH" False u have "\<forall>l \<in> set ls'. l \<noteq> [] \<longrightarrow> label_ok l" by blast
    with u l show ?thesis by (auto simp: label_ok_def)
  qed (use 1 in simp)
qed

text \<open>The escaped form of a list of labels.\<close>

fun join_labels :: "string list \<Rightarrow> string" where
  "join_labels [] = []"
| "join_labels [l] = escape_str l"
| "join_labels (l # ls) = escape_str l @ c_dot # join_labels ls"

lemma join_labels_Cons: "ls \<noteq> [] \<Longrightarrow> join_labels (l # ls) = escape_str l @ c_dot # join_labels ls"
  by (cases ls) auto

lemma join_labels_tail:
  "join_labels (l # ls) = escape_str l @ concat (map (\<lambda>l. c_dot # escape_str l) ls)"
  by (induction ls arbitrary: l) auto

lemma join_labels_Nil_iff: "\<forall>l \<in> set ls. label_ok l \<Longrightarrow> join_labels ls = [] \<longleftrightarrow> ls = []"
  by (cases ls rule: join_labels.cases) (auto simp: label_ok_def)

lemma avahi_unescape_label_join:
  assumes "label_ok l" "\<forall>l \<in> set ls. label_ok l"
  shows "avahi_unescape_label (join_labels (l # ls)) AVAHI_LABEL_MAX = Some (l, join_labels ls)"
proof -
  note ok = assms(1) [unfolded label_ok_def]
  show ?thesis
  proof (cases ls)
    case Nil
    from ok avahi_unescape_label_escape_str [of l AVAHI_LABEL_MAX "[]" "[]"] show ?thesis
      by (simp add: Nil)
  next
    case (Cons l' ls')
    from ok avahi_unescape_label_escape_str [of l AVAHI_LABEL_MAX "c_dot # join_labels ls"]
    show ?thesis by (simp add: Cons)
  qed
qed

lemma name_labels_join: "\<forall>l \<in> set ls. label_ok l \<Longrightarrow> name_labels (join_labels ls) = Some ls"
proof (induction ls)
  case (Cons l ls)
  then have "join_labels (l # ls) \<noteq> []" using join_labels_Nil_iff [of "l # ls"] by simp
  with Cons show ?case
    by (subst name_labels.simps) (simp add: avahi_unescape_label_join)
qed simp

section \<open>Normalization writes the escaped labels\<close>

lemma normalize_loop_labels:
  assumes "name_labels s = Some ls" "[] \<notin> set ls"
    and "length (concat (map (\<lambda>l. c_dot # escape_str l) ls)) < sz"
  shows "normalize_loop s False out sz True =
     Some (Some (out @ concat (map (\<lambda>l. c_dot # escape_str l) ls), True))"
  using assms
proof (induction ls arbitrary: s out sz)
  case Nil
  then show ?case by (simp add: normalize_loop.simps)
next
  case (Cons l ls)
  then have "s \<noteq> []" by auto
  then obtain s' where u: "avahi_unescape_label s AVAHI_LABEL_MAX = Some (l, s')"
    "name_labels s' = Some ls"
    using Cons.prems(1) by (auto elim: name_labels_step)
  have "avahi_escape_label l (sz - 1) =
      Some (True, escape_str l, sz - 1 - length (escape_str l))"
    using Cons.prems(3) by (intro avahi_escape_label_fits) simp
  with u \<open>s \<noteq> []\<close> Cons.prems Cons.IH [OF u(2), of "sz - 1 - length (escape_str l)"] show ?case
    by (subst normalize_loop.simps) auto
qed

text \<open>A valid domain name is the root, written as the empty string or a dot, or it has no empty
  label.\<close>

lemma valid_domain_name_loop_labels:
  "valid_domain_name_loop t first \<longleftrightarrow>
     (\<exists>ls. name_labels t = Some ls \<and>
        (if t = [] then first else (first \<and> ls = [[]]) \<or> [] \<notin> set ls))"
proof (induction t first rule: valid_domain_name_loop.induct)
  case (1 t first)
  show ?case
  proof (cases "avahi_unescape_label t AVAHI_LABEL_MAX")
    case None
    then have "t \<noteq> []" by (auto simp: AVAHI_LABEL_MAX_def)
    with None show ?thesis
      by (simp add: valid_domain_name_loop.simps [of t] name_labels.simps [of t])
  next
    case (Some x)
    obtain l t' where x: "x = (l, t')" by (cases x)
    show ?thesis
    proof (cases "t = []")
      case True
      with Some x show ?thesis
        by (simp add: valid_domain_name_loop.simps [of "[]"] AVAHI_LABEL_MAX_def)
    next
      case False
      with Some x "1.IH" [OF Some x [symmetric]] show ?thesis
        by (auto simp: valid_domain_name_loop.simps [of t] name_labels.simps [of t])
    qed
  qed
qed

lemma avahi_is_valid_domain_name_labels:
  "avahi_is_valid_domain_name t \<longleftrightarrow>
     length t < AVAHI_DOMAIN_NAME_MAX \<and>
     (\<exists>ls. name_labels t = Some ls \<and> (ls = [[]] \<or> [] \<notin> set ls))"
  unfolding avahi_is_valid_domain_name_def valid_domain_name_loop_labels
  by (cases "t = []") auto

lemma avahi_normalize_name_labels:
  assumes "name_labels s = Some ls" "[] \<notin> set ls" "length (join_labels ls) < sz"
  shows "avahi_normalize_name s sz = Some (Some (join_labels ls, True))"
proof (cases ls)
  case Nil
  with assms show ?thesis by (simp add: avahi_normalize_name_def normalize_loop.simps)
next
  case (Cons l ls')
  with assms(1) have "s \<noteq> []" by auto
  then obtain s' where u: "avahi_unescape_label s AVAHI_LABEL_MAX = Some (l, s')"
    "name_labels s' = Some ls'"
    using assms(1) Cons by (auto elim: name_labels_step)
  have e: "avahi_escape_label l sz = Some (True, escape_str l, sz - length (escape_str l))"
    using assms(3) Cons by (intro avahi_escape_label_fits) (simp add: join_labels_tail)
  have "normalize_loop s' False (escape_str l) (sz - length (escape_str l)) True =
      Some (Some (escape_str l @ concat (map (\<lambda>l. c_dot # escape_str l) ls'), True))"
    using assms Cons u by (intro normalize_loop_labels) (auto simp: join_labels_tail)
  with assms Cons u e \<open>s \<noteq> []\<close> show ?thesis
    by (auto simp: avahi_normalize_name_def normalize_loop.simps [of s] join_labels_tail)
qed

lemma avahi_normalize_name_root:
  "0 < sz \<Longrightarrow> name_labels s = Some [[]] \<Longrightarrow> avahi_normalize_name s sz = Some (Some ([], True))"
  by (cases "s = []")
    (auto simp: avahi_normalize_name_def normalize_loop.simps [of s] elim: name_labels_step)

end
