(* ===== verification/Domain_Compare.thy ===== *)
theory Domain_Compare
  imports Domain_Labels
begin

text \<open>
  Comparison, hashing and suffix test of domain names, in terms of the canonical form of a name:
  its labels in lower case, without empty labels at the end (so that \<open>a\<close> and \<open>a.\<close> agree).
\<close>

fun strip_root :: "string list \<Rightarrow> string list" where
  "strip_root [] = []"
| "strip_root (l # ls) = (if l = [] \<and> strip_root ls = [] then [] else l # strip_root ls)"

definition lower_labels :: "string list \<Rightarrow> string list" where
  "lower_labels ls = map (map tolower) ls"

definition canon_labels :: "string list \<Rightarrow> string list" where
  "canon_labels ls = strip_root (lower_labels ls)"

definition canon_name :: "string \<Rightarrow> string list option" where
  "canon_name s = map_option canon_labels (name_labels s)"

lemma canon_labels_simps [simp]:
  "canon_labels [] = []"
  "canon_labels (l # ls) =
     (if l = [] \<and> canon_labels ls = [] then [] else map tolower l # canon_labels ls)"
  by (simp_all add: canon_labels_def lower_labels_def)

lemma canon_labels_strip: "strip_root a = strip_root b \<Longrightarrow> canon_labels a = canon_labels b"
proof -
  have "canon_labels l = canon_labels (strip_root l)" for l by (induction l) auto
  then show "strip_root a = strip_root b \<Longrightarrow> canon_labels a = canon_labels b" by metis
qed

lemma canon_labels_eq_Cons:
  "canon_labels (a # as) = canon_labels (b # bs) \<longleftrightarrow>
     strcasecmp_eq a b \<and> canon_labels as = canon_labels bs"
  by (auto simp: strcasecmp_eq_def)

text \<open>A name at its end behaves as an endless sequence of empty labels.\<close>

definition next_label :: "string \<Rightarrow> string" where
  "next_label s = (case avahi_unescape_label s AVAHI_LABEL_MAX of Some (l, _) \<Rightarrow> l | None \<Rightarrow> [])"

lemma name_labels_next:
  assumes "name_labels s = Some ls"
  obtains s' ls' where "avahi_unescape_label s AVAHI_LABEL_MAX = Some (next_label s, s')"
    "name_labels s' = Some ls'" "ls = next_label s # ls' \<or> ls = [] \<and> ls' = [] \<and> next_label s = []"
    "ls' = [] \<longleftrightarrow> s' = []"
proof (cases "s = []")
  case True
  then have "avahi_unescape_label s AVAHI_LABEL_MAX = Some ([], [])"
    by (simp add: AVAHI_LABEL_MAX_def)
  with True assms that [of "[]" "[]"] show ?thesis by (simp add: next_label_def)
next
  case False
  then obtain l s' ls' where u: "avahi_unescape_label s AVAHI_LABEL_MAX = Some (l, s')"
    "ls = l # ls'" "name_labels s' = Some ls'"
    using assms by (rule name_labels_step)
  moreover from u(3) have "ls' = [] \<longleftrightarrow> s' = []" by auto
  ultimately show ?thesis using that [of s' ls'] by (simp add: next_label_def)
qed

lemma canon_labels_pad:
  "ls = l # ls' \<or> ls = [] \<and> ls' = [] \<and> l = [] \<Longrightarrow> canon_labels ls = canon_labels (l # ls')"
  by auto

lemma avahi_domain_equal_labels:
  "name_labels a = Some la \<Longrightarrow> name_labels b = Some lb \<Longrightarrow>
   avahi_domain_equal a b = Some (canon_labels la = canon_labels lb)"
proof (induction a b arbitrary: la lb rule: avahi_domain_equal.induct)
  case (1 a b)
  obtain a' la' where a: "avahi_unescape_label a AVAHI_LABEL_MAX = Some (next_label a, a')"
    "name_labels a' = Some la'"
    "la = next_label a # la' \<or> la = [] \<and> la' = [] \<and> next_label a = []" "la' = [] \<longleftrightarrow> a' = []"
    using "1.prems"(1) by (blast elim: name_labels_next)
  obtain b' lb' where b: "avahi_unescape_label b AVAHI_LABEL_MAX = Some (next_label b, b')"
    "name_labels b' = Some lb'"
    "lb = next_label b # lb' \<or> lb = [] \<and> lb' = [] \<and> next_label b = []" "lb' = [] \<longleftrightarrow> b' = []"
    using "1.prems"(2) by (blast elim: name_labels_next)
  have eq: "canon_labels la = canon_labels lb \<longleftrightarrow>
      strcasecmp_eq (next_label a) (next_label b) \<and> canon_labels la' = canon_labels lb'"
    unfolding canon_labels_pad [OF a(3)] canon_labels_pad [OF b(3)] by (rule canon_labels_eq_Cons)
  show ?case
  proof (cases "\<not> strcasecmp_eq (next_label a) (next_label b) \<or> a' = [] \<and> b' = []")
    case True
    with a(1,4) b(1,4) eq show ?thesis by (auto simp: avahi_domain_equal.simps [of a b])
  next
    case False
    then have "avahi_domain_equal a' b' = Some (canon_labels la' = canon_labels lb')"
      using "1.IH" [OF a(1) refl b(1) refl] a(2) b(2) by blast
    with a(1) b(1) eq False show ?thesis by (auto simp: avahi_domain_equal.simps [of a b])
  qed
qed

lemma avahi_domain_equal_canon:
  "canon_name a = Some ca \<Longrightarrow> canon_name b = Some cb \<Longrightarrow>
   avahi_domain_equal a b = Some (ca = cb)"
  by (auto simp: canon_name_def avahi_domain_equal_labels)

text \<open>What the shortcut for equal pointers returns.\<close>

lemma avahi_domain_equal_refl:
  "name_labels a = Some la \<Longrightarrow> avahi_domain_equal a a = Some True"
  by (simp add: avahi_domain_equal_labels)

section \<open>Hashing\<close>

definition hash_step :: "char \<Rightarrow> u32 \<Rightarrow> u32" where
  "hash_step p h = 31 * h + char_promote (tolower p)"

lemma fold_hash_lower: "fold hash_step (map tolower l) h = fold hash_step l h"
  by (induction l arbitrary: h) (simp_all add: hash_step_def)

lemma fold_hash_lower_labels:
  "fold hash_step (concat (lower_labels ls)) h = fold hash_step (concat ls) h"
  by (induction ls arbitrary: h) (simp_all add: lower_labels_def fold_hash_lower)

lemma concat_strip_root: "concat (strip_root ls) = concat ls"
  by (induction ls) auto

lemma domain_hash_loop_labels:
  "name_labels s = Some ls \<Longrightarrow> domain_hash_loop s h = Some (fold hash_step (concat ls) h)"
proof (induction s h arbitrary: ls rule: domain_hash_loop.induct)
  case (1 s h)
  have step: "(\<lambda>p h. 31 * h + char_promote (tolower p)) = hash_step"
    by (simp add: fun_eq_iff hash_step_def)
  show ?case
  proof (cases "s = []")
    case True
    with 1 show ?thesis by (simp add: domain_hash_loop.simps)
  next
    case False
    then obtain l s' ls' where u: "avahi_unescape_label s AVAHI_LABEL_MAX = Some (l, s')"
      "ls = l # ls'" "name_labels s' = Some ls'"
      using "1.prems" by (rule name_labels_step)
    with False "1.IH" show ?thesis by (simp add: domain_hash_loop.simps [of s] step)
  qed
qed

lemma avahi_domain_hash_canon:
  assumes "canon_name s = Some c"
  shows "avahi_domain_hash s = Some (fold hash_step (concat c) 0)"
proof -
  obtain ls where "name_labels s = Some ls" "c = canon_labels ls"
    using assms by (auto simp: canon_name_def)
  then show ?thesis
    by (simp add: avahi_domain_hash_def domain_hash_loop_labels canon_labels_def concat_strip_root
        fold_hash_lower_labels)
qed

section \<open>The binary comparison\<close>

lemma strip_root_eq_Cons:
  "strip_root (a # as) = strip_root (b # bs) \<longleftrightarrow> a = b \<and> strip_root as = strip_root bs"
  by auto

text \<open>The lexicographic comparison of label sequences, padded with empty labels.\<close>

fun labels_cmp :: "string list \<Rightarrow> string list \<Rightarrow> int" where
  "labels_cmp [] [] = 0"
| "labels_cmp [] (b # bs) = (if b = [] then labels_cmp [] bs else -1)"
| "labels_cmp (a # as) [] = (if a = [] then labels_cmp as [] else 1)"
| "labels_cmp (a # as) (b # bs) = (if a = b then labels_cmp as bs else strcmp a b)"

lemma labels_cmp_antisym: "labels_cmp b a = - labels_cmp a b"
proof (induction a b rule: labels_cmp.induct)
  case (4 a as b bs)
  then show ?case using strcmp_antisym [of a b] by auto
qed auto

lemma labels_cmp_0: "labels_cmp a b = 0 \<longleftrightarrow> strip_root a = strip_root b"
  by (induction a b rule: labels_cmp.induct) auto

lemma labels_cmp_pad:
  assumes "la = na # la' \<or> la = [] \<and> la' = [] \<and> na = []"
    and "lb = nb # lb' \<or> lb = [] \<and> lb' = [] \<and> nb = []"
  shows "labels_cmp la lb = (if na = nb then labels_cmp la' lb' else strcmp na nb)"
proof -
  have n: "strcmp [] x = -1" "strcmp x [] = 1" if "x \<noteq> []" for x
    using that by (cases x; simp)+
  from assms show ?thesis by (auto simp: n)
qed

lemma avahi_binary_domain_cmp_labels:
  "name_labels a = Some la \<Longrightarrow> name_labels b = Some lb \<Longrightarrow>
   avahi_binary_domain_cmp a b = Some (labels_cmp la lb)"
proof (induction a b arbitrary: la lb rule: avahi_binary_domain_cmp.induct)
  case (1 a b)
  obtain a' la' where a: "avahi_unescape_label a AVAHI_LABEL_MAX = Some (next_label a, a')"
    "name_labels a' = Some la'"
    "la = next_label a # la' \<or> la = [] \<and> la' = [] \<and> next_label a = []" "la' = [] \<longleftrightarrow> a' = []"
    using "1.prems"(1) by (blast elim: name_labels_next)
  obtain b' lb' where b: "avahi_unescape_label b AVAHI_LABEL_MAX = Some (next_label b, b')"
    "name_labels b' = Some lb'"
    "lb = next_label b # lb' \<or> lb = [] \<and> lb' = [] \<and> next_label b = []" "lb' = [] \<longleftrightarrow> b' = []"
    using "1.prems"(2) by (blast elim: name_labels_next)
  note eq = labels_cmp_pad [OF a(3) b(3)]
  show ?case
  proof (cases "next_label a \<noteq> next_label b \<or> a' = [] \<and> b' = []")
    case True
    with a(1,2,4) b(1,2,4) eq show ?thesis by (auto simp: avahi_binary_domain_cmp.simps [of a b])
  next
    case False
    then have "avahi_binary_domain_cmp a' b' = Some (labels_cmp la' lb')"
      using "1.IH" [OF a(1) refl b(1) refl] a(2) b(2) by simp
    with a(1,2,4) b(1,2,4) eq False show ?thesis
      by (auto simp: avahi_binary_domain_cmp.simps [of a b])
  qed
qed

section \<open>The suffix test\<close>

lemma avahi_domain_ends_with_labels:
  "name_labels d = Some ld \<Longrightarrow> name_labels suffix = Some lsuf \<Longrightarrow>
   avahi_domain_ends_with d suffix =
     Some (\<exists>k < length ld. canon_labels (drop k ld) = canon_labels lsuf)"
proof (induction ld arbitrary: d)
  case Nil
  then show ?case by (simp add: avahi_domain_ends_with.simps)
next
  case (Cons l ld)
  then have "d \<noteq> []" by auto
  then obtain d' where u: "avahi_unescape_label d AVAHI_LABEL_MAX = Some (l, d')"
    "name_labels d' = Some ld"
    using Cons.prems(1) by (auto elim: name_labels_step)
  have ex: "(\<exists>k < Suc (length ld). canon_labels (drop k (l # ld)) = c) \<longleftrightarrow>
      canon_labels (l # ld) = c \<or> (\<exists>k < length ld. canon_labels (drop k ld) = c)" for c
    by (simp add: Ex_less_Suc2 del: canon_labels_simps)
  show ?case
    using \<open>d \<noteq> []\<close> u Cons.IH [OF u(2) Cons.prems(2)]
      avahi_domain_equal_labels [OF Cons.prems]
    by (simp add: avahi_domain_ends_with.simps [of d] ex del: canon_labels_simps
        split: bool.splits)
qed

end
