(* ===== verification/Service_Names.thy ===== *)
theory Service_Names
  imports Domain_Compare
begin

text \<open>
  Joining a service name, type and domain into one name and splitting it again
  (\<open>avahi_service_name_join\<close> and \<open>avahi_service_name_split\<close> of \<^verbatim>\<open>avahi-common/domain.c\<close>),
  and the properties of the domain name functions.
\<close>

section \<open>Splitting a name label by label\<close>

definition dotted :: "string list \<Rightarrow> string" where
  "dotted ls = concat (map (\<lambda>l. c_dot # escape_str l) ls)"

lemma dotted_simps [simp]:
  "dotted [] = []" "dotted (l # ls) = c_dot # escape_str l @ dotted ls"
  by (simp_all add: dotted_def)

lemma join_labels_dotted: "join_labels (l # ls) = escape_str l @ dotted ls"
  by (simp add: join_labels_tail dotted_def)

definition type_label :: "string \<Rightarrow> bool" where
  "type_label l = (l \<noteq> [] \<and> l ! 0 = CHR ''_'')"

lemma split_append_fits:
  "length (escape_str l) + (if emp then 0 else 1) < sz \<Longrightarrow>
   split_append l out sz emp =
     Some (Inr (out @ (if emp then [] else [c_dot]) @ escape_str l,
                sz - (length (escape_str l) + (if emp then 0 else 1))))"
  by (cases emp) (simp_all add: split_append_def avahi_escape_label_fits)

lemma name_labels_ConsD:
  assumes "name_labels p = Some (l # ls)"
  obtains p' where "p \<noteq> []" "avahi_unescape_label p 64 = Some (l, p')" "name_labels p' = Some ls"
proof -
  from assms have "p \<noteq> []" by auto
  then show ?thesis
    using assms that by (auto simp: AVAHI_LABEL_MAX_def elim: name_labels_step)
qed

lemma split_loop_domain:
  "name_labels p = Some ls \<Longrightarrow> length (dotted ls) < so_domain_size o1 \<Longrightarrow>
   \<not> so_domain_empty o1 \<Longrightarrow>
   \<exists>o2. split_loop p n In_Domain o1 = Some (Inr o2) \<and> so_name o2 = so_name o1 \<and>
        so_type o2 = so_type o1 \<and> so_domain o2 = so_domain o1 @ dotted ls"
proof (induction ls arbitrary: p o1)
  case Nil
  then show ?case by (simp add: split_loop.simps)
next
  case (Cons l ls)
  obtain p' where p': "p \<noteq> []" "avahi_unescape_label p 64 = Some (l, p')" "name_labels p' = Some ls"
    using Cons.prems(1) by (rule name_labels_ConsD)
  let ?o = "o1\<lparr>so_domain := so_domain o1 @ c_dot # escape_str l,
               so_domain_size := so_domain_size o1 - Suc (length (escape_str l)),
               so_domain_empty := False\<rparr>"
  have "split_loop p n In_Domain o1 = split_loop p' n In_Domain ?o"
    using p' Cons.prems by (simp add: split_loop.simps [of p] split_append_fits)
  with Cons.IH [OF p'(3), of ?o] Cons.prems show ?case by auto
qed

lemma split_loop_type:
  "name_labels p = Some (lt @ ld) \<Longrightarrow> \<forall>l \<in> set lt. type_label l \<Longrightarrow>
   length (dotted lt) < so_type_size o1 \<Longrightarrow> \<not> so_type_empty o1 \<Longrightarrow>
   \<exists>p' sz. name_labels p' = Some ld \<and>
      split_loop p n In_Type o1 =
      split_loop p' n In_Type (o1\<lparr>so_type := so_type o1 @ dotted lt, so_type_size := sz\<rparr>)"
proof (induction lt arbitrary: p o1)
  case Nil
  then show ?case
    by (intro exI [of _ p] exI [of _ "so_type_size o1"]) simp
next
  case (Cons l lt)
  obtain p' where p': "p \<noteq> []" "avahi_unescape_label p 64 = Some (l, p')"
    "name_labels p' = Some (lt @ ld)"
    using Cons.prems(1) by (auto elim: name_labels_ConsD)
  let ?o = "o1\<lparr>so_type := so_type o1 @ c_dot # escape_str l,
               so_type_size := so_type_size o1 - Suc (length (escape_str l)),
               so_type_empty := False\<rparr>"
  have "split_loop p n In_Type o1 = split_loop p' n In_Type ?o"
    using p' Cons.prems by (simp add: split_loop.simps [of p] split_append_fits type_label_def)
  moreover have "length (dotted lt) < so_type_size ?o" using Cons.prems by simp
  then obtain q sz where "name_labels q = Some ld"
    "split_loop p' n In_Type ?o =
     split_loop q n In_Type (?o\<lparr>so_type := so_type ?o @ dotted lt, so_type_size := sz\<rparr>)"
    using Cons.IH [OF p'(3), of ?o] Cons.prems(2) by fastforce
  moreover have "?o\<lparr>so_type := so_type ?o @ dotted lt, so_type_size := sz\<rparr> =
      o1\<lparr>so_type := so_type o1 @ dotted (l # lt), so_type_size := sz\<rparr>"
    using Cons.prems by simp
  ultimately show ?case by (metis (no_types, lifting))
qed

text \<open>A name whose labels are a service name, type labels and domain labels.\<close>

lemma avahi_service_name_split_labels:
  assumes labels: "name_labels p = Some (n # (l # lt) @ ld)"
    and type: "type_label l" "\<forall>l \<in> set lt. type_label l"
    and domain: "ld = [] \<or> \<not> type_label (hd ld)"
    and sizes: "length n < nsz" "length (join_labels (l # lt)) < tsz"
      "length (join_labels ld) < dsz"
  shows "avahi_service_name_split p (Some nsz) tsz dsz =
    Some (Inr (n, join_labels (l # lt), join_labels ld))"
proof -
  let ?o = "\<lparr>so_name = n, so_type = escape_str l, so_type_size = tsz - length (escape_str l),
     so_type_empty = False, so_domain = [], so_domain_size = dsz, so_domain_empty = True\<rparr>"
  obtain p1 where p1: "p \<noteq> []" "avahi_unescape_label p 64 = Some (n, p1)"
    "name_labels p1 = Some (l # lt @ ld)"
    using labels by (auto elim: name_labels_ConsD)
  obtain p2 where p2: "p1 \<noteq> []" "avahi_unescape_label p1 64 = Some (l, p2)"
    "name_labels p2 = Some (lt @ ld)"
    using p1(3) by (rule name_labels_ConsD)
  have "strlcpy n nsz = n" using sizes by (simp add: strlcpy_def)
  then have start: "split_loop p nsz In_Name
      \<lparr>so_name = [], so_type = [], so_type_size = tsz, so_type_empty = True,
       so_domain = [], so_domain_size = dsz, so_domain_empty = True\<rparr> = split_loop p2 nsz In_Type ?o"
    using p1 p2 type sizes
    by (simp add: split_loop.simps [of p] split_loop.simps [of p1] split_append_fits
        type_label_def join_labels_dotted)
  have "length (dotted lt) < so_type_size ?o" using sizes by (simp add: join_labels_dotted)
  then obtain q sz where q: "name_labels q = Some ld"
    "split_loop p2 nsz In_Type ?o =
     split_loop q nsz In_Type (?o\<lparr>so_type := escape_str l @ dotted lt, so_type_size := sz\<rparr>)"
    using split_loop_type [OF p2(3) type(2), of ?o nsz] by auto
  have "\<exists>o2. split_loop q nsz In_Type (?o\<lparr>so_type := escape_str l @ dotted lt, so_type_size := sz\<rparr>)
      = Some (Inr o2) \<and> so_name o2 = n \<and> so_type o2 = escape_str l @ dotted lt \<and>
      so_domain o2 = join_labels ld"
  proof (cases ld)
    case Nil
    with q(1) show ?thesis by (simp add: split_loop.simps)
  next
    case (Cons d ds)
    then obtain q1 where q1: "q \<noteq> []" "avahi_unescape_label q 64 = Some (d, q1)"
      "name_labels q1 = Some ds"
      using q(1) by (auto elim: name_labels_ConsD)
    let ?o1 = "?o\<lparr>so_type := escape_str l @ dotted lt, so_type_size := sz,
        so_domain := escape_str d, so_domain_size := dsz - length (escape_str d),
        so_domain_empty := False\<rparr>"
    have "split_loop q nsz In_Type (?o\<lparr>so_type := escape_str l @ dotted lt, so_type_size := sz\<rparr>)
        = split_loop q1 nsz In_Domain ?o1"
      using q1 domain sizes Cons
      by (auto simp: split_loop.simps [of q] split_append_fits type_label_def join_labels_dotted)
    with split_loop_domain [OF q1(3), of ?o1 nsz] sizes Cons show ?thesis
      by (auto simp: join_labels_dotted)
  qed
  with start q(2) sizes show ?thesis
    by (auto simp: avahi_service_name_split_def join_labels_dotted)
qed

section \<open>Joining\<close>

lemma service_type_generic_loop_labels:
  "service_type_generic_loop t \<longleftrightarrow>
     (\<exists>ls. name_labels t = Some ls \<and> ls \<noteq> [] \<and> (\<forall>l \<in> set ls. \<not> bad_type_label l))"
proof (induction t rule: service_type_generic_loop.induct)
  case (1 t)
  show ?case
  proof (cases "t = []")
    case True
    then show ?thesis
      by (simp add: service_type_generic_loop.simps [of "[]"] AVAHI_LABEL_MAX_def bad_type_label_def)
  next
    case False
    show ?thesis
    proof (cases "avahi_unescape_label t AVAHI_LABEL_MAX")
      case None
      with False show ?thesis
        by (simp add: service_type_generic_loop.simps [of t] name_labels.simps [of t])
    next
      case (Some x)
      obtain l t' where x: "x = (l, t')" by (cases x)
      with Some False "1.IH" [OF Some x [symmetric]] show ?thesis
        by (auto simp: service_type_generic_loop.simps [of t] name_labels.simps [of t])
    qed
  qed
qed

lemma good_type_label: "\<not> bad_type_label l \<Longrightarrow> type_label l"
  by (auto simp: bad_type_label_def type_label_def)

lemma name_labels_join_append:
  "\<forall>l \<in> set ls. label_ok l \<Longrightarrow> ls \<noteq> [] \<Longrightarrow>
   name_labels (join_labels ls @ c_dot # q) = map_option ((@) ls) (name_labels q)"
proof (induction ls)
  case (Cons l ls)
  have "avahi_unescape_label (join_labels (l # ls) @ c_dot # q) AVAHI_LABEL_MAX =
      Some (l, if ls = [] then q else join_labels ls @ c_dot # q)"
  proof (cases "ls = []")
    case True
    with Cons.prems avahi_unescape_label_escape_str [of l AVAHI_LABEL_MAX "c_dot # q" q]
    show ?thesis by (simp add: label_ok_def)
  next
    case False
    with Cons.prems avahi_unescape_label_escape_str
      [of l AVAHI_LABEL_MAX "c_dot # join_labels ls @ c_dot # q" "join_labels ls @ c_dot # q"]
    show ?thesis by (simp add: label_ok_def join_labels_Cons)
  qed
  with Cons show ?case
    by (subst name_labels.simps) (cases "name_labels q"; auto)
qed simp

lemma avahi_normalize_name_valid:
  assumes "avahi_is_valid_domain_name d" "name_labels d = Some ld" "length (join_labels ld) < sz"
  shows "avahi_normalize_name d sz = Some (Some (join_labels ld, True))"
proof (cases "ld = [[]]")
  case True
  with assms avahi_normalize_name_root [of sz d] show ?thesis by simp
next
  case False
  with assms avahi_normalize_name_labels [of d ld sz] show ?thesis
    by (auto simp: avahi_is_valid_domain_name_labels)
qed

lemma avahi_service_name_join_labels:
  assumes name: "avahi_is_valid_service_name n"
    and type: "avahi_is_valid_service_type_generic t" "name_labels t = Some lt"
      "length (join_labels lt) < AVAHI_DOMAIN_NAME_MAX"
    and domain: "avahi_is_valid_domain_name d" "name_labels d = Some ld"
      "length (join_labels ld) < AVAHI_DOMAIN_NAME_MAX"
    and sz: "length (escape_str n @ c_dot # join_labels lt @ c_dot # join_labels ld) < sz"
  shows "avahi_service_name_join sz (Some n) t d =
    Some (Inr (escape_str n @ c_dot # join_labels lt @ c_dot # join_labels ld))"
proof -
  have "length n < 64" using name
    by (simp add: avahi_is_valid_service_name_def AVAHI_LABEL_MAX_def split: if_splits)
  then have "avahi_escape_label n (AVAHI_LABEL_MAX * 4) =
      Some (True, escape_str n, 256 - length (escape_str n))"
    using escape_str_length [of n] by (subst avahi_escape_label_fits) (auto simp: AVAHI_LABEL_MAX_def)
  moreover have "[] \<notin> set lt"
    using type by (auto simp: avahi_is_valid_service_type_generic_def
        service_type_generic_loop_labels bad_type_label_def split: if_splits)
  moreover have "avahi_normalize_name d AVAHI_DOMAIN_NAME_MAX = Some (Some (join_labels ld, True))"
    using domain by (rule avahi_normalize_name_valid)
  ultimately show ?thesis
    using name type sz domain(1)
    by (simp add: avahi_service_name_join_def avahi_normalize_name_labels snprintf_def)
qed

lemma name_labels_label_ok:
  "name_labels s = Some ls \<Longrightarrow> CHR 0x00 \<notin> set s \<Longrightarrow> [] \<notin> set ls \<Longrightarrow> \<forall>l \<in> set ls. label_ok l"
  using name_labels_ok by fastforce

lemma escape_str_join: "escape_str n = join_labels [n]"
  by simp

lemma service_name_labels:
  assumes "label_ok n" "\<forall>l \<in> set lt. label_ok l" "lt \<noteq> []" "\<forall>l \<in> set ld. label_ok l"
  shows "name_labels (escape_str n @ c_dot # join_labels lt @ c_dot # join_labels ld) =
    Some (n # lt @ ld)"
  using assms name_labels_join_append [of "[n]" "join_labels lt @ c_dot # join_labels ld"]
    name_labels_join_append [of lt "join_labels ld"] name_labels_join [of ld]
  by simp

section \<open>Properties\<close>

text \<open>
  C23. Escaping and unescaping a label are inverse: a label that the code can hold (not empty,
  under 64 bytes, valid UTF-8) is escaped in full by \<open>avahi_escape_label\<close> into a buffer of
  four times its length and the NUL, and \<open>avahi_unescape_label\<close> reads exactly this label back,
  whether the name ends there or goes on behind a dot.
\<close>

theorem unescape_escape_label:
  assumes "label_ok l" "4 * length l < sz"
  shows "\<exists>e sz'. avahi_escape_label l sz = Some (True, e, sz') \<and> length e < sz \<and>
     avahi_unescape_label e AVAHI_LABEL_MAX = Some (l, []) \<and>
     avahi_unescape_label (e @ c_dot # rest) AVAHI_LABEL_MAX = Some (l, rest)"
proof -
  have "length (escape_str l) < sz" using assms(2) escape_str_length [of l] by simp
  then have "avahi_escape_label l sz = Some (True, escape_str l, sz - length (escape_str l))"
    by (rule avahi_escape_label_fits)
  moreover have "avahi_unescape_label (escape_str l @ []) AVAHI_LABEL_MAX = Some (l, [])"
    using assms(1) unfolding label_ok_def by (intro avahi_unescape_label_escape_str) auto
  moreover have "avahi_unescape_label (escape_str l @ c_dot # rest) AVAHI_LABEL_MAX = Some (l, rest)"
    using assms(1) unfolding label_ok_def by (intro avahi_unescape_label_escape_str) auto
  ultimately show ?thesis using \<open>length (escape_str l) < sz\<close> by auto
qed

theorem unescape_escape_label_witness:
  "\<exists>e sz'. avahi_escape_label ''My. box'' 100 = Some (True, e, sz') \<and> length e < 100 \<and>
     avahi_unescape_label e AVAHI_LABEL_MAX = Some (''My. box'', []) \<and>
     avahi_unescape_label (e @ c_dot # ''local'') AVAHI_LABEL_MAX = Some (''My. box'', ''local'')"
  by (rule unescape_escape_label) (simp_all add: label_ok_def AVAHI_LABEL_MAX_def)

text \<open>
  C34. Bounds of \<open>avahi_escape_label\<close>: with space for at least the NUL, the bytes it writes and
  the NUL stay within the buffer on success and on failure, the remaining size is the size
  minus the bytes written and never zero, and it fails only when the escaped label with its NUL
  does not fit.
\<close>

theorem avahi_escape_label_bounds:
  assumes "avahi_escape_label src sz = Some (ok, out, sz')"
  shows "length out < sz \<and> sz' = sz - length out \<and> 0 < sz' \<and>
    (ok \<longleftrightarrow> length (escape_str src) < sz) \<and> (4 * length src < sz \<longrightarrow> ok)"
proof -
  have "0 < sz" "escape_loop src sz = (ok, out, sz')"
    using assms by (auto simp: avahi_escape_label_def split: if_splits)
  with escape_loop_space [of src sz ok out sz'] escape_str_length [of src] show ?thesis by auto
qed

theorem avahi_escape_label_bounds_witness:
  "avahi_escape_label ''a.'' 3 = Some (False, ''a'', 2) \<and> length ''a'' < 3 \<and>
   (2 :: nat) = 3 - length ''a'' \<and> \<not> length (escape_str ''a.'') < 3"
proof -
  have "avahi_escape_label ''a.'' 3 = Some (False, ''a'', 2)"
    by (simp add: avahi_escape_label_def c_dot_def c_backslash_def proper_char_def)
  with avahi_escape_label_bounds [OF this] show ?thesis by simp
qed

lemma label_ok_length: "label_ok l \<Longrightarrow> length l < 64"
  by (simp add: label_ok_def AVAHI_LABEL_MAX_def)

lemma join_labels_length:
  "\<forall>l \<in> set ls. label_ok l \<Longrightarrow> ls \<noteq> [] \<Longrightarrow>
    length (join_labels ls) < 4 * sum_list (map length ls) + length ls"
proof (induction ls rule: join_labels.induct)
  case (2 l)
  show ?case using escape_str_length [of l] by simp
next
  case (3 l m ls)
  then show ?case using escape_str_length [of l] by simp
qed simp

lemma labels_sum_length:
  "\<forall>l \<in> set ls. label_ok l \<Longrightarrow> sum_list (map length ls) \<le> 63 * length ls"
  by (induction ls) (auto dest!: label_ok_length)

text \<open>The buffer of \<open>avahi_normalize_name_strdup\<close> holds every name of at most 255 octets in DNS.\<close>

lemma dns_name_fits:
  assumes "\<forall>l \<in> set ls. label_ok l" "sum_list (map (\<lambda>l. 1 + length l) ls) < 255"
  shows "length (join_labels ls) < AVAHI_DOMAIN_NAME_MAX"
proof (cases "ls = []")
  case True
  then show ?thesis by (simp add: AVAHI_DOMAIN_NAME_MAX_def)
next
  case False
  have "sum_list (map (\<lambda>l. 1 + length l) ls) = length ls + sum_list (map length ls)"
    by (induction ls) auto
  with assms join_labels_length [OF assms(1) False] labels_sum_length [OF assms(1)]
  show ?thesis by (simp add: AVAHI_DOMAIN_NAME_MAX_def)
qed

text \<open>
  C31. Normalization of a valid domain name that has at most 255 octets in DNS (the length bytes
  and the root included), or, if it is longer, whose escaped form fits the buffer of
  \<open>AVAHI_DOMAIN_NAME_MAX\<close> bytes, yields a valid name, which is a fixed point of normalization and
  equal to the given name under \<open>avahi_domain_equal\<close>. A longer name loses bytes, because the
  result of \<open>avahi_escape_label\<close> is not looked at (\<open>avahi_normalize_name_short_buffer\<close>).
\<close>

theorem avahi_normalize_name_strdup_correct:
  assumes "avahi_is_valid_domain_name s" "CHR 0x00 \<notin> set s" "name_labels s = Some ls"
    and "sum_list (map (\<lambda>l. 1 + length l) ls) < 255 \<or> length (join_labels ls) < AVAHI_DOMAIN_NAME_MAX"
  shows "\<exists>t. avahi_normalize_name_strdup s = Some (Some t) \<and> avahi_is_valid_domain_name t \<and>
    avahi_normalize_name_strdup t = Some (Some t) \<and> avahi_domain_equal s t = Some True"
proof -
  have max: "0 < AVAHI_DOMAIN_NAME_MAX" by (simp add: AVAHI_DOMAIN_NAME_MAX_def)
  consider (root) "ls = [[]]" | (labels) "[] \<notin> set ls"
    using assms(1,3) by (auto simp: avahi_is_valid_domain_name_labels)
  then show ?thesis
  proof cases
    case root
    have "avahi_normalize_name [] AVAHI_DOMAIN_NAME_MAX = Some (Some ([], True))"
      using max by (simp add: avahi_normalize_name_def normalize_loop.simps)
    with root assms(3) max avahi_normalize_name_root [OF max] show ?thesis
      by (intro exI [of _ "[]"])
        (simp add: avahi_normalize_name_strdup_def avahi_is_valid_domain_name_labels
          avahi_domain_equal_labels)
  next
    case labels
    then have ok: "\<forall>l \<in> set ls. label_ok l" using name_labels_label_ok assms by blast
    note nl = name_labels_join [OF ok]
    have "length (join_labels ls) < AVAHI_DOMAIN_NAME_MAX" using assms(4) dns_name_fits [OF ok] by blast
    with assms(1-3) labels nl show ?thesis
      by (intro exI [of _ "join_labels ls"])
        (auto simp: avahi_normalize_name_strdup_def avahi_normalize_name_labels
          avahi_is_valid_domain_name_labels avahi_domain_equal_labels)
  qed
qed

lemma name_labels_printer: "name_labels ''Printer.local.'' = Some [''Printer'', ''local'']"
  by (simp add: name_labels.simps AVAHI_LABEL_MAX_def avahi_unescape_label_def unescape_loop.simps
      unescape_char_def c_dot_def c_backslash_def)

theorem avahi_normalize_name_strdup_correct_witness:
  "\<exists>t. avahi_normalize_name_strdup ''Printer.local.'' = Some (Some t) \<and> avahi_is_valid_domain_name t \<and>
    avahi_normalize_name_strdup t = Some (Some t) \<and> avahi_domain_equal ''Printer.local.'' t = Some True"
  by (rule avahi_normalize_name_strdup_correct [OF _ _ name_labels_printer])
    (simp_all add: avahi_is_valid_domain_name_labels name_labels_printer AVAHI_DOMAIN_NAME_MAX_def
      esc_char_def proper_char_def c_dot_def c_backslash_def)

text \<open>
  C32. On valid domain names \<open>avahi_domain_equal\<close> never aborts and is an equivalence relation,
  and equal names have equal hashes: the contract of the hash tables keyed by names.
\<close>

theorem avahi_domain_equal_equiv_hash:
  assumes "avahi_is_valid_domain_name a" "avahi_is_valid_domain_name b" "avahi_is_valid_domain_name c"
  shows "(\<exists>r. avahi_domain_equal a b = Some r) \<and>
    avahi_domain_equal a a = Some True \<and>
    avahi_domain_equal a b = avahi_domain_equal b a \<and>
    (avahi_domain_equal a b = Some True \<and> avahi_domain_equal b c = Some True \<longrightarrow>
       avahi_domain_equal a c = Some True) \<and>
    (avahi_domain_equal a b = Some True \<longrightarrow>
       avahi_domain_hash a = avahi_domain_hash b \<and> avahi_domain_hash a \<noteq> None)"
proof -
  obtain ca cb cc where c: "canon_name a = Some ca" "canon_name b = Some cb" "canon_name c = Some cc"
    using assms by (auto simp: avahi_is_valid_domain_name_labels canon_name_def)
  with c [THEN avahi_domain_hash_canon] show ?thesis
    using avahi_domain_equal_canon by auto
qed

lemma avahi_is_valid_domain_name_examples:
  "avahi_is_valid_domain_name ''a.b''" "avahi_is_valid_domain_name ''A.b.''"
  "avahi_is_valid_domain_name ''c''"
  by (simp_all add: avahi_is_valid_domain_name_def AVAHI_DOMAIN_NAME_MAX_def
      valid_domain_name_loop.simps AVAHI_LABEL_MAX_def avahi_unescape_label_def
      unescape_loop.simps unescape_char_def c_dot_def c_backslash_def)

theorem avahi_domain_equal_equiv_hash_witness:
  "avahi_domain_equal ''A.b.'' ''A.b.'' = Some True \<and>
   avahi_domain_equal ''a.b'' ''A.b.'' = Some True \<and>
   avahi_domain_hash ''a.b'' = avahi_domain_hash ''A.b.''"
proof -
  have "avahi_domain_equal ''a.b'' ''A.b.'' = Some True"
    by code_simp
  with avahi_domain_equal_equiv_hash [OF avahi_is_valid_domain_name_examples]
    avahi_domain_equal_equiv_hash [OF avahi_is_valid_domain_name_examples(2,1,3)]
  show ?thesis by auto
qed

text \<open>
  C33. Splitting undoes joining up to normalization: for a valid service name in UTF-8, a valid
  (generic) service type and a valid domain, the root included, that does not begin with a label
  with a leading underscore (it would be read as a part of the type), all without NUL bytes, type
  and domain of at most 255 octets in DNS or at least fitting the buffers of
  \<open>AVAHI_DOMAIN_NAME_MAX\<close> bytes when escaped, \<open>avahi_service_name_join\<close> succeeds when its
  buffer is large enough, and \<open>avahi_service_name_split\<close> of the joined name returns exactly the
  service name, and the type and the domain as \<open>avahi_normalize_name\<close> writes them, which are equal
  to the given ones under \<open>avahi_domain_equal\<close>.
\<close>

theorem service_name_split_join:
  assumes name: "avahi_is_valid_service_name n" "avahi_utf8_valid n" "CHR 0x00 \<notin> set n"
    and type: "avahi_is_valid_service_type_generic t" "CHR 0x00 \<notin> set t" "name_labels t = Some lt"
      "sum_list (map (\<lambda>l. 1 + length l) lt) < 255 \<or> length (join_labels lt) < AVAHI_DOMAIN_NAME_MAX"
    and domain: "avahi_is_valid_domain_name d" "CHR 0x00 \<notin> set d" "name_labels d = Some ld"
      "sum_list (map (\<lambda>l. 1 + length l) ld) < 255 \<or> length (join_labels ld) < AVAHI_DOMAIN_NAME_MAX"
      "ld = [] \<or> \<not> type_label (hd ld)"
    and sz: "4 * length n + length (join_labels lt) + length (join_labels ld) + 2 < sz"
  shows "\<exists>p nt nd. avahi_service_name_join sz (Some n) t d = Some (Inr p) \<and>
    avahi_normalize_name_strdup t = Some (Some nt) \<and> avahi_domain_equal t nt = Some True \<and>
    avahi_normalize_name_strdup d = Some (Some nd) \<and> avahi_domain_equal d nd = Some True \<and>
    avahi_service_name_split p (Some AVAHI_LABEL_MAX) AVAHI_DOMAIN_NAME_MAX AVAHI_DOMAIN_NAME_MAX =
      Some (Inr (n, nt, nd))"
proof -
  have lt: "lt \<noteq> []" "\<forall>l \<in> set lt. \<not> bad_type_label l"
    using type(1,3) by (auto simp: avahi_is_valid_service_type_generic_def
        service_type_generic_loop_labels split: if_splits)
  then have lt': "[] \<notin> set lt" "\<forall>l \<in> set lt. type_label l"
    by (auto simp: bad_type_label_def good_type_label)
  have n: "label_ok n" "length n < AVAHI_LABEL_MAX"
    using name by (auto simp: label_ok_def avahi_is_valid_service_name_def split: if_splits)
  note ok_t = name_labels_label_ok [OF type(3,2) lt'(1)]
  let ?ld = "if ld = [[]] then [] else ld"
  have ld: "join_labels ?ld = join_labels ld" "[] \<notin> set ?ld" "?ld = [] \<or> \<not> type_label (hd ?ld)"
    using domain(1,3,5) by (auto simp: avahi_is_valid_domain_name_labels)
  then have ok_d: "\<forall>l \<in> set ?ld. label_ok l"
    using name_labels_label_ok [OF domain(3,2)] by auto
  have fits: "length (join_labels lt) < AVAHI_DOMAIN_NAME_MAX" "length (join_labels ld) < AVAHI_DOMAIN_NAME_MAX"
    using type(4) domain(4) dns_name_fits [OF ok_t] dns_name_fits [OF ok_d] ld(1)
    by (auto split: if_splits simp: AVAHI_DOMAIN_NAME_MAX_def)
  let ?p = "escape_str n @ c_dot # join_labels lt @ c_dot # join_labels ld"
  have "name_labels ?p = Some (n # lt @ ?ld)"
    using service_name_labels [OF n(1) ok_t lt(1) ok_d] unfolding ld(1) .
  moreover obtain l ls where ls: "lt = l # ls" using lt(1) by (cases lt) auto
  ultimately have split: "avahi_service_name_split ?p (Some AVAHI_LABEL_MAX) AVAHI_DOMAIN_NAME_MAX
      AVAHI_DOMAIN_NAME_MAX = Some (Inr (n, join_labels lt, join_labels ?ld))"
    using lt' n fits ld unfolding ls by (intro avahi_service_name_split_labels) auto
  have "length ?p < sz" using sz escape_str_length [of n] by simp
  then have "avahi_service_name_join sz (Some n) t d = Some (Inr ?p)"
    using name type domain fits by (intro avahi_service_name_join_labels) auto
  moreover have "avahi_domain_equal t (join_labels lt) = Some True"
    using type(3) name_labels_join [OF ok_t] by (simp add: avahi_domain_equal_labels)
  moreover have "avahi_domain_equal d (join_labels ld) = Some True"
    using domain(3) name_labels_join [OF ok_d] ld(1) by (auto simp: avahi_domain_equal_labels split: if_splits)
  ultimately show ?thesis
    using split ld(1) fits avahi_normalize_name_labels [OF type(3) lt'(1) fits(1)]
      avahi_normalize_name_valid [OF domain(1,3) fits(2)]
    by (simp add: avahi_normalize_name_strdup_def)
qed

lemmas name_eval =
  name_labels.simps AVAHI_LABEL_MAX_def AVAHI_DOMAIN_NAME_MAX_def avahi_unescape_label_def
  unescape_loop.simps unescape_char_def c_dot_def c_backslash_def esc_char_def proper_char_def

theorem service_name_split_join_witness:
  "\<exists>p nt nd. avahi_service_name_join 200 (Some ''My box'') ''_ipp._tcp'' ''local'' = Some (Inr p) \<and>
    avahi_normalize_name_strdup ''_ipp._tcp'' = Some (Some nt) \<and>
    avahi_domain_equal ''_ipp._tcp'' nt = Some True \<and>
    avahi_normalize_name_strdup ''local'' = Some (Some nd) \<and>
    avahi_domain_equal ''local'' nd = Some True \<and>
    avahi_service_name_split p (Some AVAHI_LABEL_MAX) AVAHI_DOMAIN_NAME_MAX AVAHI_DOMAIN_NAME_MAX =
      Some (Inr (''My box'', nt, nd))"
proof -
  have t: "name_labels ''_ipp._tcp'' = Some [''_ipp'', ''_tcp'']"
    and d: "name_labels ''local'' = Some [''local'']"
    by (simp_all add: name_eval)
  show ?thesis
    by (rule service_name_split_join [OF _ _ _ _ _ t _ _ _ d])
      (simp_all add: avahi_is_valid_domain_name_labels avahi_is_valid_service_name_def
        avahi_is_valid_service_type_generic_def service_type_generic_loop_labels t d
        bad_type_label_def type_label_def name_eval)
qed

text \<open>
  \<open>avahi_binary_domain_cmp\<close> on names without malformed labels never aborts, is antisymmetric,
  and is zero exactly when the names have the same labels (empty labels at the end aside).
\<close>

theorem avahi_binary_domain_cmp_correct:
  assumes "name_labels a = Some la" "name_labels b = Some lb"
  shows "\<exists>r. avahi_binary_domain_cmp a b = Some r \<and> avahi_binary_domain_cmp b a = Some (- r) \<and>
    (r = 0 \<longleftrightarrow> strip_root la = strip_root lb)"
  using assms labels_cmp_antisym [of la lb] labels_cmp_0 [of la lb]
  by (simp add: avahi_binary_domain_cmp_labels)

theorem avahi_binary_domain_cmp_correct_witness:
  "\<exists>r. avahi_binary_domain_cmp ''b.a'' ''b.c'' = Some r \<and> avahi_binary_domain_cmp ''b.c'' ''b.a'' = Some (- r) \<and>
    (r = 0 \<longleftrightarrow> strip_root [''b'', ''a''] = strip_root [''b'', ''c''])"
  by (rule avahi_binary_domain_cmp_correct) (simp_all add: name_eval)

text \<open>
  \<open>avahi_domain_ends_with\<close> holds exactly when the labels of the suffix, up to case, are the
  labels from some position on of the domain, a position before the domain's end.
\<close>

theorem avahi_domain_ends_with_correct:
  assumes "name_labels d = Some ld" "name_labels suffix = Some lsuf"
  shows "avahi_domain_ends_with d suffix =
    Some (\<exists>k < length ld. canon_labels (drop k ld) = canon_labels lsuf)"
  using assms by (rule avahi_domain_ends_with_labels)

theorem avahi_domain_ends_with_correct_witness:
  "avahi_domain_ends_with ''box.Local'' ''local.'' =
    Some (\<exists>k < length [''box'', ''Local'']. canon_labels (drop k [''box'', ''Local'']) = canon_labels [''local''])"
  by (rule avahi_domain_ends_with_correct) (simp_all add: name_eval)

text \<open>
  \<open>avahi_normalize_name\<close> does not look at the result of \<open>avahi_escape_label\<close>: when a label
  does not fit, the next label is written behind the fragment. There are a valid domain name and
  a buffer for which it reports success with a NUL-terminated name that is a different domain,
  and a buffer for which an assertion fails instead of NULL being returned.
\<close>

theorem avahi_normalize_name_short_buffer:
  "\<exists>s sz t. avahi_is_valid_domain_name s \<and> avahi_normalize_name s sz = Some (Some (t, True)) \<and>
     avahi_domain_equal s t = Some False \<and>
     (\<exists>sz' > 0. avahi_normalize_name s sz' = None)"
proof -
  let ?s = "''a b.c''"
  have "avahi_is_valid_domain_name ?s"
    by (simp add: avahi_is_valid_domain_name_labels name_eval)
  moreover have "avahi_normalize_name ?s 5 = Some (Some (''a.c'', True))"
    by (simp add: avahi_normalize_name_def normalize_loop.simps avahi_escape_label_def name_eval)
  moreover have "avahi_domain_equal ?s ''a.c'' = Some False"
    by (simp add: avahi_domain_equal.simps name_eval strcasecmp_eq_def tolower_def)
  moreover have "avahi_normalize_name ?s 1 = None"
    by (simp add: avahi_normalize_name_def normalize_loop.simps avahi_escape_label_def name_eval)
  ultimately show ?thesis by (meson zero_less_one)
qed

text \<open>
  \<open>avahi_is_valid_fqdn\<close> accepts the valid domain names with at least two labels whose normal form is not an
  address.
\<close>

lemma avahi_is_valid_fqdn_iff:
  assumes "name_labels t = Some ls" "length (join_labels ls) < AVAHI_DOMAIN_NAME_MAX"
  shows "avahi_is_valid_fqdn is_address t =
    Some (avahi_is_valid_domain_name t \<and> 2 \<le> length ls \<and> \<not> is_address (join_labels ls))"
proof (cases "avahi_is_valid_domain_name t")
  case True
  have end_label: "avahi_unescape_label [] AVAHI_LABEL_MAX = Some ([], [])"
    by (simp add: avahi_unescape_label_def AVAHI_LABEL_MAX_def unescape_loop.simps)
  from True have len: "length t < AVAHI_DOMAIN_NAME_MAX" and root: "ls = [[]] \<or> [] \<notin> set ls"
    using assms(1) by (auto simp: avahi_is_valid_domain_name_labels)
  show ?thesis
  proof (cases "t = []")
    case True
    with \<open>avahi_is_valid_domain_name t\<close> len assms(1) end_label show ?thesis by (simp add: avahi_is_valid_fqdn_def)
  next
    case False
    then obtain l k ls' where l: "avahi_unescape_label t AVAHI_LABEL_MAX = Some (l, k)" "ls = l # ls'"
      "name_labels k = Some ls'"
      using assms(1) by (rule name_labels_step)
    show ?thesis
    proof (cases "l = [] \<or> k = []")
      case True
      with \<open>avahi_is_valid_domain_name t\<close> l root len end_label show ?thesis by (auto simp: avahi_is_valid_fqdn_def)
    next
      case False
      then have "k \<noteq> []" by simp
      with l(3) obtain m k' ms where m: "avahi_unescape_label k AVAHI_LABEL_MAX = Some (m, k')" "ls' = m # ms"
        using name_labels_step by metis
      from avahi_normalize_name_labels [OF assms(1) _ assms(2)] False root l m
      have "avahi_normalize_name t AVAHI_DOMAIN_NAME_MAX = Some (Some (join_labels ls, True))" by auto
      with \<open>avahi_is_valid_domain_name t\<close> False l m root len show ?thesis by (auto simp: avahi_is_valid_fqdn_def)
    qed
  qed
qed (simp add: avahi_is_valid_fqdn_def)

text \<open>A type that fills its buffer up to the end is an aborted assertion when another label follows.\<close>

lemma avahi_service_name_split_exact_fit:
  "avahi_service_name_split ''n._ab._cd.e'' (Some 64) 4 64 = None"
  by (simp add: avahi_service_name_split_def split_loop.simps split_append_def avahi_escape_label_def name_eval)

end
