(* ===== verification/Strlst.thy ===== *)
theory Strlst
  imports Avahi_Prelude
begin

text \<open>
  \<^verbatim>\<open>avahi-common/strlst.c\<close>: the linked string lists of TXT records. A list item holds
  \<open>size\<close> bytes of text, which may contain NUL bytes, and is always followed by a NUL; the
  model keeps the bytes. A byte is a \<^typ>\<open>char\<close>, its value is \<open>ucode\<close> of it. A list is given
  from its head on: items are added in front, and TXT data is written and read in the reverse
  order. Allocations of more than zero bytes succeed (the default allocator of
  \<^verbatim>\<open>avahi-common/malloc.c\<close> aborts otherwise).
\<close>

type_synonym AvahiStringList = "string list"

section \<open>Construction\<close>

definition avahi_string_list_add_arbitrary :: "AvahiStringList \<Rightarrow> string \<Rightarrow> AvahiStringList" where
  "avahi_string_list_add_arbitrary l text = text # l"

definition avahi_string_list_add :: "AvahiStringList \<Rightarrow> string \<Rightarrow> AvahiStringList" where
  "avahi_string_list_add l text = avahi_string_list_add_arbitrary l text"

function string_list_parse_loop :: "string \<Rightarrow> AvahiStringList \<Rightarrow> AvahiStringList option" where
  "string_list_parse_loop data r =
     (case data of
        [] \<Rightarrow> Some r
      | b # c \<Rightarrow>
          let k = ucode b in
          if k > length c then None
          else string_list_parse_loop (drop k c)
                 (if k > 0 then avahi_string_list_add_arbitrary r (take k c) else r))"
  by pat_completeness auto
termination
  by (relation "measure (\<lambda>(data, r). length data)") auto

declare string_list_parse_loop.simps [simp del]

text \<open>\<^const>\<open>None\<close> is \<open>return -1\<close>.\<close>

definition avahi_string_list_parse :: "string \<Rightarrow> AvahiStringList option" where
  "avahi_string_list_parse data = string_list_parse_loop data []"

fun string_list_reverse_loop :: "AvahiStringList \<Rightarrow> AvahiStringList \<Rightarrow> AvahiStringList" where
  "string_list_reverse_loop [] r = r"
| "string_list_reverse_loop (t # l) r = string_list_reverse_loop l (t # r)"

definition avahi_string_list_reverse :: "AvahiStringList \<Rightarrow> AvahiStringList" where
  "avahi_string_list_reverse l = string_list_reverse_loop l []"

text \<open>The C string that a pointer to a text refers to ends at the first NUL.\<close>

definition c_str :: "string \<Rightarrow> string" where
  "c_str text = takeWhile (\<lambda>c. c \<noteq> CHR 0x00) text"

fun string_list_quote :: "bool \<Rightarrow> AvahiStringList \<Rightarrow> string" where
  "string_list_quote first [] = []"
| "string_list_quote first (t # l) =
     (if first then [] else '' '') @ [CHR 0x22] @ c_str t @ [CHR 0x22] @ string_list_quote False l"

definition avahi_string_list_to_string :: "AvahiStringList \<Rightarrow> string" where
  "avahi_string_list_to_string l = string_list_quote True (avahi_string_list_reverse l)"

text \<open>The allocated size (without the NUL) of \<open>avahi_string_list_to_string\<close>.\<close>

fun to_string_size :: "bool \<Rightarrow> AvahiStringList \<Rightarrow> nat" where
  "to_string_size first [] = 0"
| "to_string_size first (t # l) = (if first then 0 else 1) + (length t + 2) + to_string_size False l"

section \<open>Serialization\<close>

text \<open>The loop of \<open>avahi_string_list_serialize\<close> with a buffer of \<open>sz\<close> bytes: the bytes written.\<close>

fun serialize_loop :: "AvahiStringList \<Rightarrow> nat \<Rightarrow> string" where
  "serialize_loop [] sz = []"
| "serialize_loop (t # l) sz =
     (if \<not> sz > 1 then []
      else if length t = 0 then serialize_loop l sz
      else
        let k = (if length t > 255 then 255 else length t);
            k = (if k > sz - 1 then sz - 1 else k)
        in char_of k # take k t @ serialize_loop l (sz - (1 + k)))"

definition avahi_string_list_serialize :: "AvahiStringList \<Rightarrow> nat \<Rightarrow> string" where
  "avahi_string_list_serialize l sz =
     (let c = serialize_loop (avahi_string_list_reverse l) sz in
      if c = [] \<and> sz > 0 then [CHR 0x00] else c)"

text \<open>\<open>avahi_string_list_serialize(l, NULL, 0)\<close>: the number of bytes that are needed.\<close>

fun serialize_size_loop :: "AvahiStringList \<Rightarrow> nat" where
  "serialize_size_loop [] = 0"
| "serialize_size_loop (t # l) =
     (if length t = 0 then serialize_size_loop l
      else 1 + (if length t > 255 then 255 else length t) + serialize_size_loop l)"

definition avahi_string_list_serialize_size :: "AvahiStringList \<Rightarrow> nat" where
  "avahi_string_list_serialize_size l =
     (let used = serialize_size_loop l in if used = 0 then 1 else used)"

section \<open>Comparison and copies\<close>

fun avahi_string_list_equal :: "AvahiStringList \<Rightarrow> AvahiStringList \<Rightarrow> bool" where
  "avahi_string_list_equal [] [] = True"
| "avahi_string_list_equal [] (b # bs) = False"
| "avahi_string_list_equal (a # as) [] = False"
| "avahi_string_list_equal (a # as) (b # bs) =
     (if length a \<noteq> length b then False
      else if length a \<noteq> 0 \<and> a \<noteq> b then False
      else avahi_string_list_equal as bs)"

text \<open>The variable arguments up to the terminating NULL are a list.\<close>

fun avahi_string_list_add_many_va :: "AvahiStringList \<Rightarrow> string list \<Rightarrow> AvahiStringList" where
  "avahi_string_list_add_many_va r [] = r"
| "avahi_string_list_add_many_va r (txt # va) =
     avahi_string_list_add_many_va (avahi_string_list_add r txt) va"

definition avahi_string_list_new :: "string list \<Rightarrow> AvahiStringList" where
  "avahi_string_list_new va =
     (case va of
        [] \<Rightarrow> []
      | txt # va' \<Rightarrow> avahi_string_list_add_many_va (avahi_string_list_add [] txt) va')"

fun string_list_copy_loop :: "AvahiStringList \<Rightarrow> AvahiStringList \<Rightarrow> AvahiStringList" where
  "string_list_copy_loop [] r = r"
| "string_list_copy_loop (t # l) r = string_list_copy_loop l (avahi_string_list_add_arbitrary r t)"

definition avahi_string_list_copy :: "AvahiStringList \<Rightarrow> AvahiStringList" where
  "avahi_string_list_copy l = avahi_string_list_reverse (string_list_copy_loop l [])"

fun avahi_string_list_length :: "AvahiStringList \<Rightarrow> nat" where
  "avahi_string_list_length [] = 0"
| "avahi_string_list_length (t # l) = Suc (avahi_string_list_length l)"

section \<open>Key and value pairs\<close>

text \<open>
  \<open>avahi_string_list_add_vprintf\<close> with \<open>s\<close> the text that the format produces: the buffer of 80
  bytes is enlarged once when \<open>vsnprintf\<close> reports that it needs more.
\<close>

definition avahi_string_list_add_vprintf :: "AvahiStringList \<Rightarrow> string \<Rightarrow> AvahiStringList" where
  "avahi_string_list_add_vprintf l s =
     (let len = 80; n = length s;
          len = (if n < len then len else n + 1)
      in c_str (take (len - 1) s) # l)"

text \<open>The result is the list from the item found on; \<^const>\<open>None\<close> is NULL.\<close>

fun avahi_string_list_find :: "AvahiStringList \<Rightarrow> string \<Rightarrow> AvahiStringList option" where
  "avahi_string_list_find [] key = None"
| "avahi_string_list_find (t # l) key =
     (let n = length key in
      if strcasecmp_eq (c_str t) key then Some (t # l)
      else if strcasecmp_eq (take n (c_str t)) key \<and> n < length t \<and> t ! n = CHR ''='' then Some (t # l)
      else avahi_string_list_find l key)"

definition avahi_string_list_add_pair ::
  "AvahiStringList \<Rightarrow> string \<Rightarrow> string option \<Rightarrow> AvahiStringList" where
  "avahi_string_list_add_pair l key v =
     (case v of
        Some w \<Rightarrow> avahi_string_list_add_vprintf l (key @ ''='' @ w)
      | None \<Rightarrow> avahi_string_list_add l key)"

definition avahi_string_list_add_pair_arbitrary ::
  "AvahiStringList \<Rightarrow> string \<Rightarrow> string option \<Rightarrow> AvahiStringList" where
  "avahi_string_list_add_pair_arbitrary l key v =
     (case v of
        None \<Rightarrow> avahi_string_list_add l key
      | Some w \<Rightarrow> (key @ ''='' @ w) # l)"

text \<open>\<open>memchr(l->text, '=', l->size)\<close> as the number of bytes before the byte found.\<close>

definition memchr :: "string \<Rightarrow> char \<Rightarrow> nat option" where
  "memchr t c =
     (let n = length (takeWhile (\<lambda>x. x \<noteq> c) t) in if n < length t then Some n else None)"

text \<open>The outputs \<open>*key\<close> and \<open>*value\<close> (NULL or the bytes, whose number is \<open>*size\<close>).\<close>

definition avahi_string_list_get_pair :: "string \<Rightarrow> string \<times> string option" where
  "avahi_string_list_get_pair text =
     (case memchr text (CHR ''='') of
        None \<Rightarrow> (c_str text, None)
      | Some e \<Rightarrow> (c_str (take e text), Some (drop (e + 1) text)))"

section \<open>Lemmas\<close>

lemma string_list_reverse_loop_rev: "string_list_reverse_loop l r = rev l @ r"
  by (induction l arbitrary: r) auto

lemma avahi_string_list_reverse_rev [simp]: "avahi_string_list_reverse l = rev l"
  by (simp add: avahi_string_list_reverse_def string_list_reverse_loop_rev)

lemma string_list_copy_loop_rev: "string_list_copy_loop l r = rev l @ r"
  by (induction l arbitrary: r) (auto simp: avahi_string_list_add_arbitrary_def)

lemma avahi_string_list_copy_id [simp]: "avahi_string_list_copy l = l"
  by (simp add: avahi_string_list_copy_def string_list_copy_loop_rev)

lemma avahi_string_list_equal_iff [simp]: "avahi_string_list_equal a b \<longleftrightarrow> a = b"
  by (induction a b rule: avahi_string_list_equal.induct) auto

lemma avahi_string_list_length_length [simp]: "avahi_string_list_length l = length l"
  by (induction l) auto

lemma add_many_va_rev: "avahi_string_list_add_many_va r va = rev va @ r"
  by (induction va arbitrary: r)
    (auto simp: avahi_string_list_add_def avahi_string_list_add_arbitrary_def)

text \<open>The items that are written, in writing order, and the bytes of one of them.\<close>

definition wire_items :: "AvahiStringList \<Rightarrow> string list" where
  "wire_items l = map (take 255) (filter (\<lambda>t. t \<noteq> []) l)"

definition wire_item :: "string \<Rightarrow> string" where
  "wire_item t = char_of (length t) # t"

lemma wire_items_simps [simp]:
  "wire_items [] = []"
  "wire_items (t # l) = (if t = [] then wire_items l else take 255 t # wire_items l)"
  "wire_items (l @ l') = wire_items l @ wire_items l'"
  by (auto simp: wire_items_def)

lemma wire_items_rev: "wire_items (rev l) = rev (wire_items l)"
  by (simp add: wire_items_def rev_map rev_filter)

lemma wire_items_ok: "t \<in> set (wire_items l) \<Longrightarrow> t \<noteq> [] \<and> length t \<le> 255"
  by (auto simp: wire_items_def)

lemma wire_items_id: "\<forall>t \<in> set l. t \<noteq> [] \<and> length t \<le> 255 \<Longrightarrow> wire_items l = l"
  by (induction l) auto

lemma serialize_size_loop_length:
  "serialize_size_loop l = length (concat (map wire_item (wire_items l)))"
  by (induction l) (auto simp: wire_item_def)

lemma serialize_size_loop_append [simp]:
  "serialize_size_loop (l @ l') = serialize_size_loop l + serialize_size_loop l'"
  by (induction l) auto

lemma serialize_size_loop_rev [simp]: "serialize_size_loop (rev l) = serialize_size_loop l"
  by (induction l) auto

lemma serialize_size_loop_eq_0: "serialize_size_loop l = 0 \<longleftrightarrow> wire_items l = []"
  by (induction l) auto

lemma serialize_loop_no_items: "wire_items l = [] \<Longrightarrow> serialize_loop l sz = []"
  by (induction l) (auto split: if_splits)

lemma serialize_loop_fits:
  "serialize_size_loop l \<le> sz \<Longrightarrow> serialize_loop l sz = concat (map wire_item (wire_items l))"
proof (induction l arbitrary: sz)
  case (Cons t l)
  show ?case
  proof (cases "t = []")
    case True
    with Cons show ?thesis
      using serialize_size_loop_length [of l] wire_items_ok [of "hd (wire_items l)" l]
      by (cases "wire_items l") (auto simp: wire_item_def neq_Nil_conv)
  next
    case False
    define k where "k = min 255 (length t)"
    have k: "1 \<le> k" "1 + k + serialize_size_loop l \<le> sz" "take 255 t = take k t"
      using False Cons.prems by (auto simp: k_def min_def Suc_le_eq split: if_splits)
    have "serialize_loop (t # l) sz = char_of k # take k t @ serialize_loop l (sz - (1 + k))"
    proof -
      have "(if length t > 255 then 255 else length t) = k" by (simp add: k_def min_def)
      with False k show ?thesis by (simp add: Let_def)
    qed
    moreover have "length (take k t) = k" by (simp add: k_def)
    moreover have "serialize_loop l (sz - (1 + k)) = concat (map wire_item (wire_items l))"
      using k by (intro Cons.IH) simp
    ultimately show ?thesis using k False by (simp add: wire_item_def [of "take k t"])
  qed
qed simp

lemma serialize_loop_bound: "length (serialize_loop l sz) \<le> sz"
proof (induction l arbitrary: sz)
  case (Cons t l)
  show ?case
  proof (cases "sz > 1 \<and> t \<noteq> []")
    case True
    define k where "k = min (min 255 (length t)) (sz - 1)"
    have "serialize_loop (t # l) sz = char_of k # take k t @ serialize_loop l (sz - (1 + k))"
      using True by (auto simp: k_def min_def Let_def)
    moreover have "length (take k t) = k" "1 + k \<le> sz" using True by (auto simp: k_def)
    ultimately show ?thesis using Cons [of "sz - (1 + k)"] by simp
  qed (use Cons in auto)
qed simp

lemma parse_loop_item:
  assumes "t \<noteq> []" "length t \<le> 255"
  shows "string_list_parse_loop (wire_item t @ rest) r = string_list_parse_loop rest (t # r)"
proof -
  have "ucode (char_of (length t)) = length t" using assms by simp
  with assms show ?thesis
    by (simp add: wire_item_def string_list_parse_loop.simps [of "_ # _"]
        avahi_string_list_add_arbitrary_def Let_def del: of_char_of)
qed

lemma parse_loop_items:
  "\<forall>t \<in> set l. t \<noteq> [] \<and> length t \<le> 255 \<Longrightarrow>
   string_list_parse_loop (concat (map wire_item l) @ rest) r =
     string_list_parse_loop rest (rev l @ r)"
  by (induction l arbitrary: r) (auto simp: parse_loop_item)

lemma parse_loop_Nil [simp]: "string_list_parse_loop [] r = Some r"
  by (simp add: string_list_parse_loop.simps)

lemma parse_loop_result_ok:
  "string_list_parse_loop d r = Some l \<Longrightarrow> \<forall>t \<in> set r. t \<noteq> [] \<and> length t \<le> 255 \<Longrightarrow>
   \<forall>t \<in> set l. t \<noteq> [] \<and> length t \<le> 255"
proof (induction d r rule: string_list_parse_loop.induct)
  case (1 d r)
  show ?case
  proof (cases d)
    case (Cons b c)
    have b: "ucode b \<le> 255" using ucode_less [of b] by linarith
    have le: "\<not> ucode b > length c"
      using "1.prems"(1) by (auto simp: Cons string_list_parse_loop.simps [of "_ # _"] split: if_splits)
    let ?r = "if ucode b > 0 then avahi_string_list_add_arbitrary r (take (ucode b) c) else r"
    have "string_list_parse_loop (drop (ucode b) c) ?r = Some l"
      using "1.prems"(1) le by (simp add: Cons string_list_parse_loop.simps [of "_ # _"] Let_def)
    moreover have "\<forall>t \<in> set ?r. t \<noteq> [] \<and> length t \<le> 255"
      using "1.prems"(2) b le by (auto simp: avahi_string_list_add_arbitrary_def)
    ultimately show ?thesis using "1.IH" [OF Cons refl le] by blast
  qed (use "1.prems" in simp)
qed

lemma memchr_append: "c \<notin> set k \<Longrightarrow> memchr (k @ c # w) c = Some (length k)"
proof -
  assume "c \<notin> set k"
  then have "takeWhile (\<lambda>x. x \<noteq> c) (k @ c # w) = k" by (subst takeWhile_append2) auto
  then show ?thesis by (simp add: memchr_def)
qed

lemma memchr_none: "c \<notin> set k \<Longrightarrow> memchr k c = None"
  unfolding memchr_def by (subst takeWhile_eq_all_conv [THEN iffD2]) auto

lemma c_str_id: "CHR 0x00 \<notin> set t \<Longrightarrow> c_str t = t"
  unfolding c_str_def by (subst takeWhile_eq_all_conv) auto

lemma length_c_str: "length (c_str t) \<le> length t"
  by (simp add: c_str_def length_takeWhile_le)

lemma length_string_list_quote: "length (string_list_quote b l) \<le> to_string_size b l"
proof (induction l arbitrary: b)
  case (Cons t l)
  then show ?case using length_c_str [of t] Cons.IH [of False] by (simp add: add_mono)
qed simp

lemma to_string_size_any:
  "to_string_size True l = sum_list (map (\<lambda>t. length t + 2) l) + (length l - 1)"
  "to_string_size False l = sum_list (map (\<lambda>t. length t + 2) l) + length l"
proof -
  show F: "to_string_size False l = sum_list (map (\<lambda>t. length t + 2) l) + length l" for l
    by (induction l) auto
  show "to_string_size True l = sum_list (map (\<lambda>t. length t + 2) l) + (length l - 1)"
    by (cases l) (auto simp: F)
qed

lemma to_string_size_rev: "to_string_size True (rev l) = to_string_size True l"
  by (simp add: to_string_size_any rev_map [symmetric] sum_list_rev)

lemma parse_serialize_wire:
  assumes "sz \<ge> avahi_string_list_serialize_size l"
  shows "length (avahi_string_list_serialize l sz) = avahi_string_list_serialize_size l \<and>
         avahi_string_list_parse (avahi_string_list_serialize l sz) = Some (wire_items l)"
proof -
  let ?w = "concat (map wire_item (wire_items (rev l)))"
  have sz: "sz > 0" "serialize_size_loop (rev l) \<le> sz"
    using assms by (auto simp: avahi_string_list_serialize_size_def Let_def split: if_splits)
  then have loop: "serialize_loop (rev l) sz = ?w" by (intro serialize_loop_fits) auto
  have len: "length ?w = serialize_size_loop l"
    by (metis serialize_size_loop_length serialize_size_loop_rev)
  have empty: "avahi_string_list_parse [CHR 0x00] = Some []"
    by (simp add: avahi_string_list_parse_def string_list_parse_loop.simps [of "_ # _"])
  have "avahi_string_list_parse ?w = Some (wire_items l)"
    using parse_loop_items [of "wire_items (rev l)" "[]" "[]"] wire_items_ok
    by (simp add: avahi_string_list_parse_def) (simp add: wire_items_rev)
  moreover have "?w = [] \<Longrightarrow> wire_items l = []" using len by (metis list.size(3) serialize_size_loop_eq_0)
  ultimately have parse:
    "avahi_string_list_parse (avahi_string_list_serialize l sz) = Some (wire_items l)"
    using loop sz empty by (auto simp: avahi_string_list_serialize_def Let_def)
  have "length (avahi_string_list_serialize l sz) = avahi_string_list_serialize_size l"
  proof -
    have "length (if w = [] \<and> 0 < sz then [CHR 0x00] else w) = (if n = 0 then 1 else n)"
      if "length w = n" for w :: string and n using that sz(1) by auto
    from this [OF len] show ?thesis
      unfolding avahi_string_list_serialize_def avahi_string_list_serialize_size_def
        avahi_string_list_reverse_rev loop Let_def .
  qed
  with parse show ?thesis by simp
qed

lemma parse_serialize_ok:
  assumes "list_all (\<lambda>t. t \<noteq> [] \<and> length t \<le> 255) l" "sz \<ge> avahi_string_list_serialize_size l"
  shows "avahi_string_list_parse (avahi_string_list_serialize l sz) = Some l"
  using parse_serialize_wire [OF assms(2)] wire_items_id [of l] assms(1) by (simp add: list_all_iff)

section \<open>Properties\<close>

text \<open>C36. TXT data round trip. With a buffer of the size that the measuring call reports,
  \<open>avahi_string_list_serialize\<close> fills it exactly, and parsing the bytes gives back the list
  without its empty strings and with every string cut to 255 bytes; a list without empty or
  over-long strings comes back unchanged.\<close>

theorem string_list_parse_serialize:
  assumes "sz \<ge> avahi_string_list_serialize_size l"
  shows "length (avahi_string_list_serialize l sz) = avahi_string_list_serialize_size l \<and>
         avahi_string_list_parse (avahi_string_list_serialize l sz) =
           Some (map (take 255) (filter (\<lambda>t. t \<noteq> []) l)) \<and>
         (list_all (\<lambda>t. t \<noteq> [] \<and> length t \<le> 255) l \<longrightarrow>
            avahi_string_list_parse (avahi_string_list_serialize l sz) = Some l)"
  using parse_serialize_wire [OF assms] wire_items_id [of l] by (auto simp: list_all_iff wire_items_def)

theorem string_list_parse_serialize_witness:
  "avahi_string_list_parse (avahi_string_list_serialize [''b=2'', ''a''] 20) = Some [''b=2'', ''a'']"
  using string_list_parse_serialize [of "[''b=2'', ''a'']" 20]
  by (simp add: avahi_string_list_serialize_size_def)

text \<open>Whatever the list and the buffer, at most \<open>size\<close> bytes are written, and the text that
  \<open>avahi_string_list_to_string\<close> builds fits the memory it allocates.\<close>

theorem string_list_output_bounds:
  "length (avahi_string_list_serialize l sz) \<le> sz \<and>
   length (avahi_string_list_to_string l) \<le> to_string_size True l"
proof
  show "length (avahi_string_list_serialize l sz) \<le> sz"
    using serialize_loop_bound [of "rev l" sz]
    by (auto simp: avahi_string_list_serialize_def Let_def)
  show "length (avahi_string_list_to_string l) \<le> to_string_size True l"
    unfolding avahi_string_list_to_string_def avahi_string_list_reverse_rev
    by (rule order_trans [OF length_string_list_quote]) (simp add: to_string_size_rev)
qed

text \<open>C38. Parsing TXT data from the network never yields an empty or over-long string.\<close>

theorem string_list_parse_items:
  "list_all (\<lambda>t. t \<noteq> [] \<and> length t \<le> 255) (case_option [] id (avahi_string_list_parse d))"
proof (cases "avahi_string_list_parse d")
  case (Some l)
  then have "\<forall>t \<in> set l. t \<noteq> [] \<and> length t \<le> 255"
    using parse_loop_result_ok [of d "[]" l] by (simp add: avahi_string_list_parse_def)
  with Some show ?thesis by (simp add: list_all_iff)
qed simp

text \<open>C37. A pair that was added is found under its key, whatever the case of the letters, and
  reading it gives its key and value back, a value with arbitrary bytes included.\<close>

theorem string_list_pair_roundtrip:
  assumes "CHR 0x00 \<notin> set key" "CHR ''='' \<notin> set key" "strcasecmp_eq key' key"
  shows "avahi_string_list_find (avahi_string_list_add_pair_arbitrary l key v) key' =
           Some (avahi_string_list_add_pair_arbitrary l key v) \<and>
         avahi_string_list_get_pair (hd (avahi_string_list_add_pair_arbitrary l key v)) = (key, v)"
proof -
  have len: "length key' = length key"
    using assms(3) unfolding strcasecmp_eq_def by (metis length_map)
  have nul: "c_str (key @ CHR ''='' # w) = key @ CHR ''='' # c_str w" for w
    using assms(1) by (subst c_str_def, subst takeWhile_append2) (auto simp: c_str_def)
  show ?thesis
  proof (cases v)
    case None
    with assms show ?thesis
      by (simp add: avahi_string_list_add_pair_arbitrary_def avahi_string_list_add_def
          avahi_string_list_add_arbitrary_def c_str_id strcasecmp_eq_sym
          avahi_string_list_get_pair_def memchr_none Let_def)
  next
    case (Some w)
    with assms len show ?thesis
      by (simp add: avahi_string_list_add_pair_arbitrary_def nul strcasecmp_eq_sym c_str_id
          avahi_string_list_get_pair_def memchr_append Let_def)
  qed
qed

lemma strcasecmp_eq_Path: "strcasecmp_eq ''path'' ''Path''"
  by code_simp

theorem string_list_pair_roundtrip_witness:
  "avahi_string_list_find (avahi_string_list_add_pair_arbitrary [''x''] ''Path'' (Some ''/a=b'')) ''path'' =
     Some [''Path=/a=b'', ''x''] \<and>
   avahi_string_list_get_pair ''Path=/a=b'' = (''Path'', Some ''/a=b'')"
  using string_list_pair_roundtrip [of "''Path''" "''path''" "[''x'']" "Some ''/a=b''"]
  by (simp add: strcasecmp_eq_Path avahi_string_list_add_pair_arbitrary_def
      del: avahi_string_list_find.simps)

end
