(* ===== verification/Alternative.thy ===== *)
theory Alternative
  imports Domain_Labels "HOL-Library.Sublist"
begin

text \<open>
  \<^verbatim>\<open>avahi-common/alternative.c\<close>: the name to try next after a name collision. An outer
  \<^const>\<open>None\<close> is a failed assertion (or an \<open>atoi\<close> outside the range of \<open>int\<close>, which C leaves
  undefined), \<open>Some None\<close> is NULL.
\<close>

section \<open>Library functions\<close>

text \<open>What follows the last \<open>'-'\<close> (\<open>strrchr\<close>), what follows the first \<open>" #"\<close> (\<open>strstr\<close>).\<close>

definition after_last_dash :: "string \<Rightarrow> string option" where
  "after_last_dash s =
     (if CHR ''-'' \<in> set s then Some (rev (takeWhile (\<lambda>c. c \<noteq> CHR ''-'') (rev s))) else None)"

fun after_mark :: "string \<Rightarrow> string option" where
  "after_mark [] = None"
| "after_mark (c # s) =
     (if c = CHR '' '' \<and> s \<noteq> [] \<and> hd s = CHR ''#'' then Some (tl s) else after_mark s)"

lemma after_mark_shorter: "after_mark s = Some t \<Longrightarrow> length t < length s"
  by (induction s) (auto split: if_splits)

section \<open>Alternative names\<close>

function drop_incomplete_utf8 :: "string \<Rightarrow> string option" where
  "drop_incomplete_utf8 c =
     (if c = [] then Some c
      else if avahi_utf8_valid c then Some c
      else if ucode (last c) AND 128 \<noteq> 0 then drop_incomplete_utf8 (butlast c)
      else None)"
  by pat_completeness auto
termination
  by (relation "measure length") auto

declare drop_incomplete_utf8.simps [simp del]

text \<open>The tests on the text \<open>e\<close> behind the separator: a number without leading zeros.\<close>

definition counter :: "string option \<Rightarrow> string option" where
  "counter e =
     (case e of
        None \<Rightarrow> None
      | Some d \<Rightarrow>
          if \<not> list_all isdigit d then None
          else if d = [] \<or> hd d = CHR ''0'' then None
          else Some d)"

text \<open>\<open>atoi(e)+1\<close>, which must stay within \<open>int\<close>.\<close>

definition next_number :: "string \<Rightarrow> string option" where
  "next_number d = (if atoi d + 1 < 2 ^ 31 then Some (decimal (atoi d + 1)) else None)"

definition avahi_alternative_host_name :: "string \<Rightarrow> string option option" where
  "avahi_alternative_host_name s =
     (if \<not> avahi_is_valid_host_name s then Some None
      else
        do {
          r \<leftarrow> (case counter (after_last_dash s) of
                  Some e \<Rightarrow>
                    do {
                      m \<leftarrow> next_number e;
                      let l = length s - length e - 1;
                      let l = (if l \<ge> AVAHI_LABEL_MAX - 1 - length m - 1
                               then AVAHI_LABEL_MAX - 1 - length m - 1 else l);
                      c \<leftarrow> drop_incomplete_utf8 (take l s);
                      Some (c @ ''-'' @ m)
                    }
                | None \<Rightarrow>
                    do {
                      c \<leftarrow> drop_incomplete_utf8 (take (AVAHI_LABEL_MAX - 1 - 2) s);
                      Some (c @ ''-2'')
                    });
          if avahi_is_valid_host_name r then Some (Some r) else None
        })"

function last_mark :: "string \<Rightarrow> string" where
  "last_mark e = (case after_mark e of None \<Rightarrow> e | Some n \<Rightarrow> last_mark n)"
  by pat_completeness auto
termination
  by (relation "measure length") (auto dest: after_mark_shorter)

declare last_mark.simps [simp del]

definition avahi_alternative_service_name :: "string \<Rightarrow> string option option" where
  "avahi_alternative_service_name s =
     (if \<not> avahi_is_valid_service_name s then Some None
      else
        do {
          r \<leftarrow> (case counter (map_option last_mark (after_mark s)) of
                  Some e \<Rightarrow>
                    do {
                      m \<leftarrow> next_number e;
                      let l = length s - length e - 2;
                      let l = (if l \<ge> AVAHI_LABEL_MAX - 1 - length m - 2
                               then AVAHI_LABEL_MAX - 1 - length m - 2 else l);
                      c \<leftarrow> drop_incomplete_utf8 (take l s);
                      Some (c @ '' #'' @ m)
                    }
                | None \<Rightarrow>
                    do {
                      c \<leftarrow> drop_incomplete_utf8 (take (AVAHI_LABEL_MAX - 1 - 3) s);
                      Some (c @ '' #2'')
                    });
          if avahi_is_valid_service_name r then Some (Some r) else None
        })"

section \<open>Counters\<close>

lemma digits_utf8: "list_all isdigit d \<Longrightarrow> avahi_utf8_valid d"
  by (induction d) (auto simp: isdigit_def)

lemma next_number_facts:
  assumes "next_number e = Some m"
  shows "list_all isdigit m" "length m \<le> 10" "m \<noteq> []" "atoi m = atoi e + 1"
  using assms decimal_length [of "atoi e + 1" 10]
  by (auto simp: next_number_def decimal_digits split: if_splits)

section \<open>Dropping an incomplete sequence\<close>

lemma high_bit: "128 \<le> ucode c \<Longrightarrow> ucode c AND 128 \<noteq> 0"
proof -
  assume c: "128 \<le> ucode c"
  have "ucode c AND 128 = (ucode c div 128) mod 2 * 128"
    using and_shifted_mask [of "ucode c" 7 1] by (simp add: push_bit_eq_mult mask_eq_exp_minus_1)
  moreover have "ucode c div 128 = 1" using c ucode_less [of c] by (simp add: div_eq_block)
  ultimately show ?thesis by simp
qed

lemma drop_incomplete_utf8_tail:
  assumes "avahi_utf8_valid v" "list_all (\<lambda>c. 128 \<le> ucode c) q"
  shows "\<exists>c. drop_incomplete_utf8 (v @ q) = Some c \<and> avahi_utf8_valid c \<and> prefix c (v @ q)"
  using assms(2)
proof (induction q rule: rev_induct)
  case Nil
  then show ?case using assms(1) by (simp add: drop_incomplete_utf8.simps)
next
  case (snoc x q)
  show ?case
  proof (cases "avahi_utf8_valid (v @ q @ [x])")
    case True
    then show ?thesis by (simp add: drop_incomplete_utf8.simps)
  next
    case False
    have "drop_incomplete_utf8 (v @ q @ [x]) = drop_incomplete_utf8 (v @ q)"
      using False snoc.prems high_bit [of x]
      by (subst drop_incomplete_utf8.simps) (simp add: butlast_append)
    moreover obtain c where "drop_incomplete_utf8 (v @ q) = Some c" "avahi_utf8_valid c"
      "prefix c (v @ q)"
      using snoc by auto
    ultimately show ?thesis using prefix_prefix [of c "v @ q" "[x]"] by auto
  qed
qed

lemma utf8_encode_cases:
  "UNICODE_VALID c \<Longrightarrow>
     length (utf8_encode c) = 1 \<or> list_all (\<lambda>x. 128 \<le> ucode x) (utf8_encode c)"
proof -
  have "list_all (\<lambda>x. 128 \<le> ucode x) [char_of a]" if "128 \<le> a" "a < 256" for a :: nat
    using that by simp
  moreover assume "UNICODE_VALID c"
  then have "c < 0x110000" by (simp add: UNICODE_VALID_iff)
  then have "c div 64 div 64 div 64 < 8" "c < 0x800 \<Longrightarrow> c div 64 < 32"
    "c < 0x10000 \<Longrightarrow> c div 64 div 64 < 16"
    by (simp_all add: div_mult2_eq [symmetric] less_mult_imp_div_less)
  moreover have "c mod 64 < 64" "c div 64 mod 64 < 64" "c div 64 div 64 mod 64 < 64" by simp_all
  ultimately show ?thesis
    by (simp add: utf8_encode_def)
qed

lemma utf8_take:
  assumes "avahi_utf8_valid s"
  shows "\<exists>v q. take n s = v @ q \<and> avahi_utf8_valid v \<and> list_all (\<lambda>c. 128 \<le> ucode c) q"
proof -
  obtain cs where cs: "\<forall>c \<in> set cs. UNICODE_VALID c" "s = utf8_string cs"
    using avahi_utf8_valid_sound [OF assms] by blast
  have "\<exists>v q. take n (utf8_string cs) = v @ q \<and> avahi_utf8_valid v \<and>
     list_all (\<lambda>c. 128 \<le> ucode c) q"
    using cs(1)
  proof (induction cs arbitrary: n)
    case Nil
    then show ?case by (simp add: utf8_string_def)
  next
    case (Cons c cs)
    let ?e = "utf8_encode c"
    have e: "avahi_utf8_valid ?e"
      using avahi_utf8_valid_complete [of "[c]"] Cons.prems by (simp add: utf8_string_def)
    have str: "utf8_string (c # cs) = ?e @ utf8_string cs" by (simp add: utf8_string_def)
    show ?case
    proof (cases "n < length ?e")
      case True
      then have "take n ?e = [] \<or> list_all (\<lambda>x. 128 \<le> ucode x) (take n ?e)"
        using utf8_encode_cases [of c] Cons.prems by (auto simp: list_all_iff dest: in_set_takeD)
      with True show ?thesis unfolding str
        by (intro exI [of _ "[]"] exI [of _ "take n ?e"]) auto
    next
      case False
      from Cons obtain v q where "take (n - length ?e) (utf8_string cs) = v @ q"
        "avahi_utf8_valid v" "list_all (\<lambda>c. 128 \<le> ucode c) q"
        by (metis list.set_intros(2))
      with False e show ?thesis unfolding str
        by (intro exI [of _ "?e @ v"] exI [of _ q]) (auto simp: avahi_utf8_valid_append)
    qed
  qed
  with cs(2) show ?thesis by simp
qed

lemma drop_incomplete_utf8_take:
  assumes "avahi_utf8_valid s"
  shows "\<exists>c. drop_incomplete_utf8 (take n s) = Some c \<and> avahi_utf8_valid c \<and> prefix c (take n s)"
  using utf8_take [OF assms, of n] drop_incomplete_utf8_tail by metis

section \<open>Separators\<close>

lemma after_last_dash_append:
  "CHR ''-'' \<notin> set d \<Longrightarrow> after_last_dash (c @ CHR ''-'' # d) = Some d"
  unfolding after_last_dash_def by (simp add: takeWhile_append)

lemma isdigit_not_sep: "isdigit c \<Longrightarrow> c \<noteq> CHR ''-'' \<and> c \<noteq> CHR '' '' \<and> c \<noteq> CHR ''#''"
  by (auto simp: isdigit_def)

lemma digits_no_dash: "list_all isdigit d \<Longrightarrow> CHR ''-'' \<notin> set d"
  by (auto simp: list_all_iff dest: isdigit_not_sep)

lemma counter_Some: "counter e = Some d \<longleftrightarrow> e = Some d \<and> list_all isdigit d \<and> d \<noteq> [] \<and> hd d \<noteq> CHR ''0''"
  by (auto simp: counter_def split: option.splits if_splits)

lemma after_mark_none: "CHR '' '' \<notin> set d \<Longrightarrow> after_mark d = None"
  by (induction d) auto

lemma digits_no_mark: "list_all isdigit d \<Longrightarrow> after_mark d = None"
  by (rule after_mark_none) (auto simp: list_all_iff dest: isdigit_not_sep)

lemma last_mark_none [simp]: "after_mark d = None \<Longrightarrow> last_mark d = d"
  by (simp add: last_mark.simps)

lemma last_mark_append:
  "after_mark d = None \<Longrightarrow> hd (d @ [CHR 0x00]) \<noteq> CHR ''#'' \<Longrightarrow>
   map_option last_mark (after_mark (c @ '' #'' @ d)) = Some d"
proof (induction c rule: length_induct)
  case (1 c)
  show ?case
  proof (cases "after_mark (c @ '' #'' @ d)")
    case None
    have "after_mark (c @ '' #'' @ d) \<noteq> None" for c by (induction c) auto
    from this [of c] None show ?thesis by blast
  next
    case (Some t)
    have "t = d \<or> (\<exists>c'. t = c' @ '' #'' @ d \<and> length c' < length c)" using Some
    proof (induction c)
      case (Cons x c)
      then show ?case by (cases c) (auto split: if_splits)
    qed auto
    with 1 Some show ?thesis by (auto simp: last_mark.simps [of t] split: option.splits)
  qed
qed

section \<open>Properties\<close>

text \<open>A host name without dots and backslashes is the label itself.\<close>

definition plain_label :: "string \<Rightarrow> bool" where
  "plain_label s = list_all (\<lambda>c. c \<noteq> c_dot \<and> c \<noteq> c_backslash \<and> c \<noteq> CHR 0x00) s"

lemma unescape_loop_plain:
  "plain_label s \<Longrightarrow> i + length s < sz \<Longrightarrow> unescape_loop sz i d s = Some (rev d @ s, [])"
proof (induction s arbitrary: i d)
  case (Cons c s)
  then have "unescape_char (c # s) = Label_Char c s" by (simp add: unescape_char_def plain_label_def)
  with Cons show ?case by (simp add: unescape_loop.simps [of _ _ _ "_ # _"] plain_label_def)
qed (simp add: unescape_loop.simps)

lemma unescape_loop_plain_long:
  "plain_label s \<Longrightarrow> sz \<le> i + length s \<Longrightarrow> unescape_loop sz i d s = None"
proof (induction s arbitrary: i d)
  case (Cons c s)
  then have "unescape_char (c # s) = Label_Char c s" by (simp add: unescape_char_def plain_label_def)
  with Cons show ?case by (simp add: unescape_loop.simps [of _ _ _ "_ # _"] plain_label_def)
qed (simp add: unescape_loop.simps)

lemma valid_host_name_plain:
  assumes "plain_label s"
  shows "avahi_is_valid_host_name s \<longleftrightarrow> s \<noteq> [] \<and> length s < AVAHI_LABEL_MAX \<and> avahi_utf8_valid s"
proof (cases "length s < AVAHI_LABEL_MAX")
  case True
  then show ?thesis
    using unescape_loop_plain [OF assms, of 0 AVAHI_LABEL_MAX "[]"]
    by (auto simp: avahi_is_valid_host_name_def avahi_unescape_label_def AVAHI_LABEL_MAX_def
        AVAHI_DOMAIN_NAME_MAX_def Suc_le_eq)
next
  case False
  then show ?thesis
    using unescape_loop_plain_long [OF assms, of AVAHI_LABEL_MAX 0 "[]"]
    by (auto simp: avahi_is_valid_host_name_def avahi_unescape_label_def)
qed

lemma plain_label_append [simp]: "plain_label (a @ b) \<longleftrightarrow> plain_label a \<and> plain_label b"
  by (auto simp: plain_label_def)

lemma plain_label_digits: "list_all isdigit d \<Longrightarrow> plain_label d"
  by (auto simp: plain_label_def list_all_iff isdigit_def c_dot_def c_backslash_def)

lemma plain_label_prefix: "plain_label s \<Longrightarrow> prefix c (take n s) \<Longrightarrow> plain_label c"
  by (metis append_take_drop_id plain_label_append prefixE)

text \<open>
  The common shape of both functions: a truncated prefix, a separator and a number, of at most
  63 bytes.
\<close>

lemma suffix_name_ok:
  assumes "avahi_utf8_valid s" "list_all isdigit m" "m \<noteq> []" "length m \<le> 10"
    and "n + k \<le> AVAHI_LABEL_MAX - 1 - length m" "length sep = k" "avahi_utf8_valid sep"
  shows "\<exists>c. drop_incomplete_utf8 (take n s) = Some c \<and> prefix c (take n s) \<and>
    avahi_utf8_valid (c @ sep @ m) \<and> c @ sep @ m \<noteq> [] \<and> length (c @ sep @ m) < AVAHI_LABEL_MAX"
proof -
  obtain c where c: "drop_incomplete_utf8 (take n s) = Some c" "avahi_utf8_valid c"
    "prefix c (take n s)" using drop_incomplete_utf8_take [OF assms(1)] by blast
  have "length c \<le> n" using prefix_length_le [OF c(3)] by simp
  with c assms digits_utf8 [OF assms(2)] show ?thesis
    by (auto simp: avahi_utf8_valid_append AVAHI_LABEL_MAX_def)
qed

text \<open>C39. For a valid host name that is written without escapes, and whose number (if it ends in one)
  can still be counted up in an \<open>int\<close>, \<open>avahi_alternative_host_name\<close> returns a name: no assertion
  fails, the name is a valid host name, also when the original has 63 bytes and its end has to be
  cut within a UTF-8 sequence, and it differs from the original.\<close>

theorem avahi_alternative_host_name_ok:
  assumes "avahi_is_valid_host_name s" "plain_label s"
    and "\<And>d. counter (after_last_dash s) = Some d \<Longrightarrow> atoi d + 1 < 2 ^ 31"
  shows "\<exists>r. avahi_alternative_host_name s = Some (Some r) \<and> avahi_is_valid_host_name r \<and> r \<noteq> s"
proof -
  have u: "avahi_utf8_valid s" using assms(1,2) by (simp add: valid_host_name_plain)
  have sep: "avahi_utf8_valid ''-''" "plain_label ''-''" by (simp_all, code_simp)
  show ?thesis
  proof (cases "counter (after_last_dash s)")
    case None
    obtain c where c: "drop_incomplete_utf8 (take 61 s) = Some c" "prefix c (take 61 s)"
      "avahi_utf8_valid (c @ ''-'' @ ''2'')" "length (c @ ''-'' @ ''2'') < AVAHI_LABEL_MAX"
      using suffix_name_ok [OF u, of "''2''" 61 1 "''-''"] sep
      by (auto simp: AVAHI_LABEL_MAX_def isdigit_def)
    have "plain_label (c @ ''-2'')"
      using plain_label_prefix [OF assms(2) c(2)] sep plain_label_digits [of "''2''"]
      by (simp add: isdigit_def) (code_simp)
    with c have v: "avahi_is_valid_host_name (c @ ''-2'')" by (simp add: valid_host_name_plain)
    have "counter (after_last_dash (c @ ''-2'')) = Some ''2''"
      using after_last_dash_append [of "''2''" c] by (simp add: counter_Some isdigit_def)
    with None have "c @ ''-2'' \<noteq> s" by auto
    with v c assms(1) None show ?thesis
      by (auto simp: avahi_alternative_host_name_def AVAHI_LABEL_MAX_def)
  next
    case (Some e)
    obtain m where m: "next_number e = Some m"
      using assms(3) [OF Some] by (auto simp: next_number_def)
    note mf = next_number_facts [OF m]
    define l where "l = (if length s - length e - 1 \<ge> AVAHI_LABEL_MAX - 1 - length m - 1
      then AVAHI_LABEL_MAX - 1 - length m - 1 else length s - length e - 1)"
    have l: "l + 1 \<le> AVAHI_LABEL_MAX - 1 - length m"
      using mf(2) by (auto simp: l_def AVAHI_LABEL_MAX_def)
    obtain c where c: "drop_incomplete_utf8 (take l s) = Some c" "prefix c (take l s)"
      "avahi_utf8_valid (c @ ''-'' @ m)" "length (c @ ''-'' @ m) < AVAHI_LABEL_MAX"
      using suffix_name_ok [OF u mf(1,3,2) l _ sep(1)] by auto
    have "plain_label (c @ ''-'' @ m)"
      using plain_label_prefix [OF assms(2) c(2)] sep plain_label_digits [OF mf(1)]
      unfolding plain_label_append by blast
    with c have v: "avahi_is_valid_host_name (c @ ''-'' @ m)" by (simp add: valid_host_name_plain)
    have "after_last_dash (c @ ''-'' @ m) = Some m"
      using after_last_dash_append [OF digits_no_dash [OF mf(1)], of c] by simp
    with Some mf(4) have "c @ ''-'' @ m \<noteq> s" by (auto simp: counter_Some)
    with v c assms(1) Some m show ?thesis
      by (auto simp: avahi_alternative_host_name_def Let_def l_def split: if_splits)
  qed
qed

theorem avahi_alternative_host_name_ok_witness:
  "\<exists>r. avahi_alternative_host_name ''box-9'' = Some (Some r) \<and> avahi_is_valid_host_name r \<and> r \<noteq> ''box-9''"
proof (rule avahi_alternative_host_name_ok)
  show "avahi_is_valid_host_name ''box-9''" "plain_label ''box-9''" by code_simp+
  have "counter (after_last_dash ''box-9'') = Some ''9''" "atoi ''9'' = 9" by code_simp+
  then show "atoi d + 1 < 2 ^ 31" if "counter (after_last_dash ''box-9'') = Some d" for d
    using that by auto
qed

text \<open>
  A valid host name may end in a dot. With at most 60 bytes before the dot, it makes \<open>avahi_alternative_host_name\<close> fail its last assertion: \<open>-2\<close> behind the dot
  is a second label. An escape sequence that is cut at byte 61 has the same effect.
\<close>

lemma unescape_loop_dot:
  "plain_label s \<Longrightarrow> i + length s < sz \<Longrightarrow> unescape_loop sz i d (s @ c_dot # r) = Some (rev d @ s, r)"
proof (induction s arbitrary: i d)
  case Nil
  then show ?case by (simp add: unescape_loop.simps [of _ _ _ "_ # _"] unescape_char_def)
next
  case (Cons c s)
  then have "unescape_char (c # s @ c_dot # r) = Label_Char c (s @ c_dot # r)"
    by (simp add: unescape_char_def plain_label_def)
  with Cons show ?case by (simp add: unescape_loop.simps [of _ _ _ "_ # _"] plain_label_def)
qed

lemma valid_host_name_dot:
  assumes "plain_label l" "avahi_utf8_valid l" "l \<noteq> []" "length l < AVAHI_LABEL_MAX"
  shows "avahi_is_valid_host_name (l @ c_dot # r) \<longleftrightarrow> r = [] "
proof (cases "length r < 100")
  case True
  have "avahi_unescape_label (l @ c_dot # r) AVAHI_LABEL_MAX = Some (l, r)"
    using assms unescape_loop_dot [OF assms(1), of 0 AVAHI_LABEL_MAX "[]" r]
    by (simp add: avahi_unescape_label_def AVAHI_LABEL_MAX_def)
  with True assms(3,4) show ?thesis
    by (auto simp: avahi_is_valid_host_name_def Suc_le_eq AVAHI_LABEL_MAX_def AVAHI_DOMAIN_NAME_MAX_def)
next
  case False
  have "avahi_unescape_label (l @ c_dot # r) AVAHI_LABEL_MAX = Some (l, r)"
    using assms unescape_loop_dot [OF assms(1), of 0 AVAHI_LABEL_MAX "[]" r]
    by (simp add: avahi_unescape_label_def AVAHI_LABEL_MAX_def)
  with False show ?thesis by (auto simp: avahi_is_valid_host_name_def)
qed

lemma avahi_alternative_host_name_trailing_dot:
  assumes "plain_label l" "avahi_utf8_valid l" "l \<noteq> []" "length l \<le> 60"
  shows "avahi_is_valid_host_name (l @ [c_dot]) \<and>
    avahi_alternative_host_name (l @ [c_dot]) = None"
proof -
  have "counter (after_last_dash (l @ [c_dot])) = None"
    by (simp add: counter_def after_last_dash_def c_dot_def isdigit_def)
  have "length l < AVAHI_LABEL_MAX" using assms(4) by (simp add: AVAHI_LABEL_MAX_def)
  note valid = valid_host_name_dot [OF assms(1-3) this]
  have "avahi_utf8_valid [c_dot]" by code_simp
  then have "avahi_utf8_valid (l @ [c_dot])" using assms(2) by (simp only: avahi_utf8_valid_append)
  then have "drop_incomplete_utf8 (l @ [c_dot]) = Some (l @ [c_dot])"
    by (simp add: drop_incomplete_utf8.simps [of "l @ [c_dot]"])
  with \<open>counter _ = None\<close> valid [of "[]"] valid [of "''-2''"] assms(4) show ?thesis
    by (simp add: avahi_alternative_host_name_def AVAHI_LABEL_MAX_def)
qed

lemma avahi_alternative_host_name_abort:
  "avahi_is_valid_host_name ''box.'' \<and> avahi_alternative_host_name ''box.'' = None \<and>
   avahi_is_valid_host_name (replicate 60 (CHR ''a'') @ [c_backslash, c_dot]) \<and>
   avahi_alternative_host_name (replicate 60 (CHR ''a'') @ [c_backslash, c_dot]) = None"
  by (intro conjI; code_simp)

text \<open>C40. For a valid service name in UTF-8 whose number (if it ends in one) can still be counted up
  in an \<open>int\<close>, \<open>avahi_alternative_service_name\<close> returns a name: no assertion fails, the name is a
  valid service name in UTF-8, also when the end of the original has to be cut within a UTF-8
  sequence, and it differs from the original.\<close>

theorem avahi_alternative_service_name_ok:
  assumes "avahi_is_valid_service_name s" "avahi_utf8_valid s"
    and "\<And>d. counter (map_option last_mark (after_mark s)) = Some d \<Longrightarrow> atoi d + 1 < 2 ^ 31"
  shows "\<exists>r. avahi_alternative_service_name s = Some (Some r) \<and> avahi_is_valid_service_name r \<and>
    avahi_utf8_valid r \<and> r \<noteq> s"
proof -
  have sep: "avahi_utf8_valid '' #''" by simp
  show ?thesis
  proof (cases "counter (map_option last_mark (after_mark s))")
    case None
    obtain c where c: "drop_incomplete_utf8 (take 60 s) = Some c"
      "avahi_utf8_valid (c @ '' #'' @ ''2'')" "length (c @ '' #'' @ ''2'') < AVAHI_LABEL_MAX"
      using suffix_name_ok [OF assms(2), of "''2''" 60 2 "'' #''"] sep
      by (auto simp: AVAHI_LABEL_MAX_def isdigit_def)
    then have v: "avahi_is_valid_service_name (c @ '' #2'')"
      by (simp add: avahi_is_valid_service_name_def)
    have "counter (map_option last_mark (after_mark (c @ '' #'' @ ''2''))) = Some ''2''"
      by (subst last_mark_append) (simp_all add: counter_Some isdigit_def)
    with None have "c @ '' #2'' \<noteq> s" by auto
    with v c assms(1) None show ?thesis
      by (auto simp: avahi_alternative_service_name_def AVAHI_LABEL_MAX_def)
  next
    case (Some e)
    obtain m where m: "next_number e = Some m"
      using assms(3) [OF Some] by (auto simp: next_number_def)
    note mf = next_number_facts [OF m]
    define l where "l = (if length s - length e - 2 \<ge> AVAHI_LABEL_MAX - 1 - length m - 2
      then AVAHI_LABEL_MAX - 1 - length m - 2 else length s - length e - 2)"
    have l: "l + 2 \<le> AVAHI_LABEL_MAX - 1 - length m"
      using mf(2) by (auto simp: l_def AVAHI_LABEL_MAX_def)
    obtain c where c: "drop_incomplete_utf8 (take l s) = Some c"
      "avahi_utf8_valid (c @ '' #'' @ m)" "length (c @ '' #'' @ m) < AVAHI_LABEL_MAX"
      using suffix_name_ok [OF assms(2) mf(1,3,2) l _ sep] by auto
    then have v: "avahi_is_valid_service_name (c @ '' #'' @ m)"
      by (simp add: avahi_is_valid_service_name_def)
    have "map_option last_mark (after_mark (c @ '' #'' @ m)) = Some m"
    proof (rule last_mark_append)
      show "after_mark m = None" using mf(1) by (rule digits_no_mark)
      show "hd (m @ [CHR 0x00]) \<noteq> CHR ''#''" using mf(1) by (cases m) (auto dest: isdigit_not_sep)
    qed
    with Some mf(4) have "c @ '' #'' @ m \<noteq> s" by (auto simp: counter_Some)
    with v c assms(1) Some m show ?thesis
      by (auto simp: avahi_alternative_service_name_def Let_def l_def split: if_splits)
  qed
qed

theorem avahi_alternative_service_name_ok_witness:
  "\<exists>r. avahi_alternative_service_name ''My Box #9'' = Some (Some r) \<and> avahi_is_valid_service_name r \<and>
    avahi_utf8_valid r \<and> r \<noteq> ''My Box #9''"
proof (rule avahi_alternative_service_name_ok)
  show "avahi_is_valid_service_name ''My Box #9''" "avahi_utf8_valid ''My Box #9''" by code_simp+
  have "counter (map_option last_mark (after_mark ''My Box #9'')) = Some ''9''" "atoi ''9'' = 9"
    by code_simp+
  then show "atoi d + 1 < 2 ^ 31"
    if "counter (map_option last_mark (after_mark ''My Box #9'')) = Some d" for d
    using that by auto
qed

text \<open>A service name is not checked to be UTF-8; one that is not is an aborted assertion.\<close>

lemma avahi_alternative_service_name_abort:
  "avahi_is_valid_service_name [char_of (200 :: nat), CHR ''A''] \<and>
   avahi_alternative_service_name [char_of (200 :: nat), CHR ''A''] = None"
  by code_simp

end
