(* ===== verification/Timeval.thy ===== *)
theory Timeval
  imports Avahi_Prelude "HOL-Library.Signed_Division"
begin

text \<open>
  \<^verbatim>\<open>avahi-common/timeval.c\<close>: points in time and spans of microseconds. The fields of
  \<open>struct timeval\<close> and \<open>AvahiUsec\<close> are 64 bit signed integers; the model computes with \<^typ>\<open>int\<close>,
  which is what the code does as long as no signed overflow (undefined in C) happens. The
  operators \<open>/\<close> and \<open>%\<close> of C truncate: \<open>sdiv\<close> and \<open>smod\<close>.
\<close>

record timeval =
  tv_sec :: int
  tv_usec :: int

definition avahi_timeval_compare :: "timeval \<Rightarrow> timeval \<Rightarrow> int" where
  "avahi_timeval_compare a b =
     (if tv_sec a < tv_sec b then -1
      else if tv_sec a > tv_sec b then 1
      else if tv_usec a < tv_usec b then -1
      else if tv_usec a > tv_usec b then 1
      else 0)"

function avahi_timeval_diff :: "timeval \<Rightarrow> timeval \<Rightarrow> int" where
  "avahi_timeval_diff a b =
     (if avahi_timeval_compare a b < 0 then - avahi_timeval_diff b a
      else (tv_sec a - tv_sec b) * 1000000 + tv_usec a - tv_usec b)"
  by pat_completeness auto
termination
  by (relation "measure (\<lambda>(a, b). if avahi_timeval_compare a b < 0 then 1 else 0)")
    (auto simp: avahi_timeval_compare_def split: if_splits)

declare avahi_timeval_diff.simps [simp del]

definition avahi_timeval_add :: "timeval \<Rightarrow> int \<Rightarrow> timeval" where
  "avahi_timeval_add a usec =
     (let u = usec + tv_usec a in
      if u < 0 then
        a\<lparr>tv_usec := 1000000 + u smod 1000000, tv_sec := tv_sec a + (-1 + u sdiv 1000000)\<rparr>
      else
        a\<lparr>tv_usec := u smod 1000000, tv_sec := tv_sec a + u sdiv 1000000\<rparr>)"

text \<open>\<open>gettimeofday\<close> is the argument \<open>now\<close>.\<close>

definition avahi_age :: "timeval \<Rightarrow> timeval \<Rightarrow> int" where
  "avahi_age now a = avahi_timeval_diff now a"

text \<open>
  Random spans: \<open>(AvahiUsec) (d * r / (RAND_MAX + 1.0))\<close> in double precision, where \<open>d\<close> is a whole number
  of microseconds below $2^{53}$ and \<open>r\<close> a result of \<open>rand\<close>, below $2^{31}$. Both are exact as doubles; the
  product is rounded to 53 binary digits, to the nearest and half to even; the division by $2^{31}$ is
  exact; and the conversion cuts off the fraction.
\<close>

fun excess_digits :: "nat \<Rightarrow> nat" where
  "excess_digits n = (if n < 2 ^ 53 then 0 else Suc (excess_digits (n div 2)))"

declare excess_digits.simps [simp del]

definition double_round :: "nat \<Rightarrow> nat" where
  "double_round n =
     (if n < 2 ^ 53 then n
      else
        let k = excess_digits n;
            q = n div 2 ^ k;
            r = n mod 2 ^ k;
            half = 2 ^ (k - 1)
        in (if r > half \<or> r = half \<and> odd q then q + 1 else q) * 2 ^ k)"

definition rand_scale :: "nat \<Rightarrow> int \<Rightarrow> int" where
  "rand_scale d r = int (double_round (d * nat r) div 2 ^ 31)"

text \<open>
  The static variables of \<open>avahi_elapse_time\<close>. Its other inputs are the results of \<open>gettimeofday\<close>, \<open>time\<close>
  and \<open>rand\<close>.
\<close>

record elapse_static =
  last_rand :: int
  timestamp :: int

definition avahi_elapse_time ::
  "timeval \<Rightarrow> int \<Rightarrow> int \<Rightarrow> nat \<Rightarrow> nat \<Rightarrow> elapse_static \<Rightarrow> timeval \<times> elapse_static" where
  "avahi_elapse_time gettimeofday time_now rand_now msec jitter st =
     (let tv = gettimeofday;
          tv = (if msec \<noteq> 0 then avahi_timeval_add tv (int msec * 1000) else tv)
      in if jitter \<noteq> 0 then
           let st = (if time_now \<ge> timestamp st + 10
                     then st\<lparr>timestamp := time_now, last_rand := rand_now\<rparr> else st);
               r = last_rand st
           in (avahi_timeval_add tv (rand_scale (jitter * 1000) r), st)
         else (tv, st))"

section \<open>Lemmas\<close>

text \<open>A point in time as a number of microseconds, and normal form.\<close>

definition usecs :: "timeval \<Rightarrow> int" where
  "usecs t = tv_sec t * 1000000 + tv_usec t"

definition tv_norm :: "timeval \<Rightarrow> bool" where
  "tv_norm t = (0 \<le> tv_usec t \<and> tv_usec t < 1000000)"

lemma smod_sdiv: "(u :: int) sdiv k * k + u smod k = u"
  by (rule sdiv_mult_smod_eq)

lemma smod_nonneg: "0 \<le> (u :: int) \<Longrightarrow> 0 < k \<Longrightarrow> u smod k = u mod k"
  by (simp add: signed_modulo_int_def signed_divide_int_def sgn_if minus_div_mult_eq_mod [symmetric])

lemma smod_neg: "(u :: int) < 0 \<Longrightarrow> 0 < k \<Longrightarrow> u smod k = - (- u mod k)"
  by (simp add: signed_modulo_int_def signed_divide_int_def sgn_if minus_div_mult_eq_mod [symmetric])

lemma usecs_add [simp]: "usecs (avahi_timeval_add a u) = usecs a + u"
  using smod_sdiv [of "u + tv_usec a" 1000000]
  by (simp add: usecs_def avahi_timeval_add_def Let_def algebra_simps)

lemma avahi_timeval_diff_usecs: "avahi_timeval_diff a b = usecs a - usecs b"
proof -
  have "avahi_timeval_diff b a = usecs b - usecs a" if "avahi_timeval_compare a b < 0"
    using that by (subst avahi_timeval_diff.simps)
      (auto simp: usecs_def avahi_timeval_compare_def algebra_simps split: if_splits)
  then show ?thesis
    by (subst avahi_timeval_diff.simps) (auto simp: usecs_def algebra_simps)
qed

lemma avahi_timeval_compare_norm:
  "tv_norm a \<Longrightarrow> tv_norm b \<Longrightarrow>
   avahi_timeval_compare a b = (if usecs a < usecs b then -1 else if usecs a > usecs b then 1 else 0)"
  by (auto simp: avahi_timeval_compare_def tv_norm_def usecs_def)

interpretation timeval_order: c_compare avahi_timeval_compare
  by unfold_locales (auto simp: avahi_timeval_compare_def split: if_splits)

lemma avahi_timeval_compare_0: "avahi_timeval_compare a b = 0 \<longleftrightarrow> a = b"
  by (auto simp: avahi_timeval_compare_def timeval.equality)

lemma avahi_timeval_add_norm:
  "tv_norm (avahi_timeval_add a u) \<longleftrightarrow>
     \<not> (u + tv_usec a < 0 \<and> (u + tv_usec a) mod 1000000 = 0)"
proof (cases "u + tv_usec a < 0")
  case True
  let ?u = "u + tv_usec a"
  have "- ?u mod 1000000 = 0 \<longleftrightarrow> ?u mod 1000000 = 0"
    by (simp only: mod_eq_0_iff_dvd dvd_minus_iff)
  moreover have "0 \<le> - ?u mod 1000000" "- ?u mod 1000000 < 1000000" by simp_all
  moreover have "?u smod 1000000 = - (- ?u mod 1000000)" using True by (rule smod_neg) simp
  moreover have "tv_usec (avahi_timeval_add a u) = 1000000 + ?u smod 1000000"
    using True by (simp add: avahi_timeval_add_def Let_def)
  ultimately show ?thesis using True unfolding tv_norm_def by linarith
next
  case False
  then have "(u + tv_usec a) smod 1000000 = (u + tv_usec a) mod 1000000" by (intro smod_nonneg) auto
  with False show ?thesis
    by (simp add: tv_norm_def avahi_timeval_add_def Let_def)
qed

text \<open>A random span is at least 0 and at most \<open>d\<close>. (It can be \<open>d\<close>, when the product is rounded up.)\<close>

lemma excess_digits_bounds:
  assumes "2 ^ 53 \<le> n"
  shows "excess_digits n \<noteq> 0 \<and> 2 ^ excess_digits n * 2 ^ 52 \<le> n"
  using assms
proof (induction n rule: excess_digits.induct)
  case (1 n)
  show ?case
  proof (cases "n div 2 < 2 ^ 53")
    case True
    then have "excess_digits (n div 2) = 0" by (subst excess_digits.simps) simp
    with 1(2) show ?thesis by (subst (1 2) excess_digits.simps) simp
  next
    case False
    with 1 have "2 ^ excess_digits (n div 2) * 2 ^ 52 \<le> n div 2" by simp
    with 1(2) show ?thesis by (subst (1 2) excess_digits.simps) simp
  qed
qed

lemma double_round_bound:
  assumes "n + d \<le> d * 2 ^ 31" "n < d * 2 ^ 31"
  shows "double_round n \<le> d * 2 ^ 31"
proof (cases "n < 2 ^ 53")
  case True
  with assms(1) show ?thesis by (simp add: double_round_def)
next
  case False
  define k where "k = excess_digits n"
  have k: "k \<noteq> 0" "2 ^ k * 2 ^ 52 \<le> n" using excess_digits_bounds [of n] False by (simp_all add: k_def)
  have "(2 ^ k * 2 ^ 21) * 2 ^ 31 < d * 2 ^ 31"
    using k(2) assms(2) by (simp add: mult.assoc flip: power_add)
  then have d: "2 ^ k * 2 ^ 21 < d" by (rule mult_less_cancel2 [THEN iffD1, THEN conjunct2])
  define q r where "q = n div 2 ^ k" and "r = n mod 2 ^ k"
  have qr: "q * 2 ^ k + r = n" unfolding q_def r_def by (rule div_mult_mod_eq)
  have "2 * 2 ^ (k - 1) = (2 :: nat) ^ k" using k(1) by (simp add: power_eq_if)
  then have "(if r > 2 ^ (k - 1) \<or> r = 2 ^ (k - 1) \<and> odd q then q + 1 else q) * 2 ^ k \<le> n + 2 ^ k"
    unfolding qr [symmetric] by auto
  also have "\<dots> \<le> n + d" using d by simp
  also note assms(1)
  finally show ?thesis
    unfolding double_round_def Let_def k_def [symmetric] q_def [symmetric] r_def [symmetric] if_not_P [OF False] .
qed

lemma rand_scale_range:
  assumes "0 \<le> r" "r < 2 ^ 31"
  shows "0 \<le> rand_scale d r" "rand_scale d r \<le> int d"
proof -
  have r: "nat r < 2 ^ 31" using assms by (simp add: nat_less_iff)
  show "0 \<le> rand_scale d r" by (simp add: rand_scale_def)
  show "rand_scale d r \<le> int d"
  proof (cases "d = 0")
    case True
    then show ?thesis by (simp add: rand_scale_def double_round_def)
  next
    case False
    have "d * Suc (nat r) \<le> d * 2 ^ 31" using r by (intro mult_le_mono2) simp
    then have "double_round (d * nat r) \<le> d * 2 ^ 31" using False by (intro double_round_bound) simp_all
    then show ?thesis unfolding rand_scale_def by (simp add: div_le_mono less_mult_imp_div_less Suc_leI)
  qed
qed

lemma rand_scale_examples:
  "rand_scale 1000000 (2 ^ 30) = 500000" "rand_scale 20000 (2 ^ 31 - 1) = 19999"
  "rand_scale (4 * 10 ^ 9 * 20000) (2 ^ 31 - 1) = 4 * 10 ^ 9 * 20000 - 37253"
  by (simp_all add: rand_scale_def double_round_def excess_digits.simps)

text \<open>Without jitter there is no random part.\<close>

lemma elapse_time_plain: "avahi_elapse_time now t rnd msec 0 st = (if msec = 0 then now else avahi_timeval_add now (int msec * 1000), st)"
  by (simp add: avahi_elapse_time_def)

section \<open>Properties\<close>

text \<open>Arithmetic of points in time is exact: adding \<open>u\<close> microseconds and taking the difference
  to the start gives \<open>u\<close>, adding twice is adding the sum as far as differences go, and
  differences are antisymmetric; \<open>avahi_timeval_compare\<close> is a total order. On normalized times the order agrees
  with the difference, and adding a span keeps a time normalized, except when the sum of the span and the
  microseconds field is a negative multiple of a second.\<close>

theorem avahi_timeval_add_order:
  "avahi_timeval_diff (avahi_timeval_add a u) a = u \<and>
   avahi_timeval_diff (avahi_timeval_add (avahi_timeval_add a u) v) (avahi_timeval_add a (u + v)) = 0 \<and>
   avahi_timeval_diff a b = - avahi_timeval_diff b a \<and>
   (avahi_timeval_compare a b = 0 \<longleftrightarrow> a = b) \<and>
   avahi_timeval_compare a b = - avahi_timeval_compare b a \<and>
   (tv_norm a \<and> tv_norm b \<longrightarrow> avahi_timeval_compare a b = sgn (avahi_timeval_diff a b)) \<and>
   (tv_norm (avahi_timeval_add a u) \<longleftrightarrow> u + tv_usec a \<ge> 0 \<or> (u + tv_usec a) mod 1000000 \<noteq> 0)"
proof -
  have "avahi_timeval_compare a b = - avahi_timeval_compare b a" by (simp add: avahi_timeval_compare_def)
  then show ?thesis
    using avahi_timeval_add_norm [of a u]
    by (auto simp: avahi_timeval_diff_usecs avahi_timeval_compare_0 avahi_timeval_compare_norm sgn_if)
qed

theorem avahi_timeval_add_order_witness:
  "avahi_timeval_compare \<lparr>tv_sec = 1, tv_usec = 0\<rparr> \<lparr>tv_sec = 0, tv_usec = 999999\<rparr> =
     sgn (avahi_timeval_diff \<lparr>tv_sec = 1, tv_usec = 0\<rparr> \<lparr>tv_sec = 0, tv_usec = 999999\<rparr>) \<and>
   tv_norm (avahi_timeval_add \<lparr>tv_sec = 1, tv_usec = 0\<rparr> 2500000)"
proof -
  let ?a = "\<lparr>tv_sec = 1, tv_usec = 0\<rparr>" and ?b = "\<lparr>tv_sec = 0, tv_usec = 999999\<rparr>"
  have "tv_norm ?a" "tv_norm ?b" "2500000 + tv_usec ?a \<ge> 0" by (simp_all add: tv_norm_def)
  with avahi_timeval_add_order [of ?a 2500000 0 ?b] show ?thesis by blast
qed

text \<open>Going back by a whole number of seconds from a full second leaves \<open>tv_usec\<close> at one million:
  the result is not normalized, although it denotes the right point in time, and it compares as
  different from the normalized form of the same point.\<close>

theorem avahi_timeval_add_denormal:
  "avahi_timeval_add \<lparr>tv_sec = s, tv_usec = 0\<rparr> (- 1000000) = \<lparr>tv_sec = s - 2, tv_usec = 1000000\<rparr> \<and>
   avahi_timeval_compare (avahi_timeval_add \<lparr>tv_sec = s, tv_usec = 0\<rparr> (- 1000000))
     \<lparr>tv_sec = s - 1, tv_usec = 0\<rparr> = -1 \<and>
   avahi_timeval_diff (avahi_timeval_add \<lparr>tv_sec = s, tv_usec = 0\<rparr> (- 1000000))
     \<lparr>tv_sec = s - 1, tv_usec = 0\<rparr> = 0"
proof -
  have "avahi_timeval_add \<lparr>tv_sec = s, tv_usec = 0\<rparr> (- 1000000) = \<lparr>tv_sec = s - 2, tv_usec = 1000000\<rparr>"
    by (simp add: avahi_timeval_add_def Let_def smod_neg signed_divide_int_def)
  then show ?thesis
    by (simp add: avahi_timeval_compare_def avahi_timeval_diff_usecs usecs_def)
qed

text \<open>A time from \<open>avahi_elapse_time\<close> lies at least \<open>msec\<close> milliseconds ahead, at most \<open>jitter\<close>
  milliseconds more, and is normalized; within ten seconds of the last drawing the same random
  number is used again.\<close>

theorem avahi_elapse_time_range:
  assumes "tv_norm now" "0 \<le> rnd \<and> rnd < 2 ^ 31" "0 \<le> last_rand st \<and> last_rand st < 2 ^ 31"
    and "avahi_elapse_time now t rnd msec jitter st = (tv, st')"
  shows "int msec * 1000 \<le> avahi_timeval_diff tv now \<and>
         avahi_timeval_diff tv now \<le> (int msec + int jitter) * 1000 \<and> tv_norm tv \<and>
         0 \<le> last_rand st' \<and> last_rand st' < 2 ^ 31 \<and>
         (t < timestamp st + 10 \<longrightarrow> st' = st)"
proof -
  define tv1 where "tv1 = (if msec \<noteq> 0 then avahi_timeval_add now (int msec * 1000) else now)"
  have 1: "usecs tv1 = usecs now + int msec * 1000" "tv_norm tv1"
    using assms(1) by (auto simp: tv1_def avahi_timeval_add_norm) (auto simp: tv_norm_def)
  consider (no) "jitter = 0" "tv = tv1" "st' = st"
    | (yes) "jitter \<noteq> 0" "tv = avahi_timeval_add tv1 (rand_scale (jitter * 1000) (last_rand st'))"
        "t < timestamp st + 10 \<longrightarrow> st' = st" "0 \<le> last_rand st' \<and> last_rand st' < 2 ^ 31"
    using assms(2-4) by (auto simp: avahi_elapse_time_def tv1_def Let_def split: if_splits)
  then show ?thesis
  proof cases
    case no
    with 1 assms(3) show ?thesis by (simp add: avahi_timeval_diff_usecs)
  next
    case yes
    note s = rand_scale_range [of "last_rand st'" "jitter * 1000"]
    have "tv_norm tv"
      using 1(2) s yes(4) by (auto simp: yes(2) avahi_timeval_add_norm) (auto simp: tv_norm_def)
    with yes 1 s show ?thesis
      by (auto simp: avahi_timeval_diff_usecs algebra_simps)
  qed
qed

theorem avahi_elapse_time_range_witness:
  "\<exists>tv st. avahi_elapse_time \<lparr>tv_sec = 5, tv_usec = 999000\<rparr> 7 3 20 10 \<lparr>last_rand = 1, timestamp = 0\<rparr> = (tv, st) \<and>
     20000 \<le> avahi_timeval_diff tv \<lparr>tv_sec = 5, tv_usec = 999000\<rparr> \<and>
     avahi_timeval_diff tv \<lparr>tv_sec = 5, tv_usec = 999000\<rparr> \<le> 30000 \<and> tv_norm tv"
proof -
  obtain tv st where "avahi_elapse_time \<lparr>tv_sec = 5, tv_usec = 999000\<rparr> 7 3 20 10 \<lparr>last_rand = 1, timestamp = 0\<rparr> =
    (tv, st)" by fastforce
  with avahi_elapse_time_range [OF _ _ _ this] show ?thesis
    by (intro exI [of _ tv] exI [of _ st]) (simp add: tv_norm_def)
qed

end
