(* ===== verification/Hashmap.thy ===== *)
theory Hashmap
  imports Domain_Compare
begin

text \<open>
  \<^verbatim>\<open>avahi-core/hashmap.c\<close>: hash tables with 123 buckets and a list of all entries. Entries are
  addresses; the fields \<open>key\<close> and \<open>value\<close> of the entries are functions of the address, the
  intrusive lists (the macros of \<^verbatim>\<open>avahi-common/llist.h\<close>) are lists of addresses, and an
  allocation takes the next unused address. The calls of \<open>key_free_func\<close> and
  \<open>value_free_func\<close> are returned as a list of events, in the order in which they are made.
\<close>

section \<open>Model\<close>

definition HASH_MAP_SIZE :: nat where "HASH_MAP_SIZE = 123"

datatype ('k, 'v) free_event = Free_Key 'k | Free_Value 'v

record ('k, 'v) AvahiHashmap =
  hash_func :: "'k \<Rightarrow> u32"
  equal_func :: "'k \<Rightarrow> 'k \<Rightarrow> bool"
  key_free_func :: bool
  value_free_func :: bool
  ekey :: "nat \<Rightarrow> 'k"
  evalue :: "nat \<Rightarrow> 'v"
  buckets :: "nat \<Rightarrow> nat list"
  entries_list :: "nat list"
  next_entry :: nat

definition bucket_idx :: "('k, 'v) AvahiHashmap \<Rightarrow> 'k \<Rightarrow> nat" where
  "bucket_idx m k = unat (hash_func m k) mod HASH_MAP_SIZE"

definition entry_get :: "('k, 'v) AvahiHashmap \<Rightarrow> 'k \<Rightarrow> nat option" where
  "entry_get m k = find (\<lambda>e. equal_func m k (ekey m e)) (buckets m (bucket_idx m k))"

definition free_key :: "('k, 'v) AvahiHashmap \<Rightarrow> 'k \<Rightarrow> ('k, 'v) free_event list" where
  "free_key m k = (if key_free_func m then [Free_Key k] else [])"

definition free_value :: "('k, 'v) AvahiHashmap \<Rightarrow> 'v \<Rightarrow> ('k, 'v) free_event list" where
  "free_value m v = (if value_free_func m then [Free_Value v] else [])"

definition entry_free ::
  "('k, 'v) AvahiHashmap \<Rightarrow> nat \<Rightarrow> bool \<Rightarrow> ('k, 'v) AvahiHashmap \<times> ('k, 'v) free_event list" where
  "entry_free m e stolen =
     (let idx = bucket_idx m (ekey m e) in
      (m\<lparr>buckets := (buckets m)(idx := remove1 e (buckets m idx)),
         entries_list := remove1 e (entries_list m)\<rparr>,
       free_key m (ekey m e) @ (if \<not> stolen then free_value m (evalue m e) else [])))"

definition avahi_hashmap_new ::
  "('k \<Rightarrow> u32) \<Rightarrow> ('k \<Rightarrow> 'k \<Rightarrow> bool) \<Rightarrow> bool \<Rightarrow> bool \<Rightarrow> ('k, 'v) AvahiHashmap" where
  "avahi_hashmap_new h eq kf vf =
     \<lparr>hash_func = h, equal_func = eq, key_free_func = kf, value_free_func = vf,
      ekey = (\<lambda>_. undefined), evalue = (\<lambda>_. undefined), buckets = (\<lambda>_. []),
      entries_list = [], next_entry = 0\<rparr>"

function avahi_hashmap_free :: "('k, 'v) AvahiHashmap \<Rightarrow> ('k, 'v) free_event list" where
  "avahi_hashmap_free m =
     (case entries_list m of
        [] \<Rightarrow> []
      | e # es \<Rightarrow> let (m', fr) = entry_free m e False in fr @ avahi_hashmap_free m')"
  by pat_completeness auto
termination
  by (relation "measure (\<lambda>m. length (entries_list m))") (auto simp: entry_free_def Let_def)

declare avahi_hashmap_free.simps [simp del]

text \<open>\<^const>\<open>None\<close> is NULL.\<close>

definition avahi_hashmap_lookup :: "('k, 'v) AvahiHashmap \<Rightarrow> 'k \<Rightarrow> 'v option" where
  "avahi_hashmap_lookup m k = map_option (evalue m) (entry_get m k)"

text \<open>The second half of \<open>avahi_hashmap_insert\<close> and \<open>avahi_hashmap_replace\<close>: a new entry.\<close>

definition new_entry :: "('k, 'v) AvahiHashmap \<Rightarrow> 'k \<Rightarrow> 'v \<Rightarrow> ('k, 'v) AvahiHashmap" where
  "new_entry m k v =
     (let e = next_entry m; idx = bucket_idx m k in
      m\<lparr>next_entry := Suc e, ekey := (ekey m)(e := k), evalue := (evalue m)(e := v),
        entries_list := e # entries_list m,
        buckets := (buckets m)(idx := e # buckets m idx)\<rparr>)"

definition avahi_hashmap_insert ::
  "('k, 'v) AvahiHashmap \<Rightarrow> 'k \<Rightarrow> 'v \<Rightarrow> int \<times> ('k, 'v) AvahiHashmap \<times> ('k, 'v) free_event list" where
  "avahi_hashmap_insert m k v =
     (case entry_get m k of
        Some e \<Rightarrow> (1, m, free_key m k @ free_value m v)
      | None \<Rightarrow> (0, new_entry m k v, []))"

definition avahi_hashmap_replace ::
  "('k, 'v) AvahiHashmap \<Rightarrow> 'k \<Rightarrow> 'v \<Rightarrow> int \<times> ('k, 'v) AvahiHashmap \<times> ('k, 'v) free_event list" where
  "avahi_hashmap_replace m k v =
     (case entry_get m k of
        Some e \<Rightarrow>
          (1, m\<lparr>ekey := (ekey m)(e := k), evalue := (evalue m)(e := v)\<rparr>,
           free_key m (ekey m e) @ free_value m (evalue m e))
      | None \<Rightarrow> (0, new_entry m k v, []))"

definition avahi_hashmap_remove ::
  "('k, 'v) AvahiHashmap \<Rightarrow> 'k \<Rightarrow> ('k, 'v) AvahiHashmap \<times> ('k, 'v) free_event list" where
  "avahi_hashmap_remove m k =
     (case entry_get m k of
        None \<Rightarrow> (m, [])
      | Some e \<Rightarrow> entry_free m e False)"

text \<open>
  The callback gets the table and a state \<open>'s\<close> of its own. It may remove the entry that it is called
  with, since the next entry is determined before the call; so the walk follows the list of
  entries as it was at the start.
\<close>

fun foreach_loop ::
  "('k \<Rightarrow> 'v \<Rightarrow> ('k, 'v) AvahiHashmap \<times> 's \<Rightarrow> ('k, 'v) AvahiHashmap \<times> 's) \<Rightarrow> nat list \<Rightarrow>
   ('k, 'v) AvahiHashmap \<times> 's \<Rightarrow> ('k, 'v) AvahiHashmap \<times> 's" where
  "foreach_loop callback [] (m, s) = (m, s)"
| "foreach_loop callback (e # es) (m, s) =
     foreach_loop callback es (callback (ekey m e) (evalue m e) (m, s))"

definition avahi_hashmap_foreach ::
  "('k, 'v) AvahiHashmap \<Rightarrow> ('k \<Rightarrow> 'v \<Rightarrow> ('k, 'v) AvahiHashmap \<times> 's \<Rightarrow> ('k, 'v) AvahiHashmap \<times> 's) \<Rightarrow>
   's \<Rightarrow> ('k, 'v) AvahiHashmap \<times> 's" where
  "avahi_hashmap_foreach m callback s = foreach_loop callback (entries_list m) (m, s)"

definition avahi_string_hash :: "string \<Rightarrow> u32" where
  "avahi_string_hash data = foldl (\<lambda>hash p. 31 * hash + char_promote p) 0 data"

definition avahi_string_equal :: "string \<Rightarrow> string \<Rightarrow> bool" where
  "avahi_string_equal a b = (strcmp a b = 0)"

definition avahi_int_hash :: "32 word \<Rightarrow> u32" where
  "avahi_int_hash i = i"

definition avahi_int_equal :: "32 word \<Rightarrow> 32 word \<Rightarrow> bool" where
  "avahi_int_equal a b = (a = b)"

section \<open>The contract of the hash and equality functions\<close>

text \<open>
  On the keys that are used (\<open>ok\<close>), equality is an equivalence and equal keys have the same hash.
\<close>

locale hash_contract =
  fixes hash :: "'k \<Rightarrow> u32" and equal :: "'k \<Rightarrow> 'k \<Rightarrow> bool" and ok :: "'k \<Rightarrow> bool"
  assumes equal_refl: "ok a \<Longrightarrow> equal a a"
    and equal_sym: "ok a \<Longrightarrow> ok b \<Longrightarrow> equal a b \<Longrightarrow> equal b a"
    and equal_trans: "ok a \<Longrightarrow> ok b \<Longrightarrow> ok c \<Longrightarrow> equal a b \<Longrightarrow> equal b c \<Longrightarrow> equal a c"
    and equal_hash: "ok a \<Longrightarrow> ok b \<Longrightarrow> equal a b \<Longrightarrow> hash a = hash b"

text \<open>
  The invariant: the buckets partition the entries by the hash of their keys, and no two entries
  have equal keys.
\<close>

definition hm_inv ::
  "('k \<Rightarrow> u32) \<Rightarrow> ('k \<Rightarrow> 'k \<Rightarrow> bool) \<Rightarrow> ('k \<Rightarrow> bool) \<Rightarrow> ('k, 'v) AvahiHashmap \<Rightarrow> bool" where
  "hm_inv hash equal ok m =
     (hash_func m = hash \<and> equal_func m = equal \<and>
      distinct (entries_list m) \<and>
      (\<forall>e \<in> set (entries_list m). e < next_entry m \<and> ok (ekey m e)) \<and>
      (\<forall>i. distinct (buckets m i) \<and>
           set (buckets m i) = {e \<in> set (entries_list m). bucket_idx m (ekey m e) = i}) \<and>
      (\<forall>e \<in> set (entries_list m). \<forall>e' \<in> set (entries_list m).
         equal (ekey m e) (ekey m e') \<longrightarrow> e = e'))"

lemma hm_inv_new: "hm_inv h eq ok (avahi_hashmap_new h eq kf vf)"
  by (simp add: hm_inv_def avahi_hashmap_new_def)

lemma hm_invD:
  assumes "hm_inv hash equal ok m"
  shows "hash_func m = hash" "equal_func m = equal" "distinct (entries_list m)"
    and "e \<in> set (entries_list m) \<Longrightarrow> e < next_entry m"
    and "e \<in> set (entries_list m) \<Longrightarrow> ok (ekey m e)"
    and "distinct (buckets m i)"
    and "set (buckets m i) = {e \<in> set (entries_list m). bucket_idx m (ekey m e) = i}"
    and "e \<in> set (entries_list m) \<Longrightarrow> e' \<in> set (entries_list m) \<Longrightarrow>
      equal (ekey m e) (ekey m e') \<Longrightarrow> e = e'"
  using assms unfolding hm_inv_def by auto

lemma hm_inv_fresh: "hm_inv hash equal ok m \<Longrightarrow> next_entry m \<notin> set (entries_list m)"
  using hm_invD(4) by blast

lemma option_eqI: "(\<And>y. a = Some y \<longleftrightarrow> b = Some y) \<Longrightarrow> a = b"
  by (cases a; cases b) auto

text \<open>Removing, during a walk, every entry whose value satisfies a condition.\<close>

definition sweep :: "('v \<Rightarrow> bool) \<Rightarrow> 'k \<Rightarrow> 'v \<Rightarrow> ('k, 'v) AvahiHashmap \<times> 's \<Rightarrow> ('k, 'v) AvahiHashmap \<times> 's" where
  "sweep P k v ms = (if P v then (fst (avahi_hashmap_remove (fst ms) k), snd ms) else ms)"

context hash_contract
begin

lemma equal_commute: "ok a \<Longrightarrow> ok b \<Longrightarrow> equal a b \<longleftrightarrow> equal b a"
  using equal_sym by blast

lemma equal_cong:
  assumes "ok a" "ok b" "ok c" "equal a b"
  shows "equal a c \<longleftrightarrow> equal b c" "equal c a \<longleftrightarrow> equal c b"
  using assms equal_trans [of a b c] equal_trans [of b a c] equal_trans [of c a b]
    equal_trans [of c b a] equal_sym [of a b] by blast+

lemma entries_uniq:
  assumes "hm_inv hash equal ok m" "ok k" "e \<in> set (entries_list m)" "e' \<in> set (entries_list m)"
    and "equal k (ekey m e)" "equal k (ekey m e')"
  shows "e = e'"
proof (rule hm_invD(8) [OF assms(1,3,4)])
  show "equal (ekey m e) (ekey m e')"
    using equal_cong(1) [OF assms(2) hm_invD(5) [OF assms(1,3)] hm_invD(5) [OF assms(1,4)] assms(5)]
      assms(6) by blast
qed

lemma entry_get_Some:
  assumes "hm_inv hash equal ok m" "ok k"
  shows "entry_get m k = Some e \<longleftrightarrow> e \<in> set (entries_list m) \<and> equal k (ekey m e)"
proof -
  note inv = hm_invD [OF assms(1)]
  have bucket: "e \<in> set (buckets m (bucket_idx m k)) \<and> equal k (ekey m e) \<longleftrightarrow>
     e \<in> set (entries_list m) \<and> equal k (ekey m e)" for e
    using inv(5) [of e] equal_hash [OF assms(2), of "ekey m e"]
    by (auto simp: inv(7) bucket_idx_def inv(1))
  have Some: "e \<in> set (buckets m (bucket_idx m k)) \<and> equal k (ekey m e)"
    if "entry_get m k = Some e" for e
    using that unfolding entry_get_def find_Some_iff inv(2) by auto
  show ?thesis
  proof
    assume "entry_get m k = Some e"
    then show "e \<in> set (entries_list m) \<and> equal k (ekey m e)" using Some bucket by blast
  next
    assume e: "e \<in> set (entries_list m) \<and> equal k (ekey m e)"
    then have "entry_get m k \<noteq> None"
      using bucket unfolding entry_get_def find_None_iff inv(2) by blast
    then obtain e' where e': "entry_get m k = Some e'" by blast
    with e Some [OF e'] bucket show "entry_get m k = Some e"
      using entries_uniq [OF assms] by blast
  qed
qed

lemma entry_get_None:
  assumes "hm_inv hash equal ok m" "ok k"
  shows "entry_get m k = None \<longleftrightarrow> (\<forall>e \<in> set (entries_list m). \<not> equal k (ekey m e))"
  using entry_get_Some [OF assms] by (cases "entry_get m k") auto

lemma new_entry_inv:
  assumes "hm_inv hash equal ok m" "ok k" "entry_get m k = None"
  shows "hm_inv hash equal ok (new_entry m k v)"
proof -
  note inv = hm_invD [OF assms(1)] and fresh = hm_inv_fresh [OF assms(1)]
  have no: "\<not> equal k (ekey m e) \<and> \<not> equal (ekey m e) k" if "e \<in> set (entries_list m)" for e
    using that entry_get_None [OF assms(1,2)] assms(3) equal_commute [OF assms(2) inv(5) [OF that]]
    by blast
  have new: "entries_list (new_entry m k v) = next_entry m # entries_list m"
    "ekey (new_entry m k v) = (ekey m)(next_entry m := k)"
    "next_entry (new_entry m k v) = Suc (next_entry m)"
    "buckets (new_entry m k v) = (buckets m)(bucket_idx m k := next_entry m # buckets m (bucket_idx m k))"
    "hash_func (new_entry m k v) = hash" "equal_func (new_entry m k v) = equal"
    "bucket_idx (new_entry m k v) = bucket_idx m"
    by (simp_all add: new_entry_def Let_def inv(1,2) bucket_idx_def fun_eq_iff)
  show ?thesis
    unfolding hm_inv_def new
    using inv(3-5) inv(6,7) inv(8) fresh no assms(2)
    by (auto simp: less_SucI)
qed

lemma entry_free_fields:
  assumes "hm_inv hash equal ok m"
  shows "ekey (fst (entry_free m e stolen)) = ekey m" "evalue (fst (entry_free m e stolen)) = evalue m"
    "set (entries_list (fst (entry_free m e stolen))) = set (entries_list m) - {e}"
    "bucket_idx (fst (entry_free m e stolen)) = bucket_idx m"
    "set (buckets (fst (entry_free m e stolen)) i) =
       (if i = bucket_idx m (ekey m e) then set (buckets m i) - {e} else set (buckets m i))"
  using hm_invD(3,6) [OF assms]
  by (simp_all add: entry_free_def Let_def bucket_idx_def fun_eq_iff)

lemma entry_free_inv:
  assumes "hm_inv hash equal ok m" "e \<in> set (entries_list m)"
  shows "hm_inv hash equal ok (fst (entry_free m e stolen))"
proof -
  note inv = hm_invD [OF assms(1)]
  have "distinct (entries_list (fst (entry_free m e stolen)))"
    "distinct (buckets (fst (entry_free m e stolen)) i)"
    "next_entry (fst (entry_free m e stolen)) = next_entry m"
    "hash_func (fst (entry_free m e stolen)) = hash" "equal_func (fst (entry_free m e stolen)) = equal" for i
    using inv(1,2,3,6) by (simp_all add: entry_free_def Let_def)
  then show ?thesis
    unfolding hm_inv_def entry_free_fields [OF assms(1)] using inv(4,5,7,8) by auto
qed

lemma replace_inv:
  assumes "hm_inv hash equal ok m" "ok k" "entry_get m k = Some e"
  shows "hm_inv hash equal ok (m\<lparr>ekey := (ekey m)(e := k), evalue := (evalue m)(e := v)\<rparr>)"
    (is "hm_inv _ _ _ ?m")
proof -
  note inv = hm_invD [OF assms(1)]
  have e: "e \<in> set (entries_list m)" "equal k (ekey m e)"
    using assms(3) [unfolded entry_get_Some [OF assms(1,2)]] by simp_all
  have h: "bucket_idx m k = bucket_idx m (ekey m e)"
    using equal_hash [OF assms(2) inv(5) [OF e(1)] e(2)] by (simp add: bucket_idx_def inv(1))
  have same: "e' = e" if "e' \<in> set (entries_list m)" "equal k (ekey m e') \<or> equal (ekey m e') k" for e'
  proof -
    have "equal k (ekey m e')"
      using that(2) equal_commute [OF assms(2) inv(5) [OF that(1)]] by simp
    then show ?thesis by (rule entries_uniq [OF assms(1,2) that(1) e(1) _ e(2)])
  qed
  have new: "entries_list ?m = entries_list m" "ekey ?m = (ekey m)(e := k)"
    "next_entry ?m = next_entry m" "buckets ?m = buckets m"
    "hash_func ?m = hash" "equal_func ?m = equal" "bucket_idx ?m = bucket_idx m"
    by (simp_all add: inv(1,2)) (simp add: bucket_idx_def fun_eq_iff)
  have idx: "bucket_idx m (((ekey m)(e := k)) x) = bucket_idx m (ekey m x)" for x
    by (cases "x = e") (simp_all add: h)
  show ?thesis
    unfolding hm_inv_def new idx inv(7)
  proof (intro conjI ballI allI impI)
    fix x y
    assume xy: "x \<in> set (entries_list m)" "y \<in> set (entries_list m)"
      "equal (((ekey m)(e := k)) x) (((ekey m)(e := k)) y)"
    consider "x = e" | "y = e" | "x \<noteq> e" "y \<noteq> e" by blast
    then show "x = y"
    proof cases
      case 1
      with xy(3) have "y \<noteq> e \<Longrightarrow> equal k (ekey m y)" by simp
      with same [OF xy(2)] 1 show ?thesis by blast
    next
      case 2
      with xy(3) have "x \<noteq> e \<Longrightarrow> equal (ekey m x) k" by simp
      with same [OF xy(1)] 2 show ?thesis by blast
    next
      case 3
      with xy inv(8) [OF xy(1,2)] show ?thesis by simp
    qed
  next
    fix x
    assume "x \<in> set (entries_list m)"
    then show "ok (((ekey m)(e := k)) x)" using inv(5) assms(2) by simp
  qed (use inv(3,4,6) in simp_all)
qed

lemma insert_inv:
  "hm_inv hash equal ok m \<Longrightarrow> ok k \<Longrightarrow>
   hm_inv hash equal ok (fst (snd (avahi_hashmap_insert m k v)))"
  by (auto simp: avahi_hashmap_insert_def new_entry_inv split: option.split)

lemma replace_op_inv:
  "hm_inv hash equal ok m \<Longrightarrow> ok k \<Longrightarrow>
   hm_inv hash equal ok (fst (snd (avahi_hashmap_replace m k v)))"
  by (auto simp: avahi_hashmap_replace_def new_entry_inv replace_inv split: option.split)

lemma remove_inv:
  "hm_inv hash equal ok m \<Longrightarrow> ok k \<Longrightarrow> hm_inv hash equal ok (fst (avahi_hashmap_remove m k))"
  by (auto simp: avahi_hashmap_remove_def entry_get_Some entry_free_inv split: option.split)

lemma lookup_Some:
  assumes "hm_inv hash equal ok m" "ok k"
  shows "avahi_hashmap_lookup m k = Some v \<longleftrightarrow>
    (\<exists>e \<in> set (entries_list m). equal k (ekey m e) \<and> evalue m e = v)"
  unfolding avahi_hashmap_lookup_def map_option_eq_Some entry_get_Some [OF assms] by blast

lemma lookup_new_entry:
  assumes "hm_inv hash equal ok m" "ok k" "ok k'" "entry_get m k = None"
  shows "avahi_hashmap_lookup (new_entry m k v) k' =
    (if equal k' k then Some v else avahi_hashmap_lookup m k')"
proof -
  note inv = hm_invD [OF assms(1)] and fresh = hm_inv_fresh [OF assms(1)]
  have no: "\<not> equal k' (ekey m e)" if "e \<in> set (entries_list m)" "equal k' k" for e
    using that entry_get_None [OF assms(1,2)] assms(4)
      equal_cong(1) [OF assms(3,2) inv(5) [OF that(1)] that(2)] by blast
  have new: "entries_list (new_entry m k v) = next_entry m # entries_list m"
    "ekey (new_entry m k v) = (ekey m)(next_entry m := k)"
    "evalue (new_entry m k v) = (evalue m)(next_entry m := v)"
    by (simp_all add: new_entry_def Let_def)
  have old: "(\<exists>e \<in> set (entries_list m). equal k' (((ekey m)(next_entry m := k)) e) \<and>
      ((evalue m)(next_entry m := v)) e = w) \<longleftrightarrow> avahi_hashmap_lookup m k' = Some w" for w
    unfolding lookup_Some [OF assms(1,3)]
    by (rule bex_cong [OF refl]) (use fresh in auto)
  have look: "avahi_hashmap_lookup (new_entry m k v) k' = Some w \<longleftrightarrow>
    (equal k' k \<and> w = v) \<or> avahi_hashmap_lookup m k' = Some w" for w
    unfolding lookup_Some [OF new_entry_inv [OF assms(1,2,4)] assms(3)] new list.set bex_simps old
    by auto
  show ?thesis
  proof (rule option_eqI)
    fix w
    have "avahi_hashmap_lookup m k' \<noteq> Some w" if "equal k' k"
      unfolding lookup_Some [OF assms(1,3)] using no that by blast
    with look show "avahi_hashmap_lookup (new_entry m k v) k' = Some w \<longleftrightarrow>
       (if equal k' k then Some v else avahi_hashmap_lookup m k') = Some w" by auto
  qed
qed

lemma lookup_insert:
  assumes "hm_inv hash equal ok m" "ok k" "ok k'"
  shows "avahi_hashmap_lookup (fst (snd (avahi_hashmap_insert m k v))) k' =
    (if equal k' k \<and> avahi_hashmap_lookup m k = None then Some v else avahi_hashmap_lookup m k')"
  using lookup_new_entry [OF assms, of v]
  by (auto simp: avahi_hashmap_insert_def avahi_hashmap_lookup_def split: option.split)

lemma lookup_equal:
  assumes "hm_inv hash equal ok m" "ok k" "ok k'" "equal k' k"
  shows "avahi_hashmap_lookup m k' = avahi_hashmap_lookup m k"
proof -
  have "entry_get m k' = Some e \<longleftrightarrow> entry_get m k = Some e" for e
    unfolding entry_get_Some [OF assms(1,2)] entry_get_Some [OF assms(1,3)]
    using equal_cong(1) [OF assms(3,2) hm_invD(5) [OF assms(1)] assms(4)] by blast
  then have "entry_get m k' = entry_get m k" by (rule option_eqI)
  then show ?thesis by (simp add: avahi_hashmap_lookup_def)
qed

lemma lookup_replace:
  assumes "hm_inv hash equal ok m" "ok k" "ok k'"
  shows "avahi_hashmap_lookup (fst (snd (avahi_hashmap_replace m k v))) k' =
    (if equal k' k then Some v else avahi_hashmap_lookup m k')"
proof (cases "entry_get m k")
  case None
  then show ?thesis using lookup_new_entry [OF assms None] by (simp add: avahi_hashmap_replace_def)
next
  case (Some e)
  let ?m = "m\<lparr>ekey := (ekey m)(e := k), evalue := (evalue m)(e := v)\<rparr>"
  have e: "e \<in> set (entries_list m)" "equal k (ekey m e)"
    using entry_get_Some [OF assms(1,2)] Some by blast+
  have eq: "equal k' k \<longleftrightarrow> equal k' (ekey m e)"
    by (rule equal_cong(2) [OF assms(2) hm_invD(5) [OF assms(1) e(1)] assms(3) e(2)])
  have "entry_get ?m k' = Some e' \<longleftrightarrow> entry_get m k' = Some e'" for e'
    unfolding entry_get_Some [OF replace_inv [OF assms(1,2) Some] assms(3)]
      entry_get_Some [OF assms(1,3)]
    using eq by (cases "e' = e") auto
  then have "entry_get ?m k' = entry_get m k'" by (rule option_eqI)
  moreover have "entry_get m k' = Some e \<longleftrightarrow> equal k' k"
    using entry_get_Some [OF assms(1,3)] e(1) eq by blast
  ultimately show ?thesis
    using Some by (cases "entry_get m k'") (auto simp: avahi_hashmap_replace_def avahi_hashmap_lookup_def)
qed

lemma lookup_remove:
  assumes "hm_inv hash equal ok m" "ok k" "ok k'"
  shows "avahi_hashmap_lookup (fst (avahi_hashmap_remove m k)) k' =
    (if equal k' k then None else avahi_hashmap_lookup m k')"
proof (cases "entry_get m k")
  case None
  then have "avahi_hashmap_lookup m k = None" by (simp add: avahi_hashmap_lookup_def)
  with None lookup_equal [OF assms] show ?thesis by (simp add: avahi_hashmap_remove_def)
next
  case (Some e)
  let ?m = "fst (entry_free m e False)"
  have e: "e \<in> set (entries_list m)" "equal k (ekey m e)"
    using entry_get_Some [OF assms(1,2)] Some by blast+
  note fields = entry_free_fields [OF assms(1), of e False]
  have eq: "equal k' k \<longleftrightarrow> equal k' (ekey m e)"
    by (rule equal_cong(2) [OF assms(2) hm_invD(5) [OF assms(1) e(1)] assms(3) e(2)])
  have "entry_get ?m k' = Some e' \<longleftrightarrow> (if equal k' k then None else entry_get m k') = Some e'" for e'
    using entry_get_Some [OF entry_free_inv [OF assms(1) e(1)] assms(3), of False e']
      entry_get_Some [OF assms(1,3), of e'] entries_uniq [OF assms(1,3) _ e(1), of e'] eq fields
    by auto
  then have "entry_get ?m k' = (if equal k' k then None else entry_get m k')" by (rule option_eqI)
  with Some fields show ?thesis
    by (auto simp: avahi_hashmap_remove_def avahi_hashmap_lookup_def)
qed

lemma entry_get_own:
  assumes "hm_inv hash equal ok m" "e \<in> set (entries_list m)"
  shows "entry_get m (ekey m e) = Some e"
  using assms entry_get_Some [OF assms(1) hm_invD(5) [OF assms]] equal_refl hm_invD(5) [OF assms] by blast

lemma foreach_sweep:
  assumes "hm_inv hash equal ok m" "set es \<subseteq> set (entries_list m)" "distinct es"
  shows "let m' = fst (foreach_loop (sweep P) es (m, s)) in
    hm_inv hash equal ok m' \<and> ekey m' = ekey m \<and> evalue m' = evalue m \<and>
    set (entries_list m') = set (entries_list m) - {e \<in> set es. P (evalue m e)}"
  using assms
proof (induction es arbitrary: m)
  case Nil
  then show ?case by (simp add: Let_def)
next
  case (Cons e es)
  define m1 where "m1 = (if P (evalue m e) then fst (entry_free m e False) else m)"
  have e: "e \<in> set (entries_list m)" using Cons.prems by simp
  have step: "sweep P (ekey m e) (evalue m e) (m, s) = (m1, s)"
    using entry_get_own [OF Cons.prems(1) e] by (simp add: sweep_def m1_def avahi_hashmap_remove_def)
  have m1: "hm_inv hash equal ok m1" "ekey m1 = ekey m" "evalue m1 = evalue m"
    "set (entries_list m1) = set (entries_list m) - (if P (evalue m e) then {e} else {})"
    using entry_free_inv [OF Cons.prems(1) e] entry_free_fields [OF Cons.prems(1)] Cons.prems(1)
    by (simp_all add: m1_def)
  have "set es \<subseteq> set (entries_list m1)" "distinct es" using m1(4) Cons.prems by auto
  from Cons.IH [OF m1(1) this] show ?case
    unfolding foreach_loop.simps step Let_def m1 by auto
qed

lemma lookup_sweep:
  assumes "hm_inv hash equal ok m" "ok k"
  shows "hm_inv hash equal ok (fst (avahi_hashmap_foreach m (sweep P) s)) \<and>
    avahi_hashmap_lookup (fst (avahi_hashmap_foreach m (sweep P) s)) k =
      (case avahi_hashmap_lookup m k of Some v \<Rightarrow> if P v then None else Some v | None \<Rightarrow> None)"
proof -
  let ?m = "fst (foreach_loop (sweep P) (entries_list m) (m, s))"
  have m: "hm_inv hash equal ok ?m" "ekey ?m = ekey m" "evalue ?m = evalue m"
    "set (entries_list ?m) = {e \<in> set (entries_list m). \<not> P (evalue m e)}"
    using foreach_sweep [OF assms(1) subset_refl hm_invD(3) [OF assms(1)], of P s]
    by (auto simp: Let_def)
  have "entry_get ?m k = Some e \<longleftrightarrow> entry_get m k = Some e \<and> \<not> P (evalue m e)" for e
    unfolding entry_get_Some [OF m(1) assms(2)] entry_get_Some [OF assms] m by auto
  then have "entry_get ?m k = (case entry_get m k of Some e \<Rightarrow> if P (evalue m e) then None else Some e | None \<Rightarrow> None)"
    by (intro option_eqI) (auto split: option.splits)
  with m(1,3) show ?thesis
    by (auto simp: avahi_hashmap_foreach_def avahi_hashmap_lookup_def split: option.splits)
qed

end

section \<open>The instances of the contract\<close>

interpretation string_table: hash_contract avahi_string_hash avahi_string_equal "\<lambda>_. True"
  by unfold_locales (auto simp: avahi_string_equal_def)

interpretation int_table: hash_contract avahi_int_hash avahi_int_equal "\<lambda>_. True"
  by unfold_locales (auto simp: avahi_int_equal_def)

text \<open>
  Domain names: the functions of \<^verbatim>\<open>avahi-common/domain.c\<close> abort on malformed names, and are
  used on valid names only.
\<close>

definition domain_hash_fun :: "string \<Rightarrow> u32" where
  "domain_hash_fun s = (case avahi_domain_hash s of Some h \<Rightarrow> h | None \<Rightarrow> 0)"

definition domain_equal_fun :: "string \<Rightarrow> string \<Rightarrow> bool" where
  "domain_equal_fun a b = (avahi_domain_equal a b = Some True)"

lemma valid_canon: "avahi_is_valid_domain_name a \<Longrightarrow> \<exists>c. canon_name a = Some c"
  by (auto simp: avahi_is_valid_domain_name_labels canon_name_def)

interpretation domain_table: hash_contract domain_hash_fun domain_equal_fun avahi_is_valid_domain_name
proof unfold_locales
  fix a b c
  assume ok: "avahi_is_valid_domain_name a" "avahi_is_valid_domain_name b"
  then obtain ca cb where c: "canon_name a = Some ca" "canon_name b = Some cb"
    using valid_canon by blast
  show "domain_equal_fun a a" using c avahi_domain_equal_canon by (auto simp: domain_equal_fun_def)
  show "domain_equal_fun a b \<Longrightarrow> domain_equal_fun b a"
    using c avahi_domain_equal_canon by (auto simp: domain_equal_fun_def)
  show "domain_equal_fun a b \<Longrightarrow> domain_hash_fun a = domain_hash_fun b"
    using c avahi_domain_equal_canon avahi_domain_hash_canon
    by (auto simp: domain_equal_fun_def domain_hash_fun_def)
  assume "avahi_is_valid_domain_name c"
  then obtain cc where "canon_name c = Some cc" using valid_canon by blast
  with c show "domain_equal_fun a b \<Longrightarrow> domain_equal_fun b c \<Longrightarrow> domain_equal_fun a c"
    using avahi_domain_equal_canon by (auto simp: domain_equal_fun_def)
qed

section \<open>Ownership of keys and values\<close>

fun freed_keys :: "('k, 'v) free_event list \<Rightarrow> 'k multiset" where
  "freed_keys [] = {#}"
| "freed_keys (Free_Key k # fr) = add_mset k (freed_keys fr)"
| "freed_keys (Free_Value v # fr) = freed_keys fr"

fun freed_values :: "('k, 'v) free_event list \<Rightarrow> 'v multiset" where
  "freed_values [] = {#}"
| "freed_values (Free_Key k # fr) = freed_values fr"
| "freed_values (Free_Value v # fr) = add_mset v (freed_values fr)"

definition owned_keys :: "('k, 'v) AvahiHashmap \<Rightarrow> 'k multiset" where
  "owned_keys m = image_mset (ekey m) (mset (entries_list m))"

definition owned_values :: "('k, 'v) AvahiHashmap \<Rightarrow> 'v multiset" where
  "owned_values m = image_mset (evalue m) (mset (entries_list m))"

lemma freed_append [simp]:
  "freed_keys (a @ b) = freed_keys a + freed_keys b"
  "freed_values (a @ b) = freed_values a + freed_values b"
  by (induction a rule: freed_keys.induct) auto

lemma freed_free [simp]:
  "freed_keys (free_key m k) = (if key_free_func m then {#k#} else {#})"
  "freed_keys (free_value m v) = {#}"
  "freed_values (free_value m v) = (if value_free_func m then {#v#} else {#})"
  "freed_values (free_key m k) = {#}"
  by (auto simp: free_key_def free_value_def)

lemma entry_free_owned:
  assumes "e \<in> set (entries_list m)" "key_free_func m" "value_free_func m"
    "entry_free m e False = (m', fr)"
  shows "owned_keys m' + freed_keys fr = owned_keys m" "owned_values m' + freed_values fr = owned_values m"
proof -
  have "mset (entries_list m) = add_mset e (mset (remove1 e (entries_list m)))" using assms(1) by simp
  with assms show "owned_keys m' + freed_keys fr = owned_keys m"
    "owned_values m' + freed_values fr = owned_values m"
    by (auto simp: entry_free_def Let_def owned_keys_def owned_values_def simp del: mset_remove1)
qed

lemma new_entry_owned:
  assumes "next_entry m \<notin> set (entries_list m)"
  shows "owned_keys (new_entry m k v) = add_mset k (owned_keys m)"
    "owned_values (new_entry m k v) = add_mset v (owned_values m)"
proof -
  have "image_mset (f(next_entry m := x)) (mset (entries_list m)) = image_mset f (mset (entries_list m))"
    for f :: "nat \<Rightarrow> 'c" and x using assms by (intro image_mset_cong) auto
  then show "owned_keys (new_entry m k v) = add_mset k (owned_keys m)"
    "owned_values (new_entry m k v) = add_mset v (owned_values m)"
    by (simp_all add: owned_keys_def owned_values_def new_entry_def Let_def)
qed

lemma upd_owned:
  assumes "e \<in> set es" "distinct es"
  shows "add_mset (f e) (image_mset (f(e := x)) (mset es)) = add_mset x (image_mset f (mset es))"
proof -
  obtain a b where es: "es = a @ e # b" using assms(1) by (meson split_list)
  have "image_mset (f(e := x)) (mset a) = image_mset f (mset a)"
    "image_mset (f(e := x)) (mset b) = image_mset f (mset b)"
    using assms(2) es by (auto intro!: image_mset_cong)
  then show ?thesis by (simp add: es)
qed

lemma avahi_hashmap_free_all:
  assumes "key_free_func m" "value_free_func m"
  shows "freed_keys (avahi_hashmap_free m) = owned_keys m \<and>
         freed_values (avahi_hashmap_free m) = owned_values m"
  using assms
proof (induction m rule: avahi_hashmap_free.induct)
  case (1 m)
  show ?case
  proof (cases "entries_list m")
    case Nil
    then show ?thesis by (simp add: avahi_hashmap_free.simps [of m] owned_keys_def owned_values_def)
  next
    case (Cons e es)
    obtain m' fr where ef: "entry_free m e False = (m', fr)" by fastforce
    then have "key_free_func m'" "value_free_func m'"
      using "1.prems" by (auto simp: entry_free_def Let_def)
    with "1.IH" [OF Cons ef [symmetric] refl] entry_free_owned [OF _ "1.prems" ef] show ?thesis
      by (simp add: avahi_hashmap_free.simps [of m] Cons ef add.commute)
  qed
qed

section \<open>Properties\<close>

text \<open>C11. The hash table is a map: with hash and equality functions that satisfy the contract, and a
  table in which the invariant holds, every operation keeps the invariant, and looking up any key
  afterwards gives what a map keyed by equivalence classes would give; \<open>insert\<close> does not
  overwrite and \<open>replace\<close> does, and their results tell whether the key was present.\<close>

theorem hashmap_refines_map:
  assumes "hash_contract hash equal ok" "hm_inv hash equal ok m" "ok k" "ok k'"
    and "avahi_hashmap_insert m k v = (ri, mi, fi)" "avahi_hashmap_replace m k v = (rr, mr, fr)"
    and "avahi_hashmap_remove m k = (md, fd)"
  shows "hm_inv hash equal ok mi \<and> hm_inv hash equal ok mr \<and> hm_inv hash equal ok md \<and>
    avahi_hashmap_lookup mi k' =
      (if equal k' k \<and> avahi_hashmap_lookup m k = None then Some v else avahi_hashmap_lookup m k') \<and>
    avahi_hashmap_lookup mr k' = (if equal k' k then Some v else avahi_hashmap_lookup m k') \<and>
    avahi_hashmap_lookup md k' = (if equal k' k then None else avahi_hashmap_lookup m k') \<and>
    ri = (if avahi_hashmap_lookup m k = None then 0 else 1) \<and> rr = ri"
proof -
  note h = hash_contract.insert_inv hash_contract.replace_op_inv hash_contract.remove_inv
  note l = hash_contract.lookup_insert hash_contract.lookup_replace hash_contract.lookup_remove
  have "ri = (if avahi_hashmap_lookup m k = None then 0 else 1) \<and> rr = ri"
    using assms(5,6)
    by (auto simp: avahi_hashmap_insert_def avahi_hashmap_replace_def avahi_hashmap_lookup_def
        split: option.splits)
  moreover have "hm_inv hash equal ok mi" "hm_inv hash equal ok mr" "hm_inv hash equal ok md"
    using h(1,2) [OF assms(1-3), of v] h(3) [OF assms(1-3)] unfolding assms(5-7) by simp_all
  moreover note l(1,2) [OF assms(1-4), of v] l(3) [OF assms(1-4)]
  ultimately show ?thesis unfolding assms(5-7) fst_conv snd_conv by blast
qed

theorem hashmap_refines_map_witness:
  "avahi_hashmap_lookup (fst (snd (avahi_hashmap_replace
      (avahi_hashmap_new avahi_string_hash avahi_string_equal True True) ''local'' (12 :: nat)))) ''local'' =
   Some 12"
proof -
  let ?m = "avahi_hashmap_new avahi_string_hash avahi_string_equal True True"
  obtain ri mi fi where 1: "avahi_hashmap_insert ?m ''local'' (12 :: nat) = (ri, mi, fi)"
    by (rule prod_cases3)
  obtain rr mr fr where 2: "avahi_hashmap_replace ?m ''local'' (12 :: nat) = (rr, mr, fr)"
    by (rule prod_cases3)
  obtain md fd where 3: "avahi_hashmap_remove ?m ''local'' = (md, fd :: (string, nat) free_event list)"
    by (meson surj_pair)
  from hashmap_refines_map [OF string_table.hash_contract_axioms hm_inv_new _ _ 1 2 3, of "''local''"]
  show ?thesis by (simp add: 2 avahi_string_equal_def)
qed

text \<open>C30. Ownership: with both free functions given, a key or value that is handed to the table is
  afterwards either owned by exactly one entry or has been freed exactly once, whichever branch
  is taken; removing an entry frees its key and value; and \<open>avahi_hashmap_free\<close> ends and
  frees every key and value of the table once.\<close>

theorem hashmap_ownership:
  assumes "hash_contract hash equal ok" "hm_inv hash equal ok m" "ok k"
    and "key_free_func m" "value_free_func m"
    and "avahi_hashmap_insert m k v = (ri, mi, fi)" "avahi_hashmap_replace m k v = (rr, mr, fr)"
    and "avahi_hashmap_remove m k = (md, fd)"
  shows "owned_keys mi + freed_keys fi = add_mset k (owned_keys m) \<and>
    owned_values mi + freed_values fi = add_mset v (owned_values m) \<and>
    owned_keys mr + freed_keys fr = add_mset k (owned_keys m) \<and>
    owned_values mr + freed_values fr = add_mset v (owned_values m) \<and>
    owned_keys md + freed_keys fd = owned_keys m \<and>
    owned_values md + freed_values fd = owned_values m \<and>
    freed_keys (avahi_hashmap_free m) = owned_keys m \<and>
    freed_values (avahi_hashmap_free m) = owned_values m"
proof -
  have distinct: "distinct (entries_list m)" using assms(2) by (rule hm_invD)
  note new = new_entry_owned [OF hm_inv_fresh [OF assms(2)], of k v]
  show ?thesis
  proof (cases "entry_get m k")
    case None
    with assms new avahi_hashmap_free_all [of m] show ?thesis
      by (auto simp: avahi_hashmap_insert_def avahi_hashmap_replace_def avahi_hashmap_remove_def)
  next
    case (Some e)
    then have e: "e \<in> set (entries_list m)"
      using hash_contract.entry_get_Some [OF assms(1-3)] by blast
    have "entry_free m e False = (md, fd)" using assms(8) Some by (simp add: avahi_hashmap_remove_def)
    note rem = entry_free_owned [OF e assms(4,5) this]
    from assms(4-7) Some upd_owned [OF e distinct, of "ekey m" k]
      upd_owned [OF e distinct, of "evalue m" v] avahi_hashmap_free_all [of m] rem
    show ?thesis
      by (auto simp: avahi_hashmap_insert_def avahi_hashmap_replace_def owned_keys_def owned_values_def)
  qed
qed

theorem hashmap_ownership_witness:
  "freed_keys (snd (avahi_hashmap_remove
      (avahi_hashmap_new avahi_int_hash avahi_int_equal True True) 7)) = ({#} :: 32 word multiset) \<and>
   freed_values (avahi_hashmap_free
      (avahi_hashmap_new avahi_int_hash avahi_int_equal True True)) = ({#} :: nat multiset)"
proof -
  let ?m = "avahi_hashmap_new avahi_int_hash avahi_int_equal True True :: (32 word, nat) AvahiHashmap"
  obtain ri mi fi where 1: "avahi_hashmap_insert ?m 7 12 = (ri, mi, fi)" by (rule prod_cases3)
  obtain rr mr fr where 2: "avahi_hashmap_replace ?m 7 12 = (rr, mr, fr)" by (rule prod_cases3)
  obtain md fd where 3: "avahi_hashmap_remove ?m 7 = (md, fd)" by (meson surj_pair)
  have "owned_keys ?m = {#}" "owned_values ?m = {#}" "key_free_func ?m" "value_free_func ?m"
    by (simp_all add: owned_keys_def owned_values_def avahi_hashmap_new_def)
  with hashmap_ownership [OF int_table.hash_contract_axioms hm_inv_new _ _ _ 1 2 3]
  show ?thesis
    by (simp add: avahi_hashmap_remove_def entry_get_def avahi_hashmap_new_def)
qed

end
