(* ===== verification/Address.thy ===== *)
theory Address
  imports Domain
begin

text \<open>
  \<^verbatim>\<open>avahi-common/address.c\<close> and \<^verbatim>\<open>avahi-core/addr-util.c\<close>: addresses. An address keeps its bytes
  in network order, four for IPv4 and sixteen for IPv6. The functions that only wrap
  \<open>inet_pton\<close>, \<open>inet_ntop\<close> or a \<open>struct sockaddr\<close> are left out.
\<close>

datatype AvahiProtocol = AVAHI_PROTO_INET | AVAHI_PROTO_INET6 | AVAHI_PROTO_UNSPEC

record AvahiAddress =
  proto :: AvahiProtocol
  adata :: string

definition address_get_size :: "AvahiAddress \<Rightarrow> nat" where
  "address_get_size a =
     (if proto a = AVAHI_PROTO_INET then 4 else if proto a = AVAHI_PROTO_INET6 then 16 else 0)"

definition avahi_address_cmp :: "AvahiAddress \<Rightarrow> AvahiAddress \<Rightarrow> int" where
  "avahi_address_cmp a b =
     (if proto a \<noteq> proto b then -1
      else strcmp (take (address_get_size a) (adata a)) (take (address_get_size a) (adata b)))"

text \<open>\<open>ntohl\<close> of the four bytes of an IPv4 address.\<close>

definition ipv4_number :: "string \<Rightarrow> nat" where
  "ipv4_number d = foldl (\<lambda>n c. n * 256 + ucode c) 0 (take 4 d)"

definition hex_char :: "nat \<Rightarrow> char" where
  "hex_char n = (if n < 10 then digit_char n else char_of (87 + n))"

definition reverse_ipv4 :: "string \<Rightarrow> string" where
  "reverse_ipv4 d =
     (let n = ipv4_number d in
      decimal (n AND 0xFF) @ ''.'' @ decimal (drop_bit 8 n AND 0xFF) @ ''.'' @
      decimal (drop_bit 16 n AND 0xFF) @ ''.'' @ decimal (drop_bit 24 n) @ ''.in-addr.arpa'')"

definition reverse_ipv6 :: "string \<Rightarrow> string" where
  "reverse_ipv6 d =
     concat (map (\<lambda>i. [hex_char (ucode (d ! i) AND 0xF), CHR ''.'', hex_char (drop_bit 4 (ucode (d ! i))), CHR ''.''])
       (rev [0..<16])) @ ''ip6.arpa''"

text \<open>\<^const>\<open>None\<close> is a failed assertion. The buffer has \<open>len\<close> bytes.\<close>

definition avahi_reverse_lookup_name :: "AvahiAddress \<Rightarrow> nat \<Rightarrow> string option" where
  "avahi_reverse_lookup_name a len =
     (if len = 0 then None
      else (case proto a of
              AVAHI_PROTO_INET \<Rightarrow> Some (snprintf len (reverse_ipv4 (adata a)))
            | AVAHI_PROTO_INET6 \<Rightarrow> Some (snprintf len (reverse_ipv6 (adata a)))
            | AVAHI_PROTO_UNSPEC \<Rightarrow> None))"

definition avahi_address_is_ipv4_in_ipv6 :: "AvahiAddress \<Rightarrow> bool" where
  "avahi_address_is_ipv4_in_ipv6 a =
     (if proto a \<noteq> AVAHI_PROTO_INET6 then False
      else take 12 (adata a) = replicate 8 (CHR 0x00) @ replicate 4 (CHR 0xFF))"

definition IPV4LL_NETWORK :: nat where "IPV4LL_NETWORK = 0xA9FE0000"
definition IPV4LL_NETMASK :: nat where "IPV4LL_NETMASK = 0xFFFF0000"
definition IPV6LL_NETWORK :: nat where "IPV6LL_NETWORK = 0xFE80"
definition IPV6LL_NETMASK :: nat where "IPV6LL_NETMASK = 0xFFC0"

definition avahi_address_is_link_local :: "AvahiAddress \<Rightarrow> bool" where
  "avahi_address_is_link_local a =
     (case proto a of
        AVAHI_PROTO_INET \<Rightarrow> ipv4_number (adata a) AND IPV4LL_NETMASK = IPV4LL_NETWORK
      | AVAHI_PROTO_INET6 \<Rightarrow>
          (push_bit 8 (ucode (adata a ! 0)) OR ucode (adata a ! 1)) AND IPV6LL_NETMASK = IPV6LL_NETWORK
      | AVAHI_PROTO_UNSPEC \<Rightarrow> False)"

section \<open>Lemmas\<close>

definition address_ok :: "AvahiAddress \<Rightarrow> bool" where
  "address_ok a = (proto a \<noteq> AVAHI_PROTO_UNSPEC \<and> length (adata a) = address_get_size a)"

lemma ipv4_number_bytes:
  "ipv4_number [a, b, c, d] = ((ucode a * 256 + ucode b) * 256 + ucode c) * 256 + ucode d"
  by (simp add: ipv4_number_def)

lemma and_mask_nat: "(n :: nat) AND 0xFF = n mod 256" "(n :: nat) AND 0xF = n mod 16"
  using take_bit_eq_mask [of 8 n] take_bit_eq_mask [of 4 n]
  by (simp_all add: take_bit_eq_mod mask_eq_exp_minus_1)

lemma reverse_ipv4_bytes:
  "reverse_ipv4 [a, b, c, d] =
     decimal (ucode d) @ ''.'' @ decimal (ucode c) @ ''.'' @ decimal (ucode b) @ ''.'' @
     decimal (ucode a) @ ''.in-addr.arpa''"
proof -
  define n where "n = ipv4_number [a, b, c, d]"
  note bytes = ucode_less [of a] ucode_less [of b] ucode_less [of c] ucode_less [of d]
  have n: "n = ((ucode a * 256 + ucode b) * 256 + ucode c) * 256 + ucode d"
    by (simp add: n_def ipv4_number_bytes)
  have d8: "n div 256 = (ucode a * 256 + ucode b) * 256 + ucode c" "n mod 256 = ucode d"
    unfolding n using bytes by (simp_all only: div_block mod_block)
  have "n div 256 div 256 = ucode a * 256 + ucode b" "n div 256 mod 256 = ucode c"
    unfolding d8 using bytes by (simp_all only: div_block mod_block)
  moreover from this have "n div 256 div 256 div 256 = ucode a" "n div 256 div 256 mod 256 = ucode b"
    using bytes by (simp_all only: div_block mod_block)
  moreover have "n div 65536 = n div 256 div 256" "n div 16777216 = n div 256 div 256 div 256"
    by (simp_all add: div_mult2_eq [symmetric])
  ultimately show ?thesis
    using d8 by (simp add: reverse_ipv4_def n_def [symmetric] Let_def and_mask_nat drop_bit_eq_div)
qed

lemma digits_dot_inject:
  assumes "list_all isdigit a" "list_all isdigit b"
  shows "a @ CHR ''.'' # s = b @ CHR ''.'' # t \<longleftrightarrow> a = b \<and> s = t"
proof
  assume eq: "a @ CHR ''.'' # s = b @ CHR ''.'' # t"
  have "takeWhile isdigit (x @ CHR ''.'' # y) = x" if "list_all isdigit x" for x y
    using that by (subst takeWhile_append2) (auto simp: list_all_iff isdigit_def)
  from this [OF assms(1), of s] this [OF assms(2), of t] eq have "a = b" by simp
  with eq show "a = b \<and> s = t" by simp
qed simp

lemma reverse_ipv4_inject:
  assumes "length d = 4" "length d' = 4" "reverse_ipv4 d = reverse_ipv4 d'"
  shows "d = d'"
proof -
  obtain a b c e where d: "d = [a, b, c, e]" using assms(1) by (auto simp: numeral_eq_Suc length_Suc_conv)
  obtain a' b' c' e' where d': "d' = [a', b', c', e']"
    using assms(2) by (auto simp: numeral_eq_Suc length_Suc_conv)
  show ?thesis
    using assms(3) unfolding d d' reverse_ipv4_bytes
    by (simp add: digits_dot_inject decimal_digits decimal_inject ucode_inject)
qed

lemma hex_char_inject: "m < 16 \<Longrightarrow> n < 16 \<Longrightarrow> hex_char m = hex_char n \<longleftrightarrow> m = n"
proof
  have code: "ucode (hex_char k) = (if k < 10 then 48 + k else 87 + k)" if "k < 16" for k
    using that by (simp add: hex_char_def ucode_digit_char)
  assume "m < 16" "n < 16" "hex_char m = hex_char n"
  then have "(if m < 10 then 48 + m else 87 + m) = (if n < 10 then 48 + n else 87 + n)"
    using code [of m] code [of n] by simp
  then show "m = n" by (simp split: if_splits)
qed simp

lemma nibbles:
  "n < 256 \<Longrightarrow> (n :: nat) AND 0xF < 16 \<and> drop_bit 4 n < 16 \<and> n = drop_bit 4 n * 16 + (n AND 0xF)"
  by (simp add: and_mask_nat drop_bit_eq_div less_mult_imp_div_less)

lemma byte_nibbles_inject:
  assumes "hex_char (ucode c AND 0xF) = hex_char (ucode d AND 0xF)"
    "hex_char (drop_bit 4 (ucode c)) = hex_char (drop_bit 4 (ucode d))"
  shows "c = d"
  using assms nibbles [OF ucode_less [of c]] nibbles [OF ucode_less [of d]]
  by (metis hex_char_inject ucode_inject)

lemma nibble_name_inject:
  "concat (map (\<lambda>i. [hex_char (ucode (d ! i) AND 0xF), CHR ''.'', hex_char (drop_bit 4 (ucode (d ! i))), CHR ''.'']) is) @ z =
   concat (map (\<lambda>i. [hex_char (ucode (d' ! i) AND 0xF), CHR ''.'', hex_char (drop_bit 4 (ucode (d' ! i))), CHR ''.'']) is) @ z \<Longrightarrow>
   i \<in> set is \<Longrightarrow> d ! i = d' ! i"
  by (induction "is") (auto dest: byte_nibbles_inject)

lemma reverse_ipv6_inject:
  assumes "length d = 16" "length d' = 16" "reverse_ipv6 d = reverse_ipv6 d'"
  shows "d = d'"
proof (rule nth_equalityI)
  show "d ! i = d' ! i" if "i < length d" for i
    by (rule nibble_name_inject [OF assms(3) [unfolded reverse_ipv6_def]]) (use that assms(1) in auto)
qed (simp add: assms)

lemma length_reverse_ipv6: "length (reverse_ipv6 d) = 72"
  by (simp add: reverse_ipv6_def length_concat o_def sum_list_triv)

lemma length_reverse_ipv4: "length d = 4 \<Longrightarrow> length (reverse_ipv4 d) \<le> 28"
proof -
  assume "length d = 4"
  then obtain a b c e where d: "d = [a, b, c, e]" by (auto simp: numeral_eq_Suc length_Suc_conv)
  have "length (decimal (ucode x)) \<le> 3" for x
    by (rule decimal_length) (rule less_le_trans [OF ucode_less], simp_all)
  from this [of a] this [of b] this [of c] this [of e] show ?thesis
    unfolding d reverse_ipv4_bytes by simp
qed

section \<open>Properties\<close>

text \<open>The name for a reverse lookup determines the address: with a buffer of at least 73 bytes
  nothing is cut off, and two addresses have the same reverse name only if they are the same.\<close>

theorem avahi_reverse_lookup_name_inject:
  assumes "address_ok a" "address_ok b" "73 \<le> len"
    and "avahi_reverse_lookup_name a len = avahi_reverse_lookup_name b len"
  shows "proto a = proto b \<and> adata a = adata b"
proof -
  have full: "avahi_reverse_lookup_name x len =
     Some (if proto x = AVAHI_PROTO_INET then reverse_ipv4 (adata x) else reverse_ipv6 (adata x))"
    if "address_ok x" for x
    using that assms(3) length_reverse_ipv4 [of "adata x"] length_reverse_ipv6 [of "adata x"]
    by (cases "proto x") (auto simp: avahi_reverse_lookup_name_def snprintf_def address_ok_def
        address_get_size_def)
  have len: "length (adata x) = (if proto x = AVAHI_PROTO_INET then 4 else 16)" if "address_ok x" for x
    using that by (cases "proto x") (auto simp: address_ok_def address_get_size_def)
  have ne: "reverse_ipv4 d \<noteq> reverse_ipv6 d'" if "length d = 4" for d d'
    using length_reverse_ipv4 [OF that] length_reverse_ipv6 [of d'] by auto
  have "proto a = AVAHI_PROTO_INET \<longleftrightarrow> proto b = AVAHI_PROTO_INET"
    using assms full [of a] full [of b] len [of a] len [of b] ne [of "adata a" "adata b"]
      ne [of "adata b" "adata a"]
    by (auto split: if_splits)
  moreover from this have "proto a = proto b"
    using assms(1,2) by (cases "proto a"; cases "proto b") (auto simp: address_ok_def)
  ultimately show ?thesis
    using assms full len reverse_ipv4_inject reverse_ipv6_inject by (auto split: if_splits)
qed

theorem avahi_reverse_lookup_name_inject_witness:
  "avahi_reverse_lookup_name \<lparr>proto = AVAHI_PROTO_INET, adata = [CHR 0x0A, CHR 0x00, CHR 0x00, CHR 0x01]\<rparr> 80 \<noteq>
   avahi_reverse_lookup_name \<lparr>proto = AVAHI_PROTO_INET, adata = [CHR 0x0A, CHR 0x00, CHR 0x01, CHR 0x00]\<rparr> 80"
  using avahi_reverse_lookup_name_inject
    [of "\<lparr>proto = AVAHI_PROTO_INET, adata = [CHR 0x0A, CHR 0x00, CHR 0x00, CHR 0x01]\<rparr>"
      "\<lparr>proto = AVAHI_PROTO_INET, adata = [CHR 0x0A, CHR 0x00, CHR 0x01, CHR 0x00]\<rparr>" 80]
  by (auto simp: address_ok_def address_get_size_def)

text \<open>\<open>avahi_address_is_ipv4_in_ipv6\<close> does not recognize IPv4-mapped addresses: their prefix is ten
  zero bytes and two bytes 0xFF (RFC 4291, section 2.5.5.2), and it rejects every one of them.\<close>

theorem avahi_address_is_ipv4_in_ipv6_wrong:
  "\<not> avahi_address_is_ipv4_in_ipv6
      \<lparr>proto = AVAHI_PROTO_INET6, adata = replicate 10 (CHR 0x00) @ [CHR 0xFF, CHR 0xFF] @ v4\<rparr>"
  by (simp add: avahi_address_is_ipv4_in_ipv6_def numeral_eq_Suc)

text \<open>The link-local test accepts exactly 169.254.0.0/16 and fe80::/10.\<close>

theorem avahi_address_is_link_local_iff:
  "avahi_address_is_link_local \<lparr>proto = AVAHI_PROTO_INET, adata = [a, b, c, d]\<rparr> =
     (ucode a = 169 \<and> ucode b = 254) \<and>
   avahi_address_is_link_local \<lparr>proto = AVAHI_PROTO_INET6, adata = a # b # rest\<rparr> =
     (ucode a = 0xFE \<and> ucode b div 64 = 2)"
proof
  note bytes = ucode_less [of a] ucode_less [of b] ucode_less [of c] ucode_less [of d]
  let ?n = "ipv4_number [a, b, c, d]"
  have "?n AND IPV4LL_NETMASK = (?n div 2 ^ 16) mod 2 ^ 16 * 2 ^ 16"
    using and_shifted_mask [of ?n 16 16]
    by (simp add: IPV4LL_NETMASK_def push_bit_eq_mult mask_eq_exp_minus_1)
  also have "?n div 2 ^ 16 = ucode a * 256 + ucode b"
  proof -
    have "?n div 2 ^ 16 = ?n div 256 div 256" by (simp add: div_mult2_eq [symmetric])
    then show ?thesis unfolding ipv4_number_bytes using bytes by (simp only: div_block)
  qed
  also have "(ucode a * 256 + ucode b) mod 2 ^ 16 = ucode a * 256 + ucode b"
  proof -
    have "ucode a * 256 + ucode b < 65536" using bytes by linarith
    then show ?thesis by simp
  qed
  finally have eq: "?n AND IPV4LL_NETMASK = (ucode a * 256 + ucode b) * 2 ^ 16" .
  have net: "IPV4LL_NETWORK = (169 * 256 + 254) * 2 ^ 16" by (simp add: IPV4LL_NETWORK_def)
  have "?n AND IPV4LL_NETMASK = IPV4LL_NETWORK \<longleftrightarrow> ucode a * 256 + ucode b = 169 * 256 + 254"
    unfolding eq net mult_cancel2 by simp
  also have "\<dots> \<longleftrightarrow> ucode a = 169 \<and> ucode b = 254"
    using bytes(2) by (rule block_inject) simp
  finally show "avahi_address_is_link_local \<lparr>proto = AVAHI_PROTO_INET, adata = [a, b, c, d]\<rparr> =
     (ucode a = 169 \<and> ucode b = 254)" by (simp add: avahi_address_is_link_local_def)
  let ?m = "ucode a * 256 + ucode b"
  have "push_bit 8 (ucode a) OR ucode b = ?m" using or_disjoint_shift [of "ucode b" 8 "ucode a"] bytes by simp
  moreover have "?m AND IPV6LL_NETMASK = (?m div 2 ^ 6) mod 2 ^ 10 * 2 ^ 6"
    using and_shifted_mask [of ?m 6 10]
    by (simp add: IPV6LL_NETMASK_def push_bit_eq_mult mask_eq_exp_minus_1)
  moreover have "?m div 2 ^ 6 = ucode a * 4 + ucode b div 64"
  proof -
    have "?m = ucode a * 4 * 64 + ucode b" by simp
    then show ?thesis using div_mult_self3 [of 64 "ucode a * 4" "ucode b"] by simp
  qed
  moreover have small: "ucode b div 64 < 4" using bytes by (simp add: less_mult_imp_div_less)
  moreover have "(ucode a * 4 + ucode b div 64) mod 2 ^ 10 = ucode a * 4 + ucode b div 64"
  proof -
    have "ucode a * 4 + ucode b div 64 < 1024" using bytes small by linarith
    then show ?thesis by simp
  qed
  moreover have "IPV6LL_NETWORK = (254 * 4 + 2) * 2 ^ 6" by (simp add: IPV6LL_NETWORK_def)
  ultimately have "avahi_address_is_link_local \<lparr>proto = AVAHI_PROTO_INET6, adata = a # b # rest\<rparr> \<longleftrightarrow>
     (ucode a * 4 + ucode b div 64) * 2 ^ 6 = (254 * 4 + 2) * 2 ^ 6"
    by (simp add: avahi_address_is_link_local_def)
  also have "\<dots> \<longleftrightarrow> ucode a * 4 + ucode b div 64 = 254 * 4 + 2" unfolding mult_cancel2 by simp
  also have "\<dots> \<longleftrightarrow> ucode a = 254 \<and> ucode b div 64 = 2" using small by (rule block_inject) simp
  finally show "avahi_address_is_link_local \<lparr>proto = AVAHI_PROTO_INET6, adata = a # b # rest\<rparr> =
     (ucode a = 0xFE \<and> ucode b div 64 = 2)" by simp
qed

end
