(* ===== verification/RR.thy ===== *)
theory RR
  imports Hashmap Strlst Address
begin

text \<open>
  \<^verbatim>\<open>avahi-core/rr.c\<close>: resource record keys and records. Keys and records are immutable values; their
  reference counters, which only decide when memory is released, are not modelled. Where the code
  compares two pointers to shorten a comparison, the model compares the values: on well-formed
  names the long way gives the same answer.

  The record data is a union in the code, read according to the type of the key: a constructor per
  member, and \<open>RD_NULL\<close> for the zeroed union of a new record. Reading a member of another
  type, a NULL string, or a failed assertion is the result \<^const>\<open>None\<close>.
\<close>

section \<open>Types\<close>

abbreviation (input) AVAHI_DNS_TYPE_A :: u16 where "AVAHI_DNS_TYPE_A \<equiv> 0x01"
abbreviation (input) AVAHI_DNS_TYPE_NS :: u16 where "AVAHI_DNS_TYPE_NS \<equiv> 0x02"
abbreviation (input) AVAHI_DNS_TYPE_CNAME :: u16 where "AVAHI_DNS_TYPE_CNAME \<equiv> 0x05"
abbreviation (input) AVAHI_DNS_TYPE_SOA :: u16 where "AVAHI_DNS_TYPE_SOA \<equiv> 0x06"
abbreviation (input) AVAHI_DNS_TYPE_PTR :: u16 where "AVAHI_DNS_TYPE_PTR \<equiv> 0x0C"
abbreviation (input) AVAHI_DNS_TYPE_HINFO :: u16 where "AVAHI_DNS_TYPE_HINFO \<equiv> 0x0D"
abbreviation (input) AVAHI_DNS_TYPE_TXT :: u16 where "AVAHI_DNS_TYPE_TXT \<equiv> 0x10"
abbreviation (input) AVAHI_DNS_TYPE_AAAA :: u16 where "AVAHI_DNS_TYPE_AAAA \<equiv> 0x1C"
abbreviation (input) AVAHI_DNS_TYPE_SRV :: u16 where "AVAHI_DNS_TYPE_SRV \<equiv> 0x21"
abbreviation (input) AVAHI_DNS_TYPE_ANY :: u16 where "AVAHI_DNS_TYPE_ANY \<equiv> 0xFF"
abbreviation (input) AVAHI_DNS_CLASS_IN :: u16 where "AVAHI_DNS_CLASS_IN \<equiv> 0x01"
abbreviation (input) AVAHI_DNS_CLASS_ANY :: u16 where "AVAHI_DNS_CLASS_ANY \<equiv> 0xFF"
abbreviation (input) AVAHI_DNS_CACHE_FLUSH :: u16 where "AVAHI_DNS_CACHE_FLUSH \<equiv> 0x8000"
abbreviation (input) AVAHI_DNS_UNICAST_RESPONSE :: u16 where "AVAHI_DNS_UNICAST_RESPONSE \<equiv> 0x8000"
abbreviation (input) AVAHI_DEFAULT_TTL :: u32 where "AVAHI_DEFAULT_TTL \<equiv> 75 * 60"

record AvahiKey =
  key_name :: string
  clazz :: u16
  key_type :: u16

datatype rdata =
  RD_NULL
| RD_PTR string
| RD_SRV u16 u16 u16 string
| RD_HINFO string string
| RD_TXT AvahiStringList
| RD_A string
| RD_AAAA string
| RD_GENERIC string

record AvahiRecord =
  rkey :: AvahiKey
  ttl :: u32
  rdata :: rdata

text \<open>The \<open>switch\<close> on the type.\<close>

datatype rr_kind = K_PTR | K_SRV | K_HINFO | K_TXT | K_A | K_AAAA | K_GENERIC

definition rr_kind :: "u16 \<Rightarrow> rr_kind" where
  "rr_kind t =
     (if t = AVAHI_DNS_TYPE_PTR \<or> t = AVAHI_DNS_TYPE_CNAME \<or> t = AVAHI_DNS_TYPE_NS then K_PTR
      else if t = AVAHI_DNS_TYPE_SRV then K_SRV
      else if t = AVAHI_DNS_TYPE_HINFO then K_HINFO
      else if t = AVAHI_DNS_TYPE_TXT then K_TXT
      else if t = AVAHI_DNS_TYPE_A then K_A
      else if t = AVAHI_DNS_TYPE_AAAA then K_AAAA
      else K_GENERIC)"

text \<open>The members of the union.\<close>

fun d_ptr :: "rdata \<Rightarrow> string option" where
  "d_ptr (RD_PTR n) = Some n"
| "d_ptr _ = None"

fun d_srv :: "rdata \<Rightarrow> (u16 \<times> u16 \<times> u16 \<times> string) option" where
  "d_srv (RD_SRV p w q n) = Some (p, w, q, n)"
| "d_srv _ = None"

fun d_hinfo :: "rdata \<Rightarrow> (string \<times> string) option" where
  "d_hinfo (RD_HINFO c s) = Some (c, s)"
| "d_hinfo _ = None"

fun d_txt :: "rdata \<Rightarrow> AvahiStringList option" where
  "d_txt (RD_TXT l) = Some l"
| "d_txt RD_NULL = Some []"
| "d_txt _ = None"

fun d_a :: "rdata \<Rightarrow> string option" where
  "d_a (RD_A a) = Some a"
| "d_a RD_NULL = Some (replicate 4 (CHR 0x00))"
| "d_a _ = None"

fun d_aaaa :: "rdata \<Rightarrow> string option" where
  "d_aaaa (RD_AAAA a) = Some a"
| "d_aaaa RD_NULL = Some (replicate 16 (CHR 0x00))"
| "d_aaaa _ = None"

fun d_generic :: "rdata \<Rightarrow> string option" where
  "d_generic (RD_GENERIC d) = Some d"
| "d_generic RD_NULL = Some []"
| "d_generic _ = None"

section \<open>Keys\<close>

text \<open>The inner \<^const>\<open>None\<close> is NULL.\<close>

definition avahi_key_new :: "string \<Rightarrow> u16 \<Rightarrow> u16 \<Rightarrow> AvahiKey option option" where
  "avahi_key_new name class type =
     (case avahi_normalize_name_strdup name of
        None \<Rightarrow> None
      | Some None \<Rightarrow> Some None
      | Some (Some n) \<Rightarrow> Some (Some \<lparr>key_name = n, clazz = class, key_type = type\<rparr>))"

definition avahi_key_new_cname :: "AvahiKey \<Rightarrow> AvahiKey option option" where
  "avahi_key_new_cname key =
     (if clazz key \<noteq> AVAHI_DNS_CLASS_IN then Some None
      else if key_type key = AVAHI_DNS_TYPE_CNAME then Some None
      else avahi_key_new (key_name key) (clazz key) AVAHI_DNS_TYPE_CNAME)"

definition avahi_record_new :: "AvahiKey \<Rightarrow> u32 \<Rightarrow> AvahiRecord" where
  "avahi_record_new k t =
     \<lparr>rkey = k, ttl = (if t \<noteq> -1 then t else AVAHI_DEFAULT_TTL), rdata = RD_NULL\<rparr>"

definition avahi_record_new_full :: "string \<Rightarrow> u16 \<Rightarrow> u16 \<Rightarrow> u32 \<Rightarrow> AvahiRecord option option" where
  "avahi_record_new_full name class type t =
     (case avahi_key_new name class type of
        None \<Rightarrow> None
      | Some None \<Rightarrow> Some None
      | Some (Some k) \<Rightarrow> Some (Some (avahi_record_new k t)))"

definition avahi_dns_class_to_string :: "u16 \<Rightarrow> string option" where
  "avahi_dns_class_to_string class =
     (if class AND AVAHI_DNS_CACHE_FLUSH \<noteq> 0 then Some ''FLUSH''
      else if class = AVAHI_DNS_CLASS_IN then Some ''IN''
      else if class = AVAHI_DNS_CLASS_ANY then Some ''ANY''
      else None)"

definition avahi_dns_type_to_string :: "u16 \<Rightarrow> string option" where
  "avahi_dns_type_to_string type =
     (if type = AVAHI_DNS_TYPE_CNAME then Some ''CNAME''
      else if type = AVAHI_DNS_TYPE_A then Some ''A''
      else if type = AVAHI_DNS_TYPE_AAAA then Some ''AAAA''
      else if type = AVAHI_DNS_TYPE_PTR then Some ''PTR''
      else if type = AVAHI_DNS_TYPE_HINFO then Some ''HINFO''
      else if type = AVAHI_DNS_TYPE_TXT then Some ''TXT''
      else if type = AVAHI_DNS_TYPE_SRV then Some ''SRV''
      else if type = AVAHI_DNS_TYPE_ANY then Some ''ANY''
      else if type = AVAHI_DNS_TYPE_SOA then Some ''SOA''
      else if type = AVAHI_DNS_TYPE_NS then Some ''NS''
      else None)"

definition avahi_key_to_string :: "AvahiKey \<Rightarrow> string" where
  "avahi_key_to_string k =
     (let c = (case avahi_dns_class_to_string (clazz k) of
                 Some c \<Rightarrow> c | None \<Rightarrow> snprintf 16 (''CLASS'' @ decimal (unat (clazz k))));
          t = (case avahi_dns_type_to_string (key_type k) of
                 Some t \<Rightarrow> t | None \<Rightarrow> snprintf 16 (''TYPE'' @ decimal (unat (key_type k))))
      in key_name k @ [CHR 0x09] @ c @ [CHR 0x09] @ t)"

definition avahi_key_equal :: "AvahiKey \<Rightarrow> AvahiKey \<Rightarrow> bool option" where
  "avahi_key_equal a b =
     (if a = b then Some True
      else (case avahi_domain_equal (key_name a) (key_name b) of
              None \<Rightarrow> None
            | Some r \<Rightarrow> Some (r \<and> key_type a = key_type b \<and> clazz a = clazz b)))"

definition avahi_key_is_pattern :: "AvahiKey \<Rightarrow> bool" where
  "avahi_key_is_pattern k = (key_type k = AVAHI_DNS_TYPE_ANY \<or> clazz k = AVAHI_DNS_CLASS_ANY)"

definition avahi_key_pattern_match :: "AvahiKey \<Rightarrow> AvahiKey \<Rightarrow> bool option" where
  "avahi_key_pattern_match pattern k =
     (if avahi_key_is_pattern k then None
      else if pattern = k then Some True
      else (case avahi_domain_equal (key_name pattern) (key_name k) of
              None \<Rightarrow> None
            | Some r \<Rightarrow>
                Some (r \<and> (key_type pattern = key_type k \<or> key_type pattern = AVAHI_DNS_TYPE_ANY) \<and>
                      (clazz pattern = clazz k \<or> clazz pattern = AVAHI_DNS_CLASS_ANY))))"

definition avahi_key_hash :: "AvahiKey \<Rightarrow> u32 option" where
  "avahi_key_hash k =
     (case avahi_domain_hash (key_name k) of
        None \<Rightarrow> None
      | Some h \<Rightarrow> Some (h + ucast (key_type k) + ucast (clazz k)))"

section \<open>Records\<close>

definition rdata_equal :: "AvahiRecord \<Rightarrow> AvahiRecord \<Rightarrow> bool option" where
  "rdata_equal a b =
     (if key_type (rkey a) \<noteq> key_type (rkey b) then None
      else (case rr_kind (key_type (rkey a)) of
        K_SRV \<Rightarrow> do {
          (pa, wa, qa, na) \<leftarrow> d_srv (rdata a);
          (pb, wb, qb, nb) \<leftarrow> d_srv (rdata b);
          if pa = pb \<and> wa = wb \<and> qa = qb then avahi_domain_equal na nb else Some False }
      | K_PTR \<Rightarrow> do { na \<leftarrow> d_ptr (rdata a); nb \<leftarrow> d_ptr (rdata b); avahi_domain_equal na nb }
      | K_HINFO \<Rightarrow> do {
          (ca, oa) \<leftarrow> d_hinfo (rdata a);
          (cb, ob) \<leftarrow> d_hinfo (rdata b);
          Some (strcmp ca cb = 0 \<and> strcmp oa ob = 0) }
      | K_TXT \<Rightarrow> do {
          la \<leftarrow> d_txt (rdata a); lb \<leftarrow> d_txt (rdata b); Some (avahi_string_list_equal la lb) }
      | K_A \<Rightarrow> do { x \<leftarrow> d_a (rdata a); y \<leftarrow> d_a (rdata b); Some (x = y) }
      | K_AAAA \<Rightarrow> do { x \<leftarrow> d_aaaa (rdata a); y \<leftarrow> d_aaaa (rdata b); Some (x = y) }
      | K_GENERIC \<Rightarrow> do {
          x \<leftarrow> d_generic (rdata a);
          y \<leftarrow> d_generic (rdata b);
          Some (length x = length y \<and> (length x = 0 \<or> x = y)) }))"

definition avahi_record_equal_no_ttl :: "AvahiRecord \<Rightarrow> AvahiRecord \<Rightarrow> bool option" where
  "avahi_record_equal_no_ttl a b =
     (if a = b then Some True
      else do {
        k \<leftarrow> avahi_key_equal (rkey a) (rkey b);
        if k then rdata_equal a b else Some False })"

text \<open>
  \<open>avahi_memdup\<close> asserts that its source is not NULL, and duplicating no bytes gives NULL. The
  inner \<^const>\<open>None\<close> is the NULL that the copy returns then.
\<close>

definition avahi_record_copy :: "AvahiRecord \<Rightarrow> AvahiRecord option option" where
  "avahi_record_copy r =
     (case rr_kind (key_type (rkey r)) of
        K_PTR \<Rightarrow> do { n \<leftarrow> d_ptr (rdata r); Some (Some (r\<lparr>rdata := RD_PTR n\<rparr>)) }
      | K_SRV \<Rightarrow> do { (p, w, q, n) \<leftarrow> d_srv (rdata r); Some (Some (r\<lparr>rdata := RD_SRV p w q n\<rparr>)) }
      | K_HINFO \<Rightarrow> do { (c, os) \<leftarrow> d_hinfo (rdata r); Some (Some (r\<lparr>rdata := RD_HINFO c os\<rparr>)) }
      | K_TXT \<Rightarrow> do { l \<leftarrow> d_txt (rdata r); Some (Some (r\<lparr>rdata := RD_TXT (avahi_string_list_copy l)\<rparr>)) }
      | K_A \<Rightarrow> do { a \<leftarrow> d_a (rdata r); Some (Some (r\<lparr>rdata := RD_A a\<rparr>)) }
      | K_AAAA \<Rightarrow> do { a \<leftarrow> d_aaaa (rdata r); Some (Some (r\<lparr>rdata := RD_AAAA a\<rparr>)) }
      | K_GENERIC \<Rightarrow>
          (case rdata r of
             RD_GENERIC d \<Rightarrow> if length d = 0 then Some None else Some (Some (r\<lparr>rdata := RD_GENERIC d\<rparr>))
           | _ \<Rightarrow> None))"

definition avahi_key_get_estimate_size :: "AvahiKey \<Rightarrow> nat" where
  "avahi_key_get_estimate_size k = length (key_name k) + 1 + 4"

definition avahi_record_get_estimate_size :: "AvahiRecord \<Rightarrow> nat option" where
  "avahi_record_get_estimate_size r =
     (let n = avahi_key_get_estimate_size (rkey r) + 4 + 2 in
      (case rr_kind (key_type (rkey r)) of
         K_PTR \<Rightarrow> do { m \<leftarrow> d_ptr (rdata r); Some (n + (length m + 1)) }
       | K_SRV \<Rightarrow> do { (p, w, q, m) \<leftarrow> d_srv (rdata r); Some (n + (6 + length m + 1)) }
       | K_HINFO \<Rightarrow> do { (c, os) \<leftarrow> d_hinfo (rdata r); Some (n + (length os + 1 + length c + 1)) }
       | K_TXT \<Rightarrow> do { l \<leftarrow> d_txt (rdata r); Some (n + avahi_string_list_serialize_size l) }
       | K_A \<Rightarrow> Some (n + 4)
       | K_AAAA \<Rightarrow> Some (n + 16)
       | K_GENERIC \<Rightarrow> do { d \<leftarrow> d_generic (rdata r); Some (n + length d) }))"

text \<open>\<open>memcmp\<close> on byte ranges of the same length.\<close>

definition lexicographical_memcmp :: "string \<Rightarrow> string \<Rightarrow> int" where
  "lexicographical_memcmp a b =
     (let al = length a; bl = length b; c = (if al < bl then al else bl);
          ret = strcmp (take c a) (take c b)
      in if ret \<noteq> 0 then ret
         else if al = bl then 0
         else if al = c then 1 else -1)"

definition uint16_cmp :: "u16 \<Rightarrow> u16 \<Rightarrow> int" where
  "uint16_cmp a b = (if a = b then 0 else if a < b then -1 else 1)"

text \<open>Generic data is compared through its pointer, which a zeroed union has as NULL.\<close>

definition avahi_record_lexicographical_compare :: "AvahiRecord \<Rightarrow> AvahiRecord \<Rightarrow> int option" where
  "avahi_record_lexicographical_compare a b =
     (if a = b then Some 0
      else
        let rc = uint16_cmp (clazz (rkey a)) (clazz (rkey b));
            rt = uint16_cmp (key_type (rkey a)) (key_type (rkey b))
        in
        if rc \<noteq> 0 then Some rc else if rt \<noteq> 0 then Some rt
        else (case rr_kind (key_type (rkey a)) of
          K_PTR \<Rightarrow> do { na \<leftarrow> d_ptr (rdata a); nb \<leftarrow> d_ptr (rdata b); avahi_binary_domain_cmp na nb }
        | K_SRV \<Rightarrow> do {
            (pa, wa, qa, na) \<leftarrow> d_srv (rdata a);
            (pb, wb, qb, nb) \<leftarrow> d_srv (rdata b);
            if uint16_cmp pa pb \<noteq> 0 then Some (uint16_cmp pa pb)
            else if uint16_cmp wa wb \<noteq> 0 then Some (uint16_cmp wa wb)
            else if uint16_cmp qa qb \<noteq> 0 then Some (uint16_cmp qa qb)
            else avahi_binary_domain_cmp na nb }
        | K_HINFO \<Rightarrow> do {
            (ca, oa) \<leftarrow> d_hinfo (rdata a);
            (cb, ob) \<leftarrow> d_hinfo (rdata b);
            Some (if strcmp ca cb \<noteq> 0 then strcmp ca cb else strcmp oa ob) }
        | K_TXT \<Rightarrow> do {
            la \<leftarrow> d_txt (rdata a);
            lb \<leftarrow> d_txt (rdata b);
            Some (lexicographical_memcmp
              (avahi_string_list_serialize la (avahi_string_list_serialize_size la))
              (avahi_string_list_serialize lb (avahi_string_list_serialize_size lb))) }
        | K_A \<Rightarrow> do { x \<leftarrow> d_a (rdata a); y \<leftarrow> d_a (rdata b); Some (strcmp x y) }
        | K_AAAA \<Rightarrow> do { x \<leftarrow> d_aaaa (rdata a); y \<leftarrow> d_aaaa (rdata b); Some (strcmp x y) }
        | K_GENERIC \<Rightarrow>
            (case (rdata a, rdata b) of
               (RD_GENERIC x, RD_GENERIC y) \<Rightarrow> Some (lexicographical_memcmp x y)
             | _ \<Rightarrow> None)))"

definition avahi_record_is_goodbye :: "AvahiRecord \<Rightarrow> bool" where
  "avahi_record_is_goodbye r = (ttl r = 0)"

definition avahi_key_is_valid :: "AvahiKey \<Rightarrow> bool" where
  "avahi_key_is_valid k = avahi_is_valid_domain_name (key_name k)"

definition avahi_record_is_valid :: "AvahiRecord \<Rightarrow> bool option" where
  "avahi_record_is_valid r =
     (if \<not> avahi_key_is_valid (rkey r) then Some False
      else (case rr_kind (key_type (rkey r)) of
        K_PTR \<Rightarrow> do { n \<leftarrow> d_ptr (rdata r); Some (avahi_is_valid_domain_name n) }
      | K_SRV \<Rightarrow> do { (p, w, q, n) \<leftarrow> d_srv (rdata r); Some (avahi_is_valid_domain_name n) }
      | K_HINFO \<Rightarrow> do { (c, os) \<leftarrow> d_hinfo (rdata r); Some (length os \<le> 255 \<and> length c \<le> 255) }
      | K_TXT \<Rightarrow> do {
          l \<leftarrow> d_txt (rdata r); Some (\<not> list_ex (\<lambda>t. length t > 255 \<or> length t \<le> 0) l) }
      | _ \<Rightarrow> Some True))"

definition get_address :: "AvahiRecord \<Rightarrow> AvahiAddress option option" where
  "get_address r =
     (case rr_kind (key_type (rkey r)) of
        K_A \<Rightarrow> do { x \<leftarrow> d_a (rdata r); Some (Some \<lparr>proto = AVAHI_PROTO_INET, adata = x\<rparr>) }
      | K_AAAA \<Rightarrow> do { x \<leftarrow> d_aaaa (rdata r); Some (Some \<lparr>proto = AVAHI_PROTO_INET6, adata = x\<rparr>) }
      | _ \<Rightarrow> Some None)"

definition avahi_record_is_link_local_address :: "AvahiRecord \<Rightarrow> bool option" where
  "avahi_record_is_link_local_address r =
     (case get_address r of
        None \<Rightarrow> None
      | Some None \<Rightarrow> Some False
      | Some (Some a) \<Rightarrow> Some (avahi_address_is_link_local a))"

section \<open>Key lemmas\<close>

definition key_hash_fun :: "AvahiKey \<Rightarrow> u32" where
  "key_hash_fun k = (case avahi_key_hash k of Some h \<Rightarrow> h | None \<Rightarrow> 0)"

definition key_equal_fun :: "AvahiKey \<Rightarrow> AvahiKey \<Rightarrow> bool" where
  "key_equal_fun a b = (avahi_key_equal a b = Some True)"

lemma key_canon: "avahi_key_is_valid k \<Longrightarrow> \<exists>c. canon_name (key_name k) = Some c"
  unfolding avahi_key_is_valid_def by (rule valid_canon)

lemma avahi_key_equal_canon:
  assumes "canon_name (key_name a) = Some ca" "canon_name (key_name b) = Some cb"
  shows "avahi_key_equal a b = Some (ca = cb \<and> key_type a = key_type b \<and> clazz a = clazz b)"
  using assms avahi_domain_equal_canon [OF assms] by (auto simp: avahi_key_equal_def)

lemma avahi_key_hash_canon:
  "canon_name (key_name k) = Some c \<Longrightarrow>
   avahi_key_hash k = Some (fold hash_step (concat c) 0 + ucast (key_type k) + ucast (clazz k))"
  by (simp add: avahi_key_hash_def avahi_domain_hash_canon)

lemma avahi_key_pattern_match_canon:
  assumes "canon_name (key_name p) = Some cp" "canon_name (key_name k) = Some ck"
    and "\<not> avahi_key_is_pattern k"
  shows "avahi_key_pattern_match p k =
    Some (cp = ck \<and> (key_type p = key_type k \<or> key_type p = AVAHI_DNS_TYPE_ANY) \<and>
          (clazz p = clazz k \<or> clazz p = AVAHI_DNS_CLASS_ANY))"
  using assms avahi_domain_equal_canon [OF assms(1,2)]
  by (auto simp: avahi_key_pattern_match_def)

interpretation key_table: hash_contract key_hash_fun key_equal_fun avahi_key_is_valid
proof
  fix a b c
  assume ok: "avahi_key_is_valid a" "avahi_key_is_valid b"
  then obtain ca cb where c: "canon_name (key_name a) = Some ca" "canon_name (key_name b) = Some cb"
    using key_canon by blast
  show "key_equal_fun a a" by (simp add: key_equal_fun_def avahi_key_equal_def)
  show "key_equal_fun a b \<Longrightarrow> key_equal_fun b a"
    using c by (simp add: key_equal_fun_def avahi_key_equal_canon)
  show "key_equal_fun a b \<Longrightarrow> key_hash_fun a = key_hash_fun b"
    using c by (simp add: key_equal_fun_def key_hash_fun_def avahi_key_equal_canon avahi_key_hash_canon)
  assume "avahi_key_is_valid c"
  then obtain cc where "canon_name (key_name c) = Some cc" using key_canon by blast
  with c show "key_equal_fun a b \<Longrightarrow> key_equal_fun b c \<Longrightarrow> key_equal_fun a c"
    by (simp add: key_equal_fun_def avahi_key_equal_canon)
qed

section \<open>Well-formed records\<close>

text \<open>The data of a record that is valid, and of the type that its key says.\<close>

fun rdata_ok :: "rr_kind \<Rightarrow> rdata \<Rightarrow> bool" where
  "rdata_ok K_PTR (RD_PTR n) = avahi_is_valid_domain_name n"
| "rdata_ok K_SRV (RD_SRV p w q n) = avahi_is_valid_domain_name n"
| "rdata_ok K_HINFO (RD_HINFO c os) = (length os \<le> 255 \<and> length c \<le> 255)"
| "rdata_ok K_TXT (RD_TXT l) = list_all (\<lambda>t. t \<noteq> [] \<and> length t \<le> 255) l"
| "rdata_ok K_A (RD_A a) = (length a = 4)"
| "rdata_ok K_AAAA (RD_AAAA a) = (length a = 16)"
| "rdata_ok K_GENERIC (RD_GENERIC d) = (d \<noteq> [])"
| "rdata_ok _ _ = False"

fun_cases rdata_okE: "rdata_ok k d"

definition record_ok :: "AvahiRecord \<Rightarrow> bool" where
  "record_ok r = (avahi_key_is_valid (rkey r) \<and> rdata_ok (rr_kind (key_type (rkey r))) (rdata r))"

lemma record_ok_valid: "record_ok r \<Longrightarrow> avahi_record_is_valid r = Some True"
  unfolding record_ok_def
  by (auto elim!: rdata_okE dest!: bspec simp: avahi_record_is_valid_def list_all_iff list_ex_iff)

text \<open>The data up to the case and the escapes of names.\<close>

fun rdata_canon :: "rdata \<Rightarrow> rdata \<times> string list option" where
  "rdata_canon (RD_PTR n) = (RD_PTR [], canon_name n)"
| "rdata_canon (RD_SRV p w q n) = (RD_SRV p w q [], canon_name n)"
| "rdata_canon d = (d, None)"

lemma domain_equal_canon_valid:
  assumes "avahi_is_valid_domain_name m" "avahi_is_valid_domain_name n"
  shows "avahi_domain_equal m n = Some (canon_name m = canon_name n)"
proof -
  obtain cm cn where "canon_name m = Some cm" "canon_name n = Some cn" using assms valid_canon by blast
  then show ?thesis by (simp add: avahi_domain_equal_canon)
qed

lemma rdata_equal_canon:
  assumes "record_ok a" "record_ok b" "key_type (rkey a) = key_type (rkey b)"
  shows "rdata_equal a b = Some (rdata_canon (rdata a) = rdata_canon (rdata b))"
proof -
  have "rdata_ok (rr_kind (key_type (rkey a))) (rdata a)" "rdata_ok (rr_kind (key_type (rkey a))) (rdata b)"
    using assms by (simp_all add: record_ok_def)
  then show ?thesis
    using assms(3)
    by (elim rdata_okE) (auto simp: rdata_equal_def domain_equal_canon_valid)
qed

lemma avahi_record_equal_canon:
  assumes "record_ok a" "record_ok b"
  shows "avahi_record_equal_no_ttl a b =
    Some (key_equal_fun (rkey a) (rkey b) \<and> rdata_canon (rdata a) = rdata_canon (rdata b))"
proof -
  have "avahi_key_is_valid (rkey a)" "avahi_key_is_valid (rkey b)" using assms by (simp_all add: record_ok_def)
  then obtain ca cb where "canon_name (key_name (rkey a)) = Some ca" "canon_name (key_name (rkey b)) = Some cb"
    using key_canon by blast
  then have k: "avahi_key_equal (rkey a) (rkey b) =
      Some (ca = cb \<and> key_type (rkey a) = key_type (rkey b) \<and> clazz (rkey a) = clazz (rkey b))"
    by (rule avahi_key_equal_canon)
  have "key_equal_fun (rkey b) (rkey b)" by (simp add: key_equal_fun_def avahi_key_equal_def)
  with k rdata_equal_canon [OF assms] show ?thesis
    by (auto simp: avahi_record_equal_no_ttl_def key_equal_fun_def)
qed

section \<open>The lexicographical order\<close>

fun memcmp_long_first :: "string \<Rightarrow> string \<Rightarrow> int" where
  "memcmp_long_first [] [] = 0"
| "memcmp_long_first [] (b # bs) = 1"
| "memcmp_long_first (a # as) [] = -1"
| "memcmp_long_first (a # as) (b # bs) =
     (if a = b then memcmp_long_first as bs else if ucode a < ucode b then -1 else 1)"

lemma lexicographical_memcmp_rec: "lexicographical_memcmp a b = memcmp_long_first a b"
proof (induction a b rule: memcmp_long_first.induct)
  case (4 x as y bs)
  have "take (if length (x # as) < length (y # bs) then length (x # as) else length (y # bs)) (z # zs) =
    z # take (if length as < length bs then length as else length bs) zs" for z zs
    by (cases "length as < length bs") simp_all
  with 4 show ?case by (auto simp: lexicographical_memcmp_def Let_def split: if_splits)
qed (simp_all add: lexicographical_memcmp_def)

lemma memcmp_long_first_antisym: "memcmp_long_first b a = - memcmp_long_first a b"
proof (induction a b rule: memcmp_long_first.induct)
  case (4 a as b bs)
  then show ?case by (cases "a = b") (use ucode_inject [of a b] in \<open>auto\<close>)
qed auto

lemma memcmp_long_first_trans:
  "memcmp_long_first a b \<le> 0 \<Longrightarrow> memcmp_long_first b c \<le> 0 \<Longrightarrow> memcmp_long_first a c \<le> 0"
proof (induction a b arbitrary: c rule: memcmp_long_first.induct)
  case (4 x as y bs)
  then show ?case by (cases c) (auto split: if_splits simp: not_less dest: less_trans)
next
  case (3 x as)
  then show ?case by (cases c) auto
next
  case 1
  then show ?case by (cases c) auto
qed auto

lemma memcmp_long_first_0: "memcmp_long_first a b = 0 \<longleftrightarrow> a = b"
  by (induction a b rule: memcmp_long_first.induct) auto

interpretation memcmp_order: c_compare lexicographical_memcmp
proof
  show "lexicographical_memcmp a b < 0 \<longleftrightarrow> lexicographical_memcmp b a > 0" for a b
    using memcmp_long_first_antisym [of a b] by (simp add: lexicographical_memcmp_rec)
  show "lexicographical_memcmp a b \<le> 0 \<Longrightarrow> lexicographical_memcmp b c \<le> 0 \<Longrightarrow>
    lexicographical_memcmp a c \<le> 0" for a b c
    by (simp add: lexicographical_memcmp_rec memcmp_long_first_trans)
qed

interpretation uint16_order: c_compare uint16_cmp
  by unfold_locales (auto simp: uint16_cmp_def split: if_splits)

lemma uint16_cmp_0 [simp]: "uint16_cmp a b = 0 \<longleftrightarrow> a = b"
  by (simp add: uint16_cmp_def)

lemma strcmp_Nil: "strcmp x [] = (if x = [] then 0 else 1)" "strcmp [] x = (if x = [] then 0 else -1)"
  by (cases x; simp)+

lemma labels_cmp_trans: "labels_cmp a b \<le> 0 \<Longrightarrow> labels_cmp b c \<le> 0 \<Longrightarrow> labels_cmp a c \<le> 0"
proof (induction a b arbitrary: c rule: labels_cmp.induct)
  case (4 x as y bs)
  show ?case
  proof (cases c)
    case (Cons z cs)
    consider "x = y" | "x \<noteq> y" "y = z" | "x \<noteq> y" "y \<noteq> z" by blast
    then show ?thesis
    proof cases
      case 3
      then have "strcmp x y < 0" "strcmp y z < 0"
        using "4.prems" Cons by (auto simp: less_le)
      then have "strcmp x z < 0" using strcmp_order.cmp_less_trans by (meson less_imp_le)
      with Cons show ?thesis by (auto simp: strcmp_order.cmp_refl)
    qed (use 4 Cons in \<open>auto split: if_splits\<close>)
  qed (use 4 in \<open>auto simp: strcmp_Nil split: if_splits\<close>)
next
  case (2 y bs)
  then show ?case by (cases c) (auto simp: strcmp_Nil split: if_splits)
next
  case (3 x as)
  then show ?case by (cases c) (auto simp: strcmp_Nil split: if_splits)
next
  case 1
  then show ?case by auto
qed

interpretation labels_order: c_compare labels_cmp
proof
  show "labels_cmp a b < 0 \<longleftrightarrow> labels_cmp b a > 0" for a b
    using labels_cmp_antisym [of a b] by linarith
qed (rule labels_cmp_trans)

text \<open>The order of the records as a chain of criteria over all members of the union.\<close>

fun rd_index :: "rdata \<Rightarrow> string" where
  "rd_index RD_NULL = ''0''"
| "rd_index (RD_PTR _) = ''1''"
| "rd_index (RD_SRV _ _ _ _) = ''2''"
| "rd_index (RD_HINFO _ _) = ''3''"
| "rd_index (RD_TXT _) = ''4''"
| "rd_index (RD_A _) = ''5''"
| "rd_index (RD_AAAA _) = ''6''"
| "rd_index (RD_GENERIC _) = ''7''"

fun rd_name :: "rdata \<Rightarrow> string list" where
  "rd_name (RD_PTR n) = the (name_labels n)"
| "rd_name (RD_SRV _ _ _ n) = the (name_labels n)"
| "rd_name _ = []"

fun rd_srv :: "rdata \<Rightarrow> u16 \<times> u16 \<times> u16" where
  "rd_srv (RD_SRV p w q _) = (p, w, q)"
| "rd_srv _ = (0, 0, 0)"

fun rd_strings :: "rdata \<Rightarrow> string \<times> string" where
  "rd_strings (RD_HINFO c os) = (c, os)"
| "rd_strings (RD_A a) = (a, [])"
| "rd_strings (RD_AAAA a) = (a, [])"
| "rd_strings _ = ([], [])"

fun rd_bytes :: "rdata \<Rightarrow> string" where
  "rd_bytes (RD_TXT l) = avahi_string_list_serialize l (avahi_string_list_serialize_size l)"
| "rd_bytes (RD_GENERIC d) = d"
| "rd_bytes _ = []"

definition record_criteria :: "(AvahiRecord \<Rightarrow> AvahiRecord \<Rightarrow> int) list" where
  "record_criteria =
     [\<lambda>a b. uint16_cmp (clazz (rkey a)) (clazz (rkey b)),
      \<lambda>a b. uint16_cmp (key_type (rkey a)) (key_type (rkey b)),
      \<lambda>a b. strcmp (rd_index (rdata a)) (rd_index (rdata b)),
      \<lambda>a b. uint16_cmp (fst (rd_srv (rdata a))) (fst (rd_srv (rdata b))),
      \<lambda>a b. uint16_cmp (fst (snd (rd_srv (rdata a)))) (fst (snd (rd_srv (rdata b)))),
      \<lambda>a b. uint16_cmp (snd (snd (rd_srv (rdata a)))) (snd (snd (rd_srv (rdata b)))),
      \<lambda>a b. labels_cmp (rd_name (rdata a)) (rd_name (rdata b)),
      \<lambda>a b. strcmp (fst (rd_strings (rdata a))) (fst (rd_strings (rdata b))),
      \<lambda>a b. strcmp (snd (rd_strings (rdata a))) (snd (rd_strings (rdata b))),
      \<lambda>a b. lexicographical_memcmp (rd_bytes (rdata a)) (rd_bytes (rdata b))]"

interpretation record_order: c_compare "lex_chain record_criteria"
proof (rule c_compare_chain)
  note on = c_compare_on [OF uint16_order.c_compare_axioms]
    c_compare_on [OF strcmp_order.c_compare_axioms]
    c_compare_on [OF labels_order.c_compare_axioms]
    c_compare_on [OF memcmp_order.c_compare_axioms]
  show "list_all c_compare record_criteria"
    unfolding record_criteria_def list.pred_inject(2) by (intro conjI on list.pred_inject(1))
qed

lemma labels_cmp_refl [simp]: "labels_cmp l l = 0"
  by (rule labels_order.cmp_refl)

lemma lexicographical_memcmp_refl [simp]: "lexicographical_memcmp l l = 0"
  by (rule memcmp_order.cmp_refl)

lemma binary_domain_cmp_valid:
  assumes "avahi_is_valid_domain_name m" "avahi_is_valid_domain_name n"
  shows "avahi_binary_domain_cmp m n = Some (labels_cmp (the (name_labels m)) (the (name_labels n)))"
proof -
  obtain lm ln where "name_labels m = Some lm" "name_labels n = Some ln"
    using assms by (auto simp: avahi_is_valid_domain_name_labels)
  then show ?thesis by (simp add: avahi_binary_domain_cmp_labels)
qed

lemma lexicographical_compare_chain:
  assumes "record_ok a" "record_ok b"
  shows "avahi_record_lexicographical_compare a b = Some (lex_chain record_criteria a b)"
proof (cases "a = b")
  case True
  then show ?thesis by (simp add: avahi_record_lexicographical_compare_def record_order.cmp_refl)
next
  case ne: False
  show ?thesis
  proof (cases "clazz (rkey a) = clazz (rkey b) \<and> key_type (rkey a) = key_type (rkey b)")
    case False
    with ne show ?thesis
      by (auto simp: avahi_record_lexicographical_compare_def record_criteria_def Let_def)
  next
    case True
    then have "rdata_ok (rr_kind (key_type (rkey a))) (rdata a)"
      "rdata_ok (rr_kind (key_type (rkey a))) (rdata b)"
      using assms by (simp_all add: record_ok_def)
    with True ne show ?thesis
      by (elim rdata_okE)
        (auto simp: avahi_record_lexicographical_compare_def record_criteria_def Let_def
          binary_domain_cmp_valid)
  qed
qed

lemma serialize_inject:
  assumes "list_all (\<lambda>t. t \<noteq> [] \<and> length t \<le> 255) l" "list_all (\<lambda>t. t \<noteq> [] \<and> length t \<le> 255) l'"
    and "avahi_string_list_serialize l (avahi_string_list_serialize_size l) =
         avahi_string_list_serialize l' (avahi_string_list_serialize_size l')"
  shows "l = l'"
proof -
  have "Some l = Some l'"
    unfolding parse_serialize_ok [OF assms(1) order_refl, symmetric]
      parse_serialize_ok [OF assms(2) order_refl, symmetric] assms(3) ..
  then show ?thesis by simp
qed

lemma strip_root_canon:
  assumes "name_labels m = Some lm" "name_labels n = Some ln" "strip_root lm = strip_root ln"
  shows "canon_name m = canon_name n"
  using canon_labels_strip [OF assms(3)] by (simp add: canon_name_def assms(1,2))

lemma lexicographical_zero:
  assumes "record_ok a" "record_ok b" "lex_chain record_criteria a b = 0"
  shows "clazz (rkey a) = clazz (rkey b) \<and> key_type (rkey a) = key_type (rkey b) \<and>
    rdata_canon (rdata a) = rdata_canon (rdata b)"
proof -
  have eq: "clazz (rkey a) = clazz (rkey b)" "key_type (rkey a) = key_type (rkey b)"
    and srv: "rd_srv (rdata a) = rd_srv (rdata b)"
    and name: "labels_cmp (rd_name (rdata a)) (rd_name (rdata b)) = 0"
    and strings: "rd_strings (rdata a) = rd_strings (rdata b)"
    and bytes: "rd_bytes (rdata a) = rd_bytes (rdata b)"
    using assms(3) unfolding lex_chain_0 record_criteria_def
    by (auto simp: prod_eq_iff lexicographical_memcmp_rec memcmp_long_first_0)
  then have ok: "rdata_ok (rr_kind (key_type (rkey a))) (rdata a)"
    "rdata_ok (rr_kind (key_type (rkey a))) (rdata b)"
    using assms(1,2) by (simp_all add: record_ok_def)
  have names: "canon_name m = canon_name n"
    if valid: "avahi_is_valid_domain_name m" "avahi_is_valid_domain_name n"
      and zero: "labels_cmp (the (name_labels m)) (the (name_labels n)) = 0" for m n
  proof -
    obtain lm ln where l: "name_labels m = Some lm" "name_labels n = Some ln"
      using valid by (auto simp: avahi_is_valid_domain_name_labels)
    with zero have "strip_root lm = strip_root ln" by (simp add: labels_cmp_0)
    with l show ?thesis by (rule strip_root_canon)
  qed
  from ok eq srv name strings bytes show ?thesis
    by (elim rdata_okE) (auto intro: names serialize_inject)
qed

section \<open>Properties\<close>

text \<open>C28. On valid keys, key equality never aborts and is an equivalence that the key hash respects;
  a pattern matches a key exactly when the names are equal and type and class are equal or ANY
  in the pattern, so that a key that is no pattern matches exactly the keys equal to it.\<close>

theorem avahi_key_equal_pattern:
  assumes "avahi_key_is_valid a" "avahi_key_is_valid b" "avahi_key_is_valid c" "\<not> avahi_key_is_pattern b"
  shows "(\<exists>r. avahi_key_equal a b = Some r) \<and> avahi_key_equal a a = Some True \<and>
    avahi_key_equal a b = avahi_key_equal b a \<and>
    (avahi_key_equal a b = Some True \<and> avahi_key_equal b c = Some True \<longrightarrow> avahi_key_equal a c = Some True) \<and>
    (avahi_key_equal a b = Some True \<longrightarrow> avahi_key_hash a = avahi_key_hash b) \<and>
    avahi_key_pattern_match a b =
      Some (avahi_domain_equal (key_name a) (key_name b) = Some True \<and>
            key_type a \<in> {key_type b, AVAHI_DNS_TYPE_ANY} \<and> clazz a \<in> {clazz b, AVAHI_DNS_CLASS_ANY}) \<and>
    (\<not> avahi_key_is_pattern a \<longrightarrow> avahi_key_pattern_match a b = avahi_key_equal a b)"
proof -
  obtain ca cb cc where c: "canon_name (key_name a) = Some ca" "canon_name (key_name b) = Some cb"
    "canon_name (key_name c) = Some cc"
    using key_canon assms by metis
  note eq = avahi_key_equal_canon [OF c(1,2)] avahi_key_equal_canon [OF c(2,1)]
    avahi_key_equal_canon [OF c(2,3)] avahi_key_equal_canon [OF c(1,3)] avahi_key_equal_canon [OF c(1,1)]
  show ?thesis
    unfolding eq avahi_key_hash_canon [OF c(1)] avahi_key_hash_canon [OF c(2)]
      avahi_key_pattern_match_canon [OF c(1,2) assms(4)] avahi_domain_equal_canon [OF c(1,2)]
    by (auto simp: avahi_key_is_pattern_def)
qed

lemma avahi_key_examples:
  "avahi_key_is_valid \<lparr>key_name = ''Box.local'', clazz = 1, key_type = 0xFF\<rparr>"
  "avahi_key_is_valid \<lparr>key_name = ''box.local'', clazz = 1, key_type = 1\<rparr>"
  "\<not> avahi_key_is_pattern \<lparr>key_name = ''box.local'', clazz = 1, key_type = 1\<rparr>"
  "avahi_domain_equal ''Box.local'' ''box.local'' = Some True"
  by (simp_all add: avahi_key_is_valid_def avahi_key_is_pattern_def, code_simp+)

theorem avahi_key_equal_pattern_witness:
  "avahi_key_pattern_match \<lparr>key_name = ''Box.local'', clazz = 1, key_type = 0xFF\<rparr>
     \<lparr>key_name = ''box.local'', clazz = 1, key_type = 1\<rparr> = Some True"
  using avahi_key_equal_pattern [OF avahi_key_examples(1,2,2,3)]
  by (simp add: avahi_key_examples(4))

text \<open>C27. On well-formed records, \<open>avahi_record_equal_no_ttl\<close> never aborts and is an equivalence relation
  that ignores the TTL, and a copy of a record is the record itself.\<close>

theorem avahi_record_equal_copy:
  assumes "record_ok a" "record_ok b" "record_ok c"
  shows "(\<exists>r. avahi_record_equal_no_ttl a b = Some r) \<and>
    avahi_record_equal_no_ttl a (a\<lparr>ttl := t\<rparr>) = Some True \<and>
    avahi_record_equal_no_ttl a b = avahi_record_equal_no_ttl b a \<and>
    (avahi_record_equal_no_ttl a b = Some True \<and> avahi_record_equal_no_ttl b c = Some True \<longrightarrow>
       avahi_record_equal_no_ttl a c = Some True) \<and>
    avahi_record_copy a = Some (Some a)"
proof -
  have v: "avahi_key_is_valid (rkey a)" "avahi_key_is_valid (rkey b)" "avahi_key_is_valid (rkey c)"
    using assms by (simp_all add: record_ok_def)
  have t: "record_ok (a\<lparr>ttl := t\<rparr>)" using assms(1) by (simp add: record_ok_def)
  have "rdata_ok (rr_kind (key_type (rkey a))) (rdata a)" using assms(1) by (simp add: record_ok_def)
  then have "avahi_record_copy a = Some (Some a)"
    by (elim rdata_okE) (auto simp: avahi_record_copy_def)
  then show ?thesis
    unfolding avahi_record_equal_canon [OF assms(1,2)] avahi_record_equal_canon [OF assms(2,1)]
      avahi_record_equal_canon [OF assms(1) t] avahi_record_equal_canon [OF assms(2,3)]
      avahi_record_equal_canon [OF assms(1,3)]
    using key_table.equal_refl [OF v(1)] key_table.equal_commute [OF v(1,2)]
      key_table.equal_trans [OF v]
    by auto
qed

definition example_a :: AvahiRecord where
  "example_a = \<lparr>rkey = \<lparr>key_name = ''box.local'', clazz = 1, key_type = 1\<rparr>, ttl = 120,
     rdata = RD_A [CHR 0x0A, CHR 0x00, CHR 0x00, CHR 0x01]\<rparr>"

lemma example_a_ok: "record_ok example_a"
  using avahi_key_examples(2) by (simp add: record_ok_def example_a_def rr_kind_def)

theorem avahi_record_equal_copy_witness:
  "avahi_record_equal_no_ttl example_a (example_a\<lparr>ttl := 0\<rparr>) = Some True \<and>
   avahi_record_copy example_a = Some (Some example_a)"
  using avahi_record_equal_copy [OF example_a_ok example_a_ok example_a_ok] by blast

text \<open>C29. The comparison of records for the tie break between simultaneous probes is total on
  well-formed records, antisymmetric and transitive, orders by class and type first, and finds no
  difference only between records of the same class, type and data.\<close>

theorem avahi_record_lexicographical_compare_order:
  assumes "record_ok a" "record_ok b" "record_ok c"
  shows "\<exists>ab ba bc ac. avahi_record_lexicographical_compare a b = Some ab \<and>
    avahi_record_lexicographical_compare b a = Some ba \<and>
    avahi_record_lexicographical_compare b c = Some bc \<and>
    avahi_record_lexicographical_compare a c = Some ac \<and>
    (ab < 0 \<longleftrightarrow> ba > 0) \<and> (ab \<le> 0 \<and> bc \<le> 0 \<longrightarrow> ac \<le> 0) \<and>
    (clazz (rkey a) < clazz (rkey b) \<longrightarrow> ab < 0) \<and>
    (clazz (rkey a) = clazz (rkey b) \<and> key_type (rkey a) < key_type (rkey b) \<longrightarrow> ab < 0) \<and>
    (ab = 0 \<longrightarrow> clazz (rkey a) = clazz (rkey b) \<and> rdata_equal a b = Some True)"
proof -
  note chain = lexicographical_compare_chain
  have zero: "lex_chain record_criteria a b = 0 \<longrightarrow>
    clazz (rkey a) = clazz (rkey b) \<and> rdata_equal a b = Some True"
    using lexicographical_zero [OF assms(1,2)] rdata_equal_canon [OF assms(1,2)] by auto
  have first: "clazz (rkey a) < clazz (rkey b) \<longrightarrow> lex_chain record_criteria a b < 0"
    "clazz (rkey a) = clazz (rkey b) \<and> key_type (rkey a) < key_type (rkey b) \<longrightarrow>
     lex_chain record_criteria a b < 0"
    by (auto simp: record_criteria_def uint16_cmp_def)
  show ?thesis
    unfolding chain [OF assms(1,2)] chain [OF assms(2,1)] chain [OF assms(2,3)] chain [OF assms(1,3)]
    using record_order.cmp_swap [of a b] record_order.cmp_trans [of a b c] zero first by blast
qed

theorem avahi_record_lexicographical_compare_order_witness:
  "\<exists>ab. avahi_record_lexicographical_compare example_a
     (example_a\<lparr>rdata := RD_A [CHR 0x0A, CHR 0x00, CHR 0x00, CHR 0x02]\<rparr>) = Some ab"
proof -
  have "record_ok (example_a\<lparr>rdata := RD_A [CHR 0x0A, CHR 0x00, CHR 0x00, CHR 0x02]\<rparr>)"
    using example_a_ok by (simp add: record_ok_def example_a_def rr_kind_def)
  from avahi_record_lexicographical_compare_order [OF example_a_ok this example_a_ok]
  show ?thesis by blast
qed

text \<open>Data that is a proper prefix of other data sorts after it, whereas RFC 6762, section 8.2, makes
  the longer data the later one.\<close>

theorem lexicographical_memcmp_prefix_later:
  "lexicographical_memcmp a (a @ b # bs) = 1 \<and> lexicographical_memcmp (a @ b # bs) a = -1"
  unfolding lexicographical_memcmp_rec by (induction a) auto

text \<open>Duplicating a record without data, as it is read from the network for a type that the code has
  no member for, does not give a copy: the record as it was read makes \<open>avahi_memdup\<close> fail its
  assertion, and an empty block of data makes the copy return NULL.\<close>

theorem avahi_record_copy_empty:
  "avahi_record_copy \<lparr>rkey = \<lparr>key_name = n, clazz = 1, key_type = 41\<rparr>, ttl = t, rdata = RD_NULL\<rparr> = None \<and>
   avahi_record_copy \<lparr>rkey = \<lparr>key_name = n, clazz = 1, key_type = 41\<rparr>, ttl = t, rdata = RD_GENERIC []\<rparr> =
     Some None"
  by (simp add: avahi_record_copy_def rr_kind_def)

end
