(* ===== verification/DNS.thy ===== *)
theory DNS
  imports RR
begin

text \<open>
  \<^verbatim>\<open>avahi-core/dns.c\<close>: DNS packets. The bytes of a packet are a memory, a function from offsets to
  bytes, of which the first \<open>size\<close> are in use. A pointer into the packet is its offset. Sizes
  and offsets are natural numbers; they stay far below the limits of \<open>size_t\<close> and \<open>unsigned\<close>.

  Every operation that changes a packet has a result of the form \<open>Some (r, p')\<close>, where
  \<open>p'\<close> is the packet afterwards and \<open>r\<close> is \<^const>\<open>None\<close> for the failure (NULL or -1) and \<open>Some\<close>
  of the returned value otherwise. \<^const>\<open>None\<close> is a failed assertion.
\<close>

section \<open>Packets\<close>

abbreviation (input) AVAHI_DNS_PACKET_HEADER_SIZE :: nat where "AVAHI_DNS_PACKET_HEADER_SIZE \<equiv> 12"
abbreviation (input) AVAHI_DNS_PACKET_EXTRA_SIZE :: nat where "AVAHI_DNS_PACKET_EXTRA_SIZE \<equiv> 48"
abbreviation (input) AVAHI_DNS_LABELS_MAX :: nat where "AVAHI_DNS_LABELS_MAX \<equiv> 127"
abbreviation (input) AVAHI_DNS_RDATA_MAX :: nat where "AVAHI_DNS_RDATA_MAX \<equiv> 0xFFFF"
abbreviation (input) AVAHI_DNS_PACKET_SIZE_MAX :: nat where
  "AVAHI_DNS_PACKET_SIZE_MAX \<equiv> AVAHI_DNS_PACKET_HEADER_SIZE + 256 + 2 + 2 + 4 + 2 + AVAHI_DNS_RDATA_MAX"

abbreviation (input) AVAHI_DNS_FIELD_ID :: nat where "AVAHI_DNS_FIELD_ID \<equiv> 0"
abbreviation (input) AVAHI_DNS_FIELD_FLAGS :: nat where "AVAHI_DNS_FIELD_FLAGS \<equiv> 1"
abbreviation (input) AVAHI_DNS_FIELD_QDCOUNT :: nat where "AVAHI_DNS_FIELD_QDCOUNT \<equiv> 2"
abbreviation (input) AVAHI_DNS_FIELD_ANCOUNT :: nat where "AVAHI_DNS_FIELD_ANCOUNT \<equiv> 3"
abbreviation (input) AVAHI_DNS_FIELD_NSCOUNT :: nat where "AVAHI_DNS_FIELD_NSCOUNT \<equiv> 4"
abbreviation (input) AVAHI_DNS_FIELD_ARCOUNT :: nat where "AVAHI_DNS_FIELD_ARCOUNT \<equiv> 5"
abbreviation (input) AVAHI_DNS_FLAG_QR :: u16 where "AVAHI_DNS_FLAG_QR \<equiv> 0x8000"
abbreviation (input) AVAHI_DNS_FLAG_OPCODE :: u16 where "AVAHI_DNS_FLAG_OPCODE \<equiv> 0x7800"
abbreviation (input) AVAHI_DNS_FLAG_RCODE :: u16 where "AVAHI_DNS_FLAG_RCODE \<equiv> 0x000F"
abbreviation (input) AVAHI_DNS_FLAG_TC :: u16 where "AVAHI_DNS_FLAG_TC \<equiv> 0x0200"
abbreviation (input) AVAHI_DNS_FLAG_AA :: u16 where "AVAHI_DNS_FLAG_AA \<equiv> 0x0400"

type_synonym memory = "nat \<Rightarrow> char"

record AvahiDnsPacket =
  psize :: nat
  rindex :: nat
  max_size :: nat
  res_size :: nat
  name_table :: "(string, nat) AvahiHashmap option"
  pdata :: memory

definition write_bytes :: "memory \<Rightarrow> nat \<Rightarrow> string \<Rightarrow> memory" where
  "write_bytes mem off bs = (\<lambda>i. if off \<le> i \<and> i < off + length bs then bs ! (i - off) else mem i)"

definition read_bytes :: "memory \<Rightarrow> nat \<Rightarrow> nat \<Rightarrow> string" where
  "read_bytes mem off n = map mem [off..<off + n]"

text \<open>The big-endian bytes of 16 and 32 bit numbers.\<close>

definition be16 :: "u16 \<Rightarrow> string" where
  "be16 v = [char_of (unat (drop_bit 8 v)), char_of (unat v)]"

definition be32 :: "u32 \<Rightarrow> string" where
  "be32 v = [char_of (unat (drop_bit 24 v)), char_of (unat (drop_bit 16 v)),
     char_of (unat (drop_bit 8 v)), char_of (unat v)]"

definition get16 :: "memory \<Rightarrow> nat \<Rightarrow> u16" where
  "get16 mem off = push_bit 8 (of_nat (ucode (mem off))) OR of_nat (ucode (mem (off + 1)))"

definition get32 :: "memory \<Rightarrow> nat \<Rightarrow> u32" where
  "get32 mem off =
     push_bit 24 (of_nat (ucode (mem off))) OR push_bit 16 (of_nat (ucode (mem (off + 1)))) OR
     push_bit 8 (of_nat (ucode (mem (off + 2)))) OR of_nat (ucode (mem (off + 3)))"

text \<open>Sequencing of operations on a packet: a failure ends the sequence.\<close>

type_synonym 'a packet_op = "AvahiDnsPacket \<Rightarrow> ('a option \<times> AvahiDnsPacket) option"

definition op_bind :: "('a option \<times> AvahiDnsPacket) option \<Rightarrow>
    ('a \<Rightarrow> AvahiDnsPacket \<Rightarrow> ('b option \<times> AvahiDnsPacket) option) \<Rightarrow> ('b option \<times> AvahiDnsPacket) option" where
  "op_bind r f =
     (case r of
        None \<Rightarrow> None
      | Some (None, p) \<Rightarrow> Some (None, p)
      | Some (Some a, p) \<Rightarrow> f a p)"

section \<open>Header\<close>

text \<open>\<open>junk\<close> is the content of the fresh memory.\<close>

definition avahi_dns_packet_new :: "memory \<Rightarrow> nat \<Rightarrow> AvahiDnsPacket" where
  "avahi_dns_packet_new junk mtu =
     (let maxsz = (if mtu \<le> 0 then AVAHI_DNS_PACKET_SIZE_MAX
                 else if mtu \<ge> AVAHI_DNS_PACKET_EXTRA_SIZE then mtu - AVAHI_DNS_PACKET_EXTRA_SIZE
                 else 0);
          maxsz = (if maxsz < AVAHI_DNS_PACKET_HEADER_SIZE then AVAHI_DNS_PACKET_HEADER_SIZE else maxsz)
      in \<lparr>psize = AVAHI_DNS_PACKET_HEADER_SIZE, rindex = AVAHI_DNS_PACKET_HEADER_SIZE, max_size = maxsz,
          res_size = 0, name_table = None,
          pdata = write_bytes junk 0 (replicate AVAHI_DNS_PACKET_HEADER_SIZE (CHR 0x00))\<rparr>)"

definition avahi_dns_packet_set_field :: "AvahiDnsPacket \<Rightarrow> nat \<Rightarrow> u16 \<Rightarrow> AvahiDnsPacket option" where
  "avahi_dns_packet_set_field p idx v =
     (if idx < AVAHI_DNS_PACKET_HEADER_SIZE
      then Some (p\<lparr>pdata := write_bytes (pdata p) (2 * idx) (be16 v)\<rparr>)
      else None)"

definition avahi_dns_packet_get_field :: "AvahiDnsPacket \<Rightarrow> nat \<Rightarrow> u16 option" where
  "avahi_dns_packet_get_field p idx =
     (if idx < AVAHI_DNS_PACKET_HEADER_SIZE then Some (get16 (pdata p) (2 * idx)) else None)"

definition avahi_dns_packet_inc_field :: "AvahiDnsPacket \<Rightarrow> nat \<Rightarrow> AvahiDnsPacket option" where
  "avahi_dns_packet_inc_field p idx =
     do { v \<leftarrow> avahi_dns_packet_get_field p idx; avahi_dns_packet_set_field p idx (v + 1) }"

definition AVAHI_DNS_FLAGS ::
  "bool \<Rightarrow> u16 \<Rightarrow> bool \<Rightarrow> bool \<Rightarrow> bool \<Rightarrow> bool \<Rightarrow> bool \<Rightarrow> bool \<Rightarrow> u16 \<Rightarrow> u16" where
  "AVAHI_DNS_FLAGS qr opcode aa tc rd ra ad cd rcode =
     push_bit 15 (of_bool qr) OR push_bit 11 (opcode AND 15) OR push_bit 10 (of_bool aa) OR
     push_bit 9 (of_bool tc) OR push_bit 8 (of_bool rd) OR push_bit 7 (of_bool ra) OR
     push_bit 5 (of_bool ad) OR push_bit 4 (of_bool cd) OR (rcode AND 15)"

definition avahi_dns_packet_new_query :: "memory \<Rightarrow> nat \<Rightarrow> AvahiDnsPacket option" where
  "avahi_dns_packet_new_query junk mtu =
     avahi_dns_packet_set_field (avahi_dns_packet_new junk mtu) AVAHI_DNS_FIELD_FLAGS
       (AVAHI_DNS_FLAGS False 0 False False False False False False 0)"

definition avahi_dns_packet_new_response :: "memory \<Rightarrow> nat \<Rightarrow> bool \<Rightarrow> AvahiDnsPacket option" where
  "avahi_dns_packet_new_response junk mtu aa =
     avahi_dns_packet_set_field (avahi_dns_packet_new junk mtu) AVAHI_DNS_FIELD_FLAGS
       (AVAHI_DNS_FLAGS True 0 aa False False False False False 0)"

definition avahi_dns_packet_check_valid :: "AvahiDnsPacket \<Rightarrow> int option" where
  "avahi_dns_packet_check_valid p =
     (if psize p < AVAHI_DNS_PACKET_HEADER_SIZE then Some (-1)
      else do {
        flags \<leftarrow> avahi_dns_packet_get_field p AVAHI_DNS_FIELD_FLAGS;
        if flags AND AVAHI_DNS_FLAG_OPCODE \<noteq> 0 then Some (-1) else Some 0 })"

definition avahi_dns_packet_check_valid_multicast :: "AvahiDnsPacket \<Rightarrow> int option" where
  "avahi_dns_packet_check_valid_multicast p =
     do {
       v \<leftarrow> avahi_dns_packet_check_valid p;
       if v < 0 then Some (-1)
       else do {
         flags \<leftarrow> avahi_dns_packet_get_field p AVAHI_DNS_FIELD_FLAGS;
         if flags AND AVAHI_DNS_FLAG_RCODE \<noteq> 0 then Some (-1) else Some 0 } }"

definition avahi_dns_packet_is_query :: "AvahiDnsPacket \<Rightarrow> bool option" where
  "avahi_dns_packet_is_query p =
     do { flags \<leftarrow> avahi_dns_packet_get_field p AVAHI_DNS_FIELD_FLAGS; Some (flags AND AVAHI_DNS_FLAG_QR = 0) }"

section \<open>Appending\<close>

definition avahi_dns_packet_extend :: "nat \<Rightarrow> nat packet_op" where
  "avahi_dns_packet_extend l p =
     (if psize p + l > max_size p then Some (None, p)
      else Some (Some (psize p), p\<lparr>psize := psize p + l\<rparr>))"

text \<open>\<open>name_table_cleanup\<close> is the callback for one entry.\<close>

definition name_table_cleanup ::
  "AvahiDnsPacket \<Rightarrow> string \<Rightarrow> nat \<Rightarrow> (string, nat) AvahiHashmap \<times> unit \<Rightarrow> (string, nat) AvahiHashmap \<times> unit" where
  "name_table_cleanup p key value ts =
     (if value \<ge> psize p then (fst (avahi_hashmap_remove (fst ts) key), snd ts) else ts)"

definition avahi_dns_packet_cleanup_name_table :: "AvahiDnsPacket \<Rightarrow> AvahiDnsPacket" where
  "avahi_dns_packet_cleanup_name_table p =
     (case name_table p of
        None \<Rightarrow> p
      | Some t \<Rightarrow> p\<lparr>name_table := Some (fst (avahi_hashmap_foreach t (name_table_cleanup p) ()))\<rparr>)"

definition put_bytes :: "string \<Rightarrow> nat packet_op" where
  "put_bytes bs p =
     op_bind (avahi_dns_packet_extend (length bs) p)
       (\<lambda>d p. Some (Some d, p\<lparr>pdata := write_bytes (pdata p) d bs\<rparr>))"

definition avahi_dns_packet_append_uint16 :: "u16 \<Rightarrow> nat packet_op" where
  "avahi_dns_packet_append_uint16 v p = put_bytes (be16 v) p"

definition avahi_dns_packet_append_uint32 :: "u32 \<Rightarrow> nat packet_op" where
  "avahi_dns_packet_append_uint32 v p = put_bytes (be32 v) p"

definition avahi_dns_packet_append_bytes :: "string \<Rightarrow> nat packet_op" where
  "avahi_dns_packet_append_bytes b p = (if length b = 0 then None else put_bytes b p)"

definition avahi_dns_packet_append_string :: "string \<Rightarrow> nat packet_op" where
  "avahi_dns_packet_append_string s p =
     (let k = (if length s \<ge> 255 then 255 else length s) in put_bytes (char_of k # take k s) p)"

text \<open>
  The loop of \<open>avahi_dns_packet_append_name\<close>. How it ends: the name is complete, \<open>goto fail\<close>, or the
  \<open>return NULL\<close> after the compression pointer does not fit, which does not pass the label \<open>fail\<close>.
\<close>

datatype append_end = Name_Done | Name_Fail | Name_Null

definition table_lookup :: "AvahiDnsPacket \<Rightarrow> string \<Rightarrow> nat option" where
  "table_lookup p name =
     (case name_table p of None \<Rightarrow> None | Some t \<Rightarrow> avahi_hashmap_lookup t name)"

definition table_insert :: "string \<Rightarrow> nat \<Rightarrow> AvahiDnsPacket \<Rightarrow> AvahiDnsPacket" where
  "table_insert u d p =
     (let t = (case name_table p of
                 None \<Rightarrow> avahi_hashmap_new avahi_string_hash avahi_string_equal True False
               | Some t \<Rightarrow> t)
      in p\<lparr>name_table := Some (fst (snd (avahi_hashmap_insert t u d)))\<rparr>)"

text \<open>The offset that a compression pointer may refer to.\<close>

definition compress_ptr :: "AvahiDnsPacket \<Rightarrow> string \<Rightarrow> nat option option" where
  "compress_ptr p name =
     (case table_lookup p name of
        None \<Rightarrow> Some None
      | Some idx \<Rightarrow>
          if \<not> idx < psize p then None
          else if idx < 0x4000 then Some (Some idx)
          else Some None)"

function append_name_loop :: "string \<Rightarrow> AvahiDnsPacket \<Rightarrow> (append_end \<times> AvahiDnsPacket) option" where
  "append_name_loop name p =
     (if name = [] then
        (case put_bytes [CHR 0x00] p of
           Some (Some d, p') \<Rightarrow> Some (Name_Done, p')
         | Some (None, p') \<Rightarrow> Some (Name_Fail, p')
         | None \<Rightarrow> None)
      else
        (case compress_ptr p name of
           None \<Rightarrow> None
         | Some (Some idx) \<Rightarrow>
             (case put_bytes (be16 (0xC000 OR of_nat idx)) p of
                Some (Some d, p') \<Rightarrow> Some (Name_Done, p')
              | Some (None, p') \<Rightarrow> Some (Name_Null, p')
              | None \<Rightarrow> None)
         | Some None \<Rightarrow>
             (case avahi_unescape_label name AVAHI_LABEL_MAX of
                None \<Rightarrow> Some (Name_Fail, p)
              | Some (label, rest) \<Rightarrow>
                  (case avahi_dns_packet_append_string label p of
                     Some (Some d, p') \<Rightarrow> append_name_loop rest (table_insert name d p')
                   | Some (None, p') \<Rightarrow> Some (Name_Fail, p')
                   | None \<Rightarrow> None))))"
  by pat_completeness auto
termination
  by (relation "measure (\<lambda>(name, p). length name)") (auto dest: avahi_unescape_label_shorter)

declare append_name_loop.simps [simp del]

definition restore_size :: "nat \<Rightarrow> AvahiDnsPacket \<Rightarrow> AvahiDnsPacket" where
  "restore_size saved p = avahi_dns_packet_cleanup_name_table (p\<lparr>psize := saved\<rparr>)"

definition avahi_dns_packet_append_name :: "string \<Rightarrow> nat packet_op" where
  "avahi_dns_packet_append_name name p =
     (case append_name_loop name p of
        None \<Rightarrow> None
      | Some (Name_Done, p') \<Rightarrow> Some (Some (psize p), p')
      | Some (Name_Fail, p') \<Rightarrow> Some (None, restore_size (psize p) p')
      | Some (Name_Null, p') \<Rightarrow> Some (None, p'))"

text \<open>The common failure exit of the operations that append several parts.\<close>

definition or_restore :: "nat \<Rightarrow> ('a option \<times> AvahiDnsPacket) option \<Rightarrow> ('a option \<times> AvahiDnsPacket) option" where
  "or_restore saved r =
     (case r of
        Some (None, p') \<Rightarrow> Some (None, restore_size saved p')
      | _ \<Rightarrow> r)"

definition avahi_dns_packet_append_key :: "AvahiKey \<Rightarrow> bool \<Rightarrow> nat packet_op" where
  "avahi_dns_packet_append_key k unicast_response p =
     or_restore (psize p)
       (op_bind (avahi_dns_packet_append_name (key_name k) p) (\<lambda>t p.
        op_bind (avahi_dns_packet_append_uint16 (key_type k) p) (\<lambda>_ p.
        op_bind (avahi_dns_packet_append_uint16
          (clazz k OR (if unicast_response then AVAHI_DNS_UNICAST_RESPONSE else 0)) p) (\<lambda>_ p.
        Some (Some t, p)))))"

definition opt_op :: "'a option \<Rightarrow> ('a \<Rightarrow> ('b option \<times> AvahiDnsPacket) option) \<Rightarrow> ('b option \<times> AvahiDnsPacket) option" where
  "opt_op x f = (case x of None \<Rightarrow> None | Some a \<Rightarrow> f a)"

definition append_rdata :: "AvahiRecord \<Rightarrow> unit packet_op" where
  "append_rdata r p =
     (case rr_kind (key_type (rkey r)) of
        K_PTR \<Rightarrow> opt_op (d_ptr (rdata r)) (\<lambda>n.
          op_bind (avahi_dns_packet_append_name n p) (\<lambda>_ p. Some (Some (), p)))
      | K_SRV \<Rightarrow> opt_op (d_srv (rdata r)) (\<lambda>(pr, w, q, n).
          op_bind (avahi_dns_packet_append_uint16 pr p) (\<lambda>_ p.
          op_bind (avahi_dns_packet_append_uint16 w p) (\<lambda>_ p.
          op_bind (avahi_dns_packet_append_uint16 q p) (\<lambda>_ p.
          op_bind (avahi_dns_packet_append_name n p) (\<lambda>_ p. Some (Some (), p))))))
      | K_HINFO \<Rightarrow> opt_op (d_hinfo (rdata r)) (\<lambda>(cpu, os).
          op_bind (avahi_dns_packet_append_string cpu p) (\<lambda>_ p.
          op_bind (avahi_dns_packet_append_string os p) (\<lambda>_ p. Some (Some (), p))))
      | K_TXT \<Rightarrow> opt_op (d_txt (rdata r)) (\<lambda>l.
          let n = avahi_string_list_serialize_size l in
          op_bind (avahi_dns_packet_extend n p) (\<lambda>d p.
            Some (Some (), p\<lparr>pdata := write_bytes (pdata p) d (avahi_string_list_serialize l n)\<rparr>)))
      | K_A \<Rightarrow> opt_op (d_a (rdata r)) (\<lambda>a.
          op_bind (avahi_dns_packet_append_bytes a p) (\<lambda>_ p. Some (Some (), p)))
      | K_AAAA \<Rightarrow> opt_op (d_aaaa (rdata r)) (\<lambda>a.
          op_bind (avahi_dns_packet_append_bytes a p) (\<lambda>_ p. Some (Some (), p)))
      | K_GENERIC \<Rightarrow> opt_op (d_generic (rdata r)) (\<lambda>d.
          if length d \<noteq> 0
          then op_bind (avahi_dns_packet_append_bytes d p) (\<lambda>_ p. Some (Some (), p))
          else Some (Some (), p)))"

definition avahi_dns_packet_append_record :: "AvahiRecord \<Rightarrow> bool \<Rightarrow> u32 \<Rightarrow> nat packet_op" where
  "avahi_dns_packet_append_record r cache_flush max_ttl p =
     or_restore (psize p)
       (op_bind (avahi_dns_packet_append_name (key_name (rkey r)) p) (\<lambda>t p.
        op_bind (avahi_dns_packet_append_uint16 (key_type (rkey r)) p) (\<lambda>_ p.
        op_bind (avahi_dns_packet_append_uint16
          (if cache_flush then clazz (rkey r) OR AVAHI_DNS_CACHE_FLUSH
           else clazz (rkey r) AND NOT AVAHI_DNS_CACHE_FLUSH) p) (\<lambda>_ p.
        op_bind (avahi_dns_packet_append_uint32
          (if max_ttl \<noteq> 0 \<and> ttl r > max_ttl then max_ttl else ttl r) p) (\<lambda>_ p.
        op_bind (avahi_dns_packet_append_uint16 0 p) (\<lambda>l p.
        let start = psize p in
        op_bind (append_rdata r p) (\<lambda>_ p.
        let sz = psize p - start in
        if sz \<le> AVAHI_DNS_RDATA_MAX
        then Some (Some t, p\<lparr>pdata := write_bytes (pdata p) l (be16 (of_nat sz))\<rparr>)
        else None)))))))"

definition avahi_dns_packet_is_empty :: "AvahiDnsPacket \<Rightarrow> bool" where
  "avahi_dns_packet_is_empty p = (psize p \<le> AVAHI_DNS_PACKET_HEADER_SIZE)"

definition avahi_dns_packet_space :: "AvahiDnsPacket \<Rightarrow> nat option" where
  "avahi_dns_packet_space p = (if psize p \<le> max_size p then Some (max_size p - psize p) else None)"

definition avahi_dns_packet_reserve_size :: "nat \<Rightarrow> AvahiDnsPacket \<Rightarrow> (nat \<times> AvahiDnsPacket) option" where
  "avahi_dns_packet_reserve_size n p =
     (if \<not> psize p + res_size p \<le> max_size p then None
      else
        let p' = (if psize p + res_size p + n \<le> max_size p then p\<lparr>res_size := res_size p + n\<rparr> else p)
        in Some (res_size p', p'))"

definition avahi_dns_packet_reserved_space :: "AvahiDnsPacket \<Rightarrow> nat option" where
  "avahi_dns_packet_reserved_space p =
     (if psize p + res_size p \<le> max_size p then Some (max_size p - psize p - res_size p) else None)"

section \<open>Consuming\<close>

text \<open>
  The loop of \<open>consume_labels\<close>: the first argument counts the iterations that are left, \<open>l\<close> is the
  space left in the buffer, \<open>out\<close> its content. The inner \<^const>\<open>None\<close> is \<open>return -1\<close>.
\<close>

fun consume_labels_loop ::
  "nat \<Rightarrow> AvahiDnsPacket \<Rightarrow> nat \<Rightarrow> nat \<Rightarrow> nat \<Rightarrow> bool \<Rightarrow> bool \<Rightarrow> string \<Rightarrow> (string \<times> nat) option option" where
  "consume_labels_loop 0 p idx l ret compressed first_label out = Some None"
| "consume_labels_loop (Suc i) p idx l ret compressed first_label out =
     (if idx + 1 > psize p then Some None
      else
        let n = ucode (pdata p idx) in
        if n = 0 then
          (if l < 1 then Some None else Some (Some (out, if compressed then ret else ret + 1)))
        else if n \<le> 63 then
          (let idx = idx + 1; ret = (if compressed then ret else ret + 1) in
           if idx + n > psize p then Some None
           else if n + 1 > l then Some None
           else
             let out = (if first_label then out else out @ ''.'');
                 l = (if first_label then l else l - 1)
             in (case avahi_escape_label (read_bytes (pdata p) idx n) l of
                   None \<Rightarrow> None
                 | Some (False, e, l') \<Rightarrow> Some None
                 | Some (True, e, l') \<Rightarrow>
                     consume_labels_loop i p (idx + n) l' (if compressed then ret else ret + n)
                       compressed False (out @ e)))
        else if n AND 0xC0 = 0xC0 then
          (if idx + 2 > psize p then Some None
           else
             let label_ptr = push_bit 8 (n AND 0x3F) OR ucode (pdata p (idx + 1)) in
             if label_ptr < AVAHI_DNS_PACKET_HEADER_SIZE \<or> label_ptr \<ge> idx then Some None
             else consume_labels_loop i p label_ptr l (if compressed then ret else ret + 2)
                    True first_label out)
        else Some None)"

definition consume_labels :: "AvahiDnsPacket \<Rightarrow> nat \<Rightarrow> nat \<Rightarrow> (string \<times> nat) option option" where
  "consume_labels p idx l =
     (if l = 0 then None else consume_labels_loop AVAHI_DNS_LABELS_MAX p idx l 0 False True [])"

definition avahi_dns_packet_consume_name :: "nat \<Rightarrow> string packet_op" where
  "avahi_dns_packet_consume_name l p =
     (case consume_labels p (rindex p) l of
        None \<Rightarrow> None
      | Some None \<Rightarrow> Some (None, p)
      | Some (Some (name, r)) \<Rightarrow> Some (Some name, p\<lparr>rindex := rindex p + r\<rparr>))"

definition avahi_dns_packet_consume_uint16 :: "u16 packet_op" where
  "avahi_dns_packet_consume_uint16 p =
     (if rindex p + 2 > psize p then Some (None, p)
      else Some (Some (get16 (pdata p) (rindex p)), p\<lparr>rindex := rindex p + 2\<rparr>))"

definition avahi_dns_packet_consume_uint32 :: "u32 packet_op" where
  "avahi_dns_packet_consume_uint32 p =
     (if rindex p + 4 > psize p then Some (None, p)
      else Some (Some (get32 (pdata p) (rindex p)), p\<lparr>rindex := rindex p + 4\<rparr>))"

definition avahi_dns_packet_consume_bytes :: "nat \<Rightarrow> string packet_op" where
  "avahi_dns_packet_consume_bytes l p =
     (if l = 0 then None
      else if rindex p + l > psize p then Some (None, p)
      else Some (Some (read_bytes (pdata p) (rindex p) l), p\<lparr>rindex := rindex p + l\<rparr>))"

text \<open>The result is what precedes the NUL that the code writes into the buffer of \<open>l\<close> bytes.\<close>

definition avahi_dns_packet_consume_string :: "nat \<Rightarrow> string packet_op" where
  "avahi_dns_packet_consume_string l p =
     (if l = 0 then None
      else if rindex p \<ge> psize p then Some (None, p)
      else
        let k = ucode (pdata p (rindex p)) in
        if rindex p + 1 + k > psize p then Some (None, p)
        else
          let l = (if l > k + 1 then k + 1 else l) in
          Some (Some (read_bytes (pdata p) (rindex p + 1) (l - 1)), p\<lparr>rindex := rindex p + (1 + k)\<rparr>))"

text \<open>\<^const>\<open>None\<close> is NULL.\<close>

definition avahi_dns_packet_get_rptr :: "AvahiDnsPacket \<Rightarrow> nat option" where
  "avahi_dns_packet_get_rptr p = (if rindex p > psize p then None else Some (rindex p))"

definition avahi_dns_packet_skip :: "nat \<Rightarrow> unit packet_op" where
  "avahi_dns_packet_skip len p =
     (if rindex p + len > psize p then Some (None, p)
      else Some (Some (), p\<lparr>rindex := rindex p + len\<rparr>))"

text \<open>
  The bytes at the read pointer, which the called functions assert not to be NULL and read without another check:
  \<^const>\<open>None\<close> stands also for a read beyond the used part of the packet. The \<open>switch\<close> of
  \<open>parse_rdata\<close> is \<open>parse_rdata_kind\<close>: the data that it stores in the record.
\<close>

definition at_rptr :: "nat \<Rightarrow> AvahiDnsPacket \<Rightarrow> string option" where
  "at_rptr n p =
     (case avahi_dns_packet_get_rptr p of
        None \<Rightarrow> None
      | Some off \<Rightarrow> if off + n \<le> psize p then Some (read_bytes (pdata p) off n) else None)"

definition parse_rdata_kind :: "rr_kind \<Rightarrow> nat \<Rightarrow> rdata packet_op" where
  "parse_rdata_kind kind rdlength p =
     (case kind of
        K_PTR \<Rightarrow>
          op_bind (avahi_dns_packet_consume_name AVAHI_DOMAIN_NAME_MAX p) (\<lambda>n p. Some (Some (RD_PTR n), p))
      | K_SRV \<Rightarrow>
          op_bind (avahi_dns_packet_consume_uint16 p) (\<lambda>pr p.
          op_bind (avahi_dns_packet_consume_uint16 p) (\<lambda>w p.
          op_bind (avahi_dns_packet_consume_uint16 p) (\<lambda>q p.
          op_bind (avahi_dns_packet_consume_name AVAHI_DOMAIN_NAME_MAX p) (\<lambda>n p.
          Some (Some (RD_SRV pr w q n), p)))))
      | K_HINFO \<Rightarrow>
          op_bind (avahi_dns_packet_consume_string AVAHI_DOMAIN_NAME_MAX p) (\<lambda>c p.
          op_bind (avahi_dns_packet_consume_string AVAHI_DOMAIN_NAME_MAX p) (\<lambda>os p.
          Some (Some (RD_HINFO (c_str c) (c_str os)), p)))
      | K_TXT \<Rightarrow>
          if rdlength > 0 then
            (case at_rptr rdlength p of
               None \<Rightarrow> None
             | Some bs \<Rightarrow>
                 (case avahi_string_list_parse bs of
                    None \<Rightarrow> Some (None, p)
                  | Some l \<Rightarrow>
                      op_bind (avahi_dns_packet_skip rdlength p) (\<lambda>_ p. Some (Some (RD_TXT l), p))))
          else Some (Some (RD_TXT []), p)
      | K_A \<Rightarrow> op_bind (avahi_dns_packet_consume_bytes 4 p) (\<lambda>a p. Some (Some (RD_A a), p))
      | K_AAAA \<Rightarrow> op_bind (avahi_dns_packet_consume_bytes 16 p) (\<lambda>a p. Some (Some (RD_AAAA a), p))
      | K_GENERIC \<Rightarrow>
          if rdlength > 0 then
            (case at_rptr rdlength p of
               None \<Rightarrow> None
             | Some bs \<Rightarrow>
                 op_bind (avahi_dns_packet_skip rdlength p) (\<lambda>_ p. Some (Some (RD_GENERIC bs), p)))
          else Some (Some RD_NULL, p))"

text \<open>The difference of the read pointers is the number of bytes read.\<close>

definition parse_rdata :: "AvahiRecord \<Rightarrow> nat \<Rightarrow> AvahiRecord packet_op" where
  "parse_rdata r rdlength p =
     op_bind (parse_rdata_kind (rr_kind (key_type (rkey r))) rdlength p) (\<lambda>d p'.
       if rindex p' - rindex p \<noteq> rdlength then Some (None, p')
       else Some (Some (r\<lparr>rdata := d\<rparr>), p'))"

definition avahi_dns_packet_consume_record :: "(AvahiRecord \<times> bool) packet_op" where
  "avahi_dns_packet_consume_record p =
     op_bind (avahi_dns_packet_consume_name AVAHI_DOMAIN_NAME_MAX p) (\<lambda>name p.
     op_bind (avahi_dns_packet_consume_uint16 p) (\<lambda>type p.
     op_bind (avahi_dns_packet_consume_uint16 p) (\<lambda>class p.
     op_bind (avahi_dns_packet_consume_uint32 p) (\<lambda>t p.
     op_bind (avahi_dns_packet_consume_uint16 p) (\<lambda>rdlength p.
       if rindex p + unat rdlength > psize p then Some (None, p)
       else
         let cache_flush = (class AND AVAHI_DNS_CACHE_FLUSH \<noteq> 0);
             class = class AND NOT AVAHI_DNS_CACHE_FLUSH
         in
         (case avahi_record_new_full name class type t of
            None \<Rightarrow> None
          | Some None \<Rightarrow> Some (None, p)
          | Some (Some r) \<Rightarrow>
              op_bind (parse_rdata r (unat rdlength) p) (\<lambda>r p.
                (case avahi_record_is_valid r of
                   None \<Rightarrow> None
                 | Some False \<Rightarrow> Some (None, p)
                 | Some True \<Rightarrow> Some (Some (r, cache_flush), p)))))))))"

definition avahi_dns_packet_consume_key :: "(AvahiKey \<times> bool) packet_op" where
  "avahi_dns_packet_consume_key p =
     op_bind (avahi_dns_packet_consume_name 256 p) (\<lambda>name p.
     op_bind (avahi_dns_packet_consume_uint16 p) (\<lambda>type p.
     op_bind (avahi_dns_packet_consume_uint16 p) (\<lambda>class p.
       let unicast_response = (class AND AVAHI_DNS_UNICAST_RESPONSE \<noteq> 0);
           class = class AND NOT AVAHI_DNS_UNICAST_RESPONSE
       in
       (case avahi_key_new name class type of
          None \<Rightarrow> None
        | Some None \<Rightarrow> Some (None, p)
        | Some (Some k) \<Rightarrow>
            if \<not> avahi_key_is_valid k then Some (None, p)
            else Some (Some (k, unicast_response), p)))))"

section \<open>Replies\<close>

text \<open>The loop over the questions: the packet read from and the reply.\<close>

fun copy_queries_loop :: "nat \<Rightarrow> AvahiDnsPacket \<Rightarrow> AvahiDnsPacket \<Rightarrow> (AvahiDnsPacket \<times> AvahiDnsPacket) option" where
  "copy_queries_loop 0 p r = Some (p, r)"
| "copy_queries_loop (Suc n) p r =
     (case avahi_dns_packet_consume_key p of
        None \<Rightarrow> None
      | Some (None, p') \<Rightarrow> copy_queries_loop n p' r
      | Some (Some (k, unicast_response), p') \<Rightarrow>
          (case avahi_dns_packet_append_key k unicast_response r of
             None \<Rightarrow> None
           | Some (_, r') \<Rightarrow> copy_queries_loop n p' r'))"

definition avahi_dns_packet_new_reply ::
  "memory \<Rightarrow> AvahiDnsPacket \<Rightarrow> nat \<Rightarrow> bool \<Rightarrow> bool \<Rightarrow> (AvahiDnsPacket \<times> AvahiDnsPacket) option" where
  "avahi_dns_packet_new_reply junk p mtu copy_queries aa =
     do {
       r \<leftarrow> avahi_dns_packet_new_response junk mtu aa;
       (p, r) \<leftarrow>
         (if copy_queries then
            do {
              n \<leftarrow> avahi_dns_packet_get_field p AVAHI_DNS_FIELD_QDCOUNT;
              (p', r) \<leftarrow> copy_queries_loop (unat n) (p\<lparr>rindex := AVAHI_DNS_PACKET_HEADER_SIZE\<rparr>) r;
              r \<leftarrow> avahi_dns_packet_set_field r AVAHI_DNS_FIELD_QDCOUNT n;
              Some (p'\<lparr>rindex := rindex p\<rparr>, r)
            }
          else Some (p, r));
       i \<leftarrow> avahi_dns_packet_get_field p AVAHI_DNS_FIELD_ID;
       r \<leftarrow> avahi_dns_packet_set_field r AVAHI_DNS_FIELD_ID i;
       fr \<leftarrow> avahi_dns_packet_get_field r AVAHI_DNS_FIELD_FLAGS;
       fp \<leftarrow> avahi_dns_packet_get_field p AVAHI_DNS_FIELD_FLAGS;
       r \<leftarrow> avahi_dns_packet_set_field r AVAHI_DNS_FIELD_FLAGS
              ((fr AND NOT AVAHI_DNS_FLAG_OPCODE) OR (fp AND AVAHI_DNS_FLAG_OPCODE));
       Some (p, r)
     }"

section \<open>Record data on its own\<close>

text \<open>
  \<open>rdlength\<close> is an \<open>uint16_t\<close>, so the size is passed on modulo $2^{16}$. The result \<open>Some None\<close> is a
  negative result.
\<close>

definition avahi_rdata_parse :: "AvahiRecord \<Rightarrow> string \<Rightarrow> AvahiRecord option option" where
  "avahi_rdata_parse record bs =
     (let p = \<lparr>psize = length bs, rindex = 0, max_size = length bs, res_size = 0, name_table = None,
               pdata = write_bytes (\<lambda>_. CHR 0x00) 0 bs\<rparr>
      in map_option fst (parse_rdata record (length bs mod 2 ^ 16) p))"

definition avahi_rdata_serialize :: "AvahiRecord \<Rightarrow> memory \<Rightarrow> nat \<Rightarrow> string option option" where
  "avahi_rdata_serialize record junk maxsz =
     (if maxsz = 0 then None
      else
        let p = \<lparr>psize = 0, rindex = 0, max_size = maxsz, res_size = 0, name_table = None, pdata = junk\<rparr> in
        (case append_rdata record p of
           None \<Rightarrow> None
         | Some (None, p') \<Rightarrow> Some None
         | Some (Some _, p') \<Rightarrow> Some (Some (read_bytes (pdata p') 0 (psize p')))))"

end
