(* ===== verification/DNS_Names.thy ===== *)
theory DNS_Names
  imports DNS
begin

text \<open>
  Names in packets: what it means that a name is stored at an offset (with compression pointers),
  that \<open>consume_labels\<close> reads such names, and that \<open>avahi_dns_packet_append_name\<close> writes them and
  keeps the table of names in accordance with the packet, on success and on failure.
\<close>

section \<open>Memory\<close>

lemma length_read_bytes [simp]: "length (read_bytes m off n) = n"
  by (simp add: read_bytes_def)

lemma read_write_same [simp]: "read_bytes (write_bytes m off bs) off (length bs) = bs"
  by (rule nth_equalityI) (simp_all add: read_bytes_def write_bytes_def)

lemma nth_read_bytes [simp]: "i < n \<Longrightarrow> read_bytes m off n ! i = m (off + i)"
  by (simp add: read_bytes_def del: upt_Suc)

lemma read_bytes_cong:
  "(\<And>i. off \<le> i \<Longrightarrow> i < off + n \<Longrightarrow> m i = m' i) \<Longrightarrow> read_bytes m off n = read_bytes m' off n"
  by (simp add: read_bytes_def)

lemma write_bytes_below [simp]: "i < off \<Longrightarrow> write_bytes m off bs i = m i"
  by (simp add: write_bytes_def)

lemma write_bytes_above: "off + length bs \<le> i \<Longrightarrow> write_bytes m off bs i = m i"
  by (simp add: write_bytes_def)

lemma write_bytes_at: "off \<le> i \<Longrightarrow> i < off + length bs \<Longrightarrow> write_bytes m off bs i = bs ! (i - off)"
  by (simp add: write_bytes_def)

lemma read_write_tail: "read_bytes (write_bytes m off (c # l)) (off + 1) (length l) = l"
  by (rule nth_equalityI) (simp_all add: write_bytes_at)

lemma read_bytes_prefix: "read_bytes m off (length bs) = bs \<Longrightarrow> j < length bs \<Longrightarrow> m (off + j) = bs ! j"
proof -
  assume eq: "read_bytes m off (length bs) = bs" and j: "j < length bs"
  from j have "read_bytes m off (length bs) ! j = m (off + j)" by (simp add: read_bytes_def)
  with eq show ?thesis by simp
qed

lemma length_be [simp]: "length (be16 v) = 2" "length (be32 w) = 4"
  by (simp_all add: be16_def be32_def)

lemma byte_of_word: "of_nat (unat w mod 256) = take_bit 8 (w :: 'a :: len word)"
proof -
  have "of_nat (unat w mod 256) = (of_nat (take_bit 8 (unat w)) :: 'a word)"
    by (simp add: take_bit_eq_mod)
  also have "\<dots> = take_bit 8 w" by (simp flip: take_bit_of_nat)
  finally show ?thesis .
qed

lemma get16_be16: "m off = be16 v ! 0 \<Longrightarrow> m (off + 1) = be16 v ! 1 \<Longrightarrow> get16 m off = v"
proof -
  assume "m off = be16 v ! 0" "m (off + 1) = be16 v ! 1"
  then have "get16 m off = push_bit 8 (take_bit 8 (drop_bit 8 v)) OR take_bit 8 v"
    by (simp add: get16_def be16_def byte_of_word)
  also have "\<dots> = v"
    by (rule bit_word_eqI) (auto simp: bit_simps)
  finally show ?thesis .
qed

lemma get32_be32:
  assumes "m off = be32 v ! 0" "m (off + 1) = be32 v ! 1" "m (off + 2) = be32 v ! 2" "m (off + 3) = be32 v ! 3"
  shows "get32 m off = v"
proof -
  have "get32 m off = push_bit 24 (take_bit 8 (drop_bit 24 v)) OR push_bit 16 (take_bit 8 (drop_bit 16 v)) OR
    push_bit 8 (take_bit 8 (drop_bit 8 v)) OR take_bit 8 v"
    using assms by (simp add: get32_def be32_def byte_of_word)
  also have "\<dots> = v"
  proof (rule bit_word_eqI)
    fix n assume n: "n < LENGTH(32)"
    consider "n < 8" | "8 \<le> n" "n < 16" | "16 \<le> n" "n < 24" | "24 \<le> n" by linarith
    then show "bit (push_bit 24 (take_bit 8 (drop_bit 24 v)) OR push_bit 16 (take_bit 8 (drop_bit 16 v)) OR
      push_bit 8 (take_bit 8 (drop_bit 8 v)) OR take_bit 8 v) n = bit v n"
      by cases (use n in \<open>simp_all add: bit_simps less_diff_conv2\<close>)
  qed
  finally show ?thesis .
qed

lemma get16_write [simp]: "get16 (write_bytes m off (be16 v)) off = v"
  by (rule get16_be16) (simp_all add: write_bytes_at)

lemma get32_write [simp]: "get32 (write_bytes m off (be32 v)) off = v"
  by (rule get32_be32) (simp_all add: write_bytes_at)

section \<open>Stored names\<close>

text \<open>
  \<open>wire_name m sz idx ls k n\<close>: within the first \<open>sz\<close> bytes of \<open>m\<close>, the labels \<open>ls\<close> are stored from \<open>idx\<close>
  on; reading them takes \<open>k\<close> iterations, and \<open>n\<close> bytes belong to the name at \<open>idx\<close> itself.
\<close>

definition ptr_at :: "memory \<Rightarrow> nat \<Rightarrow> nat \<Rightarrow> bool" where
  "ptr_at m idx ptr =
     (ucode (m idx) AND 0xC0 = 0xC0 \<and> push_bit 8 (ucode (m idx) AND 0x3F) OR ucode (m (idx + 1)) = ptr)"

inductive wire_name :: "memory \<Rightarrow> nat \<Rightarrow> nat \<Rightarrow> string list \<Rightarrow> nat \<Rightarrow> nat \<Rightarrow> bool" where
  wire_end: "idx < sz \<Longrightarrow> m idx = CHR 0x00 \<Longrightarrow> wire_name m sz idx [] 1 1"
| wire_label:
    "l \<noteq> [] \<Longrightarrow> length l \<le> 63 \<Longrightarrow> idx + 1 + length l \<le> sz \<Longrightarrow> ucode (m idx) = length l \<Longrightarrow>
     read_bytes m (idx + 1) (length l) = l \<Longrightarrow> wire_name m sz (idx + 1 + length l) ls k n \<Longrightarrow>
     wire_name m sz idx (l # ls) (Suc k) (1 + length l + n)"
| wire_ptr:
    "idx + 2 \<le> sz \<Longrightarrow> ptr_at m idx ptr \<Longrightarrow> 12 \<le> ptr \<Longrightarrow> ptr < idx \<Longrightarrow>
     wire_name m sz ptr ls k n \<Longrightarrow> wire_name m sz idx ls (Suc k) 2"

lemma wire_name_mono:
  assumes "wire_name m sz idx ls k n" "sz \<le> sz'" "\<And>i. i < sz \<Longrightarrow> m' i = m i"
  shows "wire_name m' sz' idx ls k n"
  using assms
proof (induction rule: wire_name.induct)
  case (wire_end idx sz m)
  then show ?case by (intro wire_name.wire_end) auto
next
  case (wire_label l idx sz m ls k n)
  show ?case
  proof (rule wire_name.wire_label)
    have "read_bytes m' (idx + 1) (length l) = read_bytes m (idx + 1) (length l)"
      using wire_label by (intro read_bytes_cong) auto
    then show "read_bytes m' (idx + 1) (length l) = l" using wire_label by simp
  qed (use wire_label in auto)
next
  case (wire_ptr idx sz m ptr ls k n)
  show ?case
    by (rule wire_name.wire_ptr [of _ _ _ ptr]) (use wire_ptr in \<open>auto simp: ptr_at_def\<close>)
qed

lemma wire_name_in: "wire_name m sz idx ls k n \<Longrightarrow> idx + n \<le> sz \<and> 1 \<le> n"
  by (induction rule: wire_name.induct) auto

text \<open>The text of the labels, in front of which there is something or nothing.\<close>

definition label_text :: "bool \<Rightarrow> string list \<Rightarrow> string" where
  "label_text first ls = (if first then join_labels ls else concat (map (\<lambda>l. c_dot # escape_str l) ls))"

lemma label_text_Cons:
  "label_text first (l # ls) = (if first then [] else ''.'') @ escape_str l @ label_text False ls"
  by (simp add: label_text_def join_labels_tail c_dot_def)

lemma label_text_Nil [simp]: "label_text first [] = []"
  by (simp add: label_text_def)

lemma ptr_not_label: "(n :: nat) AND 0xC0 = 0xC0 \<Longrightarrow> \<not> n \<le> 63"
proof -
  assume a: "n AND 0xC0 = 0xC0"
  have "n AND 0xC0 = (n div 2 ^ 6) mod 2 ^ 2 * 2 ^ 6"
    using and_shifted_mask [of n 6 2] by (simp add: push_bit_eq_mult mask_eq_exp_minus_1)
  with a have "(n div 64) mod 4 = 3" by simp
  then show ?thesis by (cases "n \<le> 63") auto
qed

lemma consume_labels_loop_wire:
  assumes "wire_name (pdata p) (psize p) idx ls k n" "k \<le> i" "length (label_text first ls) < l"
  shows "consume_labels_loop i p idx l ret compressed first out =
    Some (Some (out @ label_text first ls, if compressed then ret else ret + n))"
  using assms
proof (induction "pdata p" "psize p" idx ls k n arbitrary: i l ret compressed first out rule: wire_name.induct)
  case (wire_end idx)
  then obtain j where "i = Suc j" by (cases i) auto
  with wire_end show ?case by (simp add: Let_def)
next
  case (wire_label la idx ls k n)
  then obtain j where i: "i = Suc j" by (cases i) auto
  let ?out = "if first then out else out @ ''.''"
  let ?l = "if first then l else l - 1"
  have len: "length la \<le> length (escape_str la)" using escape_str_length [of la] by simp
  have fit: "length (escape_str la) + length (label_text False ls) < ?l" "length la + 1 \<le> l"
    using wire_label.prems(2) len wire_label(1)
    by (auto simp: label_text_Cons split: if_splits)
  then have esc: "avahi_escape_label la ?l = Some (True, escape_str la, ?l - length (escape_str la))"
    by (intro avahi_escape_label_fits) simp
  have "consume_labels_loop i p idx l ret compressed first out =
    consume_labels_loop j p (idx + 1 + length la) (?l - length (escape_str la))
      (if compressed then ret else ret + 1 + length la) compressed False (?out @ escape_str la)"
    using wire_label.hyps(1-5) fit(2) esc by (simp add: i Let_def)
  also have "\<dots> = Some (Some ((?out @ escape_str la) @ label_text False ls,
      if compressed then (if compressed then ret else ret + 1 + length la)
      else (if compressed then ret else ret + 1 + length la) + n))"
    by (rule wire_label.hyps(7)) (use wire_label.prems i fit(1) in auto)
  finally show ?case by (simp add: label_text_Cons)
next
  case (wire_ptr idx ptr ls k n)
  then obtain j where i: "i = Suc j" by (cases i) auto
  have n: "ucode (pdata p idx) AND 0xC0 = 0xC0" "\<not> ucode (pdata p idx) \<le> 63"
    "push_bit 8 (ucode (pdata p idx) AND 0x3F) OR ucode (pdata p (idx + 1)) = ptr"
    using wire_ptr(2) ptr_not_label unfolding ptr_at_def by blast+
  then have "ucode (pdata p idx) \<noteq> 0" by auto
  with n wire_ptr.hyps(1,3,4) have "consume_labels_loop i p idx l ret compressed first out =
    consume_labels_loop j p ptr l (if compressed then ret else ret + 2) True first out"
    by (simp add: i Let_def)
  also have "\<dots> = Some (Some (out @ label_text first ls,
      if True then (if compressed then ret else ret + 2) else (if compressed then ret else ret + 2) + n))"
    by (rule wire_ptr.hyps(6)) (use wire_ptr.prems i in auto)
  finally show ?case by simp
qed

lemma consume_labels_wire:
  assumes "wire_name (pdata p) (psize p) idx ls k n" "k \<le> AVAHI_DNS_LABELS_MAX" "length (join_labels ls) < l"
  shows "consume_labels p idx l = Some (Some (join_labels ls, n))"
  using consume_labels_loop_wire [OF assms(1,2), of True l 0 False "[]"] assms(3)
  by (simp add: consume_labels_def label_text_def)

section \<open>The table of names\<close>

text \<open>
  What an entry of the table promises: at the offset, the labels of the name are stored, beginning
  with a label and not with a pointer, and every pointer that is followed leads to a label.
\<close>

definition entry_ok :: "memory \<Rightarrow> nat \<Rightarrow> string \<Rightarrow> nat \<Rightarrow> bool" where
  "entry_ok m sz s off =
     (12 \<le> off \<and> off < sz \<and>
      (\<exists>ls k n. name_labels s = Some ls \<and> ls \<noteq> [] \<and> wire_name m sz off ls k n \<and> k \<le> 2 * length ls))"

lemma entry_ok_mono:
  "entry_ok m sz s off \<Longrightarrow> sz \<le> sz' \<Longrightarrow> (\<And>i. i < sz \<Longrightarrow> m' i = m i) \<Longrightarrow> entry_ok m' sz' s off"
  unfolding entry_ok_def using wire_name_mono [of m sz off] by (meson le_trans less_le_trans)

abbreviation table_inv :: "(string, nat) AvahiHashmap \<Rightarrow> bool" where
  "table_inv \<equiv> hm_inv avahi_string_hash avahi_string_equal (\<lambda>_. True)"

definition table_ok :: "AvahiDnsPacket \<Rightarrow> bool" where
  "table_ok p = (case name_table p of None \<Rightarrow> True | Some t \<Rightarrow> table_inv t)"

text \<open>
  \<open>partial_ok s p\<close>: the first \<open>s\<close> bytes of the packet and the entries of the table that refer to them are
  in order; \<open>packet_ok p\<close>: the packet is.
\<close>

definition partial_ok :: "nat \<Rightarrow> AvahiDnsPacket \<Rightarrow> bool" where
  "partial_ok s p =
     (12 \<le> s \<and> s \<le> psize p \<and> psize p \<le> max_size p \<and> table_ok p \<and>
      (\<forall>nm off. table_lookup p nm = Some off \<longrightarrow> off < s \<longrightarrow> entry_ok (pdata p) s nm off))"

definition packet_ok :: "AvahiDnsPacket \<Rightarrow> bool" where
  "packet_ok p =
     (12 \<le> psize p \<and> psize p \<le> max_size p \<and> table_ok p \<and>
      (\<forall>nm off. table_lookup p nm = Some off \<longrightarrow> entry_ok (pdata p) (psize p) nm off))"

text \<open>What all appending operations leave alone.\<close>

definition extends :: "AvahiDnsPacket \<Rightarrow> AvahiDnsPacket \<Rightarrow> bool" where
  "extends p p' =
     (psize p \<le> psize p' \<and> max_size p' = max_size p \<and> rindex p' = rindex p \<and> res_size p' = res_size p \<and>
      (\<forall>i < psize p. pdata p' i = pdata p i))"

lemma extends_refl [simp]: "extends p p"
  by (simp add: extends_def)

lemma extends_trans [trans]: "extends p q \<Longrightarrow> extends q r \<Longrightarrow> extends p r"
  by (simp add: extends_def)

lemma extendsD:
  assumes "extends p p'"
  shows "psize p \<le> psize p'" "max_size p' = max_size p" "rindex p' = rindex p" "res_size p' = res_size p"
    "i < psize p \<Longrightarrow> pdata p' i = pdata p i"
  using assms by (simp_all add: extends_def)

lemma packet_ok_partial: "packet_ok p \<Longrightarrow> partial_ok (psize p) p"
  by (simp add: packet_ok_def partial_ok_def)

lemma table_insert_ok:
  assumes "table_ok p"
  shows "table_ok (table_insert u d p)"
    "table_lookup (table_insert u d p) s =
       (if s = u \<and> table_lookup p u = None then Some d else table_lookup p s)"
proof -
  define t where "t = (case name_table p of
    None \<Rightarrow> avahi_hashmap_new avahi_string_hash avahi_string_equal True False | Some t \<Rightarrow> t)"
  have t: "table_inv t" using assms by (auto simp: t_def table_ok_def hm_inv_new split: option.splits)
  have look: "table_lookup p s = avahi_hashmap_lookup t s" for s
    by (auto simp: t_def table_lookup_def avahi_hashmap_lookup_def entry_get_def avahi_hashmap_new_def
        split: option.splits)
  have new: "name_table (table_insert u d p) = Some (fst (snd (avahi_hashmap_insert t u d)))"
    by (simp add: table_insert_def t_def [symmetric] Let_def)
  show "table_ok (table_insert u d p)"
    using string_table.insert_inv [OF t TrueI, of u d] by (simp add: table_ok_def new)
  show "table_lookup (table_insert u d p) s =
       (if s = u \<and> table_lookup p u = None then Some d else table_lookup p s)"
  proof -
    have "table_lookup (table_insert u d p) s = avahi_hashmap_lookup (fst (snd (avahi_hashmap_insert t u d))) s"
      by (simp add: table_lookup_def new)
    with string_table.lookup_insert [OF t TrueI TrueI, of u d s] show ?thesis
      unfolding look by (simp add: avahi_string_equal_def)
  qed
qed

lemma table_insert_fields [simp]:
  "psize (table_insert u d p) = psize p" "max_size (table_insert u d p) = max_size p"
  "rindex (table_insert u d p) = rindex p" "res_size (table_insert u d p) = res_size p"
  "pdata (table_insert u d p) = pdata p"
  by (simp_all add: table_insert_def Let_def)

lemma name_table_cleanup_sweep: "name_table_cleanup p = sweep (\<lambda>v. psize p \<le> v)"
  by (simp add: fun_eq_iff name_table_cleanup_def sweep_def)

lemma restore_size_fields [simp]:
  "psize (restore_size s p) = s" "max_size (restore_size s p) = max_size p"
  "rindex (restore_size s p) = rindex p" "res_size (restore_size s p) = res_size p"
  "pdata (restore_size s p) = pdata p"
  by (simp_all add: restore_size_def avahi_dns_packet_cleanup_name_table_def split: option.split)

lemma restore_size_table:
  assumes "table_ok p"
  shows "table_ok (restore_size s p)"
    "table_lookup (restore_size s p) nm =
       (case table_lookup p nm of None \<Rightarrow> None | Some off \<Rightarrow> if s \<le> off then None else Some off)"
proof -
  have "table_ok (restore_size s p) \<and> table_lookup (restore_size s p) nm =
       (case table_lookup p nm of None \<Rightarrow> None | Some off \<Rightarrow> if s \<le> off then None else Some off)" for nm
  proof (cases "name_table p")
    case None
    then show ?thesis
      by (simp add: restore_size_def avahi_dns_packet_cleanup_name_table_def table_ok_def table_lookup_def)
  next
    case (Some t)
    then have t: "table_inv t" using assms by (simp add: table_ok_def)
    have new: "name_table (restore_size s p) = Some (fst (avahi_hashmap_foreach t (sweep (\<lambda>v. s \<le> v)) ()))"
      using Some
      by (simp add: restore_size_def avahi_dns_packet_cleanup_name_table_def name_table_cleanup_sweep)
    show ?thesis
      using string_table.lookup_sweep [OF t TrueI, of "\<lambda>v. s \<le> v" "()" nm] Some
      by (auto simp: table_ok_def table_lookup_def new split: option.split)
  qed
  then show "table_ok (restore_size s p)" "table_lookup (restore_size s p) nm =
       (case table_lookup p nm of None \<Rightarrow> None | Some off \<Rightarrow> if s \<le> off then None else Some off)"
    by blast+
qed

lemma restore_size_ok:
  assumes "partial_ok s p"
  shows "packet_ok (restore_size s p)"
  using assms restore_size_table [of p s]
  by (auto simp: partial_ok_def packet_ok_def split: option.splits if_splits)

lemma restore_size_partial:
  assumes "partial_ok s p" "s \<le> s'" "s' \<le> psize p"
  shows "partial_ok s (restore_size s' p)"
  using assms restore_size_table [of p s']
  by (auto simp: partial_ok_def split: option.splits if_splits)

section \<open>Appending bytes\<close>

lemma put_bytes_cases:
  "put_bytes bs p =
     (if psize p + length bs > max_size p then Some (None, p)
      else Some (Some (psize p),
        p\<lparr>psize := psize p + length bs, pdata := write_bytes (pdata p) (psize p) bs\<rparr>))"
  by (simp add: put_bytes_def avahi_dns_packet_extend_def op_bind_def)

lemma table_lookup_upd [simp]:
  "table_lookup (p\<lparr>psize := a\<rparr>) = table_lookup p" "table_lookup (p\<lparr>pdata := m\<rparr>) = table_lookup p"
  "table_lookup (p\<lparr>rindex := a\<rparr>) = table_lookup p"
  "table_ok (p\<lparr>psize := a\<rparr>) = table_ok p" "table_ok (p\<lparr>pdata := m\<rparr>) = table_ok p"
  "table_ok (p\<lparr>rindex := a\<rparr>) = table_ok p"
  by (simp_all add: table_lookup_def table_ok_def fun_eq_iff)

lemma put_bytes_ok:
  assumes "put_bytes bs p = Some (Some d, p')"
  shows "d = psize p" "extends p p'" "psize p' = psize p + length bs" "psize p' \<le> max_size p'"
    "pdata p' = write_bytes (pdata p) (psize p) bs"
    "table_lookup p' = table_lookup p" "table_ok p' = table_ok p"
  using assms by (auto simp: put_bytes_cases extends_def split: if_splits)

lemma put_bytes_packet_ok:
  assumes "packet_ok p" "put_bytes bs p = Some (Some d, p')"
  shows "packet_ok p'"
proof -
  note r = put_bytes_ok [OF assms(2)]
  have "entry_ok (pdata p') (psize p') nm off" if "table_lookup p nm = Some off" for nm off
  proof (rule entry_ok_mono [of "pdata p" "psize p"])
    show "entry_ok (pdata p) (psize p) nm off" using that assms(1) by (simp add: packet_ok_def)
  qed (use extendsD(1,5) [OF r(2)] in simp_all)
  with assms(1) r extendsD(1) [OF r(2)] show ?thesis
    unfolding packet_ok_def by auto
qed

lemma partial_ok_extend:
  assumes "partial_ok s p" "extends p p'" "psize p' \<le> max_size p'" "table_ok p'"
    and "\<And>nm off. table_lookup p' nm = Some off \<Longrightarrow> off < s \<Longrightarrow> table_lookup p nm = Some off"
  shows "partial_ok s p'"
proof -
  have "entry_ok (pdata p') s nm off" if "table_lookup p' nm = Some off" "off < s" for nm off
  proof (rule entry_ok_mono [of "pdata p" s])
    show "entry_ok (pdata p) s nm off" using assms(1,5) that by (simp add: partial_ok_def)
    show "pdata p' i = pdata p i" if "i < s" for i
      using that assms(1) extendsD(5) [OF assms(2)] by (simp add: partial_ok_def)
  qed simp
  with assms extendsD(1) [OF assms(2)] show ?thesis unfolding partial_ok_def by auto
qed

lemma put_bytes_partial_ok:
  assumes "partial_ok s p" "put_bytes bs p = Some (r, p')"
  shows "partial_ok s p'"
proof (cases r)
  case None
  with assms show ?thesis by (auto simp: put_bytes_cases split: if_splits)
next
  case (Some d)
  note r = put_bytes_ok [OF assms(2) [unfolded Some]]
  show ?thesis
    by (rule partial_ok_extend [OF assms(1) r(2)]) (use assms(1) r in \<open>auto simp: partial_ok_def\<close>)
qed

section \<open>Appending a name\<close>

text \<open>The number of bytes of a name without compression.\<close>

definition wire_len :: "string list \<Rightarrow> nat" where
  "wire_len ls = sum_list (map (\<lambda>l. 1 + length l) ls) + 1"

lemma wire_len_simps [simp]: "wire_len [] = 1" "wire_len (l # ls) = 1 + length l + wire_len ls"
  by (simp_all add: wire_len_def)

text \<open>
  The outcome of the loop on a name with the labels \<open>ls\<close>: entries of the table are old or refer to what
  has been appended; on success the name is stored and the new entries are in order.
\<close>

definition loop_result :: "AvahiDnsPacket \<Rightarrow> string list \<Rightarrow> append_end \<Rightarrow> AvahiDnsPacket \<Rightarrow> bool" where
  "loop_result p ls e p' =
     (extends p p' \<and> psize p' \<le> max_size p' \<and> table_ok p' \<and>
      (\<forall>nm off. table_lookup p' nm = Some off \<longrightarrow>
         table_lookup p nm = Some off \<or>
         psize p \<le> off \<and> (e = Name_Done \<longrightarrow> entry_ok (pdata p') (psize p') nm off)) \<and>
      (e = Name_Done \<longrightarrow>
         (\<exists>k. wire_name (pdata p') (psize p') (psize p) ls k (psize p' - psize p) \<and> k \<le> 2 * length ls + 1) \<and>
         psize p' - psize p \<le> wire_len ls) \<and>
      (psize p + wire_len ls \<le> max_size p \<longrightarrow> e = Name_Done))"

lemma ptr_bytes:
  assumes "idx < 0x4000" "m off = be16 (0xC000 OR of_nat idx) ! 0" "m (off + 1) = be16 (0xC000 OR of_nat idx) ! 1"
  shows "ptr_at m off idx"
proof -
  define w where "w = (0xC000 OR of_nat idx :: u16)"
  have "push_bit 14 (3 :: nat) OR idx = 3 * 2 ^ 14 + idx" by (rule or_disjoint_shift) (use assms(1) in simp)
  moreover have "unat w = unat (0xC000 :: u16) OR unat (of_nat idx :: u16)"
    unfolding w_def by (rule unsigned_or_eq)
  moreover have "unat (of_nat idx :: u16) = idx" using assms(1) by (simp add: unat_of_nat)
  ultimately have n: "unat w = 0xC000 + idx" by simp
  have hi: "ucode (m off) = 0xC0 + idx div 256"
  proof -
    have "unat (drop_bit 8 w) = (0xC000 + idx) div 256"
      unfolding unat_drop_bit_eq n by (simp add: drop_bit_eq_div)
    also have "\<dots> = 0xC0 + idx div 256" using div_mult_self3 [of 256 192 idx] by simp
    finally have "unat (drop_bit 8 w) = 0xC0 + idx div 256" .
    moreover have "idx div 256 < 64" using assms(1) by (simp add: less_mult_imp_div_less)
    ultimately show ?thesis using assms(2) by (simp add: be16_def w_def [symmetric])
  qed
  have lo: "ucode (m (off + 1)) = idx mod 256"
    using assms(3) n mod_mult_self3 [of 192 256 idx] by (simp add: be16_def w_def [symmetric])
  have d: "idx div 256 < 64" using assms(1) by (simp add: less_mult_imp_div_less)
  have "(192 + q) AND 0xC0 = (192 :: nat)" "(192 + q) AND 0x3F = q" if "q < 64" for q :: nat
  proof -
    have "(192 + q) AND 0xC0 = ((192 + q) div 2 ^ 6) mod 2 ^ 2 * 2 ^ 6"
      using and_shifted_mask [of "192 + q" 6 2] by (simp add: push_bit_eq_mult mask_eq_exp_minus_1)
    also have "(192 + q) div 2 ^ 6 = 3" using that by (simp add: div_eq_block)
    finally show "(192 + q) AND 0xC0 = (192 :: nat)" by simp
    have "(192 + q) AND 0x3F = (192 + q) mod 64"
      using take_bit_eq_mask [of 6 "192 + q"] by (simp add: take_bit_eq_mod mask_eq_exp_minus_1)
    then show "(192 + q) AND 0x3F = q" using that mod_block [of q 64 3] by simp
  qed
  note bits = this [OF d]
  have "push_bit 8 (idx div 256) OR idx mod 256 = idx div 256 * 2 ^ 8 + idx mod 256"
    by (rule or_disjoint_shift) simp
  then show ?thesis unfolding ptr_at_def hi lo bits by simp
qed

lemma append_string_label:
  assumes "length l < 64"
  shows "avahi_dns_packet_append_string l p = put_bytes (char_of (length l) # l) p"
  using assms by (simp add: avahi_dns_packet_append_string_def)

lemma loop_result_end:
  assumes "table_ok p" "psize p \<le> max_size p"
  shows "\<exists>e p'. append_name_loop [] p = Some (e, p') \<and> loop_result p [] e p'"
proof (cases "psize p + 1 > max_size p")
  case True
  then have "append_name_loop [] p = Some (Name_Fail, p)"
    by (simp add: append_name_loop.simps put_bytes_cases)
  with True assms show ?thesis by (auto simp: loop_result_def)
next
  case False
  define p' where "p' = p\<lparr>psize := psize p + 1, pdata := write_bytes (pdata p) (psize p) [CHR 0x00]\<rparr>"
  have "append_name_loop [] p = Some (Name_Done, p')"
    using False by (simp add: append_name_loop.simps put_bytes_cases p'_def)
  moreover have "wire_name (pdata p') (psize p') (psize p) [] 1 1"
    by (rule wire_end) (simp_all add: p'_def write_bytes_at)
  ultimately show ?thesis
    using assms False by (auto simp: loop_result_def extends_def p'_def intro!: exI [of _ "1 :: nat"])
qed

lemma loop_result_ptr:
  assumes "table_ok p" "psize p \<le> max_size p" "entry_ok (pdata p) (psize p) name idx"
    and "name_labels name = Some ls" "idx < 0x4000"
  shows "\<exists>e p'. (case put_bytes (be16 (0xC000 OR of_nat idx)) p of
                Some (Some d, p') \<Rightarrow> Some (Name_Done, p')
              | Some (None, p') \<Rightarrow> Some (Name_Null, p')
              | None \<Rightarrow> None) = Some (e, p') \<and> loop_result p ls e p'"
proof -
  obtain k n where w: "ls \<noteq> []" "wire_name (pdata p) (psize p) idx ls k n" "k \<le> 2 * length ls"
    and idx: "12 \<le> idx" "idx < psize p"
    using assms(3,4) by (auto simp: entry_ok_def)
  have len: "2 \<le> wire_len ls" using w(1) by (cases ls) (auto simp: wire_len_def)
  show ?thesis
  proof (cases "psize p + 2 > max_size p")
    case True
    then have "put_bytes (be16 (0xC000 OR of_nat idx)) p = Some (None, p)" by (simp add: put_bytes_cases)
    with True assms(1,2) len show ?thesis by (auto simp: loop_result_def)
  next
    case False
    let ?b = "be16 (0xC000 OR of_nat idx)"
    define p' where "p' = p\<lparr>psize := psize p + 2, pdata := write_bytes (pdata p) (psize p) ?b\<rparr>"
    have put: "put_bytes ?b p = Some (Some (psize p), p')"
      using False by (simp add: put_bytes_cases p'_def)
    have "ptr_at (pdata p') (psize p) idx"
      by (rule ptr_bytes [OF assms(5)]) (simp_all add: p'_def write_bytes_at)
    moreover have "wire_name (pdata p') (psize p') idx ls k n"
      by (rule wire_name_mono [OF w(2)]) (simp_all add: p'_def)
    ultimately have "wire_name (pdata p') (psize p') (psize p) ls (Suc k) 2"
      using idx by (intro wire_ptr) (simp_all add: p'_def)
    moreover have "extends p p'" "psize p' = psize p + 2" "psize p' \<le> max_size p'"
      "table_lookup p' = table_lookup p" "table_ok p'"
      using False assms(1) by (simp_all add: p'_def extends_def)
    ultimately have "loop_result p ls Name_Done p'"
      unfolding loop_result_def using w(3) len by (auto intro!: exI [of _ "Suc k"])
    with put show ?thesis by auto
  qed
qed

lemma loop_result_label:
  assumes step: "put_bytes (char_of (length l) # l) p = Some (Some d, p1)"
    and l: "l \<noteq> []" "length l < 64" and ok: "table_ok p" "12 \<le> psize p"
    and name: "name_labels name = Some (l # ls)"
    and rest: "loop_result (table_insert name d p1) ls e p'"
  shows "loop_result p (l # ls) e p'"
proof -
  note p1 = put_bytes_ok [OF step]
  let ?p2 = "table_insert name d p1"
  have p2: "extends p ?p2" "psize ?p2 = psize p + 1 + length l" "table_ok ?p2"
    "pdata ?p2 = write_bytes (pdata p) (psize p) (char_of (length l) # l)"
    using p1 ok(1) table_insert_ok(1) [of p1 name d] by (auto simp: extends_def)
  have look: "table_lookup ?p2 nm = Some off \<Longrightarrow> table_lookup p nm = Some off \<or> nm = name \<and> off = psize p"
    for nm off
    using table_insert_ok(2) [of p1 name d nm] p1 ok(1) by (auto split: if_splits)
  note r = rest [unfolded loop_result_def]
  have ext: "extends p p'" using p2(1) r by (blast intro: extends_trans)
  have mem: "pdata p' i = pdata ?p2 i" if "i < psize p + 1 + length l" for i
    using that r p2(2) by (simp add: extends_def)
  have wire: "wire_name (pdata p') (psize p') (psize p) (l # ls) (Suc k) (1 + length l + (psize p' - psize ?p2))"
    if "wire_name (pdata p') (psize p') (psize ?p2) ls k (psize p' - psize ?p2)" for k
  proof (rule wire_label)
    show "ucode (pdata p' (psize p)) = length l"
      using mem [of "psize p"] l(2) by (simp add: p1(5) write_bytes_at)
    have "read_bytes (pdata p') (psize p + 1) (length l) = read_bytes (pdata ?p2) (psize p + 1) (length l)"
      using mem by (intro read_bytes_cong) auto
    also have "\<dots> = l"
      unfolding p2(4) by (rule read_write_tail)
    finally show "read_bytes (pdata p') (psize p + 1) (length l) = l" .
    show "psize p + 1 + length l \<le> psize p'" using r p2(2) by (simp add: extends_def)
    show "wire_name (pdata p') (psize p') (psize p + 1 + length l) ls k (psize p' - psize ?p2)"
      using that p2(2) by simp
  qed (use l in auto)
  have "psize ?p2 \<le> psize p'" using r by (simp add: extends_def)
  then have size: "1 + length l + (psize p' - psize ?p2) = psize p' - psize p"
    unfolding p2(2) by linarith
  have new: "entry_ok (pdata p') (psize p') name (psize p)" if e: "e = Name_Done"
  proof -
    obtain k where "wire_name (pdata p') (psize p') (psize ?p2) ls k (psize p' - psize ?p2)"
      "k \<le> 2 * length ls + 1" using r e by blast
    with wire have "wire_name (pdata p') (psize p') (psize p) (l # ls) (Suc k) (psize p' - psize p)"
      "Suc k \<le> 2 * length (l # ls)" unfolding size [symmetric] by auto
    moreover have "psize p < psize p'" using r p2(2) by (simp add: extends_def)
    ultimately show ?thesis unfolding entry_ok_def using name ok(2) by blast
  qed
  show ?thesis
    unfolding loop_result_def
  proof (intro conjI allI impI)
    show "extends p p'" by (rule ext)
    show "psize p' \<le> max_size p'" "table_ok p'" using r by blast+
    show "table_lookup p nm = Some off \<or>
         psize p \<le> off \<and> (e = Name_Done \<longrightarrow> entry_ok (pdata p') (psize p') nm off)"
      if "table_lookup p' nm = Some off" for nm off
    proof -
      have "table_lookup ?p2 nm = Some off \<or>
        psize ?p2 \<le> off \<and> (e = Name_Done \<longrightarrow> entry_ok (pdata p') (psize p') nm off)"
        using r that by blast
      then show ?thesis using look new p2(2) by fastforce
    qed
    show "\<exists>k. wire_name (pdata p') (psize p') (psize p) (l # ls) k (psize p' - psize p) \<and>
      k \<le> 2 * length (l # ls) + 1" if "e = Name_Done"
      using r that wire [unfolded size] by fastforce
    show "psize p' - psize p \<le> wire_len (l # ls)" if "e = Name_Done"
      using r that size by fastforce
    show "e = Name_Done" if "psize p + wire_len (l # ls) \<le> max_size p"
      using r that p2(1,2) by (simp add: extends_def)
  qed
qed

lemma append_name_loop_result:
  assumes "table_ok p" "12 \<le> psize p" "psize p \<le> max_size p"
    and "name_labels name = Some ls" "[] \<notin> set ls" "CHR 0x00 \<notin> set name"
    and "\<And>nm off. table_lookup p nm = Some off \<Longrightarrow>
      entry_ok (pdata p) (psize p) nm off \<or> length name < length nm \<and> off < psize p"
  shows "\<exists>e p'. append_name_loop name p = Some (e, p') \<and> loop_result p ls e p'"
  using assms
proof (induction name p arbitrary: ls rule: append_name_loop.induct)
  case (1 name p)
  show ?case
  proof (cases "name = []")
    case True
    with "1.prems" show ?thesis using loop_result_end by auto
  next
    case ne: False
    obtain l rest ls' where un: "avahi_unescape_label name AVAHI_LABEL_MAX = Some (l, rest)"
      and ls: "ls = l # ls'" "name_labels rest = Some ls'"
      using name_labels_step [OF ne "1.prems"(4)] by metis
    have l: "l \<noteq> []" "length l < 64" "CHR 0x00 \<notin> set rest"
      using avahi_unescape_label_label [OF un "1.prems"(6)] "1.prems"(5) ls
      by (auto simp: AVAHI_LABEL_MAX_def)
    have look: "entry_ok (pdata p) (psize p) name idx" if "table_lookup p name = Some idx" for idx
      using "1.prems"(7) [OF that] by simp
    show ?thesis
    proof (cases "compress_ptr p name")
      case None
      then show ?thesis
        using look by (auto simp: compress_ptr_def entry_ok_def split: option.splits if_splits)
    next
      case (Some c)
      show ?thesis
      proof (cases c)
        case (Some idx)
        with \<open>compress_ptr p name = Some c\<close> have idx: "table_lookup p name = Some idx" "idx < 0x4000"
          by (auto simp: compress_ptr_def split: option.splits if_splits)
        from loop_result_ptr [OF "1.prems"(1,3) look [OF idx(1)] "1.prems"(4) idx(2)]
        show ?thesis
          using ne \<open>compress_ptr p name = Some c\<close> Some by (simp add: append_name_loop.simps [of name p])
      next
        case None
        note comp = \<open>compress_ptr p name = Some c\<close> [unfolded None]
        note str = append_string_label [OF l(2), of p]
        show ?thesis
        proof (cases "psize p + (1 + length l) > max_size p")
          case True
          then have "append_name_loop name p = Some (Name_Fail, p)"
            using ne comp un str by (simp add: append_name_loop.simps [of name p] put_bytes_cases)
          moreover have "loop_result p ls Name_Fail p"
            using True "1.prems"(1,3) by (auto simp: loop_result_def ls)
          ultimately show ?thesis by blast
        next
          case False
          define p1 where "p1 = p\<lparr>psize := psize p + (1 + length l),
            pdata := write_bytes (pdata p) (psize p) (char_of (length l) # l)\<rparr>"
          have put: "put_bytes (char_of (length l) # l) p = Some (Some (psize p), p1)"
            using False by (simp add: put_bytes_cases p1_def)
          note p1 = put_bytes_ok [OF put]
          let ?p2 = "table_insert name (psize p) p1"
          have step: "append_name_loop name p = append_name_loop rest ?p2"
            using ne comp un str put by (simp add: append_name_loop.simps [of name p])
          have tok: "table_ok p1" using p1(7) "1.prems"(1) by simp
          have short: "length rest < length name" using avahi_unescape_label_shorter [OF un ne] .
          have "\<exists>e p'. append_name_loop rest ?p2 = Some (e, p') \<and> loop_result ?p2 ls' e p'"
          proof (rule "1.IH" [OF ne comp refl un refl str [unfolded put] refl refl])
            show "table_ok ?p2" using tok by (rule table_insert_ok)
            show "12 \<le> psize ?p2" "psize ?p2 \<le> max_size ?p2" using p1(3,4) "1.prems"(2) by simp_all
            show "name_labels rest = Some ls'" "[] \<notin> set ls'" "CHR 0x00 \<notin> set rest"
              using ls "1.prems"(5) l(3) by auto
            show "entry_ok (pdata ?p2) (psize ?p2) nm off \<or> length rest < length nm \<and> off < psize ?p2"
              if "table_lookup ?p2 nm = Some off" for nm off
            proof (cases "table_lookup p nm = Some off")
              case True
              from "1.prems"(7) [OF True] show ?thesis
              proof
                assume "entry_ok (pdata p) (psize p) nm off"
                then have "entry_ok (pdata p1) (psize p1) nm off"
                  by (rule entry_ok_mono) (use extendsD [OF p1(2)] in auto)
                then show ?thesis by simp
              qed (use short p1(3) in auto)
            next
              case False
              with that table_insert_ok(2) [OF tok, of name "psize p" nm] p1(6)
              have "nm = name" "off = psize p" by (auto split: if_splits)
              with short p1(3) show ?thesis by simp
            qed
          qed
          then obtain e p' where "append_name_loop rest ?p2 = Some (e, p')" "loop_result ?p2 ls' e p'"
            by blast
          moreover from this(2) have "loop_result p (l # ls') e p'"
            using loop_result_label [OF put l(1,2) "1.prems"(1,2)] "1.prems"(4) ls(1) by blast
          ultimately show ?thesis using step ls(1) by auto
        qed
      qed
    qed
  qed
qed

end
