(* ===== verification/DNS_Rdata.thy ===== *)
theory DNS_Rdata
  imports DNS_Names
begin

text \<open>
  Keys and the data of records in packets: sequences of appending operations keep the packet and its
  table of names in order and undo what they did when the space does not suffice, and what they append
  is read back.
\<close>

section \<open>Sequences of appending operations\<close>

text \<open>A name that the code accepts, with its labels.\<close>

definition name_ok :: "string \<Rightarrow> string list \<Rightarrow> bool" where
  "name_ok name ls = (name_labels name = Some ls \<and> [] \<notin> set ls \<and> CHR 0x00 \<notin> set name)"

text \<open>
  \<open>app_ok s p r\<close>: the operation with the result \<open>r\<close> on the packet \<open>p\<close> returns and only extends the packet;
  the first \<open>s\<close> bytes with their names stay in order, and after a success all names are.
\<close>

definition app_ok :: "nat \<Rightarrow> AvahiDnsPacket \<Rightarrow> ('a option \<times> AvahiDnsPacket) option \<Rightarrow> bool" where
  "app_ok s p res =
     (\<exists>r p'. res = Some (r, p') \<and> extends p p' \<and> partial_ok s p' \<and> (r \<noteq> None \<longrightarrow> packet_ok p'))"

lemma app_okI:
  "res = Some (r, p') \<Longrightarrow> extends p p' \<Longrightarrow> partial_ok s p' \<Longrightarrow> (r \<noteq> None \<Longrightarrow> packet_ok p') \<Longrightarrow> app_ok s p res"
  unfolding app_ok_def by blast

lemma partial_ok_le:
  assumes "packet_ok p" "extends p0 p" "partial_ok s p0"
    "\<And>nm off. table_lookup p nm = Some off \<Longrightarrow> off < s \<Longrightarrow> table_lookup p0 nm = Some off"
  shows "partial_ok s p"
  using assms by (intro partial_ok_extend [OF assms(3,2)]) (auto simp: packet_ok_def)

lemma app_ok_bind:
  assumes "app_ok s p res"
    and "\<And>a p'. res = Some (Some a, p') \<Longrightarrow> extends p p' \<Longrightarrow> partial_ok s p' \<Longrightarrow> packet_ok p' \<Longrightarrow>
      app_ok s p' (g a p')"
  shows "app_ok s p (op_bind res g)"
proof -
  obtain r p' where r: "res = Some (r, p')" "extends p p'" "partial_ok s p'" "r \<noteq> None \<longrightarrow> packet_ok p'"
    using assms(1) unfolding app_ok_def by blast
  show ?thesis
  proof (cases r)
    case None
    with r show ?thesis unfolding app_ok_def op_bind_def by auto
  next
    case (Some a)
    with r have "app_ok s p' (g a p')" by (intro assms(2)) auto
    then show ?thesis
      unfolding app_ok_def op_bind_def using r(1,2) Some by (auto intro: extends_trans)
  qed
qed

lemma app_ok_ret: "packet_ok p \<Longrightarrow> partial_ok s p \<Longrightarrow> app_ok s p (Some (Some a, p))"
  by (rule app_okI) auto

lemma app_ok_put: "packet_ok p \<Longrightarrow> partial_ok s p \<Longrightarrow> app_ok s p (put_bytes bs p)"
proof -
  assume ok: "packet_ok p" "partial_ok s p"
  obtain r p' where r: "put_bytes bs p = Some (r, p')"
    by (cases "psize p + length bs > max_size p") (simp_all add: put_bytes_cases)
  show ?thesis
  proof (cases r)
    case None
    then have "p' = p" using r by (auto simp: put_bytes_cases split: if_splits)
    with r None ok show ?thesis by (intro app_okI) auto
  next
    case (Some d)
    note r' = r [unfolded Some]
    show ?thesis
      using put_bytes_ok(2) [OF r'] put_bytes_packet_ok [OF ok(1) r'] put_bytes_partial_ok [OF ok(2) r]
      by (intro app_okI [OF r]) auto
  qed
qed

lemma append_name_loop_ok:
  assumes "packet_ok p" "name_ok name ls"
  shows "\<exists>e p'. append_name_loop name p = Some (e, p') \<and> loop_result p ls e p'"
  using assms unfolding packet_ok_def name_ok_def
  by (intro append_name_loop_result) auto

text \<open>What the result of appending a name is.\<close>

definition name_at :: "AvahiDnsPacket \<Rightarrow> nat \<Rightarrow> string list \<Rightarrow> nat \<Rightarrow> bool" where
  "name_at p idx ls n = (\<exists>k. wire_name (pdata p) (psize p) idx ls k n \<and> k \<le> 2 * length ls + 1)"

lemma name_at_extends:
  assumes "name_at p idx ls n" "extends p p'"
  shows "name_at p' idx ls n"
  using assms wire_name_mono extendsD(1,5) [OF assms(2)] unfolding name_at_def by blast

lemma append_name_cases:
  assumes "packet_ok p" "name_ok name ls"
  obtains (ok) p' where "avahi_dns_packet_append_name name p = Some (Some (psize p), p')"
      "packet_ok p'" "extends p p'" "name_at p' (psize p) ls (psize p' - psize p)"
      "psize p' - psize p \<le> wire_len ls"
      "\<And>nm off. table_lookup p' nm = Some off \<Longrightarrow> off < psize p \<Longrightarrow> table_lookup p nm = Some off"
  | (fail) p' where "avahi_dns_packet_append_name name p = Some (None, p')"
      "extends p p'" "psize p' \<le> max_size p'" "table_ok p'" "max_size p < psize p + wire_len ls"
      "\<And>nm off. table_lookup p' nm = Some off \<Longrightarrow> off < psize p \<Longrightarrow> table_lookup p nm = Some off"
proof -
  obtain e p' where e: "append_name_loop name p = Some (e, p')" "loop_result p ls e p'"
    using append_name_loop_ok [OF assms] by blast
  note r = e(2) [unfolded loop_result_def]
  have old: "table_lookup p nm = Some off" if "table_lookup p' nm = Some off" "off < psize p" for nm off
    using that r by (meson not_less)
  show ?thesis
  proof (cases e)
    case Name_Done
    have "packet_ok p'"
      unfolding packet_ok_def
    proof (intro conjI allI impI)
      show "12 \<le> psize p'" using r assms(1) by (simp add: packet_ok_def extends_def)
      show "entry_ok (pdata p') (psize p') nm off" if "table_lookup p' nm = Some off" for nm off
      proof (cases "table_lookup p nm = Some off")
        case True
        with assms(1) have "entry_ok (pdata p) (psize p) nm off" by (simp add: packet_ok_def)
        then show ?thesis by (rule entry_ok_mono) (use r in \<open>auto simp: extends_def\<close>)
      next
        case False
        with that r Name_Done show ?thesis by blast
      qed
    qed (use r in auto)
    moreover have "avahi_dns_packet_append_name name p = Some (Some (psize p), p')"
      using e(1) Name_Done by (simp add: avahi_dns_packet_append_name_def)
    moreover have "name_at p' (psize p) ls (psize p' - psize p)" "psize p' - psize p \<le> wire_len ls"
      using r Name_Done by (auto simp: name_at_def)
    ultimately show ?thesis using r old by (intro ok [of p']) blast+
  next
    case Name_Fail
    have "psize p + wire_len ls \<le> max_size p \<longrightarrow> e = Name_Done" using r by blast
    then have full: "max_size p < psize p + wire_len ls" using Name_Fail by auto
    show ?thesis
    proof (rule fail)
      show "avahi_dns_packet_append_name name p = Some (None, restore_size (psize p) p')"
        using e(1) Name_Fail by (simp add: avahi_dns_packet_append_name_def)
      show "extends p (restore_size (psize p) p')" using r by (simp add: extends_def)
      show "psize (restore_size (psize p) p') \<le> max_size (restore_size (psize p) p')"
        using r by (auto simp: extends_def)
      show "table_ok (restore_size (psize p) p')" using r by (intro restore_size_table) blast
      show "table_lookup p nm = Some off"
        if "table_lookup (restore_size (psize p) p') nm = Some off" "off < psize p" for nm off
        using that old r restore_size_table(2) [of p' "psize p" nm] by (auto split: option.splits if_splits)
    qed (rule full)
  next
    case Name_Null
    have "psize p + wire_len ls \<le> max_size p \<longrightarrow> e = Name_Done" using r by blast
    then have full: "max_size p < psize p + wire_len ls" using Name_Null by auto
    show ?thesis
      by (rule fail [of p'])
        (use e(1) r old full Name_Null in \<open>auto simp: avahi_dns_packet_append_name_def\<close>)
  qed
qed

lemma app_ok_name:
  assumes "packet_ok p" "partial_ok s p" "name_ok name ls"
  shows "app_ok s p (avahi_dns_packet_append_name name p)"
  using assms(1,3)
proof (cases rule: append_name_cases)
  case (ok p')
  have "partial_ok s p'"
    by (rule partial_ok_le [OF ok(2,3) assms(2)]) (use ok(6) assms(2) in \<open>auto simp: partial_ok_def\<close>)
  with ok show ?thesis by (intro app_okI) auto
next
  case (fail p')
  have "partial_ok s p'"
    by (rule partial_ok_extend [OF assms(2) fail(2-4)])
      (use fail(6) assms(2) in \<open>auto simp: partial_ok_def\<close>)
  with fail show ?thesis by (intro app_okI) auto
qed

lemma or_restore_ok:
  assumes "app_ok (psize p) p res"
  shows "\<exists>r p'. or_restore (psize p) res = Some (r, p') \<and> extends p p' \<and> packet_ok p' \<and>
    (r = None \<longrightarrow> psize p' = psize p) \<and> (\<forall>a. r = Some a \<longrightarrow> res = Some (Some a, p'))"
proof -
  obtain r p' where r: "res = Some (r, p')" "extends p p'" "partial_ok (psize p) p'" "r \<noteq> None \<longrightarrow> packet_ok p'"
    using assms unfolding app_ok_def by blast
  show ?thesis
  proof (cases r)
    case None
    with r restore_size_ok [OF r(3)] show ?thesis by (auto simp: or_restore_def extends_def)
  next
    case (Some a)
    with r show ?thesis by (auto simp: or_restore_def)
  qed
qed

section \<open>Keys\<close>

lemma append_key_chain:
  assumes "packet_ok p" "name_ok (key_name k) ls"
  shows "app_ok (psize p) p
    (op_bind (avahi_dns_packet_append_name (key_name k) p) (\<lambda>t p.
     op_bind (avahi_dns_packet_append_uint16 (key_type k) p) (\<lambda>_ p.
     op_bind (avahi_dns_packet_append_uint16 c p) (\<lambda>_ p. Some (Some t, p)))))"
  unfolding avahi_dns_packet_append_uint16_def
  by (intro app_ok_bind app_ok_name app_ok_put app_ok_ret) (use assms packet_ok_partial in auto)

lemma op_bind_Some:
  "op_bind res g = Some (Some b, p') \<longleftrightarrow> (\<exists>a q. res = Some (Some a, q) \<and> g a q = Some (Some b, p'))"
  by (auto simp: op_bind_def split: option.splits)

lemma consume_name_at:
  assumes "name_at p (rindex p) ls n" "length ls \<le> 63" "length (join_labels ls) < l"
  shows "avahi_dns_packet_consume_name l p = Some (Some (join_labels ls), p\<lparr>rindex := rindex p + n\<rparr>)"
proof -
  obtain k where "wire_name (pdata p) (psize p) (rindex p) ls k n" "k \<le> 2 * length ls + 1"
    using assms(1) by (auto simp: name_at_def)
  then have "consume_labels p (rindex p) l = Some (Some (join_labels ls, n))"
    using assms(2,3) by (intro consume_labels_wire) auto
  then show ?thesis by (simp add: avahi_dns_packet_consume_name_def)
qed

lemma get16_extends:
  assumes "extends p p'" "off + 2 \<le> psize p"
  shows "get16 (pdata p') off = get16 (pdata p) off"
  using assms by (simp add: get16_def extends_def)

lemma get32_extends:
  assumes "extends p p'" "off + 4 \<le> psize p"
  shows "get32 (pdata p') off = get32 (pdata p) off"
  using assms by (simp add: get32_def extends_def)

lemma append_uint16_Some:
  assumes "avahi_dns_packet_append_uint16 v p = Some (Some d, p')"
  shows "d = psize p" "extends p p'" "psize p' = psize p + 2" "get16 (pdata p') (psize p) = v"
  using assms put_bytes_ok [of "be16 v" p d p'] by (simp_all add: avahi_dns_packet_append_uint16_def)

lemma append_uint32_Some:
  assumes "avahi_dns_packet_append_uint32 v p = Some (Some d, p')"
  shows "d = psize p" "extends p p'" "psize p' = psize p + 4" "get32 (pdata p') (psize p) = v"
  using assms put_bytes_ok [of "be32 v" p d p'] by (simp_all add: avahi_dns_packet_append_uint32_def)

lemma append_name_Some:
  assumes "avahi_dns_packet_append_name name p = Some (Some d, p')" "packet_ok p" "name_ok name ls"
  shows "d = psize p" "packet_ok p'" "extends p p'" "name_at p' (psize p) ls (psize p' - psize p)"
    "psize p' - psize p \<le> wire_len ls" "psize p < psize p'"
proof -
  have "d = psize p \<and> packet_ok p' \<and> extends p p' \<and> name_at p' (psize p) ls (psize p' - psize p) \<and>
    psize p' - psize p \<le> wire_len ls"
    using assms(2,3) by (cases rule: append_name_cases) (use assms(1) in auto)
  moreover from this have "psize p < psize p'"
    using wire_name_in by (fastforce simp: name_at_def)
  ultimately show "d = psize p" "packet_ok p'" "extends p p'" "name_at p' (psize p) ls (psize p' - psize p)"
    "psize p' - psize p \<le> wire_len ls" "psize p < psize p'" by blast+
qed

text \<open>Names as \<open>avahi_key_new\<close> makes them.\<close>

definition normal_name :: "string \<Rightarrow> string list \<Rightarrow> bool" where
  "normal_name name ls = (name_ok name ls \<and> name = join_labels ls \<and> length ls \<le> 63 \<and>
     length name < AVAHI_DOMAIN_NAME_MAX)"

lemma normal_nameD:
  assumes "normal_name name ls"
  shows "name_ok name ls" "name = join_labels ls" "length ls \<le> 63" "length name < AVAHI_DOMAIN_NAME_MAX"
  using assms unfolding normal_name_def by blast+

lemma normal_name_strdup: "normal_name name ls \<Longrightarrow> avahi_normalize_name_strdup name = Some (Some name)"
  using avahi_normalize_name_labels [of name ls AVAHI_DOMAIN_NAME_MAX]
  by (auto simp: normal_name_def name_ok_def avahi_normalize_name_strdup_def)

lemma normal_name_valid: "normal_name name ls \<Longrightarrow> avahi_is_valid_domain_name name"
  by (auto simp: normal_name_def name_ok_def avahi_is_valid_domain_name_labels)

lemma flush_bit: "bit (0x8000 :: u16) n \<longleftrightarrow> n = 15"
proof -
  have top: "(0x8000 :: u16) = 2 ^ 15" by simp
  show ?thesis unfolding top bit_exp_iff by auto
qed

lemma class_bits:
  assumes "(c :: u16) AND 0x8000 = 0"
  shows "(c OR 0x8000) AND 0x8000 \<noteq> 0" "(c OR 0x8000) AND NOT 0x8000 = c" "c AND NOT 0x8000 = c"
proof -
  have top: "(0x8000 :: u16) = 2 ^ 15" by simp
  have c: "\<not> bit c 15" using assms unfolding top and_exp_eq_0_iff_not_bit .
  show "(c OR 0x8000) AND 0x8000 \<noteq> 0"
    unfolding top and_exp_eq_0_iff_not_bit by (simp add: bit_simps flip: top)
  note bits = bit_and_iff bit_or_iff bit_not_iff flush_bit
  show "(c OR 0x8000) AND NOT 0x8000 = c"
    by (rule bit_word_eqI, unfold bits) (use c in auto)
  show "c AND NOT 0x8000 = c"
    by (rule bit_word_eqI, unfold bits) (use c in auto)
qed

lemma class_and_flush: "((c :: u16) AND NOT 0x8000) AND 0x8000 = 0"
proof -
  have top: "(0x8000 :: u16) = 2 ^ 15" by simp
  show ?thesis unfolding top and_exp_eq_0_iff_not_bit by (simp add: bit_simps)
qed

lemma append_key_consume:
  assumes ok: "packet_ok p" "normal_name (key_name k) ls" "length (key_name k) < 256"
    and cbit: "clazz k AND 0x8000 = 0"
    and app: "op_bind (avahi_dns_packet_append_name (key_name k) p) (\<lambda>t p.
       op_bind (avahi_dns_packet_append_uint16 (key_type k) p) (\<lambda>_ p.
       op_bind (avahi_dns_packet_append_uint16
          (clazz k OR (if u then AVAHI_DNS_UNICAST_RESPONSE else 0)) p) (\<lambda>_ p.
       Some (Some t, p)))) = Some (Some t, p')"
  shows "t = psize p \<and> psize p' - psize p \<le> wire_len ls + 4 \<and>
    avahi_dns_packet_consume_key (p'\<lparr>rindex := psize p\<rparr>) = Some (Some (k, u), p'\<lparr>rindex := psize p'\<rparr>)"
proof -
  obtain p1 d2 p2 d3 where
    1: "avahi_dns_packet_append_name (key_name k) p = Some (Some t, p1)" and
    2: "avahi_dns_packet_append_uint16 (key_type k) p1 = Some (Some d2, p2)" and
    3: "avahi_dns_packet_append_uint16 (clazz k OR (if u then AVAHI_DNS_UNICAST_RESPONSE else 0)) p2 =
      Some (Some d3, p')"
    using app by (auto simp: op_bind_Some)
  have n: "name_ok (key_name k) ls" using ok(2) by (rule normal_nameD)
  note r1 = append_name_Some [OF 1 ok(1) n] and r2 = append_uint16_Some [OF 2] and r3 = append_uint16_Some [OF 3]
  have ext: "extends p1 p'" using r2(2) r3(2) by (rule extends_trans)
  have at: "name_at (p'\<lparr>rindex := psize p\<rparr>) (psize p) ls (psize p1 - psize p)"
    using name_at_extends [OF r1(4) ext] by (simp add: name_at_def)
  have join: "key_name k = join_labels ls" "length ls \<le> 63" using ok(2) by (rule normal_nameD)+
  have name: "avahi_dns_packet_consume_name 256 (p'\<lparr>rindex := psize p\<rparr>) =
      Some (Some (key_name k), p'\<lparr>rindex := psize p1\<rparr>)"
    using consume_name_at [of "p'\<lparr>rindex := psize p\<rparr>" ls "psize p1 - psize p" 256] at join ok(3) r1(6) by simp
  have get: "get16 (pdata p') (psize p1) = key_type k"
    "get16 (pdata p') (psize p2) = clazz k OR (if u then AVAHI_DNS_UNICAST_RESPONSE else 0)"
    using r2 r3 get16_extends [OF r3(2), of "psize p1"] by simp_all
  have cls: "(clazz k OR (if u then AVAHI_DNS_UNICAST_RESPONSE else 0)) AND NOT AVAHI_DNS_UNICAST_RESPONSE = clazz k"
    "((clazz k OR (if u then AVAHI_DNS_UNICAST_RESPONSE else 0)) AND AVAHI_DNS_UNICAST_RESPONSE \<noteq> 0) = u"
    using class_bits [OF cbit] cbit by auto
  have key: "avahi_key_new (key_name k) (clazz k) (key_type k) = Some (Some k)"
    using normal_name_strdup [OF ok(2)] by (simp add: avahi_key_new_def)
  have valid: "avahi_key_is_valid k" using normal_name_valid [OF ok(2)] by (simp add: avahi_key_is_valid_def)
  have "avahi_dns_packet_consume_key (p'\<lparr>rindex := psize p\<rparr>) = Some (Some (k, u), p'\<lparr>rindex := psize p'\<rparr>)"
    using r2(3) r3(3) get cls key valid
    by (simp add: avahi_dns_packet_consume_key_def name op_bind_def avahi_dns_packet_consume_uint16_def Let_def)
  with r1(1,5) r2(3) r3(3) show ?thesis by simp
qed

section \<open>Record data\<close>

text \<open>
  Records whose data is read back as it was: names in normal form, strings without NUL. The number
  of bytes of the data without compression is \<open>rdata_len\<close>.
\<close>

fun rdata_normal :: "rdata \<Rightarrow> bool" where
  "rdata_normal (RD_PTR n) = (\<exists>ls. normal_name n ls)"
| "rdata_normal (RD_SRV p w q n) = (\<exists>ls. normal_name n ls)"
| "rdata_normal (RD_HINFO c os) = (CHR 0x00 \<notin> set c \<and> CHR 0x00 \<notin> set os)"
| "rdata_normal d = True"

fun rdata_len :: "rdata \<Rightarrow> nat" where
  "rdata_len (RD_PTR n) = wire_len (the (name_labels n))"
| "rdata_len (RD_SRV p w q n) = 6 + wire_len (the (name_labels n))"
| "rdata_len (RD_HINFO c os) = length c + length os + 2"
| "rdata_len (RD_TXT l) = avahi_string_list_serialize_size l"
| "rdata_len (RD_A a) = length a"
| "rdata_len (RD_AAAA a) = length a"
| "rdata_len (RD_GENERIC d) = length d"
| "rdata_len RD_NULL = 0"

text \<open>TXT data is written like other bytes.\<close>

lemma append_txt_put:
  "op_bind (avahi_dns_packet_extend (avahi_string_list_serialize_size l) p) (\<lambda>d p.
     Some (Some (), p\<lparr>pdata := write_bytes (pdata p) d
       (avahi_string_list_serialize l (avahi_string_list_serialize_size l))\<rparr>)) =
   op_bind (put_bytes (avahi_string_list_serialize l (avahi_string_list_serialize_size l)) p)
     (\<lambda>_ p. Some (Some (), p))"
  using parse_serialize_wire [OF order_refl, of l]
  by (simp add: put_bytes_def avahi_dns_packet_extend_def op_bind_def)

lemma append_string_put: "avahi_dns_packet_append_string s p =
   put_bytes (char_of (if length s \<ge> 255 then 255 else length s) # take (if length s \<ge> 255 then 255 else length s) s) p"
  by (simp add: avahi_dns_packet_append_string_def Let_def)

lemmas append_puts = avahi_dns_packet_append_uint16_def avahi_dns_packet_append_uint32_def
  append_string_put append_txt_put

lemma append_rdata_ok:
  assumes "packet_ok p" "partial_ok s p" "rdata_ok (rr_kind (key_type (rkey r))) (rdata r)"
    "rdata_normal (rdata r)"
  shows "app_ok s p (append_rdata r p)"
proof -
  note ok = assms(1,2)
  have name: "app_ok s q (avahi_dns_packet_append_name n q)"
    if "packet_ok q" "partial_ok s q" "\<exists>ls. normal_name n ls" for q n
    using that app_ok_name unfolding normal_name_def by blast
  from assms(3) show ?thesis
    using assms(4)
    by (elim rdata_okE;
        simp only: append_rdata_def opt_op_def d_ptr.simps d_srv.simps d_hinfo.simps d_txt.simps
          d_a.simps d_aaaa.simps d_generic.simps rr_kind.simps option.simps prod.case Let_def append_puts
          avahi_dns_packet_append_bytes_def rdata_normal.simps)
      (auto intro!: app_ok_bind app_ok_put app_ok_ret name ok)
qed

section \<open>Reading record data back\<close>

text \<open>The bytes of a packet are the first ones of another.\<close>

definition covers :: "AvahiDnsPacket \<Rightarrow> AvahiDnsPacket \<Rightarrow> bool" where
  "covers p q = (psize p \<le> psize q \<and> (\<forall>i < psize p. pdata q i = pdata p i))"

lemma covers_refl [simp]: "covers p p"
  by (simp add: covers_def)

lemma covers_rindex [simp]: "covers p (q\<lparr>rindex := a\<rparr>) = covers p q"
  by (simp add: covers_def)

lemma extends_covers: "extends p q \<Longrightarrow> covers q r \<Longrightarrow> covers p r"
  by (simp add: covers_def extends_def)

lemma coversD: "covers p q \<Longrightarrow> psize p \<le> psize q" "covers p q \<Longrightarrow> i < psize p \<Longrightarrow> pdata q i = pdata p i"
  by (simp_all add: covers_def)

lemma name_at_covers:
  assumes "name_at p idx ls n" "covers p p'"
  shows "name_at p' idx ls n"
  using assms wire_name_mono coversD [OF assms(2)] unfolding name_at_def by blast

lemma get16_covers: "covers p p' \<Longrightarrow> off + 2 \<le> psize p \<Longrightarrow> get16 (pdata p') off = get16 (pdata p) off"
  by (simp add: get16_def covers_def)

lemma get32_covers: "covers p p' \<Longrightarrow> off + 4 \<le> psize p \<Longrightarrow> get32 (pdata p') off = get32 (pdata p) off"
  by (simp add: get32_def covers_def)

lemma put_bytes_read:
  assumes "put_bytes bs p = Some (Some d, p1)" "covers p1 p'"
  shows "read_bytes (pdata p') (psize p) (length bs) = bs"
proof -
  note r = put_bytes_ok [OF assms(1)]
  have "read_bytes (pdata p') (psize p) (length bs) = read_bytes (pdata p1) (psize p) (length bs)"
    using coversD(2) [OF assms(2)] r(3) by (intro read_bytes_cong) simp
  then show ?thesis by (simp add: r(5))
qed

lemma consume_append_string:
  assumes "avahi_dns_packet_append_string s p = Some (Some d, p1)" "length s \<le> 255" "covers p1 q"
    "rindex q = psize p"
  shows "avahi_dns_packet_consume_string AVAHI_DOMAIN_NAME_MAX q =
    Some (Some s, q\<lparr>rindex := psize p1\<rparr>)" "psize p1 = psize p + 1 + length s"
proof -
  have put: "put_bytes (char_of (length s) # s) p = Some (Some d, p1)"
    using assms(1,2) by (auto simp: append_string_put split: if_splits)
  note r = put_bytes_ok [OF put]
  from put_bytes_read [OF put assms(3)]
  have rd: "read_bytes (pdata q) (psize p) (1 + length s) = char_of (length s) # s" by simp
  have "pdata q (psize p) = char_of (length s)"
    using arg_cong [OF rd, of "\<lambda>x. x ! 0"] by simp
  then have k: "ucode (pdata q (psize p)) = length s" using assms(2) by simp
  have s: "read_bytes (pdata q) (psize p + 1) (length s) = s"
    using arg_cong [OF rd, of tl] by (simp add: read_bytes_def upt_conv_Cons del: upt_Suc)
  show "psize p1 = psize p + 1 + length s" using r(3) by simp
  then show "avahi_dns_packet_consume_string AVAHI_DOMAIN_NAME_MAX q =
      Some (Some s, q\<lparr>rindex := psize p1\<rparr>)"
    using assms(2,4) k s coversD(1) [OF assms(3)]
    by (simp add: avahi_dns_packet_consume_string_def AVAHI_DOMAIN_NAME_MAX_def Let_def)
qed

lemma consume_append_uint16:
  assumes "avahi_dns_packet_append_uint16 v p = Some (Some d, p1)" "covers p1 q" "rindex q = psize p"
  shows "avahi_dns_packet_consume_uint16 q = Some (Some v, q\<lparr>rindex := psize p1\<rparr>)"
    "psize p1 = psize p + 2" "extends p p1"
  using append_uint16_Some [OF assms(1)] assms(2,3) coversD(1) [OF assms(2)]
    get16_covers [OF assms(2), of "psize p"]
  by (simp_all add: avahi_dns_packet_consume_uint16_def)

lemma consume_append_name:
  assumes "avahi_dns_packet_append_name n p = Some (Some d, p1)" "packet_ok p" "normal_name n ls"
    "covers p1 q" "rindex q = psize p"
  shows "avahi_dns_packet_consume_name AVAHI_DOMAIN_NAME_MAX q = Some (Some n, q\<lparr>rindex := psize p1\<rparr>)"
    "psize p1 - psize p \<le> wire_len ls" "packet_ok p1" "extends p p1"
proof -
  note nn = normal_nameD [OF assms(3)]
  note r = append_name_Some [OF assms(1,2) nn(1)]
  have "name_at q (rindex q) ls (psize p1 - psize p)"
    using name_at_covers [OF r(4) assms(4)] assms(5) by simp
  from consume_name_at [OF this nn(3), of AVAHI_DOMAIN_NAME_MAX] nn(2,4) r(6) assms(5)
  show "avahi_dns_packet_consume_name AVAHI_DOMAIN_NAME_MAX q = Some (Some n, q\<lparr>rindex := psize p1\<rparr>)"
    by simp
qed (use append_name_Some [OF assms(1,2) normal_nameD(1) [OF assms(3)]] in auto)

lemma name_ok_the: "normal_name n ls \<Longrightarrow> the (name_labels n) = ls"
  using normal_nameD(1) [of n ls] by (simp add: name_ok_def)

text \<open>What is shown of each kind of data.\<close>

definition rdata_read :: "AvahiDnsPacket \<Rightarrow> AvahiRecord \<Rightarrow> AvahiDnsPacket \<Rightarrow> bool" where
  "rdata_read p r p' =
     (psize p \<le> psize p' \<and> psize p' - psize p \<le> rdata_len (rdata r) \<and>
      parse_rdata_kind (rr_kind (key_type (rkey r))) (psize p' - psize p) (p'\<lparr>rindex := psize p\<rparr>) =
        Some (Some (rdata r), p'\<lparr>rindex := psize p'\<rparr>))"

lemma at_rptr_put:
  assumes "put_bytes bs p = Some (Some d, p')"
  shows "at_rptr (length bs) (p'\<lparr>rindex := psize p\<rparr>) = Some bs"
  using put_bytes_read [OF assms covers_refl] put_bytes_ok(3) [OF assms]
  by (simp add: at_rptr_def avahi_dns_packet_get_rptr_def)

lemma rdata_read_ptr:
  assumes "packet_ok p" "rr_kind (key_type (rkey r)) = K_PTR" "rdata r = RD_PTR n" "normal_name n ls"
    and "append_rdata r p = Some (Some (), p')"
  shows "rdata_read p r p'"
proof -
  obtain d where 1: "avahi_dns_packet_append_name n p = Some (Some d, p')"
    using assms by (auto simp: append_rdata_def opt_op_def op_bind_Some)
  note c = consume_append_name [OF 1 assms(1,4), of "p'\<lparr>rindex := psize p\<rparr>"]
  with assms(2,3) extendsD(1) [OF c(4)] name_ok_the [OF assms(4)] show ?thesis
    by (simp add: rdata_read_def parse_rdata_kind_def op_bind_def)
qed

lemma rdata_read_srv:
  assumes "packet_ok p" "rr_kind (key_type (rkey r)) = K_SRV" "rdata r = RD_SRV pr w q n" "normal_name n ls"
    and "append_rdata r p = Some (Some (), p')"
  shows "rdata_read p r p'"
proof -
  obtain d1 p1 d2 p2 d3 p3 d4 where
    1: "avahi_dns_packet_append_uint16 pr p = Some (Some d1, p1)" and
    2: "avahi_dns_packet_append_uint16 w p1 = Some (Some d2, p2)" and
    3: "avahi_dns_packet_append_uint16 q p2 = Some (Some d3, p3)" and
    4: "avahi_dns_packet_append_name n p3 = Some (Some d4, p')"
    using assms by (auto simp: append_rdata_def opt_op_def op_bind_Some)
  have ok: "packet_ok p1" "packet_ok p2" "packet_ok p3"
    using put_bytes_packet_ok assms(1) 1 2 3 unfolding avahi_dns_packet_append_uint16_def by blast+
  note ext = append_uint16_Some(2) [OF 1] append_uint16_Some(2) [OF 2] append_uint16_Some(2) [OF 3]
    append_name_Some(3) [OF 4 ok(3) normal_nameD(1) [OF assms(4)]]
  have cov: "covers p3 p'" "covers p2 p'" "covers p1 p'"
    using extends_covers [OF ext(4) covers_refl] extends_covers [OF ext(3)] extends_covers [OF ext(2)] by blast+
  note c1 = consume_append_uint16 [OF 1, of "p'\<lparr>rindex := psize p\<rparr>"]
  note c2 = consume_append_uint16 [OF 2, of "p'\<lparr>rindex := psize p1\<rparr>"]
  note c3 = consume_append_uint16 [OF 3, of "p'\<lparr>rindex := psize p2\<rparr>"]
  note c4 = consume_append_name [OF 4 ok(3) assms(4), of "p'\<lparr>rindex := psize p3\<rparr>"]
  show ?thesis
    using c1 c2 c3 c4 cov assms(2,3) name_ok_the [OF assms(4)] extendsD(1) [OF ext(4)]
    by (simp add: rdata_read_def parse_rdata_kind_def op_bind_def)
qed

lemma rdata_read_hinfo:
  assumes "rr_kind (key_type (rkey r)) = K_HINFO" "rdata r = RD_HINFO cpu os"
    "length cpu \<le> 255" "length os \<le> 255" "CHR 0x00 \<notin> set cpu" "CHR 0x00 \<notin> set os"
    and "append_rdata r p = Some (Some (), p')"
  shows "rdata_read p r p'"
proof -
  obtain d1 p1 d2 where
    1: "avahi_dns_packet_append_string cpu p = Some (Some d1, p1)" and
    2: "avahi_dns_packet_append_string os p1 = Some (Some d2, p')"
    using assms by (auto simp: append_rdata_def opt_op_def op_bind_Some)
  have "extends p1 p'" using put_bytes_ok(2) 2 unfolding append_string_put by blast
  then have "covers p1 p'" using extends_covers covers_refl by blast
  with consume_append_string [OF 1 assms(3), of "p'\<lparr>rindex := psize p\<rparr>"]
    consume_append_string [OF 2 assms(4), of "p'\<lparr>rindex := psize p1\<rparr>"] assms
  show ?thesis
    by (simp add: rdata_read_def parse_rdata_kind_def op_bind_def c_str_id)
qed

lemma rdata_read_txt:
  assumes "rr_kind (key_type (rkey r)) = K_TXT" "rdata r = RD_TXT l"
    "list_all (\<lambda>t. t \<noteq> [] \<and> length t \<le> 255) l"
    and "append_rdata r p = Some (Some (), p')"
  shows "rdata_read p r p'"
proof -
  let ?bs = "avahi_string_list_serialize l (avahi_string_list_serialize_size l)"
  obtain d where 1: "put_bytes ?bs p = Some (Some d, p')"
    using assms by (auto simp: append_rdata_def opt_op_def op_bind_Some append_txt_put Let_def)
  have len: "length ?bs = avahi_string_list_serialize_size l"
    using parse_serialize_wire [OF order_refl] by blast
  have pos: "0 < avahi_string_list_serialize_size l"
    by (simp add: avahi_string_list_serialize_size_def Let_def)
  have "avahi_string_list_parse ?bs = Some l" by (rule parse_serialize_ok [OF assms(3) order_refl])
  with at_rptr_put [OF 1] put_bytes_ok(3) [OF 1] assms(1,2) len pos show ?thesis
    by (simp add: rdata_read_def parse_rdata_kind_def op_bind_def avahi_dns_packet_skip_def)
qed

lemma rdata_read_bytes:
  assumes "(rr_kind (key_type (rkey r)), rdata r, length bs) \<in>
      {(K_A, RD_A bs, 4), (K_AAAA, RD_AAAA bs, 16)} \<or>
    rr_kind (key_type (rkey r)) = K_GENERIC \<and> rdata r = RD_GENERIC bs \<and> bs \<noteq> []"
    and "append_rdata r p = Some (Some (), p')"
  shows "rdata_read p r p'"
proof -
  obtain d where 1: "put_bytes bs p = Some (Some d, p')"
    using assms
    by (auto simp: append_rdata_def opt_op_def op_bind_Some avahi_dns_packet_append_bytes_def split: if_splits)
  from at_rptr_put [OF 1] put_bytes_read [OF 1 covers_refl] put_bytes_ok(3) [OF 1] assms(1) show ?thesis
    by (auto simp: rdata_read_def parse_rdata_kind_def op_bind_def avahi_dns_packet_skip_def
        avahi_dns_packet_consume_bytes_def)
qed

lemma append_rdata_read:
  assumes "packet_ok p" "rdata_ok (rr_kind (key_type (rkey r))) (rdata r)" "rdata_normal (rdata r)"
    "append_rdata r p = Some (Some (), p')"
  shows "rdata_read p r p'"
proof -
  note app = assms(4)
  let ?k = "rr_kind (key_type (rkey r))"
  consider (ptr) n where "?k = K_PTR" "rdata r = RD_PTR n"
    | (srv) pr w q n where "?k = K_SRV" "rdata r = RD_SRV pr w q n"
    | (hinfo) c os where "?k = K_HINFO" "rdata r = RD_HINFO c os" "length c \<le> 255" "length os \<le> 255"
    | (strings) l where "?k = K_TXT" "rdata r = RD_TXT l" "list_all (\<lambda>t. t \<noteq> [] \<and> length t \<le> 255) l"
    | (bytes) bs where "(?k, rdata r, length bs) \<in> {(K_A, RD_A bs, 4), (K_AAAA, RD_AAAA bs, 16)} \<or>
        ?k = K_GENERIC \<and> rdata r = RD_GENERIC bs \<and> bs \<noteq> []"
    using assms(2) by (elim rdata_okE) auto
  then show ?thesis
  proof cases
    case ptr
    with assms(3) obtain ls where "normal_name n ls" by auto
    with ptr show ?thesis using rdata_read_ptr [OF assms(1) _ _ _ app] by blast
  next
    case srv
    with assms(3) obtain ls where "normal_name n ls" by auto
    with srv show ?thesis using rdata_read_srv [OF assms(1) _ _ _ app] by blast
  next
    case hinfo
    with assms(3) show ?thesis using rdata_read_hinfo [OF _ _ _ _ _ _ app] by auto
  next
    case strings
    then show ?thesis using rdata_read_txt [OF _ _ _ app] by blast
  next
    case bytes
    then show ?thesis by (rule rdata_read_bytes [OF _ app])
  qed
qed

section \<open>The length field\<close>

text \<open>
  The length of the data is written after the data. No appending operation reads the bytes of the
  packet, so it might as well have been there from the beginning.
\<close>

definition poke :: "nat \<Rightarrow> string \<Rightarrow> AvahiDnsPacket \<Rightarrow> AvahiDnsPacket" where
  "poke l w p = p\<lparr>pdata := write_bytes (pdata p) l w\<rparr>"

definition poked :: "nat \<Rightarrow> string \<Rightarrow> ('a \<times> AvahiDnsPacket) option \<Rightarrow> ('a \<times> AvahiDnsPacket) option" where
  "poked l w res = map_option (\<lambda>(r, p). (r, poke l w p)) res"

lemma poke_fields [simp]:
  "psize (poke l w p) = psize p" "max_size (poke l w p) = max_size p" "rindex (poke l w p) = rindex p"
  "res_size (poke l w p) = res_size p" "name_table (poke l w p) = name_table p"
  "pdata (poke l w p) = write_bytes (pdata p) l w"
  by (simp_all add: poke_def)

lemma poked_simps [simp]: "poked l w None = None" "poked l w (Some (r, p)) = Some (r, poke l w p)"
  by (simp_all add: poked_def)

lemma write_bytes_commute:
  "a + length x \<le> b \<Longrightarrow>
   write_bytes (write_bytes m a x) b y = write_bytes (write_bytes m b y) a x"
  by (auto simp: write_bytes_def fun_eq_iff)

lemma write_bytes_again: "length x = length y \<Longrightarrow> write_bytes (write_bytes m a x) a y = write_bytes m a y"
  by (auto simp: write_bytes_def fun_eq_iff)

lemma put_bytes_poke: "l + length w \<le> psize p \<Longrightarrow> put_bytes bs (poke l w p) = poked l w (put_bytes bs p)"
  using write_bytes_commute [of l w "psize p" "pdata p" bs]
  by (simp add: put_bytes_cases poke_def)

lemma table_insert_poke: "table_insert u d (poke l w p) = poke l w (table_insert u d p)"
  by (simp add: table_insert_def poke_def)

lemma compress_ptr_poke: "compress_ptr (poke l w p) = compress_ptr p"
  by (simp add: fun_eq_iff compress_ptr_def table_lookup_def split: option.split)

lemma restore_size_poke: "restore_size s (poke l w p) = poke l w (restore_size s p)"
proof -
  have "name_table_cleanup ((poke l w p)\<lparr>psize := s\<rparr>) = name_table_cleanup (p\<lparr>psize := s\<rparr>)"
    by (simp add: fun_eq_iff name_table_cleanup_def)
  then show ?thesis
    by (simp add: restore_size_def avahi_dns_packet_cleanup_name_table_def poke_def split: option.split)
qed

lemma put_bytes_psize: "put_bytes bs p = Some (r, p') \<Longrightarrow> psize p \<le> psize p'"
  by (auto simp: put_bytes_cases split: if_splits)

lemma append_name_loop_poke:
  "l + length w \<le> psize p \<Longrightarrow> append_name_loop name (poke l w p) = poked l w (append_name_loop name p)"
proof (induction name p rule: append_name_loop.induct)
  case (1 name p)
  note put = put_bytes_poke [OF "1.prems"] and str = append_string_put
  show ?case
  proof (cases "name \<noteq> [] \<and> compress_ptr p name = Some None")
    case False
    then consider "name = []" | "name \<noteq> []" "compress_ptr p name = None"
      | idx where "name \<noteq> []" "compress_ptr p name = Some (Some idx)"
      by (cases "compress_ptr p name") auto
    then show ?thesis
    proof cases
      case 1
      then show ?thesis
        by (simp add: append_name_loop.simps [of "[]"] put) (simp add: put_bytes_cases)
    next
      case 2
      then show ?thesis by (simp add: append_name_loop.simps [of name] compress_ptr_poke)
    next
      case 3
      then show ?thesis
        by (simp add: append_name_loop.simps [of name] compress_ptr_poke put) (simp add: put_bytes_cases)
    qed
  next
    case True
    then have ne: "name \<noteq> []" and comp: "compress_ptr p name = Some None" by auto
    show ?thesis
    proof (cases "avahi_unescape_label name AVAHI_LABEL_MAX")
      case None
      with ne comp show ?thesis by (simp add: append_name_loop.simps [of name] compress_ptr_poke)
    next
      case (Some lr)
      then obtain lab rest where un: "avahi_unescape_label name AVAHI_LABEL_MAX = Some (lab, rest)"
        by (cases lr) auto
      have s: "avahi_dns_packet_append_string lab (poke l w p) = poked l w (avahi_dns_packet_append_string lab p)"
        unfolding str by (rule put)
      obtain r p1 where app: "avahi_dns_packet_append_string lab p = Some (r, p1)"
        by (cases "avahi_dns_packet_append_string lab p") (auto simp: str put_bytes_cases split: if_splits)
      note loop = append_name_loop.simps [of name p] append_name_loop.simps [of name "poke l w p"]
      show ?thesis
      proof (cases r)
        case None
        with ne comp un s app show ?thesis by (simp add: loop compress_ptr_poke)
      next
        case (Some d)
        note app = app [unfolded Some]
        have "psize p \<le> psize p1" using app unfolding str by (rule put_bytes_psize)
        then have "l + length w \<le> psize (table_insert name d p1)" using "1.prems" by simp
        note ih = "1.IH" [OF ne comp refl un refl app refl refl this]
        have "append_name_loop name p = append_name_loop rest (table_insert name d p1)"
          using ne comp un app by (simp add: loop(1))
        moreover have "append_name_loop name (poke l w p) = append_name_loop rest (table_insert name d (poke l w p1))"
          using ne comp un s app by (simp add: loop(2) compress_ptr_poke)
        ultimately show ?thesis using ih by (simp only: table_insert_poke)
      qed
    qed
  qed
qed

lemma append_name_poke:
  "l + length w \<le> psize p \<Longrightarrow>
   avahi_dns_packet_append_name name (poke l w p) = poked l w (avahi_dns_packet_append_name name p)"
  using append_name_loop_poke [of l w p name]
  by (auto simp: avahi_dns_packet_append_name_def restore_size_poke poked_def
      split: option.splits append_end.splits)

lemma op_bind_poke:
  assumes "res' = poked l w res"
    and "\<And>a p. res = Some (Some a, p) \<Longrightarrow> g a (poke l w p) = poked l w (g a p)"
  shows "op_bind res' g = poked l w (op_bind res g)"
  using assms by (auto simp: op_bind_def split: option.split)

lemma append_name_psize:
  assumes "packet_ok p" "name_ok name ls" "avahi_dns_packet_append_name name p = Some (Some d, p')"
  shows "psize p \<le> psize p'"
  using append_name_Some(6) [OF assms(3,1,2)] by simp

lemma append_rdata_poke:
  assumes "l + length w \<le> psize p"
  shows "append_rdata r (poke l w p) = poked l w (append_rdata r p)"
proof -
  have le: "l + length w \<le> psize q" if "put_bytes bs p' = Some (Some a, q)" "l + length w \<le> psize p'" for bs p' q a
    using put_bytes_psize [OF that(1)] that(2) by simp
  have put: "op_bind (put_bytes bs (poke l w p')) g = poked l w (op_bind (put_bytes bs p') g)"
    if "l + length w \<le> psize p'"
      "\<And>a q. l + length w \<le> psize q \<Longrightarrow> g a (poke l w q) = poked l w (g a q)" for bs p' and g :: "nat \<Rightarrow> unit packet_op"
    by (rule op_bind_poke [OF put_bytes_poke [OF that(1)]]) (use le that in blast)
  have name: "op_bind (avahi_dns_packet_append_name n (poke l w p')) (\<lambda>_ p. Some (Some (), p)) =
      poked l w (op_bind (avahi_dns_packet_append_name n p') (\<lambda>_ p. Some (Some (), p)))"
    if "l + length w \<le> psize p'" for n p'
    by (rule op_bind_poke [OF append_name_poke [OF that]]) simp
  note defs = append_rdata_def opt_op_def append_puts avahi_dns_packet_append_bytes_def
  show ?thesis
  proof (cases "rr_kind (key_type (rkey r))")
    case K_PTR
    then show ?thesis by (cases "d_ptr (rdata r)") (simp_all add: defs name assms)
  next
    case K_SRV
    show ?thesis
    proof (cases "d_srv (rdata r)")
      case (Some x)
      obtain a b c n where "x = (a, b, c, n)" by (cases x) auto
      with Some K_SRV show ?thesis by (simp add: defs) (intro put name assms)
    qed (simp add: defs K_SRV)
  next
    case K_HINFO
    show ?thesis
    proof (cases "d_hinfo (rdata r)")
      case (Some x)
      obtain a b where "x = (a, b)" by (cases x) auto
      with Some K_HINFO show ?thesis
        by (simp only: defs rr_kind.simps option.simps prod.case) (intro put assms; simp)
    qed (simp add: defs K_HINFO)
  next
    case K_TXT
    show ?thesis
    proof (cases "d_txt (rdata r)")
      case (Some x)
      with K_TXT show ?thesis
        by (simp only: defs rr_kind.simps option.simps Let_def) (intro put assms; simp)
    qed (simp add: defs K_TXT)
  next
    case K_A
    then show ?thesis by (cases "d_a (rdata r)") (simp_all add: defs put assms, simp_all add: op_bind_def)
  next
    case K_AAAA
    then show ?thesis by (cases "d_aaaa (rdata r)") (simp_all add: defs put assms, simp_all add: op_bind_def)
  next
    case K_GENERIC
    then show ?thesis by (cases "d_generic (rdata r)") (simp_all add: defs put assms)
  qed
qed

end
