(* ===== verification/DNS_Records.thy ===== *)
theory DNS_Records
  imports DNS_Rdata
begin

text \<open>
  Whole records in packets: appending a record keeps the packet in order, fails without a trace, and
  the record is read back as it was; and the reading operations on packets of any content.
\<close>

section \<open>Records\<close>

text \<open>The last part of \<open>avahi_dns_packet_append_record\<close>: the length field and the data.\<close>

definition append_tail :: "AvahiRecord \<Rightarrow> nat \<Rightarrow> nat packet_op" where
  "append_tail r t p =
     op_bind (avahi_dns_packet_append_uint16 0 p) (\<lambda>l p.
        let start = psize p in
        op_bind (append_rdata r p) (\<lambda>_ p.
        let sz = psize p - start in
        if sz \<le> AVAHI_DNS_RDATA_MAX
        then Some (Some t, p\<lparr>pdata := write_bytes (pdata p) l (be16 (of_nat sz))\<rparr>)
        else None))"

definition rdata_wire_ok :: "AvahiRecord \<Rightarrow> bool" where
  "rdata_wire_ok r = (rdata_ok (rr_kind (key_type (rkey r))) (rdata r) \<and> rdata_normal (rdata r) \<and>
     rdata_len (rdata r) \<le> AVAHI_DNS_RDATA_MAX)"

lemma append_tail_cases:
  assumes "packet_ok p" "partial_ok s p" "rdata_wire_ok r"
  obtains (fail) p' where "append_tail r t p = Some (None, p')" "extends p p'" "partial_ok s p'"
  | (ok) l p1 p' where "append_tail r t p = Some (Some t, p')"
      "avahi_dns_packet_append_uint16 (of_nat (psize p' - psize p1)) p = Some (Some l, p1)"
      "append_rdata r p1 = Some (Some (), p')" "packet_ok p1" "packet_ok p'" "partial_ok s p'" "extends p p'"
      "psize p' - psize p1 \<le> rdata_len (rdata r)"
proof -
  note w = assms(3) [unfolded rdata_wire_ok_def]
  show ?thesis
  proof (cases "psize p + 2 > max_size p")
    case True
    then have "append_tail r t p = Some (None, p)"
      by (simp add: append_tail_def avahi_dns_packet_append_uint16_def put_bytes_cases op_bind_def)
    with assms(2) fail show ?thesis by simp
  next
    case False
    define p0 where "p0 = p\<lparr>psize := psize p + 2, pdata := write_bytes (pdata p) (psize p) (be16 0)\<rparr>"
    have put0: "avahi_dns_packet_append_uint16 0 p = Some (Some (psize p), p0)"
      using False by (simp add: avahi_dns_packet_append_uint16_def put_bytes_cases p0_def)
    note put0' = put0 [unfolded avahi_dns_packet_append_uint16_def]
    have ok0: "packet_ok p0" "partial_ok s p0" "extends p p0"
      using put_bytes_packet_ok [OF assms(1) put0'] put_bytes_partial_ok [OF assms(2) put0']
        put_bytes_ok(2) [OF put0'] by blast+
    obtain res p6 where app: "append_rdata r p0 = Some (res, p6)" "extends p0 p6" "partial_ok s p6"
      using append_rdata_ok [OF ok0(1,2)] w unfolding app_ok_def by blast
    show ?thesis
    proof (cases res)
      case None
      then have "append_tail r t p = Some (None, p6)"
        using put0 app by (simp add: append_tail_def op_bind_def)
      then show ?thesis using app ok0(3) by (intro fail) (auto intro: extends_trans)
    next
      case (Some u)
      then have app0: "append_rdata r p0 = Some (Some (), p6)" using app by simp
      have rd: "psize p0 \<le> psize p6" "psize p6 - psize p0 \<le> rdata_len (rdata r)"
        using append_rdata_read [OF ok0(1) _ _ app0] w unfolding rdata_read_def by blast+
      define sz where "sz = psize p6 - psize p0"
      define p1 where "p1 = poke (psize p) (be16 (of_nat sz)) p0"
      define p' where "p' = poke (psize p) (be16 (of_nat sz)) p6"
      have size: "psize p' - psize p1 = sz" by (simp add: p'_def p1_def sz_def)
      have tail: "append_tail r t p = Some (Some t, p')"
        using put0 app0 rd w by (simp add: append_tail_def op_bind_def Let_def sz_def [symmetric] p'_def poke_def)
      have put1: "avahi_dns_packet_append_uint16 (of_nat sz) p = Some (Some (psize p), p1)"
        using False
        by (simp add: avahi_dns_packet_append_uint16_def put_bytes_cases p1_def p0_def poke_def write_bytes_again)
      note put1' = put1 [unfolded avahi_dns_packet_append_uint16_def]
      have ok1: "packet_ok p1" "partial_ok s p1" "extends p p1"
        using put_bytes_packet_ok [OF assms(1) put1'] put_bytes_partial_ok [OF assms(2) put1']
          put_bytes_ok(2) [OF put1'] by blast+
      have app1: "append_rdata r p1 = Some (Some (), p')"
        using append_rdata_poke [of "psize p" "be16 (of_nat sz)" p0 r] app0
        by (simp add: p1_def p'_def) (simp add: p0_def)
      have "app_ok s p1 (append_rdata r p1)" using append_rdata_ok [OF ok1(1,2)] w by blast
      then have "packet_ok p'" "partial_ok s p'" "extends p1 p'" unfolding app_ok_def app1 by auto
      with tail put1 app1 ok1 rd(2) size show ?thesis
        by (intro ok [of p' p1 "psize p"]) (auto simp: sz_def intro: extends_trans)
    qed
  qed
qed

lemma app_ok_tail:
  assumes "packet_ok p" "partial_ok s p" "rdata_wire_ok r"
  shows "app_ok s p (append_tail r t p)"
  using assms
proof (cases rule: append_tail_cases [of p s r t])
  case (fail p')
  then show ?thesis by (intro app_okI [of _ None p']) auto
next
  case (ok l p1 p')
  then show ?thesis by (intro app_okI [of _ "Some t" p']) auto
qed

definition append_record_chain :: "AvahiRecord \<Rightarrow> u16 \<Rightarrow> u32 \<Rightarrow> nat packet_op" where
  "append_record_chain r c tt p =
     op_bind (avahi_dns_packet_append_name (key_name (rkey r)) p) (\<lambda>t p.
     op_bind (avahi_dns_packet_append_uint16 (key_type (rkey r)) p) (\<lambda>_ p.
     op_bind (avahi_dns_packet_append_uint16 c p) (\<lambda>_ p.
     op_bind (avahi_dns_packet_append_uint32 tt p) (\<lambda>_ p. append_tail r t p))))"

lemma append_record_as_chain:
  "avahi_dns_packet_append_record r flush max_ttl p =
     or_restore (psize p) (append_record_chain r
       (if flush then clazz (rkey r) OR AVAHI_DNS_CACHE_FLUSH else clazz (rkey r) AND NOT AVAHI_DNS_CACHE_FLUSH)
       (if max_ttl \<noteq> 0 \<and> ttl r > max_ttl then max_ttl else ttl r) p)"
  unfolding avahi_dns_packet_append_record_def append_record_chain_def append_tail_def ..

lemma app_ok_record:
  assumes "packet_ok p" "name_ok (key_name (rkey r)) ls" "rdata_wire_ok r"
  shows "app_ok (psize p) p (append_record_chain r c tt p)"
  unfolding append_record_chain_def avahi_dns_packet_append_uint16_def avahi_dns_packet_append_uint32_def
  by (intro app_ok_bind app_ok_name app_ok_put app_ok_tail) (use assms packet_ok_partial in auto)

lemma append_record_consume:
  assumes ok: "packet_ok p" "normal_name (key_name (rkey r)) ls" "record_ok r" "rdata_wire_ok r"
    and app: "append_record_chain r c tt p = Some (Some t, p')"
    and tt: "tt \<noteq> -1" and c: "c AND NOT AVAHI_DNS_CACHE_FLUSH = clazz (rkey r)"
  shows "t = psize p \<and> psize p' - psize p \<le> wire_len ls + 10 + rdata_len (rdata r) \<and>
    avahi_dns_packet_consume_record (p'\<lparr>rindex := psize p\<rparr>) =
      Some (Some (r\<lparr>ttl := tt\<rparr>, c AND AVAHI_DNS_CACHE_FLUSH \<noteq> 0), p'\<lparr>rindex := psize p'\<rparr>)"
proof -
  obtain p1 d2 p2 d3 p3 d4 p4 t' where
    1: "avahi_dns_packet_append_name (key_name (rkey r)) p = Some (Some t', p1)" and
    2: "avahi_dns_packet_append_uint16 (key_type (rkey r)) p1 = Some (Some d2, p2)" and
    3: "avahi_dns_packet_append_uint16 c p2 = Some (Some d3, p3)" and
    4: "avahi_dns_packet_append_uint32 tt p3 = Some (Some d4, p4)" and
    5: "append_tail r t' p4 = Some (Some t, p')"
    using app by (auto simp: append_record_chain_def op_bind_Some)
  note n = normal_nameD [OF ok(2)]
  note r1 = append_name_Some [OF 1 ok(1) n(1)] and r2 = append_uint16_Some [OF 2]
    and r3 = append_uint16_Some [OF 3] and r4 = append_uint32_Some [OF 4]
  have p4: "packet_ok p4"
    using 2 3 4 r1(2) unfolding avahi_dns_packet_append_uint16_def avahi_dns_packet_append_uint32_def
    by (meson put_bytes_packet_ok)
  obtain l p5 where t: "t = t'" and
    6: "avahi_dns_packet_append_uint16 (of_nat (psize p' - psize p5)) p4 = Some (Some l, p5)" and
    7: "append_rdata r p5 = Some (Some (), p')" and p5: "packet_ok p5" and
    sz: "psize p' - psize p5 \<le> rdata_len (rdata r)"
    using p4 packet_ok_partial [OF p4] ok(4)
    by (cases rule: append_tail_cases [of p4 "psize p4" r t']) (use 5 in auto)
  note r6 = append_uint16_Some [OF 6]
  have w: "rdata_ok (rr_kind (key_type (rkey r))) (rdata r)" "rdata_normal (rdata r)"
    "rdata_len (rdata r) \<le> AVAHI_DNS_RDATA_MAX" using ok(4) by (simp_all add: rdata_wire_ok_def)
  note rd = append_rdata_read [OF p5 w(1,2) 7, unfolded rdata_read_def]
  have "app_ok (psize p5) p5 (append_rdata r p5)" using p5 w by (intro append_rdata_ok packet_ok_partial)
  then have "extends p5 p'" unfolding app_ok_def 7 by auto
  then have cov5: "covers p5 p'" by (rule extends_covers) simp
  note cov4 = extends_covers [OF r6(2) cov5]
  note cov3 = extends_covers [OF r4(2) cov4]
  note cov2 = extends_covers [OF r3(2) cov3]
  note cov = cov5 cov4 cov3 cov2 extends_covers [OF r2(2) cov2]
  let ?q = "\<lambda>i. p'\<lparr>rindex := i\<rparr>"
  have name: "avahi_dns_packet_consume_name AVAHI_DOMAIN_NAME_MAX (?q (psize p)) =
      Some (Some (key_name (rkey r)), ?q (psize p1))"
    using consume_append_name(1) [OF 1 ok(1,2), of "?q (psize p)"] cov by simp
  have type: "avahi_dns_packet_consume_uint16 (?q (psize p1)) = Some (Some (key_type (rkey r)), ?q (psize p2))"
    using consume_append_uint16(1) [OF 2, of "?q (psize p1)"] cov by simp
  have cls: "avahi_dns_packet_consume_uint16 (?q (psize p2)) = Some (Some c, ?q (psize p3))"
    using consume_append_uint16(1) [OF 3, of "?q (psize p2)"] cov by simp
  have ttl: "avahi_dns_packet_consume_uint32 (?q (psize p3)) = Some (Some tt, ?q (psize p4))"
    using r4 cov(2) get32_covers [OF cov(2), of "psize p3"] coversD(1) [OF cov(2)]
    by (simp add: avahi_dns_packet_consume_uint32_def)
  define n16 :: u16 where "n16 = of_nat (psize p' - psize p5)"
  have len: "avahi_dns_packet_consume_uint16 (?q (psize p4)) = Some (Some n16, ?q (psize p5))"
    unfolding n16_def using consume_append_uint16(1) [OF 6, of "?q (psize p4)"] cov by simp
  have szn: "unat n16 = psize p' - psize p5"
    unfolding n16_def using sz w(3) by (intro of_nat_inverse [OF refl]) simp
  have c': "c AND - 32769 = clazz (rkey r)" using c by simp
  have new: "avahi_record_new_full (key_name (rkey r)) (clazz (rkey r)) (key_type (rkey r)) tt =
      Some (Some \<lparr>rkey = rkey r, ttl = tt, rdata = RD_NULL\<rparr>)"
    using normal_name_strdup [OF ok(2)] tt
    by (simp add: avahi_record_new_full_def avahi_key_new_def avahi_record_new_def)
  have rec: "\<lparr>rkey = rkey r, ttl = tt, rdata = rdata r\<rparr> = r\<lparr>ttl := tt\<rparr>" by simp
  have parse: "parse_rdata \<lparr>rkey = rkey r, ttl = tt, rdata = RD_NULL\<rparr> (psize p' - psize p5) (?q (psize p5)) =
      Some (Some (r\<lparr>ttl := tt\<rparr>), ?q (psize p'))"
    using rd by (simp add: parse_rdata_def op_bind_def)
  have valid: "avahi_record_is_valid (r\<lparr>ttl := tt\<rparr>) = Some True"
    using ok(3) by (intro record_ok_valid) (simp add: record_ok_def)
  have "avahi_dns_packet_consume_record (?q (psize p)) =
      Some (Some (r\<lparr>ttl := tt\<rparr>, c AND AVAHI_DNS_CACHE_FLUSH \<noteq> 0), ?q (psize p'))"
    using coversD(1) [OF cov(1)]
    by (simp add: avahi_dns_packet_consume_record_def op_bind_def name type cls ttl len szn c' new parse valid)
  moreover have "psize p' - psize p \<le> wire_len ls + 10 + rdata_len (rdata r)"
    using r1(5,6) r2(3) r3(3) r4(3) r6(3) sz by simp
  ultimately show ?thesis using t r1(1) by simp
qed

section \<open>Enough space\<close>

text \<open>\<open>fits n p r\<close>: with space for \<open>n\<close> more bytes, the operation with the result \<open>r\<close> succeeds and takes no more.\<close>

definition fits :: "nat \<Rightarrow> AvahiDnsPacket \<Rightarrow> ('a option \<times> AvahiDnsPacket) option \<Rightarrow> bool" where
  "fits n p res = (psize p + n \<le> max_size p \<longrightarrow>
     (\<exists>a p'. res = Some (Some a, p') \<and> psize p' \<le> psize p + n \<and> max_size p' = max_size p))"

lemma fits_bind:
  assumes "fits n p res" "\<And>a p'. res = Some (Some a, p') \<Longrightarrow> fits m p' (g a p')" "n + m \<le> k"
  shows "fits k p (op_bind res g)"
  unfolding fits_def
proof
  assume k: "psize p + k \<le> max_size p"
  then obtain a p' where r: "res = Some (Some a, p')" "psize p' \<le> psize p + n" "max_size p' = max_size p"
    using assms(1,3) unfolding fits_def by auto
  moreover from this assms(2,3) k obtain b p'' where "g a p' = Some (Some b, p'')" "psize p'' \<le> psize p' + m"
    "max_size p'' = max_size p'" unfolding fits_def by fastforce
  ultimately show "\<exists>a p'. op_bind res g = Some (Some a, p') \<and> psize p' \<le> psize p + k \<and> max_size p' = max_size p"
    using assms(3) by (auto simp: op_bind_def)
qed

lemmas fits_add = fits_bind [OF _ _ order_refl]

lemma fits_ret: "fits n p (Some (Some a, p))"
  by (simp add: fits_def)

lemma fits_put: "length bs \<le> n \<Longrightarrow> fits n p (put_bytes bs p)"
  by (auto simp: fits_def put_bytes_cases)

lemma fits_name:
  assumes "packet_ok p" "name_ok name ls"
  shows "fits (wire_len ls) p (avahi_dns_packet_append_name name p)"
  using assms by (cases rule: append_name_cases) (auto simp: fits_def extends_def)

lemmas fits_uint = fits_put [of "be16 v" 2, folded avahi_dns_packet_append_uint16_def, simplified]
  fits_put [of "be32 v" 4, folded avahi_dns_packet_append_uint32_def, simplified] for v

lemma fits_rdata:
  assumes "packet_ok p" "rdata_ok (rr_kind (key_type (rkey r))) (rdata r)" "rdata_normal (rdata r)"
  shows "fits (rdata_len (rdata r)) p (append_rdata r p)"
proof -
  have name: "fits (wire_len (the (name_labels n))) q
      (op_bind (avahi_dns_packet_append_name n q) (\<lambda>_ p. Some (Some (), p)))"
    if q: "packet_ok q" "\<exists>ls. normal_name n ls" for q n
  proof -
    obtain ls where ls: "normal_name n ls" using q(2) by blast
    have "fits (wire_len ls) q (avahi_dns_packet_append_name n q)"
      using q(1) normal_nameD(1) [OF ls] by (rule fits_name)
    then show ?thesis unfolding name_ok_the [OF ls]
      by (rule fits_bind [where m = 0]) (simp_all add: fits_ret)
  qed
  have put: "fits (length bs) q (op_bind (put_bytes bs q) (\<lambda>_ p. Some (Some (), p)))" for bs q
    by (rule fits_bind [OF fits_put [OF order_refl], where m = 0]) (simp_all add: fits_ret)
  note kind = append_rdata_def opt_op_def append_puts avahi_dns_packet_append_bytes_def
  from assms(2) show ?thesis
  proof (elim rdata_okE, goal_cases)
    case (1 n)
    then show ?case using assms(3) by (simp add: kind name assms(1))
  next
    case (2 a b c n)
    have "fits (2 + (2 + (2 + wire_len (the (name_labels n))))) p
      (op_bind (avahi_dns_packet_append_uint16 a p) (\<lambda>_ p. op_bind (avahi_dns_packet_append_uint16 b p) (\<lambda>_ p.
       op_bind (avahi_dns_packet_append_uint16 c p) (\<lambda>_ p.
       op_bind (avahi_dns_packet_append_name n p) (\<lambda>_ p. Some (Some (), p))))))"
      by (intro fits_add fits_uint)
        (use 2 assms(1,3) in \<open>auto simp: avahi_dns_packet_append_uint16_def intro!: name elim!: put_bytes_packet_ok [rotated]\<close>)
    with 2 show ?case by (simp add: append_rdata_def opt_op_def eval_nat_numeral)
  next
    case (3 c os)
    have "fits (length (char_of (length c) # c) + length (char_of (length os) # os)) p
      (op_bind (put_bytes (char_of (length c) # c) p) (\<lambda>_ p.
       op_bind (put_bytes (char_of (length os) # os) p) (\<lambda>_ p. Some (Some (), p))))"
      by (rule fits_add [OF fits_put [OF order_refl] put])
    with 3 show ?case by (auto simp: kind)
  next
    case (4 l)
    with put [of "avahi_string_list_serialize l (avahi_string_list_serialize_size l)" p]
      parse_serialize_wire [OF order_refl, of l]
    show ?case by (simp add: kind Let_def)
  next
    case (5 a)
    with put [of a p] show ?case by (auto simp: kind)
  next
    case (6 a)
    with put [of a p] show ?case by (auto simp: kind)
  qed (use put in \<open>auto simp: kind\<close>)
qed

lemma fits_tail:
  assumes "packet_ok p" "rdata_wire_ok r"
  shows "fits (2 + rdata_len (rdata r)) p (append_tail r t p)"
  unfolding append_tail_def
proof (rule fits_bind [OF fits_uint(1)])
  fix l p1
  assume "avahi_dns_packet_append_uint16 0 p = Some (Some l, p1)"
  then have "packet_ok p1" using assms(1) put_bytes_packet_ok unfolding avahi_dns_packet_append_uint16_def by blast
  then have "fits (rdata_len (rdata r)) p1 (append_rdata r p1)"
    using assms(2) by (intro fits_rdata) (auto simp: rdata_wire_ok_def)
  then show "fits (rdata_len (rdata r)) p1 (let start = psize p1 in op_bind (append_rdata r p1) (\<lambda>_ p.
      let sz = psize p - start in if sz \<le> AVAHI_DNS_RDATA_MAX
      then Some (Some t, p\<lparr>pdata := write_bytes (pdata p) l (be16 (of_nat sz))\<rparr>) else None))"
    using assms(2) by (auto simp: fits_def Let_def op_bind_def rdata_wire_ok_def)
qed simp

lemma fits_record:
  assumes "packet_ok p" "name_ok (key_name (rkey r)) ls" "rdata_wire_ok r"
  shows "fits (wire_len ls + 10 + rdata_len (rdata r)) p (append_record_chain r c tt p)"
proof -
  have ok: "packet_ok p'" if "put_bytes bs q = Some (Some d, p')" "packet_ok q" for bs q d p'
    using that put_bytes_packet_ok by blast
  have "fits (wire_len ls + (2 + (2 + (4 + (2 + rdata_len (rdata r)))))) p (append_record_chain r c tt p)"
    unfolding append_record_chain_def
    by (intro fits_add fits_name [OF assms(1,2)] fits_uint fits_tail assms(3))
      (auto dest: append_name_Some(2) [OF _ assms(1,2)] elim!: ok
        simp: avahi_dns_packet_append_uint16_def avahi_dns_packet_append_uint32_def)
  then show ?thesis by (simp add: ac_simps)
qed

lemma fits_key:
  assumes "packet_ok p" "name_ok (key_name k) ls"
  shows "fits (wire_len ls + (2 + (2 + 0))) p
    (op_bind (avahi_dns_packet_append_name (key_name k) p) (\<lambda>t p.
     op_bind (avahi_dns_packet_append_uint16 (key_type k) p) (\<lambda>_ p.
     op_bind (avahi_dns_packet_append_uint16 c p) (\<lambda>_ p. Some (Some t, p)))))"
  by (intro fits_add fits_name [OF assms] fits_uint fits_ret)

end
