(* ===== verification/DNS_Reading.thy ===== *)
theory DNS_Reading
  imports DNS_Rdata
begin

text \<open>
  Reading packets of any content: \<open>consume_labels\<close> accepts exactly the names that are stored in order, and
  the operations that read keys and records return, stay within the packet, do not depend on bytes
  outside it and give valid keys and records only.
\<close>

section \<open>Names\<close>

lemma consume_labels_loop_stored:
  assumes "consume_labels_loop i p idx l ret compressed first out = Some (Some (name, r))" "0 < l"
  shows "\<exists>ls k n. wire_name (pdata p) (psize p) idx ls k n \<and> k \<le> i \<and> length (label_text first ls) < l \<and>
    name = out @ label_text first ls \<and> r = (if compressed then ret else ret + n)"
  using assms
proof (induction i arbitrary: idx l ret compressed first out)
  case (Suc i)
  let ?n = "ucode (pdata p idx)"
  have idx: "idx < psize p" using Suc.prems by (auto split: if_splits)
  consider (stop) "?n = 0" | (label) "?n \<noteq> 0" "?n \<le> 63" | (ptr) "\<not> ?n \<le> 63" "?n AND 0xC0 = 0xC0"
    using Suc.prems idx by (auto simp: Let_def split: if_splits)
  then show ?case
  proof cases
    case stop
    then have "pdata p idx = CHR 0x00" using ucode_inject [of "pdata p idx" "CHR 0x00"] by simp
    then have "wire_name (pdata p) (psize p) idx [] 1 1" using idx by (rule wire_name.wire_end [rotated])
    moreover have "name = out" "r = (if compressed then ret else ret + 1)"
      using Suc.prems idx stop by (auto simp: Let_def split: if_splits)
    ultimately show ?thesis using Suc.prems(2) by force
  next
    case label
    define la where "la = read_bytes (pdata p) (idx + 1) ?n"
    define l1 where "l1 = (if first then l else l - 1)"
    define out1 where "out1 = (if first then out else out @ ''.'')"
    have len: "length la = ?n" by (simp add: la_def)
    then have ne: "la \<noteq> []" using label by auto
    have fit: "idx + 1 + ?n \<le> psize p" "?n + 1 \<le> l"
      using Suc.prems idx label by (auto simp: Let_def split: if_splits)
    then have l1: "0 < l1" using label by (auto simp: l1_def)
    obtain ok e l' where e: "escape_loop la l1 = (ok, e, l')" by (metis prod_cases3)
    have rec: "ok" "consume_labels_loop i p (idx + 1 + ?n) l'
        (if compressed then ret else ret + 1 + ?n) compressed False (out1 @ e) = Some (Some (name, r))"
      using Suc.prems(1) idx label fit l1 e
      by (cases ok; auto simp: Let_def avahi_escape_label_def la_def l1_def out1_def split: if_splits)+
    have sp: "l' + length e = l1" "0 < l'" "e = escape_str la"
      using escape_loop_space [OF e l1] rec(1) by blast+
    from Suc.IH [OF rec(2) sp(2)] obtain ls k n where
      w: "wire_name (pdata p) (psize p) (idx + 1 + ?n) ls k n" "k \<le> i" "length (label_text False ls) < l'"
        "name = (out1 @ e) @ label_text False ls"
        "r = (if compressed then (if compressed then ret else ret + 1 + ?n)
              else (if compressed then ret else ret + 1 + ?n) + n)" by blast
    have "wire_name (pdata p) (psize p) idx (la # ls) (Suc k) (1 + length la + n)"
      by (rule wire_name.wire_label) (use label fit w(1) ne in \<open>simp_all only: len la_def [symmetric] simp_thms\<close>)
    moreover have "length (label_text first (la # ls)) < l"
      using sp w(3) fit(2) by (auto simp: label_text_Cons l1_def split: if_splits)
    moreover have "name = out @ label_text first (la # ls)"
      using w(4) sp(3) by (simp add: label_text_Cons out1_def)
    ultimately show ?thesis using w(2,5) len by (intro exI [of _ "la # ls"] exI [of _ "Suc k"] exI conjI) auto
  next
    case ptr
    define pt where "pt = push_bit 8 (?n AND 0x3F) OR ucode (pdata p (idx + 1))"
    have pt: "idx + 2 \<le> psize p" "12 \<le> pt" "pt < idx"
      and rec: "consume_labels_loop i p pt l (if compressed then ret else ret + 2) True first out =
        Some (Some (name, r))"
      using Suc.prems(1) idx ptr by (auto simp: Let_def pt_def split: if_splits)
    from Suc.IH [OF rec Suc.prems(2)] obtain ls k n where
      w: "wire_name (pdata p) (psize p) pt ls k n" "k \<le> i" "length (label_text first ls) < l"
        "name = out @ label_text first ls" "r = (if compressed then ret else ret + 2)" by auto
    have "wire_name (pdata p) (psize p) idx ls (Suc k) 2"
      by (rule wire_name.wire_ptr [of _ _ _ pt]) (use pt w(1) ptr in \<open>auto simp: ptr_at_def pt_def\<close>)
    with w show ?thesis by (intro exI [of _ ls] exI [of _ "Suc k"] exI [of _ 2]) auto
  qed
qed simp

lemma consume_labels_loop_returns:
  "0 < l \<Longrightarrow> consume_labels_loop i p idx l ret compressed first out \<noteq> None"
proof (induction i arbitrary: idx l ret compressed first out)
  case (Suc i)
  let ?n = "ucode (pdata p idx)"
  define la where "la = read_bytes (pdata p) (idx + 1) ?n"
  define l1 where "l1 = (if first then l else l - 1)"
  obtain ok e l' where e: "escape_loop la l1 = (ok, e, l')" by (metis prod_cases3)
  have "0 < l'" if "0 < l1" using escape_loop_space [OF e that] by blast
  then have "?n \<noteq> 0 \<Longrightarrow> ?n + 1 \<le> l \<Longrightarrow> 0 < l1 \<and> 0 < l'" by (auto simp: l1_def)
  with Suc e show ?case
    by (auto simp: Let_def avahi_escape_label_def la_def l1_def split: if_splits bool.splits)
qed simp

lemma consume_labels_stored:
  assumes "0 < l"
  shows "consume_labels p idx l = Some (Some (name, n)) \<longleftrightarrow>
    (\<exists>ls k. wire_name (pdata p) (psize p) idx ls k n \<and> k \<le> AVAHI_DNS_LABELS_MAX \<and>
       length (join_labels ls) < l \<and> name = join_labels ls)"
proof
  assume "consume_labels p idx l = Some (Some (name, n))"
  then have "consume_labels_loop AVAHI_DNS_LABELS_MAX p idx l 0 False True [] = Some (Some (name, n))"
    using assms by (simp only: consume_labels_def) simp
  from consume_labels_loop_stored [OF this assms]
  show "\<exists>ls k. wire_name (pdata p) (psize p) idx ls k n \<and> k \<le> AVAHI_DNS_LABELS_MAX \<and>
       length (join_labels ls) < l \<and> name = join_labels ls" by (auto simp: label_text_def)
qed (auto intro: consume_labels_wire)

lemma consume_labels_returns: "0 < l \<Longrightarrow> consume_labels p idx l \<noteq> None"
  unfolding consume_labels_def using consume_labels_loop_returns by simp


text \<open>A label that the code does not accept is not read back from its escaped form.\<close>

lemma unescape_char_esc_nul: "unescape_char (esc_char (CHR 0x00) @ rest) = Malformed"
  by (simp add: unescape_char_def esc_char_def proper_char_def c_dot_def c_backslash_def Let_def
      digit_char_def isdigit_def digit_val_def char_of_def)

lemma avahi_unescape_label_bad:
  assumes "length l < sz" "CHR 0x00 \<in> set l \<or> \<not> avahi_utf8_valid l" "unescape_char rest = Label_End rest'"
  shows "avahi_unescape_label (escape_str l @ rest) sz = None"
proof (cases "CHR 0x00 \<in> set l")
  case True
  then obtain a b where l: "l = a @ CHR 0x00 # b" "CHR 0x00 \<notin> set a" by (auto dest: split_list_first)
  have "unescape_loop sz 0 [] (escape_str l @ rest) =
      unescape_loop sz (0 + length a) (rev a @ []) (esc_char (CHR 0x00) @ escape_str b @ rest)"
    using l assms(1) unescape_loop_escape_str [of a 0 sz "[]" "esc_char (CHR 0x00) @ escape_str b @ rest"]
    by (simp add: escape_str_def)
  also have "\<dots> = None" by (rule unescape_loop_bad) (rule unescape_char_esc_nul)
  finally show ?thesis by (simp add: avahi_unescape_label_def)
next
  case False
  then have "unescape_loop sz 0 [] (escape_str l @ rest) = Some (l, rest')"
    using assms by (subst unescape_loop_escape_str) simp_all
  with assms(2) False show ?thesis by (simp add: avahi_unescape_label_def)
qed

definition stored_label :: "string \<Rightarrow> bool" where
  "stored_label l = (l \<noteq> [] \<and> length l < AVAHI_LABEL_MAX)"

lemma unescape_stored:
  assumes "stored_label l"
  shows "avahi_unescape_label (join_labels (l # ls)) AVAHI_LABEL_MAX =
    (if label_ok l then Some (l, join_labels ls) else None)"
proof -
  define rest where "rest = (if ls = [] then [] else c_dot # join_labels ls)"
  have j: "join_labels (l # ls) = escape_str l @ rest" "unescape_char rest = Label_End (join_labels ls)"
    by (auto simp: rest_def join_labels_Cons)
  show ?thesis
  proof (cases "label_ok l")
    case True
    with j avahi_unescape_label_escape_str [of l AVAHI_LABEL_MAX rest] show ?thesis
      by (auto simp: label_ok_def)
  next
    case False
    with assms have "avahi_unescape_label (escape_str l @ rest) AVAHI_LABEL_MAX = None"
      by (intro avahi_unescape_label_bad [OF _ _ j(2)]) (auto simp: label_ok_def stored_label_def)
    with False j(1) show ?thesis by simp
  qed
qed

lemma normalize_loop_stored:
  assumes "\<forall>l \<in> set ls. stored_label l" "length (label_text emp ls) < sz"
  shows "normalize_loop (join_labels ls) emp out sz True =
    Some (if \<forall>l \<in> set ls. label_ok l then Some (out @ label_text emp ls, True) else None)"
  using assms
proof (induction ls arbitrary: emp out sz)
  case Nil
  then show ?case by (simp add: normalize_loop.simps)
next
  case (Cons l ls)
  then have l: "stored_label l" "l \<noteq> []" by (auto simp: stored_label_def)
  then have ne: "join_labels (l # ls) \<noteq> []" by (simp add: join_labels_tail)
  show ?case
  proof (cases "label_ok l")
    case False
    with ne l show ?thesis by (subst normalize_loop.simps) (simp add: unescape_stored)
  next
    case True
    let ?sz = "if emp then sz else sz - 1"
    have fit: "length (escape_str l) + length (label_text False ls) < ?sz" "\<not> (\<not> emp \<and> sz < 1)"
      using Cons.prems(2) by (auto simp: label_text_Cons)
    then have "avahi_escape_label l ?sz = Some (True, escape_str l, ?sz - length (escape_str l))"
      by (intro avahi_escape_label_fits) simp
    then have "normalize_loop (join_labels (l # ls)) emp out sz True =
        normalize_loop (join_labels ls) False ((if emp then out else out @ [c_dot]) @ escape_str l)
          (?sz - length (escape_str l)) True"
      using ne l True fit(2) by (subst normalize_loop.simps) (auto simp: unescape_stored)
    also have "\<dots> = Some (if \<forall>l \<in> set ls. label_ok l
        then Some (((if emp then out else out @ [c_dot]) @ escape_str l) @ label_text False ls, True) else None)"
      by (rule Cons.IH) (use Cons.prems fit in auto)
    finally show ?thesis using True by (simp add: label_text_Cons c_dot_def)
  qed
qed

lemma normalize_stored:
  assumes "\<forall>l \<in> set ls. stored_label l" "length (join_labels ls) < AVAHI_DOMAIN_NAME_MAX"
  shows "avahi_normalize_name_strdup (join_labels ls) =
    Some (if \<forall>l \<in> set ls. label_ok l then Some (join_labels ls) else None)"
  using normalize_loop_stored [of ls True AVAHI_DOMAIN_NAME_MAX "[]"] assms
  by (simp add: avahi_normalize_name_strdup_def avahi_normalize_name_def label_text_def)

lemma wire_name_stored: "wire_name m sz idx ls k n \<Longrightarrow> \<forall>l \<in> set ls. stored_label l"
  by (induction rule: wire_name.induct) (auto simp: stored_label_def AVAHI_LABEL_MAX_def)

section \<open>Reading operations\<close>

text \<open>
  \<open>reader n Q op\<close>: on a packet of any content with \<open>n\<close> bytes behind the read index, \<open>op\<close> returns, moves
  nothing but the read index, and that forward within the packet, its result satisfies \<open>Q\<close>, and it
  does not depend on bytes that are not in the packet.
\<close>

definition reader :: "nat \<Rightarrow> ('a \<Rightarrow> bool) \<Rightarrow> 'a packet_op \<Rightarrow> bool" where
  "reader n Q op = (\<forall>p. rindex p + n \<le> psize p \<longrightarrow>
     (\<exists>r i. op p = Some (r, p\<lparr>rindex := i\<rparr>) \<and> rindex p \<le> i \<and> i \<le> psize p \<and> (\<forall>a. r = Some a \<longrightarrow> Q a) \<and>
        (\<forall>m. (\<forall>j < psize p. m j = pdata p j) \<longrightarrow>
           op (p\<lparr>pdata := m\<rparr>) = Some (r, p\<lparr>rindex := i, pdata := m\<rparr>))))"

lemma readerI:
  assumes "\<And>p. rindex p + n \<le> psize p \<Longrightarrow> \<exists>r i. op p = Some (r, p\<lparr>rindex := i\<rparr>) \<and> rindex p \<le> i \<and>
     i \<le> psize p \<and> (\<forall>a. r = Some a \<longrightarrow> Q a) \<and> (\<forall>m. (\<forall>j < psize p. m j = pdata p j) \<longrightarrow>
           op (p\<lparr>pdata := m\<rparr>) = Some (r, p\<lparr>rindex := i, pdata := m\<rparr>))"
  shows "reader n Q op"
  using assms unfolding reader_def by blast

lemma readerE:
  assumes "reader n Q op" "rindex p + n \<le> psize p"
  obtains r i where "op p = Some (r, p\<lparr>rindex := i\<rparr>)" "rindex p \<le> i" "i \<le> psize p" "\<forall>a. r = Some a \<longrightarrow> Q a"
    "\<forall>m. (\<forall>j < psize p. m j = pdata p j) \<longrightarrow> op (p\<lparr>pdata := m\<rparr>) = Some (r, p\<lparr>rindex := i, pdata := m\<rparr>)"
  using assms unfolding reader_def by blast

lemma reader_bind:
  assumes "reader n Q op" "\<And>a. Q a \<Longrightarrow> reader 0 R (g a)"
  shows "reader n R (\<lambda>p. op_bind (op p) g)"
proof (rule readerI)
  fix p :: AvahiDnsPacket
  assume "rindex p + n \<le> psize p"
  with assms(1) obtain r i where r: "op p = Some (r, p\<lparr>rindex := i\<rparr>)" "rindex p \<le> i" "i \<le> psize p"
    "\<forall>a. r = Some a \<longrightarrow> Q a"
    "\<forall>m. (\<forall>j < psize p. m j = pdata p j) \<longrightarrow> op (p\<lparr>pdata := m\<rparr>) = Some (r, p\<lparr>rindex := i, pdata := m\<rparr>)"
    by (rule readerE)
  show "\<exists>r i. op_bind (op p) g = Some (r, p\<lparr>rindex := i\<rparr>) \<and> rindex p \<le> i \<and> i \<le> psize p \<and>
    (\<forall>a. r = Some a \<longrightarrow> R a) \<and> (\<forall>m. (\<forall>j < psize p. m j = pdata p j) \<longrightarrow>
      op_bind (op (p\<lparr>pdata := m\<rparr>)) g = Some (r, p\<lparr>rindex := i, pdata := m\<rparr>))"
  proof (cases r)
    case None
    with r show ?thesis by (intro exI [of _ None] exI [of _ i]) (simp add: op_bind_def)
  next
    case (Some a)
    then have "reader 0 R (g a)" using r(4) assms(2) by blast
    moreover have "rindex (p\<lparr>rindex := i\<rparr>) + 0 \<le> psize (p\<lparr>rindex := i\<rparr>)" using r(3) by simp
    ultimately obtain r' i' where r': "g a (p\<lparr>rindex := i\<rparr>) = Some (r', p\<lparr>rindex := i, rindex := i'\<rparr>)"
      "rindex (p\<lparr>rindex := i\<rparr>) \<le> i'" "i' \<le> psize (p\<lparr>rindex := i\<rparr>)" "\<forall>a. r' = Some a \<longrightarrow> R a"
      "\<forall>m. (\<forall>j < psize (p\<lparr>rindex := i\<rparr>). m j = pdata (p\<lparr>rindex := i\<rparr>) j) \<longrightarrow>
        g a (p\<lparr>rindex := i, pdata := m\<rparr>) = Some (r', p\<lparr>rindex := i, rindex := i', pdata := m\<rparr>)"
      by (rule readerE)
    with r Some show ?thesis
      by (intro exI [of _ r'] exI [of _ i']) (simp add: op_bind_def)
  qed
qed

lemma reader_weaken: "reader n Q op \<Longrightarrow> n \<le> m \<Longrightarrow> (\<And>a. Q a \<Longrightarrow> R a) \<Longrightarrow> reader m R op"
  unfolding reader_def by (meson add_left_mono le_trans)

lemma reader_ret: "Q a \<Longrightarrow> reader n Q (\<lambda>p. Some (Some a, p))"
  by (rule readerI, rule exI [of _ "Some a"]) (force intro: exI)

lemma reader_fail: "reader n Q (\<lambda>p. Some (None, p))"
  by (rule readerI, rule exI [of _ None]) (force intro: exI)

lemma reader_guard:
  assumes "reader n Q op"
  shows "reader 0 Q (\<lambda>p. if psize p < rindex p + n then Some (None, p) else op p)"
proof (rule readerI)
  fix p :: AvahiDnsPacket
  assume "rindex p + 0 \<le> psize p"
  with assms reader_fail [of 0 Q]
  show "\<exists>r i. (if psize p < rindex p + n then Some (None, p) else op p) = Some (r, p\<lparr>rindex := i\<rparr>) \<and>
    rindex p \<le> i \<and> i \<le> psize p \<and> (\<forall>a. r = Some a \<longrightarrow> Q a) \<and> (\<forall>m. (\<forall>j < psize p. m j = pdata p j) \<longrightarrow>
      (if psize (p\<lparr>pdata := m\<rparr>) < rindex (p\<lparr>pdata := m\<rparr>) + n then Some (None, p\<lparr>pdata := m\<rparr>)
       else op (p\<lparr>pdata := m\<rparr>)) = Some (r, p\<lparr>rindex := i, pdata := m\<rparr>))"
    unfolding reader_def by (cases "psize p < rindex p + n") auto
qed

lemma consume_labels_loop_local:
  assumes "\<forall>j < psize p. m j = pdata p j"
  shows "consume_labels_loop i (p\<lparr>pdata := m\<rparr>) idx l ret compressed first out =
    consume_labels_loop i p idx l ret compressed first out"
proof (induction i arbitrary: idx l ret compressed first out)
  case (Suc i)
  show ?case
  proof (cases "idx + 1 > psize p")
    case False
    then have "m idx = pdata p idx" using assms by simp
    moreover have "idx + 2 \<le> psize p \<Longrightarrow> m (idx + 1) = pdata p (idx + 1)" using assms by simp
    moreover have "idx + 1 + n \<le> psize p \<Longrightarrow> read_bytes m (idx + 1) n = read_bytes (pdata p) (idx + 1) n" for n
      using assms by (intro read_bytes_cong) auto
    ultimately show ?thesis by (simp add: Let_def Suc.IH cong: if_cong option.case_cong prod.case_cong bool.case_cong)
  qed simp
qed simp

lemma consume_labels_local:
  assumes "\<forall>j < psize p. m j = pdata p j"
  shows "consume_labels (p\<lparr>pdata := m\<rparr>) idx l = consume_labels p idx l"
  unfolding consume_labels_def by (simp only: consume_labels_loop_local [OF assms])

text \<open>The text of a stored name that fits a buffer of \<open>l\<close> bytes.\<close>

definition stored_text :: "nat \<Rightarrow> string \<Rightarrow> bool" where
  "stored_text l name = (\<exists>ls. name = join_labels ls \<and> (\<forall>la \<in> set ls. stored_label la) \<and> length name < l)"

lemma reader_name:
  assumes "0 < l"
  shows "reader 0 (stored_text l) (avahi_dns_packet_consume_name l)"
proof (rule readerI)
  fix p :: AvahiDnsPacket
  assume p: "rindex p + 0 \<le> psize p"
  have loc: "\<forall>m. (\<forall>j < psize p. m j = pdata p j) \<longrightarrow>
      consume_labels (p\<lparr>pdata := m\<rparr>) (rindex p) l = consume_labels p (rindex p) l"
    using consume_labels_local by blast
  consider "consume_labels p (rindex p) l = Some None"
    | name n where "consume_labels p (rindex p) l = Some (Some (name, n))"
    using consume_labels_returns [OF assms, of p "rindex p"] by (metis not_Some_eq surj_pair)
  then show "\<exists>r i. avahi_dns_packet_consume_name l p = Some (r, p\<lparr>rindex := i\<rparr>) \<and> rindex p \<le> i \<and> i \<le> psize p \<and>
    (\<forall>a. r = Some a \<longrightarrow> stored_text l a) \<and> (\<forall>m. (\<forall>j < psize p. m j = pdata p j) \<longrightarrow>
      avahi_dns_packet_consume_name l (p\<lparr>pdata := m\<rparr>) = Some (r, p\<lparr>rindex := i, pdata := m\<rparr>))"
  proof cases
    case 1
    with loc p show ?thesis
      by (intro exI [of _ None] exI [of _ "rindex p"]) (simp add: avahi_dns_packet_consume_name_def)
  next
    case (2 name n)
    then obtain ls k where w: "wire_name (pdata p) (psize p) (rindex p) ls k n" "length (join_labels ls) < l"
      "name = join_labels ls" using consume_labels_stored [OF assms] by blast
    then have "stored_text l name" using wire_name_stored [OF w(1)] by (auto simp: stored_text_def)
    with 2 loc wire_name_in [OF w(1)] show ?thesis
      by (intro exI [of _ "Some name"] exI [of _ "rindex p + n"]) (simp add: avahi_dns_packet_consume_name_def)
  qed
qed

text \<open>The operations that take a fixed number of bytes.\<close>

lemma reader_advance:
  assumes op: "\<And>p. op p = (if rindex p + n > psize p then Some (None, p)
      else Some (Some (f (pdata p) (rindex p)), p\<lparr>rindex := rindex p + n\<rparr>))"
    and loc: "\<And>m m' off. (\<And>j. j < off + n \<Longrightarrow> m' j = m j) \<Longrightarrow> f m' off = f m off"
    and Q: "\<And>m off. Q (f m off)"
  shows "reader 0 Q op"
proof (rule readerI)
  fix p :: AvahiDnsPacket
  assume p: "rindex p + 0 \<le> psize p"
  show "\<exists>r i. op p = Some (r, p\<lparr>rindex := i\<rparr>) \<and> rindex p \<le> i \<and> i \<le> psize p \<and> (\<forall>a. r = Some a \<longrightarrow> Q a) \<and>
    (\<forall>m. (\<forall>j < psize p. m j = pdata p j) \<longrightarrow> op (p\<lparr>pdata := m\<rparr>) = Some (r, p\<lparr>rindex := i, pdata := m\<rparr>))"
  proof (cases "rindex p + n > psize p")
    case True
    with p show ?thesis by (intro exI [of _ None] exI [of _ "rindex p"]) (simp add: op)
  next
    case False
    have other: "op (p\<lparr>pdata := m\<rparr>) = Some (Some (f (pdata p) (rindex p)), p\<lparr>rindex := rindex p + n, pdata := m\<rparr>)"
      if m: "\<forall>j < psize p. m j = pdata p j" for m
    proof -
      have "f m (rindex p) = f (pdata p) (rindex p)" by (rule loc) (use m False in auto)
      with False show ?thesis by (simp add: op)
    qed
    have "op p = Some (Some (f (pdata p) (rindex p)), p\<lparr>rindex := rindex p + n\<rparr>)"
      using False by (simp add: op)
    with False Q [of "pdata p" "rindex p"] show ?thesis
      by (intro exI [of _ "Some (f (pdata p) (rindex p))"] exI [of _ "rindex p + n"] conjI allI impI other) auto
  qed
qed

lemma reader_uint16: "reader 0 (\<lambda>_. True) avahi_dns_packet_consume_uint16"
  by (rule reader_advance [where f = get16 and n = 2])
    (simp_all add: avahi_dns_packet_consume_uint16_def, simp add: get16_def)

lemma reader_uint32: "reader 0 (\<lambda>_. True) avahi_dns_packet_consume_uint32"
  by (rule reader_advance [where f = get32 and n = 4])
    (simp_all add: avahi_dns_packet_consume_uint32_def, simp add: get32_def)

lemma reader_bytes: "0 < n \<Longrightarrow> reader 0 (\<lambda>b. length b = n) (avahi_dns_packet_consume_bytes n)"
  by (rule reader_advance [where f = "\<lambda>m off. read_bytes m off n" and n = n])
    (simp_all add: avahi_dns_packet_consume_bytes_def, intro read_bytes_cong, simp)

lemma reader_skip: "reader 0 (\<lambda>_. True) (avahi_dns_packet_skip n)"
  by (rule reader_advance [where f = "\<lambda>_ _. ()" and n = n]) (simp_all add: avahi_dns_packet_skip_def)

lemma read_bytes_local:
  "\<forall>j < psize p. m j = pdata p j \<Longrightarrow> off + n \<le> psize p \<Longrightarrow> read_bytes m off n = read_bytes (pdata p) off n"
  by (intro read_bytes_cong) auto

lemma reader_string:
  assumes "0 < l"
  shows "reader 0 (\<lambda>_. True) (avahi_dns_packet_consume_string l)"
proof (rule readerI)
  fix p :: AvahiDnsPacket
  let ?k = "ucode (pdata p (rindex p))"
  assume p: "rindex p + 0 \<le> psize p"
  show "\<exists>r i. avahi_dns_packet_consume_string l p = Some (r, p\<lparr>rindex := i\<rparr>) \<and> rindex p \<le> i \<and> i \<le> psize p \<and>
    (\<forall>a. r = Some a \<longrightarrow> True) \<and> (\<forall>m. (\<forall>j < psize p. m j = pdata p j) \<longrightarrow>
      avahi_dns_packet_consume_string l (p\<lparr>pdata := m\<rparr>) = Some (r, p\<lparr>rindex := i, pdata := m\<rparr>))"
  proof (cases "rindex p < psize p \<and> rindex p + 1 + ?k \<le> psize p")
    case True
    let ?n = "(if l > ?k + 1 then ?k + 1 else l) - 1"
    have other: "avahi_dns_packet_consume_string l (p\<lparr>pdata := m\<rparr>) =
        Some (Some (read_bytes (pdata p) (rindex p + 1) ?n), p\<lparr>rindex := rindex p + (1 + ?k), pdata := m\<rparr>)"
      if m: "\<forall>j < psize p. m j = pdata p j" for m
    proof -
      have "m (rindex p) = pdata p (rindex p)" using m True by simp
      moreover have "read_bytes m (rindex p + 1) ?n = read_bytes (pdata p) (rindex p + 1) ?n"
        using True assms by (intro read_bytes_local m) auto
      ultimately show ?thesis using True assms by (simp add: avahi_dns_packet_consume_string_def Let_def)
    qed
    have "avahi_dns_packet_consume_string l p =
        Some (Some (read_bytes (pdata p) (rindex p + 1) ?n), p\<lparr>rindex := rindex p + (1 + ?k)\<rparr>)"
      using True assms by (simp add: avahi_dns_packet_consume_string_def Let_def)
    with True show ?thesis
      by (intro exI [of _ "Some (read_bytes (pdata p) (rindex p + 1) ?n)"] exI [of _ "rindex p + (1 + ?k)"]
          conjI allI impI other) simp_all
  next
    case False
    with p assms show ?thesis
      by (intro exI [of _ None] exI [of _ "rindex p"])
        (auto simp: avahi_dns_packet_consume_string_def Let_def)
  qed
qed

section \<open>Records and keys\<close>

text \<open>The data that is read for a kind of record.\<close>

fun read_shape :: "rr_kind \<Rightarrow> rdata \<Rightarrow> bool" where
  "read_shape K_PTR (RD_PTR n) = True"
| "read_shape K_SRV (RD_SRV p w q n) = True"
| "read_shape K_HINFO (RD_HINFO c os) = True"
| "read_shape K_TXT (RD_TXT l) = True"
| "read_shape K_A (RD_A a) = (length a = 4)"
| "read_shape K_AAAA (RD_AAAA a) = (length a = 16)"
| "read_shape K_GENERIC (RD_GENERIC d) = (d \<noteq> [])"
| "read_shape K_GENERIC RD_NULL = True"
| "read_shape _ _ = False"

fun_cases read_shapeE: "read_shape k d"

lemma reader_at_rptr:
  assumes "\<And>bs. length bs = n \<Longrightarrow> reader n Q (\<lambda>p. g bs p)"
  shows "reader n Q (\<lambda>p. case at_rptr n p of None \<Rightarrow> None | Some bs \<Rightarrow> g bs p)"
proof (rule readerI)
  fix p :: AvahiDnsPacket
  let ?bs = "read_bytes (pdata p) (rindex p) n"
  assume p: "rindex p + n \<le> psize p"
  then have at: "at_rptr n p = Some ?bs" by (simp add: at_rptr_def avahi_dns_packet_get_rptr_def)
  have at': "at_rptr n (p\<lparr>pdata := m\<rparr>) = Some ?bs" if "\<forall>j < psize p. m j = pdata p j" for m
    using p read_bytes_local [OF that p] by (simp add: at_rptr_def avahi_dns_packet_get_rptr_def)
  have "reader n Q (\<lambda>p. g ?bs p)" by (rule assms) simp
  then obtain r i where "g ?bs p = Some (r, p\<lparr>rindex := i\<rparr>)" "rindex p \<le> i" "i \<le> psize p"
    "\<forall>a. r = Some a \<longrightarrow> Q a" "\<forall>m. (\<forall>j < psize p. m j = pdata p j) \<longrightarrow>
      g ?bs (p\<lparr>pdata := m\<rparr>) = Some (r, p\<lparr>rindex := i, pdata := m\<rparr>)"
    using p by (rule readerE)
  then show "\<exists>r i. (case at_rptr n p of None \<Rightarrow> None | Some bs \<Rightarrow> g bs p) = Some (r, p\<lparr>rindex := i\<rparr>) \<and>
    rindex p \<le> i \<and> i \<le> psize p \<and> (\<forall>a. r = Some a \<longrightarrow> Q a) \<and> (\<forall>m. (\<forall>j < psize p. m j = pdata p j) \<longrightarrow>
      (case at_rptr n (p\<lparr>pdata := m\<rparr>) of None \<Rightarrow> None | Some bs \<Rightarrow> g bs (p\<lparr>pdata := m\<rparr>)) =
        Some (r, p\<lparr>rindex := i, pdata := m\<rparr>))"
    using at at' by (intro exI [of _ r] exI [of _ i]) simp
qed

lemma reader_parse_kind: "reader n (read_shape kind) (parse_rdata_kind kind n)"
proof -
  have name: "reader n (stored_text AVAHI_DOMAIN_NAME_MAX) (avahi_dns_packet_consume_name AVAHI_DOMAIN_NAME_MAX)" for n
    by (rule reader_weaken [OF reader_name]) (simp_all add: AVAHI_DOMAIN_NAME_MAX_def)
  have str: "reader n (\<lambda>_. True) (avahi_dns_packet_consume_string AVAHI_DOMAIN_NAME_MAX)" for n
    by (rule reader_weaken [OF reader_string]) (simp_all add: AVAHI_DOMAIN_NAME_MAX_def)
  have num: "reader n (\<lambda>_. True) avahi_dns_packet_consume_uint16" for n
    by (rule reader_weaken [OF reader_uint16]) simp_all
  have skip: "reader n (\<lambda>_. True) (avahi_dns_packet_skip k)" for n k
    by (rule reader_weaken [OF reader_skip]) simp_all
  have bytes: "reader n (\<lambda>b. length b = k) (avahi_dns_packet_consume_bytes k)" if "0 < k" for n k
    by (rule reader_weaken [OF reader_bytes]) (use that in simp_all)
  show ?thesis
  proof (cases kind)
    case K_PTR
    then show ?thesis
      by (simp only: parse_rdata_kind_def [abs_def] rr_kind.case) (rule reader_bind [OF name], rule reader_ret, simp)
  next
    case K_SRV
    then show ?thesis
      by (simp only: parse_rdata_kind_def [abs_def] rr_kind.case)
        (rule reader_bind [OF num], rule reader_bind [OF num], rule reader_bind [OF num],
          rule reader_bind [OF name], rule reader_ret, simp)
  next
    case K_HINFO
    then show ?thesis
      by (simp only: parse_rdata_kind_def [abs_def] rr_kind.case)
        (rule reader_bind [OF str], rule reader_bind [OF str], rule reader_ret, simp)
  next
    case K_TXT
    have "reader n (read_shape K_TXT) (\<lambda>p. case avahi_string_list_parse bs of None \<Rightarrow> Some (None, p)
        | Some l \<Rightarrow> op_bind (avahi_dns_packet_skip n p) (\<lambda>_ p. Some (Some (RD_TXT l), p)))" for bs
      by (cases "avahi_string_list_parse bs")
        (simp_all add: reader_fail reader_bind [OF skip] reader_ret)
    then show ?thesis unfolding K_TXT parse_rdata_kind_def [abs_def] rr_kind.case
      by (cases "0 < n") (simp_all add: reader_at_rptr reader_ret)
  next
    case K_A
    then show ?thesis
      by (simp only: parse_rdata_kind_def [abs_def] rr_kind.case) (rule reader_bind [OF bytes], simp, rule reader_ret, simp)
  next
    case K_AAAA
    then show ?thesis
      by (simp only: parse_rdata_kind_def [abs_def] rr_kind.case) (rule reader_bind [OF bytes], simp, rule reader_ret, simp)
  next
    case K_GENERIC
    have "reader n (read_shape K_GENERIC) (\<lambda>p. case at_rptr n p of None \<Rightarrow> None
        | Some bs \<Rightarrow> op_bind (avahi_dns_packet_skip n p) (\<lambda>_ p. Some (Some (RD_GENERIC bs), p)))" if "0 < n"
      by (rule reader_at_rptr, rule reader_bind [OF skip], rule reader_ret) (use that in auto)
    then show ?thesis unfolding K_GENERIC parse_rdata_kind_def [abs_def] rr_kind.case
      by (cases "0 < n") (simp_all add: reader_ret)
  qed
qed

lemma reader_parse_rdata:
  "reader n (\<lambda>r'. \<exists>d. r' = r\<lparr>rdata := d\<rparr> \<and> read_shape (rr_kind (key_type (rkey r))) d) (parse_rdata r n)"
proof (rule readerI)
  fix p :: AvahiDnsPacket
  let ?kind = "rr_kind (key_type (rkey r))"
  assume "rindex p + n \<le> psize p"
  with reader_parse_kind obtain d i where d: "parse_rdata_kind ?kind n p = Some (d, p\<lparr>rindex := i\<rparr>)"
    "rindex p \<le> i" "i \<le> psize p" "\<forall>a. d = Some a \<longrightarrow> read_shape ?kind a"
    "\<forall>m. (\<forall>j < psize p. m j = pdata p j) \<longrightarrow>
      parse_rdata_kind ?kind n (p\<lparr>pdata := m\<rparr>) = Some (d, p\<lparr>rindex := i, pdata := m\<rparr>)"
    by (rule readerE)
  define r' where "r' = (case d of None \<Rightarrow> None | Some a \<Rightarrow> if i - rindex p \<noteq> n then None else Some (r\<lparr>rdata := a\<rparr>))"
  have "parse_rdata r n p = Some (r', p\<lparr>rindex := i\<rparr>)"
    using d(1) by (auto simp: parse_rdata_def op_bind_def r'_def split: option.splits)
  moreover have "parse_rdata r n (p\<lparr>pdata := m\<rparr>) = Some (r', p\<lparr>rindex := i, pdata := m\<rparr>)"
    if "\<forall>j < psize p. m j = pdata p j" for m
    using d(5) that by (auto simp: parse_rdata_def op_bind_def r'_def split: option.splits)
  moreover have "\<exists>e. a = r\<lparr>rdata := e\<rparr> \<and> read_shape ?kind e" if "r' = Some a" for a
    using d(4) that by (auto simp: r'_def split: option.splits if_splits)
  ultimately show "\<exists>x i. parse_rdata r n p = Some (x, p\<lparr>rindex := i\<rparr>) \<and> rindex p \<le> i \<and> i \<le> psize p \<and>
    (\<forall>a. x = Some a \<longrightarrow> (\<exists>d. a = r\<lparr>rdata := d\<rparr> \<and> read_shape ?kind d)) \<and> (\<forall>m. (\<forall>j < psize p. m j = pdata p j) \<longrightarrow>
      parse_rdata r n (p\<lparr>pdata := m\<rparr>) = Some (x, p\<lparr>rindex := i, pdata := m\<rparr>))"
    using d(2,3) by (intro exI [of _ r'] exI [of _ i]) blast
qed

text \<open>Names in normal form, as they are read: their labels are what the code accepts.\<close>

definition name_read :: "string \<Rightarrow> bool" where
  "name_read name = (\<exists>ls. name = join_labels ls \<and> (\<forall>l \<in> set ls. label_ok l) \<and> length name < AVAHI_DOMAIN_NAME_MAX)"

definition key_read :: "AvahiKey \<Rightarrow> bool" where
  "key_read k = (avahi_key_is_valid k \<and> name_read (key_name k) \<and> clazz k AND 0x8000 = 0)"

lemma escape_str_nul: "CHR 0x00 \<notin> set l \<Longrightarrow> CHR 0x00 \<notin> set (escape_str l)"
proof (induction l)
  case (Cons c l)
  have nul: "CHR 0x00 \<noteq> digit_char n" if "n < 10" for n
  proof
    assume "CHR 0x00 = digit_char n"
    then have "ucode (CHR 0x00) = ucode (digit_char n)" by (rule arg_cong)
    with ucode_digit_char [OF that] show False by simp
  qed
  have "ucode c div 100 < 10" using nat_of_char_less_256 [of c] by linarith
  with Cons.prems nul have "CHR 0x00 \<notin> set (esc_char c)" by (simp add: esc_char_def c_backslash_def)
  with Cons show ?case by simp
qed simp

lemma name_read_ok:
  assumes "name_read name"
  obtains ls where "name_ok name ls" "name = join_labels ls" "length name < AVAHI_DOMAIN_NAME_MAX"
proof -
  obtain ls where ls: "name = join_labels ls" "\<forall>l \<in> set ls. label_ok l" "length name < AVAHI_DOMAIN_NAME_MAX"
    using assms by (auto simp: name_read_def)
  have "CHR 0x00 \<notin> set (join_labels ls)" using ls(2)
    by (cases ls) (auto simp: join_labels_tail label_ok_def c_dot_def dest: escape_str_nul)
  with ls have "name_ok name ls" by (auto simp: name_ok_def name_labels_join label_ok_def)
  with ls that show ?thesis by blast
qed

lemma key_new_stored:
  assumes "stored_text l name" "l \<le> AVAHI_DOMAIN_NAME_MAX"
  shows "avahi_key_new name c t = Some None \<or>
    avahi_key_new name c t = Some (Some \<lparr>key_name = name, clazz = c, key_type = t\<rparr>) \<and> name_read name"
proof -
  obtain ls where ls: "name = join_labels ls" "\<forall>l \<in> set ls. stored_label l" "length name < l"
    using assms(1) by (auto simp: stored_text_def)
  then have "avahi_normalize_name_strdup name = Some (if \<forall>l \<in> set ls. label_ok l then Some name else None)"
    using normalize_stored [of ls] assms(2) by simp
  with ls assms(2) show ?thesis by (auto simp: avahi_key_new_def name_read_def split: if_splits)
qed

lemma reader_consume_key: "reader 0 (\<lambda>(k, u). key_read k) avahi_dns_packet_consume_key"
proof -
  have last: "reader 0 (\<lambda>(k, u). key_read k) (\<lambda>p. case avahi_key_new name c t of
        None \<Rightarrow> None | Some None \<Rightarrow> Some (None, p)
      | Some (Some k) \<Rightarrow> if \<not> avahi_key_is_valid k then Some (None, p) else Some (Some (k, u), p))"
    if "stored_text 256 name" "c AND 0x8000 = 0" for name c t u
    using key_new_stored [OF that(1), unfolded AVAHI_DOMAIN_NAME_MAX_def, simplified, of c t] that(2)
    by (elim disjE conjE; cases "avahi_is_valid_domain_name name")
      (simp_all add: reader_fail reader_ret key_read_def avahi_key_is_valid_def AVAHI_DOMAIN_NAME_MAX_def)
  show ?thesis
    unfolding avahi_dns_packet_consume_key_def [abs_def] Let_def
    by (rule reader_bind [OF reader_name], simp, (rule reader_bind [OF reader_uint16])+, rule last,
        assumption, rule class_and_flush)
qed

text \<open>A record as it is read: valid, and well-formed unless it is of an unknown type and has no data.\<close>

definition record_read :: "AvahiRecord \<Rightarrow> bool" where
  "record_read r = (key_read (rkey r) \<and> avahi_record_is_valid r = Some True \<and>
     (record_ok r \<or> rr_kind (key_type (rkey r)) = K_GENERIC \<and> rdata r = RD_NULL))"

lemma record_validity:
  assumes "avahi_key_is_valid (rkey r)" "read_shape (rr_kind (key_type (rkey r))) (rdata r)"
  shows "avahi_record_is_valid r = Some False \<or> avahi_record_is_valid r = Some True \<and>
    (record_ok r \<or> rr_kind (key_type (rkey r)) = K_GENERIC \<and> rdata r = RD_NULL)"
  using assms(2)
  by (elim read_shapeE)
    (use assms(1) in \<open>auto simp: avahi_record_is_valid_def record_ok_def list_ex_iff list_all_iff not_less\<close>)

lemma reader_consume_record: "reader 0 (\<lambda>(r, f). record_read r) avahi_dns_packet_consume_record"
proof -
  have last: "reader 0 (\<lambda>(r, f). record_read r) (\<lambda>p. case avahi_record_is_valid r of None \<Rightarrow> None
      | Some False \<Rightarrow> Some (None, p) | Some True \<Rightarrow> Some (Some (r, f), p))"
    if r: "\<exists>d. r = r0\<lparr>rdata := d\<rparr> \<and> read_shape (rr_kind (key_type (rkey r0))) d"
      "name_read (key_name (rkey r0))" "clazz (rkey r0) AND 0x8000 = 0" for r r0 f
  proof (cases "avahi_key_is_valid (rkey r)")
    case False
    then show ?thesis by (simp add: avahi_record_is_valid_def reader_fail)
  next
    case True
    have shape: "read_shape (rr_kind (key_type (rkey r))) (rdata r)" "rkey r = rkey r0" using r(1) by auto
    show ?thesis using record_validity [OF True shape(1)] r(2,3) True shape(2)
      by (elim disjE conjE) (simp_all add: reader_fail reader_ret record_read_def key_read_def)
  qed
  have new: "reader 0 (\<lambda>(r, f). record_read r) (\<lambda>p. if psize p < rindex p + n then Some (None, p) else
      (case avahi_record_new_full name c t tt of None \<Rightarrow> None | Some None \<Rightarrow> Some (None, p)
       | Some (Some r) \<Rightarrow> op_bind (parse_rdata r n p) (\<lambda>r p. case avahi_record_is_valid r of None \<Rightarrow> None
           | Some False \<Rightarrow> Some (None, p) | Some True \<Rightarrow> Some (Some (r, f), p))))"
    if "stored_text AVAHI_DOMAIN_NAME_MAX name" "c AND 0x8000 = 0" for name c t tt f n
    using key_new_stored [OF that(1) order_refl, of c t]
  proof (elim disjE conjE, goal_cases)
    case 1
    then show ?case by (intro reader_guard) (simp add: avahi_record_new_full_def reader_fail)
  next
    case 2
    define r0 where "r0 = avahi_record_new \<lparr>key_name = name, clazz = c, key_type = t\<rparr> tt"
    have "avahi_record_new_full name c t tt = Some (Some r0)"
      using 2(1) by (simp add: avahi_record_new_full_def r0_def)
    moreover have "name_read (key_name (rkey r0))" "clazz (rkey r0) AND 0x8000 = 0"
      using 2(2) that(2) by (simp_all add: r0_def avahi_record_new_def)
    ultimately show ?case
      by (intro reader_guard) (simp, rule reader_bind [OF reader_parse_rdata], rule last)
  qed
  show ?thesis
    unfolding avahi_dns_packet_consume_record_def [abs_def] Let_def
    by (rule reader_bind [OF reader_name], simp add: AVAHI_DOMAIN_NAME_MAX_def,
        (rule reader_bind [OF reader_uint16])+, rule reader_bind [OF reader_uint32],
        rule reader_bind [OF reader_uint16], rule new, assumption, rule class_and_flush)
qed

end
