(* ===== verification/DNS_Packets.thy ===== *)
theory DNS_Packets
  imports DNS_Records DNS_Reading
begin

text \<open>
  The properties of \<^verbatim>\<open>avahi-core/dns.c\<close>: appending and reading of keys and records, and the header of
  replies.
\<close>

section \<open>Header fields\<close>

lemma wire_name_from:
  "wire_name m sz idx ls k n \<Longrightarrow> 12 \<le> idx \<Longrightarrow> (\<And>i. 12 \<le> i \<Longrightarrow> m' i = m i) \<Longrightarrow> wire_name m' sz idx ls k n"
proof (induction rule: wire_name.induct)
  case (wire_end idx sz m)
  then show ?case by (intro wire_name.wire_end) auto
next
  case (wire_label l idx sz m ls k n)
  have "read_bytes m' (idx + 1) (length l) = read_bytes m (idx + 1) (length l)"
    using wire_label.prems by (intro read_bytes_cong) auto
  then show ?case by (intro wire_name.wire_label) (use wire_label in auto)
next
  case (wire_ptr idx sz m ptr ls k n)
  show ?case
    by (rule wire_name.wire_ptr [of _ _ _ ptr]) (use wire_ptr in \<open>auto simp: ptr_at_def\<close>)
qed

lemma packet_ok_header:
  assumes "packet_ok p" "\<And>i. 12 \<le> i \<Longrightarrow> m i = pdata p i"
  shows "packet_ok (p\<lparr>pdata := m\<rparr>)"
  using assms(1) wire_name_from [OF _ _ assms(2)] unfolding packet_ok_def entry_ok_def by fastforce

lemma packet_ok_new: "packet_ok (avahi_dns_packet_new junk mtu)"
  by (simp add: packet_ok_def avahi_dns_packet_new_def Let_def table_ok_def table_lookup_def)

text \<open>The fields of a packet: the laws that the code relies on.\<close>

lemma set_field:
  assumes "idx < 6"
  obtains p' where "avahi_dns_packet_set_field p idx v = Some p'"
    "psize p' = psize p" "rindex p' = rindex p" "max_size p' = max_size p" "packet_ok p \<Longrightarrow> packet_ok p'"
    "\<And>j. j < 6 \<Longrightarrow> avahi_dns_packet_get_field p' j = (if j = idx then Some v else avahi_dns_packet_get_field p j)"
proof (rule that)
  show "avahi_dns_packet_set_field p idx v = Some (p\<lparr>pdata := write_bytes (pdata p) (2 * idx) (be16 v)\<rparr>)"
    using assms by (simp add: avahi_dns_packet_set_field_def)
  show "packet_ok p \<Longrightarrow> packet_ok (p\<lparr>pdata := write_bytes (pdata p) (2 * idx) (be16 v)\<rparr>)"
    by (rule packet_ok_header) (use assms in \<open>auto intro: write_bytes_above\<close>)
  show "avahi_dns_packet_get_field (p\<lparr>pdata := write_bytes (pdata p) (2 * idx) (be16 v)\<rparr>) j =
      (if j = idx then Some v else avahi_dns_packet_get_field p j)" if "j < 6" for j
  proof (cases "j = idx")
    case False
    then consider "2 * j + 1 < 2 * idx" | "2 * idx + 2 \<le> 2 * j" by linarith
    then have "get16 (write_bytes (pdata p) (2 * idx) (be16 v)) (2 * j) = get16 (pdata p) (2 * j)"
      by cases (simp_all add: get16_def write_bytes_above)
    with False that show ?thesis by (simp add: avahi_dns_packet_get_field_def)
  qed (use that in \<open>simp add: avahi_dns_packet_get_field_def\<close>)
qed simp_all

lemma get_field_Some: "idx < 6 \<Longrightarrow> avahi_dns_packet_get_field p idx = Some (get16 (pdata p) (2 * idx))"
  by (simp add: avahi_dns_packet_get_field_def)

section \<open>Appending and reading back\<close>

lemma append_record_facts:
  assumes "packet_ok p" "normal_name (key_name (rkey r)) ls" "record_ok r" "rdata_wire_ok r"
    and "clazz (rkey r) AND AVAHI_DNS_CACHE_FLUSH = 0"
    and "tt = (if max_ttl \<noteq> 0 \<and> ttl r > max_ttl then max_ttl else ttl r)" "tt \<noteq> -1"
  shows "\<exists>res p'. avahi_dns_packet_append_record r flush max_ttl p = Some (res, p') \<and>
    packet_ok p' \<and> extends p p' \<and> (res = None \<longrightarrow> psize p' = psize p) \<and>
    (psize p + wire_len ls + 10 + rdata_len (rdata r) \<le> max_size p \<longrightarrow> res \<noteq> None) \<and>
    (res \<noteq> None \<longrightarrow> res = Some (psize p) \<and>
       avahi_dns_packet_consume_record (p'\<lparr>rindex := psize p\<rparr>) =
         Some (Some (r\<lparr>ttl := tt\<rparr>, flush), p'\<lparr>rindex := psize p'\<rparr>))"
proof -
  define c where "c = (if flush then clazz (rkey r) OR AVAHI_DNS_CACHE_FLUSH
    else clazz (rkey r) AND NOT AVAHI_DNS_CACHE_FLUSH)"
  note n = normal_nameD(1) [OF assms(2)]
  have c: "c AND NOT AVAHI_DNS_CACHE_FLUSH = clazz (rkey r)" "(c AND AVAHI_DNS_CACHE_FLUSH \<noteq> 0) = flush"
    using class_bits [OF assms(5)] assms(5) by (simp_all only: c_def simp_thms split: if_splits)
  let ?chain = "append_record_chain r c tt p"
  have app: "avahi_dns_packet_append_record r flush max_ttl p = or_restore (psize p) ?chain"
    by (simp only: append_record_as_chain c_def assms(6))
  obtain res p' where r: "or_restore (psize p) ?chain = Some (res, p')" "extends p p'" "packet_ok p'"
    "res = None \<longrightarrow> psize p' = psize p" "\<forall>a. res = Some a \<longrightarrow> ?chain = Some (Some a, p')"
    using or_restore_ok [OF app_ok_record [OF assms(1) n assms(4), of c tt]] by blast
  have fit: "res \<noteq> None" if "psize p + wire_len ls + 10 + rdata_len (rdata r) \<le> max_size p"
    using fits_record [OF assms(1) n assms(4), of c tt] that r(1) by (auto simp: fits_def or_restore_def)
  have "res = Some (psize p) \<and> avahi_dns_packet_consume_record (p'\<lparr>rindex := psize p\<rparr>) =
      Some (Some (r\<lparr>ttl := tt\<rparr>, flush), p'\<lparr>rindex := psize p'\<rparr>)" if "res = Some t" for t
    using append_record_consume [OF assms(1-4) _ assms(7) c(1), where t = t and p' = p'] r(5) that c(2) by simp
  with r(1-4) fit show ?thesis unfolding app by (intro exI [of _ res] exI [of _ p']) auto
qed


lemma box_local: "normal_name ''box.local'' [''box'', ''local'']"
proof -
  have "name_labels ''box.local'' = Some [''box'', ''local'']" by code_simp
  then show ?thesis
    by (simp add: normal_name_def name_ok_def AVAHI_DOMAIN_NAME_MAX_def) code_simp
qed


lemma append_key_facts:
  assumes "packet_ok p" "normal_name (key_name k) ls" "clazz k AND AVAHI_DNS_UNICAST_RESPONSE = 0"
  shows "\<exists>res p'. avahi_dns_packet_append_key k unicast p = Some (res, p') \<and>
    packet_ok p' \<and> extends p p' \<and> (res = None \<longrightarrow> psize p' = psize p) \<and>
    (psize p + wire_len ls + 4 \<le> max_size p \<longrightarrow> res \<noteq> None) \<and>
    (res \<noteq> None \<and> length (key_name k) < 256 \<longrightarrow> res = Some (psize p) \<and>
       avahi_dns_packet_consume_key (p'\<lparr>rindex := psize p\<rparr>) = Some (Some (k, unicast), p'\<lparr>rindex := psize p'\<rparr>))"
proof -
  note n = normal_nameD(1) [OF assms(2)]
  define c where "c = clazz k OR (if unicast then AVAHI_DNS_UNICAST_RESPONSE else 0)"
  define chain where "chain = op_bind (avahi_dns_packet_append_name (key_name k) p) (\<lambda>t p.
     op_bind (avahi_dns_packet_append_uint16 (key_type k) p) (\<lambda>_ p.
     op_bind (avahi_dns_packet_append_uint16 c p) (\<lambda>_ p. Some (Some t, p))))"
  have app: "avahi_dns_packet_append_key k unicast p = or_restore (psize p) chain"
    by (simp only: avahi_dns_packet_append_key_def chain_def c_def)
  have ok: "app_ok (psize p) p chain" unfolding chain_def by (rule append_key_chain [OF assms(1) n])
  obtain res p' where r: "or_restore (psize p) chain = Some (res, p')" "extends p p'" "packet_ok p'"
    "res = None \<longrightarrow> psize p' = psize p" "\<forall>a. res = Some a \<longrightarrow> chain = Some (Some a, p')"
    using or_restore_ok [OF ok] by blast
  have fit: "res \<noteq> None" if "psize p + wire_len ls + 4 \<le> max_size p"
    using fits_key [OF assms(1) n, of c, folded chain_def] that r(1) by (auto simp: fits_def or_restore_def)
  have "res = Some (psize p) \<and> avahi_dns_packet_consume_key (p'\<lparr>rindex := psize p\<rparr>) =
      Some (Some (k, unicast), p'\<lparr>rindex := psize p'\<rparr>)" if "res = Some t" "length (key_name k) < 256" for t
    using append_key_consume [OF assms(1,2) that(2) assms(3), where u = unicast, folded c_def, folded chain_def,
        where t = t and p' = p'] r(5) that(1)
    by simp
  with r(1-4) fit show ?thesis unfolding app by (intro exI [of _ res] exI [of _ p']) auto
qed



section \<open>Size estimates\<close>

lemma wire_len_join: "wire_len ls \<le> length (join_labels ls) + 2"
proof (cases ls)
  case (Cons l ls')
  have "sum_list (map (\<lambda>l. 1 + length l) ls') \<le> length (concat (map (\<lambda>l. c_dot # escape_str l) ls'))"
    using escape_str_length by (induction ls') (simp_all add: add_mono)
  with Cons show ?thesis using escape_str_length [of l] by (simp add: wire_len_def join_labels_tail)
qed simp

lemma estimate_size_ok:
  assumes "normal_name (key_name (rkey r)) ls" "record_ok r" "rdata_wire_ok r"
  shows "\<exists>n. avahi_record_get_estimate_size r = Some n \<and> wire_len ls + 10 + rdata_len (rdata r) \<le> n + 2"
proof -
  have key: "wire_len ls \<le> length (key_name (rkey r)) + 2"
    using wire_len_join [of ls] normal_nameD(2) [OF assms(1)] by simp
  have name: "wire_len (the (name_labels n)) \<le> length n + 2" if "\<exists>ls. normal_name n ls" for n
    using that wire_len_join normal_nameD(2) name_ok_the by metis
  have "rdata_ok (rr_kind (key_type (rkey r))) (rdata r)" using assms(2) by (simp add: record_ok_def)
  then show ?thesis
    by (elim rdata_okE)
      (use key name assms(3) in \<open>force simp: avahi_record_get_estimate_size_def avahi_key_get_estimate_size_def rdata_wire_ok_def\<close>)+
qed

text \<open>The size estimates, which the schedulers use to decide whether a record still fits, fall short by at
  most one byte for the name of the record and one for a name in its data. They are not the maximum that
  \<^verbatim>\<open>rr-util.h\<close> promises: the key of the host \<open>local\<close> takes 11 bytes and is estimated at 10.\<close>

theorem estimate_size_bound:
  assumes "normal_name (key_name (rkey r)) ls" "record_ok r" "rdata_wire_ok r"
  shows "(\<exists>n. avahi_record_get_estimate_size r = Some n \<and> wire_len ls + 10 + rdata_len (rdata r) \<le> n + 2) \<and>
    avahi_key_get_estimate_size \<lparr>key_name = ''local'', clazz = 1, key_type = 1\<rparr> = 10 \<and> wire_len [''local''] + 4 = 11"
  using estimate_size_ok [OF assms] by (simp add: avahi_key_get_estimate_size_def wire_len_def)

theorem estimate_size_bound_witness:
  "\<exists>n. avahi_record_get_estimate_size example_a = Some n \<and> wire_len [''box'', ''local''] + 14 \<le> n + 2"
  using estimate_size_bound [of example_a "[''box'', ''local'']", OF _ example_a_ok]
  by (simp add: example_a_def box_local rdata_wire_ok_def rr_kind_def)

section \<open>Reading\<close>

text \<open>C15. Reading a name accepts exactly what is stored in order: \<open>consume_labels\<close> returns for every packet,
  offset and buffer; it succeeds exactly when the labels of a name are stored from the offset on, within
  the packet, reached through backward compression pointers into the part behind the header in at most
  127 steps, and the escaped text fits the buffer; it then gives that text, and the number of bytes that
  the name takes at the offset.\<close>

theorem consume_labels_iff:
  assumes "0 < l"
  shows "consume_labels p idx l \<noteq> None \<and>
    (consume_labels p idx l = Some (Some (name, n)) \<longleftrightarrow>
      (\<exists>ls k. wire_name (pdata p) (psize p) idx ls k n \<and> k \<le> 127 \<and> length (join_labels ls) < l \<and>
         name = join_labels ls))"
  using consume_labels_returns [OF assms] consume_labels_stored [OF assms] by blast

theorem consume_labels_iff_witness:
  "consume_labels (avahi_dns_packet_new (\<lambda>_. CHR 0x00) 0) 5 10 = Some (Some ([], 1))"
proof -
  let ?p = "avahi_dns_packet_new (\<lambda>_. CHR 0x00) 0"
  have "wire_name (pdata ?p) (psize ?p) 5 [] 1 1"
    by (rule wire_name.wire_end) (simp_all add: avahi_dns_packet_new_def write_bytes_def)
  then have "\<exists>ls k. wire_name (pdata ?p) (psize ?p) 5 ls k 1 \<and> k \<le> 127 \<and> length (join_labels ls) < 10 \<and>
      [] = join_labels ls"
    by (intro exI [of _ "[]"] exI [of _ 1]) simp
  with consume_labels_iff [of 10 ?p 5 "[]" 1] show ?thesis by simp
qed



section \<open>Replies\<close>

lemma get_field_extends:
  assumes "extends p p'" "12 \<le> psize p" "idx < 6"
  shows "avahi_dns_packet_get_field p' idx = avahi_dns_packet_get_field p idx"
  using assms get16_extends [OF assms(1), of "2 * idx"] by (simp add: avahi_dns_packet_get_field_def)

text \<open>Copying the questions: the packet that is read only has its read index moved, the reply is extended.\<close>

lemma copy_queries_loop_ok:
  assumes "rindex p \<le> psize p" "packet_ok r"
  shows "\<exists>i r'. copy_queries_loop n p r = Some (p\<lparr>rindex := i\<rparr>, r') \<and> packet_ok r' \<and> extends r r'"
  using assms
proof (induction n arbitrary: p r)
  case 0
  then show ?case by (auto intro!: exI [of _ "rindex p"])
next
  case (Suc n)
  have p: "rindex p + 0 \<le> psize p" using Suc.prems(1) by simp
  from reader_consume_key p obtain kr i where k:
    "avahi_dns_packet_consume_key p = Some (kr, p\<lparr>rindex := i\<rparr>)" "i \<le> psize p"
    "\<forall>a. kr = Some a \<longrightarrow> (\<lambda>(k, u). key_read k) a" by (rule readerE)
  show ?case
  proof (cases kr)
    case None
    with k Suc.IH [of "p\<lparr>rindex := i\<rparr>" r] Suc.prems(2) show ?thesis by simp
  next
    case (Some ku)
    obtain key u where ku: "ku = (key, u)" by (cases ku)
    then have "name_read (key_name key)" using k(3) Some by (simp add: key_read_def)
    then obtain ls where ls: "name_ok (key_name key) ls" by (rule name_read_ok)
    have "app_ok (psize r) r
      (op_bind (avahi_dns_packet_append_name (key_name key) r) (\<lambda>t p.
       op_bind (avahi_dns_packet_append_uint16 (key_type key) p) (\<lambda>_ p.
       op_bind (avahi_dns_packet_append_uint16 (clazz key OR (if u then AVAHI_DNS_UNICAST_RESPONSE else 0)) p)
         (\<lambda>_ p. Some (Some t, p)))))"
      by (rule append_key_chain [OF Suc.prems(2) ls])
    from or_restore_ok [OF this] obtain a r1 where r1:
      "avahi_dns_packet_append_key key u r = Some (a, r1)" "packet_ok r1" "extends r r1"
      unfolding avahi_dns_packet_append_key_def by blast
    obtain j r' where "copy_queries_loop n (p\<lparr>rindex := i\<rparr>) r1 = Some (p\<lparr>rindex := i, rindex := j\<rparr>, r')"
      "packet_ok r'" "extends r1 r'" using Suc.IH [of "p\<lparr>rindex := i\<rparr>" r1] k(2) r1(2) by auto
    with k(1) Some ku r1 show ?thesis
      by (intro exI [of _ j] exI [of _ r']) (auto intro: extends_trans)
  qed
qed

lemma opcode_bit: "bit AVAHI_DNS_FLAG_OPCODE n \<longleftrightarrow> n \<in> {11..14}"
proof -
  have "AVAHI_DNS_FLAG_OPCODE = push_bit 11 (mask 4)" by (simp add: push_bit_eq_mult mask_eq_exp_minus_1)
  then show ?thesis by (auto simp only: bit_push_bit_iff bit_mask_iff) auto
qed

lemma response_flags:
  "bit (AVAHI_DNS_FLAGS qr op aa tc rd ra ad cd rcode) 15 = qr"
  "bit (AVAHI_DNS_FLAGS qr op aa tc rd ra ad cd rcode) 10 = aa"
  by (auto simp: AVAHI_DNS_FLAGS_def bit_simps)

lemma new_reply_fields:
  assumes "12 \<le> psize p"
  shows "\<exists>r fr fp. avahi_dns_packet_new_reply junk p mtu copy_queries aa = Some (p, r) \<and> packet_ok r \<and>
    avahi_dns_packet_get_field r AVAHI_DNS_FIELD_ID = avahi_dns_packet_get_field p AVAHI_DNS_FIELD_ID \<and>
    avahi_dns_packet_get_field r AVAHI_DNS_FIELD_FLAGS = Some fr \<and>
    avahi_dns_packet_get_field p AVAHI_DNS_FIELD_FLAGS = Some fp \<and>
    bit fr 15 \<and> (bit fr 10 = aa) \<and> (\<forall>i \<in> {11..14}. bit fr i = bit fp i) \<and>
    (copy_queries \<longrightarrow>
      avahi_dns_packet_get_field r AVAHI_DNS_FIELD_QDCOUNT = avahi_dns_packet_get_field p AVAHI_DNS_FIELD_QDCOUNT)"
proof -
  let ?get = avahi_dns_packet_get_field
  let ?flags = "AVAHI_DNS_FLAGS True 0 aa False False False False False 0"
  obtain fp qd pid where fields: "?get p 1 = Some fp" "?get p 2 = Some qd" "?get p 0 = Some pid"
    using get_field_Some [of 0 p] get_field_Some [of 1 p] get_field_Some [of 2 p] by simp
  obtain r1 where r1: "avahi_dns_packet_new_response junk mtu aa = Some r1" "packet_ok r1" "?get r1 1 = Some ?flags"
    unfolding avahi_dns_packet_new_response_def
    by (rule set_field [of 1 "avahi_dns_packet_new junk mtu" ?flags]) (use packet_ok_new that in auto)
  obtain i r2 where r2: "copy_queries_loop (unat qd) (p\<lparr>rindex := 12\<rparr>) r1 = Some (p\<lparr>rindex := i\<rparr>, r2)"
    "packet_ok r2" "extends r1 r2"
    using copy_queries_loop_ok [of "p\<lparr>rindex := 12\<rparr>" r1 "unat qd"] r1(2) assms by auto
  obtain r3 where r3: "avahi_dns_packet_set_field r2 2 qd = Some r3" "packet_ok r3" "?get r3 2 = Some qd" "?get r3 1 = ?get r2 1"
    by (rule set_field [of 2 r2 qd]) (use r2(2) that in auto)
  have "?get r2 1 = Some ?flags" using get_field_extends [OF r2(3), of 1] r1(2,3) by (simp add: packet_ok_def)
  note r3' = r3(1-3) r3(4) [unfolded this]
  define r4 where "r4 = (if copy_queries then r3 else r1)"
  have r4: "packet_ok r4" "?get r4 1 = Some ?flags" "copy_queries \<longrightarrow> ?get r4 2 = Some qd"
    using r1 r3' by (simp_all add: r4_def)
  obtain r5 where r5: "avahi_dns_packet_set_field r4 0 pid = Some r5" "packet_ok r5" "?get r5 0 = Some pid"
    "?get r5 1 = ?get r4 1" "?get r5 2 = ?get r4 2"
    by (rule set_field [of 0 r4 pid]) (use r4(1) that in auto)
  define fr where "fr = (?flags AND NOT AVAHI_DNS_FLAG_OPCODE) OR (fp AND AVAHI_DNS_FLAG_OPCODE)"
  obtain r6 where r6: "avahi_dns_packet_set_field r5 1 fr = Some r6" "packet_ok r6" "?get r6 1 = Some fr"
    "?get r6 0 = ?get r5 0" "?get r6 2 = ?get r5 2"
    by (rule set_field [of 1 r5 fr]) (use r5(2) that in auto)
  have "avahi_dns_packet_new_reply junk p mtu copy_queries aa = Some (p, r6)"
    using r1(1) r2(1) r3'(1) r4(2) r5(1,4) r6(1) fields
    by (auto simp: avahi_dns_packet_new_reply_def r4_def fr_def)
  moreover have "bit fr i = (if i \<in> {11..14} then bit fp i else bit ?flags i)" if "i < 16" for i
    using that unfolding fr_def bit_or_iff bit_and_iff bit_not_iff opcode_bit by auto
  then have "bit fr 15" "bit fr 10 = aa" "\<forall>i \<in> {11..14}. bit fr i = bit fp i"
    using response_flags [of True 0 aa False False False False False 0] by simp_all
  ultimately show ?thesis using r4 r5 r6 fields by (intro exI [of _ r6] exI [of _ fr] exI [of _ fp]) auto
qed

text \<open>Replying to a packet, whatever its content: \<open>avahi_dns_packet_new_reply\<close> returns, leaves the packet
  that is replied to as it was and gives a packet in order with the same ID and the same opcode, marked as
  a response and as authoritative on demand. When the questions are copied, it has the same count.\<close>

theorem new_reply_header:
  assumes "12 \<le> psize p"
  shows "\<exists>r fr fp. avahi_dns_packet_new_reply junk p mtu copy_queries aa = Some (p, r) \<and> packet_ok r \<and>
    avahi_dns_packet_get_field r AVAHI_DNS_FIELD_ID = avahi_dns_packet_get_field p AVAHI_DNS_FIELD_ID \<and>
    avahi_dns_packet_get_field r AVAHI_DNS_FIELD_FLAGS = Some fr \<and>
    avahi_dns_packet_get_field p AVAHI_DNS_FIELD_FLAGS = Some fp \<and>
    bit fr 15 \<and> (bit fr 10 = aa) \<and> (\<forall>i \<in> {11..14}. bit fr i = bit fp i) \<and>
    (copy_queries \<longrightarrow>
      avahi_dns_packet_get_field r AVAHI_DNS_FIELD_QDCOUNT = avahi_dns_packet_get_field p AVAHI_DNS_FIELD_QDCOUNT)"
  using assms by (rule new_reply_fields)

theorem new_reply_header_witness:
  "\<exists>r. avahi_dns_packet_new_reply (\<lambda>_. CHR 0x55) (avahi_dns_packet_new (\<lambda>_. CHR 0x55) 0) 0 True True =
     Some (avahi_dns_packet_new (\<lambda>_. CHR 0x55) 0, r) \<and> packet_ok r"
  using new_reply_header [of "avahi_dns_packet_new (\<lambda>_. CHR 0x55) 0" "\<lambda>_. CHR 0x55" 0 True True]
  by (auto simp: avahi_dns_packet_new_def)

text \<open>The count of questions is copied even when the questions are not: the reply to a packet whose header
  announces questions that it does not hold announces them as well, and holds none.\<close>

lemma new_reply_counts_missing:
  assumes "psize p = 12" "avahi_dns_packet_get_field p AVAHI_DNS_FIELD_QDCOUNT = Some n"
  shows "\<exists>r. avahi_dns_packet_new_reply junk p mtu True aa = Some (p, r) \<and> avahi_dns_packet_is_empty r \<and>
    avahi_dns_packet_get_field r AVAHI_DNS_FIELD_QDCOUNT = Some n"
proof -
  have step: "avahi_dns_packet_consume_key (p\<lparr>rindex := 12\<rparr>) = Some (None, p\<lparr>rindex := 12\<rparr>)"
    using assms(1) by (simp add: avahi_dns_packet_consume_key_def avahi_dns_packet_consume_name_def consume_labels_def
        op_bind_def consume_labels_loop.simps(2) [of 126, simplified])
  have loop: "copy_queries_loop k (p\<lparr>rindex := 12\<rparr>) r = Some (p\<lparr>rindex := 12\<rparr>, r)" for k r
    by (induction k) (simp_all add: step)
  obtain r where r: "avahi_dns_packet_new_reply junk p mtu True aa = Some (p, r)"
    "avahi_dns_packet_get_field r 2 = avahi_dns_packet_get_field p 2"
    using new_reply_fields [of p junk mtu True aa] assms(1) by auto
  have set: "psize q' = psize q" if "avahi_dns_packet_set_field q j v = Some q'" for q q' j v
    using that by (auto simp: avahi_dns_packet_set_field_def split: if_splits)
  have "psize r = 12"
    using r(1) by (auto simp: avahi_dns_packet_new_reply_def avahi_dns_packet_new_response_def loop
        avahi_dns_packet_new_def Let_def dest!: set split: Option.bind_splits)
  with r assms(2) show ?thesis by (simp add: avahi_dns_packet_is_empty_def)
qed

end
