(* ===== verification/RR_Same.thy ===== *)
theory RR_Same
  imports RR
begin

text \<open>
  Sameness of records, as the lists of records and the cache use it: equal but for the TTL. On well-formed
  records the comparison does not abort, and sameness is an equivalence that implies equal keys.
\<close>

definition same :: "AvahiRecord \<Rightarrow> AvahiRecord \<Rightarrow> bool" where
  "same a b = (avahi_record_equal_no_ttl a b = Some True)"

lemma record_equal_total:
  assumes "record_ok a" "record_ok b"
  shows "\<exists>r. avahi_record_equal_no_ttl a b = Some r" "same a b \<longleftrightarrow> same b a" "same a a"
proof -
  have v: "avahi_key_is_valid (rkey a)" "avahi_key_is_valid (rkey b)" using assms by (simp_all add: record_ok_def)
  show "\<exists>r. avahi_record_equal_no_ttl a b = Some r" "same a b \<longleftrightarrow> same b a" "same a a"
    unfolding same_def avahi_record_equal_canon [OF assms] avahi_record_equal_canon [OF assms(2,1)]
      avahi_record_equal_canon [OF assms(1,1)]
    using key_table.equal_commute [OF v] key_table.equal_refl [OF v(1)] by auto
qed

lemma same_trans:
  assumes "record_ok a" "record_ok b" "record_ok c" "same a b" "same b c"
  shows "same a c"
proof -
  have v: "avahi_key_is_valid (rkey a)" "avahi_key_is_valid (rkey b)" "avahi_key_is_valid (rkey c)"
    using assms(1-3) by (simp_all add: record_ok_def)
  from assms(4,5) show ?thesis
    unfolding same_def avahi_record_equal_canon [OF assms(1,2)] avahi_record_equal_canon [OF assms(2,3)]
      avahi_record_equal_canon [OF assms(1,3)]
    using key_table.equal_trans [OF v] by auto
qed

lemma same_keys:
  assumes "record_ok a" "record_ok b" "same a b"
  shows "key_equal_fun (rkey a) (rkey b)" "clazz (rkey a) = clazz (rkey b)" "key_type (rkey a) = key_type (rkey b)"
proof -
  show k: "key_equal_fun (rkey a) (rkey b)"
    using assms(3) unfolding same_def avahi_record_equal_canon [OF assms(1,2)] by simp
  obtain ca cb where "canon_name (key_name (rkey a)) = Some ca" "canon_name (key_name (rkey b)) = Some cb"
    using key_canon assms(1,2) by (metis record_ok_def)
  from avahi_key_equal_canon [OF this] k
  show "clazz (rkey a) = clazz (rkey b)" "key_type (rkey a) = key_type (rkey b)"
    by (simp_all add: key_equal_fun_def)
qed

lemma equal_no_ttl_same:
  "record_ok a \<Longrightarrow> record_ok b \<Longrightarrow> avahi_record_equal_no_ttl a b = Some (same a b)"
  using record_equal_total(1) [of a b] by (auto simp: same_def)

section \<open>Questions and answers\<close>

text \<open>Keys that \<open>avahi_key_equal\<close> does not distinguish ask the same.\<close>

type_synonym question = "string list \<times> u16 \<times> u16"

definition question :: "AvahiKey \<Rightarrow> question" where
  "question k = (the (canon_name (key_name k)), key_type k, clazz k)"

lemma key_equal_question:
  assumes "avahi_key_is_valid a" "avahi_key_is_valid b"
  shows "avahi_key_equal a b = Some (question a = question b)"
proof -
  obtain ca cb where "canon_name (key_name a) = Some ca" "canon_name (key_name b) = Some cb"
    using assms key_canon by blast
  then show ?thesis by (simp add: avahi_key_equal_canon question_def)
qed

text \<open>Records that \<open>avahi_record_equal_no_ttl\<close> does not distinguish answer the same.\<close>

type_synonym answer = "question \<times> rdata \<times> string list option"

definition answer :: "AvahiRecord \<Rightarrow> answer" where
  "answer r = (question (rkey r), rdata_canon (rdata r))"

lemma same_answer:
  assumes "record_ok a" "record_ok b"
  shows "same a b \<longleftrightarrow> answer a = answer b"
proof -
  have "avahi_key_is_valid (rkey a)" "avahi_key_is_valid (rkey b)" using assms by (simp_all add: record_ok_def)
  from key_equal_question [OF this] have "key_equal_fun (rkey a) (rkey b) = (question (rkey a) = question (rkey b))"
    by (simp add: key_equal_fun_def)
  then show ?thesis by (simp add: same_def avahi_record_equal_canon [OF assms] answer_def)
qed

lemma equal_no_ttl_answer:
  "record_ok a \<Longrightarrow> record_ok b \<Longrightarrow> avahi_record_equal_no_ttl a b = Some (answer a = answer b)"
  by (simp add: equal_no_ttl_same same_answer)

end
