(* ===== verification/Rrlist.thy ===== *)
theory Rrlist
  imports RR_Same
begin

text \<open>
  \<^verbatim>\<open>avahi-core/rrlist.c\<close>: the records that are to be sent, in two lists, of those that have been fetched and
  those that have not. The lists are linked in both directions (\<^verbatim>\<open>llist.h\<close>) and an item is on one of them,
  as its flag \<open>read\<close> says; the model has the two sequences. \<^const>\<open>None\<close> is a failed assertion or an
  aborted comparison.
\<close>

section \<open>Operations\<close>

record AvahiRecordListItem =
  read :: bool
  item_record :: AvahiRecord
  unicast_response :: bool
  flush_cache :: bool
  auxiliary :: bool

record AvahiRecordList =
  read_items :: "AvahiRecordListItem list"
  unread_items :: "AvahiRecordListItem list"
  all_flush_cache :: bool

definition avahi_record_list_new :: AvahiRecordList where
  "avahi_record_list_new = \<lparr>read_items = [], unread_items = [], all_flush_cache = True\<rparr>"

text \<open>The item at a position of the list that its flag \<open>read\<close> names is taken out.\<close>

definition remove_nth :: "nat \<Rightarrow> 'a list \<Rightarrow> 'a list" where
  "remove_nth k xs = take k xs @ drop (Suc k) xs"

definition item_free :: "AvahiRecordList \<Rightarrow> bool \<times> nat \<Rightarrow> AvahiRecordList" where
  "item_free l i =
     (if fst i then l\<lparr>read_items := remove_nth (snd i) (read_items l)\<rparr>
      else l\<lparr>unread_items := remove_nth (snd i) (unread_items l)\<rparr>)"

function avahi_record_list_flush :: "AvahiRecordList \<Rightarrow> AvahiRecordList" where
  "avahi_record_list_flush l =
     (if read_items l \<noteq> [] then avahi_record_list_flush (item_free l (True, 0))
      else if unread_items l \<noteq> [] then avahi_record_list_flush (item_free l (False, 0))
      else l\<lparr>all_flush_cache := True\<rparr>)"
  by pat_completeness auto
termination
  by (relation "measure (\<lambda>l. length (read_items l) + length (unread_items l))")
    (auto simp: item_free_def remove_nth_def neq_Nil_conv)

declare avahi_record_list_flush.simps [simp del]

text \<open>The result holds the record and the three flags; the inner \<^const>\<open>None\<close> is NULL.\<close>

definition avahi_record_list_next ::
  "AvahiRecordList \<Rightarrow> ((AvahiRecord \<times> bool \<times> bool \<times> bool) option \<times> AvahiRecordList) option" where
  "avahi_record_list_next l =
     (case unread_items l of
        [] \<Rightarrow> Some (None, l)
      | i # rest \<Rightarrow>
          if read i then None
          else Some (Some (item_record i, flush_cache i, unicast_response i, auxiliary i),
            l\<lparr>unread_items := rest, read_items := i\<lparr>read := True\<rparr> # read_items l\<rparr>))"

text \<open>The loop over one list, from position \<open>k\<close> on.\<close>

fun find_item :: "AvahiRecord \<Rightarrow> nat \<Rightarrow> AvahiRecordListItem list \<Rightarrow> nat option option" where
  "find_item r k [] = Some None"
| "find_item r k (i # is) =
     (case avahi_record_equal_no_ttl (item_record i) r of
        None \<Rightarrow> None
      | Some True \<Rightarrow> Some (Some k)
      | Some False \<Rightarrow> find_item r (Suc k) is)"

definition get :: "AvahiRecordList \<Rightarrow> AvahiRecord \<Rightarrow> (bool \<times> nat) option option" where
  "get l r =
     do {
       a \<leftarrow> find_item r 0 (read_items l);
       case a of
         Some k \<Rightarrow> Some (Some (True, k))
       | None \<Rightarrow> do { b \<leftarrow> find_item r 0 (unread_items l); Some (map_option (Pair False) b) }
     }"

definition avahi_record_list_push ::
  "AvahiRecordList \<Rightarrow> AvahiRecord \<Rightarrow> bool \<Rightarrow> bool \<Rightarrow> bool \<Rightarrow> AvahiRecordList option" where
  "avahi_record_list_push l r fc ur aux =
     do {
       g \<leftarrow> get l r;
       if g \<noteq> None then Some l
       else
         let i = \<lparr>read = False, item_record = r, unicast_response = ur, flush_cache = fc, auxiliary = aux\<rparr> in
         Some (l\<lparr>all_flush_cache := all_flush_cache l \<and> fc, unread_items := i # unread_items l\<rparr>)
     }"

definition avahi_record_list_drop :: "AvahiRecordList \<Rightarrow> AvahiRecord \<Rightarrow> AvahiRecordList option" where
  "avahi_record_list_drop l r =
     do {
       g \<leftarrow> get l r;
       case g of None \<Rightarrow> Some l | Some i \<Rightarrow> Some (item_free l i)
     }"

definition avahi_record_list_is_empty :: "AvahiRecordList \<Rightarrow> bool" where
  "avahi_record_list_is_empty l = (unread_items l = [] \<and> read_items l = [])"

definition avahi_record_list_all_flush_cache :: "AvahiRecordList \<Rightarrow> bool" where
  "avahi_record_list_all_flush_cache l = all_flush_cache l"

section \<open>The list as a set of records\<close>

text \<open>The records on the list; no two of them are equal but for the TTL.\<close>

definition items :: "AvahiRecordList \<Rightarrow> AvahiRecordListItem list" where
  "items l = read_items l @ unread_items l"

definition listed :: "AvahiRecordList \<Rightarrow> AvahiRecord \<Rightarrow> bool" where
  "listed l r = (\<exists>i \<in> set (items l). same (item_record i) r)"

definition rrlist_ok :: "AvahiRecordList \<Rightarrow> bool" where
  "rrlist_ok l =
     ((\<forall>i \<in> set (items l). record_ok (item_record i)) \<and>
      sorted_wrt (\<lambda>a b. \<not> same (item_record a) (item_record b)) (items l) \<and>
      (\<forall>i \<in> set (read_items l). read i) \<and> (\<forall>i \<in> set (unread_items l). \<not> read i) \<and>
      (all_flush_cache l \<longrightarrow> (\<forall>i \<in> set (items l). flush_cache i)))"

lemma find_item_result:
  assumes "\<forall>i \<in> set is. record_ok (item_record i)" "record_ok r"
  shows "find_item r k is = Some None \<and> (\<forall>i \<in> set is. \<not> same (item_record i) r) \<or>
    (\<exists>j < length is. find_item r k is = Some (Some (k + j)) \<and> same (item_record (is ! j)) r)"
  using assms(1)
proof (induction "is" arbitrary: k)
  case (Cons i "is")
  then obtain b where b: "avahi_record_equal_no_ttl (item_record i) r = Some b"
    using record_equal_total [of "item_record i" r] assms(2) by auto
  show ?case
  proof (cases b)
    case True
    with b show ?thesis by (intro disjI2 exI [of _ 0]) (simp add: same_def)
  next
    case False
    with b Cons.IH [of "Suc k"] Cons.prems show ?thesis
      by (auto simp: same_def split: option.splits)
  qed
qed simp

lemma get_result:
  assumes "rrlist_ok l" "record_ok r"
  obtains (absent) "get l r = Some None" "\<not> listed l r"
  | (found) rd k where "get l r = Some (Some (rd, k))"
      "k < length (if rd then read_items l else unread_items l)"
      "same (item_record ((if rd then read_items l else unread_items l) ! k)) r"
proof -
  have ok: "\<forall>i \<in> set (read_items l). record_ok (item_record i)" "\<forall>i \<in> set (unread_items l). record_ok (item_record i)"
    using assms(1) by (auto simp: rrlist_ok_def items_def)
  note r = find_item_result [OF ok(1) assms(2), of 0] and u = find_item_result [OF ok(2) assms(2), of 0]
  consider (none) "find_item r 0 (read_items l) = Some None" "find_item r 0 (unread_items l) = Some None"
      "\<not> listed l r"
    | (rd) k where "find_item r 0 (read_items l) = Some (Some k)" "k < length (read_items l)"
        "same (item_record (read_items l ! k)) r"
    | (un) k where "find_item r 0 (read_items l) = Some None" "find_item r 0 (unread_items l) = Some (Some k)"
        "k < length (unread_items l)" "same (item_record (unread_items l ! k)) r"
    using r u by (auto simp: listed_def items_def)
  then show ?thesis
  proof cases
    case none
    then show ?thesis by (intro absent) (simp_all add: get_def)
  next
    case (rd k)
    then show ?thesis by (intro found [of True k]) (simp_all add: get_def)
  next
    case (un k)
    then show ?thesis by (intro found [of False k]) (simp_all add: get_def)
  qed
qed

lemma sorted_wrt_remove: "sorted_wrt P (a @ b @ c) \<Longrightarrow> sorted_wrt P (a @ c)"
  by (auto simp: sorted_wrt_append)

text \<open>Taking out an item of a list without duplicates takes out its record.\<close>

lemma item_free_items:
  assumes "rrlist_ok l" "k < length (if rd then read_items l else unread_items l)"
    and "i = (if rd then read_items l else unread_items l) ! k"
  shows "rrlist_ok (item_free l (rd, k))"
    "\<exists>a b. items l = a @ i # b \<and> items (item_free l (rd, k)) = a @ b"
proof -
  show ex: "\<exists>a b. items l = a @ i # b \<and> items (item_free l (rd, k)) = a @ b"
  proof (cases rd)
    case True
    then have "read_items l = take k (read_items l) @ i # drop (Suc k) (read_items l)"
      using assms(2,3) id_take_nth_drop [of k "read_items l"] by simp
    then have "items l = take k (read_items l) @ i # (drop (Suc k) (read_items l) @ unread_items l)"
      by (metis append.assoc append_Cons items_def)
    with True show ?thesis by (intro exI [of _ "take k (read_items l)"] exI) (auto simp: items_def item_free_def remove_nth_def)
  next
    case False
    then have "unread_items l = take k (unread_items l) @ i # drop (Suc k) (unread_items l)"
      using assms(2,3) id_take_nth_drop [of k "unread_items l"] by simp
    then have "items l = (read_items l @ take k (unread_items l)) @ i # drop (Suc k) (unread_items l)"
      by (metis append.assoc items_def)
    with False show ?thesis
      by (intro exI [of _ "read_items l @ take k (unread_items l)"] exI) (auto simp: items_def item_free_def remove_nth_def)
  qed
  then obtain a b where ab: "items l = a @ [i] @ b" "items (item_free l (rd, k)) = a @ b" by auto
  have "set (read_items (item_free l (rd, k))) \<subseteq> set (read_items l)"
    "set (unread_items (item_free l (rd, k))) \<subseteq> set (unread_items l)"
    by (auto simp: item_free_def remove_nth_def dest: in_set_takeD in_set_dropD)
  moreover have "all_flush_cache (item_free l (rd, k)) = all_flush_cache l" by (simp add: item_free_def)
  ultimately show "rrlist_ok (item_free l (rd, k))"
    using assms(1) sorted_wrt_remove [of _ a "[i]" b] unfolding rrlist_ok_def ab by auto
qed

lemma push_spec:
  assumes "rrlist_ok l" "record_ok r"
  shows "\<exists>l'. avahi_record_list_push l r fc ur aux = Some l' \<and> rrlist_ok l' \<and>
    (if listed l r then l' = l
     else listed l' r \<and> read_items l' = read_items l \<and>
       unread_items l' = \<lparr>read = False, item_record = r, unicast_response = ur, flush_cache = fc, auxiliary = aux\<rparr> #
         unread_items l)"
  using assms
proof (cases rule: get_result)
  case absent
  let ?i = "\<lparr>read = False, item_record = r, unicast_response = ur, flush_cache = fc, auxiliary = aux\<rparr>"
  let ?l = "l\<lparr>all_flush_cache := all_flush_cache l \<and> fc, unread_items := ?i # unread_items l\<rparr>"
  have it: "items l = read_items l @ unread_items l" "items ?l = read_items l @ ?i # unread_items l"
    by (simp_all add: items_def)
  have n: "\<forall>i \<in> set (items l). \<not> same r (item_record i) \<and> \<not> same (item_record i) r"
    using absent(2) assms record_equal_total(2) [of r] unfolding listed_def rrlist_ok_def by blast
  have "sorted_wrt (\<lambda>a b. \<not> same (item_record a) (item_record b)) (items ?l)"
    using n assms(1) unfolding rrlist_ok_def it by (simp add: sorted_wrt_append)
  with assms have "rrlist_ok ?l" unfolding rrlist_ok_def it by simp
  moreover have "listed ?l r" using record_equal_total(3) [OF assms(2,2)] by (simp add: listed_def it)
  moreover have "avahi_record_list_push l r fc ur aux = Some ?l" using absent(1) by (simp add: avahi_record_list_push_def)
  ultimately show ?thesis using absent(2) by simp
next
  case (found rd k)
  then have "listed l r" by (auto simp: listed_def items_def split: if_splits)
  with found assms show ?thesis by (simp add: avahi_record_list_push_def)
qed

lemma drop_spec:
  assumes "rrlist_ok l" "record_ok r"
  shows "\<exists>l'. avahi_record_list_drop l r = Some l' \<and> rrlist_ok l' \<and> \<not> listed l' r \<and>
    items l' = filter (\<lambda>i. \<not> same (item_record i) r) (items l)"
  using assms
proof (cases rule: get_result)
  case absent
  then have "filter (\<lambda>i. \<not> same (item_record i) r) (items l) = items l"
    by (auto simp: listed_def intro: filter_True)
  with assms absent show ?thesis by (simp add: avahi_record_list_drop_def)
next
  case (found rd k)
  define i where "i = (if rd then read_items l else unread_items l) ! k"
  from item_free_items [OF assms(1) found(2) i_def] obtain a b where
    ab: "items l = a @ i # b" "items (item_free l (rd, k)) = a @ b" and ok: "rrlist_ok (item_free l (rd, k))" by blast
  have i: "same (item_record i) r" using found(3) by (simp add: i_def)
  have "\<not> same (item_record j) r" if j: "j \<in> set a \<union> set b" for j
  proof
    assume "same (item_record j) r"
    moreover have rec: "record_ok (item_record j)" "record_ok (item_record i)"
      using j assms(1) ab(1) by (auto simp: rrlist_ok_def)
    ultimately have "same (item_record j) (item_record i)" "same (item_record i) (item_record j)"
      using same_trans [OF rec(1) assms(2) rec(2)] i record_equal_total(2) [OF rec(2) assms(2)]
        record_equal_total(2) [OF rec] by auto
    with j assms(1) ab(1) show False by (auto simp: rrlist_ok_def sorted_wrt_append)
  qed
  then have rest: "\<forall>j \<in> set (a @ b). \<not> same (item_record j) r" by auto
  then have "filter (\<lambda>j. \<not> same (item_record j) r) (a @ b) = a @ b" by (intro filter_True)
  with rest found ok ab i show ?thesis by (auto simp: avahi_record_list_drop_def listed_def)
qed

lemma next_spec:
  assumes "rrlist_ok l"
  shows "avahi_record_list_next l =
    (case unread_items l of
       [] \<Rightarrow> Some (None, l)
     | i # rest \<Rightarrow> Some (Some (item_record i, flush_cache i, unicast_response i, auxiliary i),
         l\<lparr>unread_items := rest, read_items := i\<lparr>read := True\<rparr> # read_items l\<rparr>))"
  using assms by (auto simp: avahi_record_list_next_def rrlist_ok_def split: list.splits)

lemma next_ok:
  assumes "rrlist_ok l" "avahi_record_list_next l = Some (x, l')"
  shows "rrlist_ok l' \<and> (\<forall>r. listed l' r \<longleftrightarrow> listed l r)"
proof (cases "unread_items l")
  case (Cons i rest)
  let ?i = "i\<lparr>read := True\<rparr>"
  have "\<forall>j \<in> set (read_items l). \<not> same (item_record i) (item_record j)"
    using assms(1) Cons record_equal_total(2) by (fastforce simp: rrlist_ok_def items_def sorted_wrt_append)
  with assms Cons show ?thesis
    by (auto simp: next_spec rrlist_ok_def items_def listed_def sorted_wrt_append)
qed (use assms in \<open>auto simp: next_spec\<close>)

lemma flush_spec: "avahi_record_list_flush l = avahi_record_list_new"
proof (induction l rule: avahi_record_list_flush.induct)
  case (1 l)
  then show ?case
    by (subst avahi_record_list_flush.simps) (auto simp: avahi_record_list_new_def)
qed

text \<open>C21. A record list never holds a record twice. Starting from the empty list, every operation returns
  (its assertion holds and no comparison aborts) and keeps the lists in order; pushing a record that is listed,
  with whatever TTL and flags, changes nothing, and otherwise puts it first of those to be fetched; dropping a
  record takes out exactly the item that equals it but for the TTL; fetching gives the record pushed last of
  those not fetched, with its flags, and keeps it listed; flushing empties the list; and when the list says so,
  every item has its flush flag set.\<close>

theorem record_list_invariant:
  assumes "rrlist_ok l" "record_ok r"
  shows "rrlist_ok avahi_record_list_new \<and> avahi_record_list_is_empty (avahi_record_list_flush l) \<and>
    rrlist_ok (avahi_record_list_flush l) \<and>
    (\<exists>l'. avahi_record_list_push l r fc ur aux = Some l' \<and> rrlist_ok l' \<and>
      (if listed l r then l' = l
       else listed l' r \<and> avahi_record_list_next l' = Some (Some (r, fc, ur, aux),
         l'\<lparr>unread_items := unread_items l,
            read_items := (hd (unread_items l'))\<lparr>read := True\<rparr> # read_items l\<rparr>))) \<and>
    (\<exists>l'. avahi_record_list_drop l r = Some l' \<and> rrlist_ok l' \<and> \<not> listed l' r \<and>
      items l' = filter (\<lambda>i. \<not> same (item_record i) r) (items l)) \<and>
    (\<exists>x l'. avahi_record_list_next l = Some (x, l') \<and> rrlist_ok l' \<and>
      (x = None \<longleftrightarrow> unread_items l = []) \<and> (\<forall>q. listed l' q \<longleftrightarrow> listed l q)) \<and>
    (avahi_record_list_all_flush_cache l \<longrightarrow> (\<forall>i \<in> set (items l). flush_cache i))"
proof -
  have new: "rrlist_ok avahi_record_list_new" "avahi_record_list_is_empty avahi_record_list_new"
    by (simp_all add: rrlist_ok_def avahi_record_list_new_def items_def avahi_record_list_is_empty_def)
  obtain x l' where n: "avahi_record_list_next l = Some (x, l')" "x = None \<longleftrightarrow> unread_items l = []"
    using next_spec [OF assms(1)] by (cases "unread_items l") auto
  have push: "\<exists>l'. avahi_record_list_push l r fc ur aux = Some l' \<and> rrlist_ok l' \<and>
      (if listed l r then l' = l
       else listed l' r \<and> avahi_record_list_next l' = Some (Some (r, fc, ur, aux),
         l'\<lparr>unread_items := unread_items l,
            read_items := (hd (unread_items l'))\<lparr>read := True\<rparr> # read_items l\<rparr>))"
    using push_spec [OF assms, of fc ur aux] by (auto simp: next_spec split: if_splits)
  show ?thesis
    using new push drop_spec [OF assms] n next_ok [OF assms(1) n(1)] assms(1)
    by (auto simp: flush_spec avahi_record_list_all_flush_cache_def rrlist_ok_def)
qed

theorem record_list_invariant_witness:
  "\<exists>l'. avahi_record_list_push avahi_record_list_new example_a True False False = Some l' \<and>
     avahi_record_list_next l' \<noteq> None"
proof -
  have "rrlist_ok avahi_record_list_new" by (simp add: rrlist_ok_def avahi_record_list_new_def items_def)
  moreover have "\<not> listed avahi_record_list_new example_a"
    by (simp add: listed_def avahi_record_list_new_def items_def)
  ultimately show ?thesis
    using record_list_invariant [OF _ example_a_ok, of avahi_record_list_new True False False] by auto
qed

text \<open>The flag of the list is not recomputed when a record is dropped, so that it may stay false although every
  item left has its flush flag set.\<close>

lemma all_flush_cache_stale:
  assumes "record_ok r"
  shows "\<exists>l l'. avahi_record_list_push avahi_record_list_new r False False False = Some l \<and>
    avahi_record_list_drop l r = Some l' \<and> avahi_record_list_is_empty l' \<and> \<not> avahi_record_list_all_flush_cache l'"
proof -
  have "same r r" using record_equal_total(3) [OF assms assms] .
  then show ?thesis
    by (simp add: avahi_record_list_push_def avahi_record_list_drop_def get_def avahi_record_list_new_def
        avahi_record_list_is_empty_def avahi_record_list_all_flush_cache_def same_def item_free_def remove_nth_def)
qed

end
