(* ===== verification/Prioq.thy ===== *)
theory Prioq
  imports Avahi_Prelude
begin

text \<open>
  \<^verbatim>\<open>avahi-core/prioq.c\<close>: a priority queue as a complete binary tree of nodes that are linked to their
  parent, their children and their neighbours in level order. The nodes are a heap with one function
  per field; pointers are \<open>nat option\<close>, \<^const>\<open>None\<close> is NULL. \<open>queue\<close> holds the nodes whose field \<open>queue\<close>
  refers to the queue, which are those that are allocated.

  The comparison reads the data that the nodes point to, which may change between two calls, so it is
  an argument of the operations that call it. \<^const>\<open>None\<close> as a result is a failed assertion.
\<close>

section \<open>Nodes and queues\<close>

record 'a AvahiPrioQueue =
  root :: "nat option"
  last_node :: "nat option"
  n_nodes :: nat
  queue :: "nat set"
  node_data :: "nat \<Rightarrow> 'a"
  node_x :: "nat \<Rightarrow> nat"
  node_y :: "nat \<Rightarrow> nat"
  left :: "nat \<Rightarrow> nat option"
  right :: "nat \<Rightarrow> nat option"
  parent :: "nat \<Rightarrow> nat option"
  next_node :: "nat \<Rightarrow> nat option"
  prev_node :: "nat \<Rightarrow> nat option"

text \<open>Fresh memory has any content: \<open>junk\<close> gives the fields of the nodes before they are set.\<close>

definition avahi_prio_queue_new :: "'a AvahiPrioQueue \<Rightarrow> 'a AvahiPrioQueue" where
  "avahi_prio_queue_new junk = junk\<lparr>root := None, last_node := None, n_nodes := 0, queue := {}\<rparr>"

text \<open>The assignment \<open>c->f = v\<close> under the condition that \<open>c\<close> is not NULL.\<close>

definition upd_opt :: "(nat \<Rightarrow> 'b) \<Rightarrow> nat option \<Rightarrow> 'b \<Rightarrow> nat \<Rightarrow> 'b" where
  "upd_opt f c v = (\<lambda>n. if c = Some n then v else f n)"

definition set_parent :: "nat option \<Rightarrow> nat \<Rightarrow> 'a AvahiPrioQueue \<Rightarrow> 'a AvahiPrioQueue" where
  "set_parent c n q = q\<lparr>parent := upd_opt (parent q) c (Some n)\<rparr>"

definition set_next :: "nat option \<Rightarrow> nat \<Rightarrow> 'a AvahiPrioQueue \<Rightarrow> 'a AvahiPrioQueue" where
  "set_next c n q = q\<lparr>next_node := upd_opt (next_node q) c (Some n)\<rparr>"

definition set_prev :: "nat option \<Rightarrow> nat \<Rightarrow> 'a AvahiPrioQueue \<Rightarrow> 'a AvahiPrioQueue" where
  "set_prev c n q = q\<lparr>prev_node := upd_opt (prev_node q) c (Some n)\<rparr>"

text \<open>\<open>if ((n->left = c)) n->left->parent = n\<close>, and the same for the other links.\<close>

definition link_left :: "nat \<Rightarrow> nat option \<Rightarrow> 'a AvahiPrioQueue \<Rightarrow> 'a AvahiPrioQueue" where
  "link_left n c q = set_parent c n (q\<lparr>left := (left q)(n := c)\<rparr>)"

definition link_right :: "nat \<Rightarrow> nat option \<Rightarrow> 'a AvahiPrioQueue \<Rightarrow> 'a AvahiPrioQueue" where
  "link_right n c q = set_parent c n (q\<lparr>right := (right q)(n := c)\<rparr>)"

definition link_prev :: "nat \<Rightarrow> nat option \<Rightarrow> 'a AvahiPrioQueue \<Rightarrow> 'a AvahiPrioQueue" where
  "link_prev n c q = set_next c n (q\<lparr>prev_node := (prev_node q)(n := c)\<rparr>)"

definition link_next :: "nat \<Rightarrow> nat option \<Rightarrow> 'a AvahiPrioQueue \<Rightarrow> 'a AvahiPrioQueue" where
  "link_next n c q =
     (let q = set_prev c n (q\<lparr>next_node := (next_node q)(n := c)\<rparr>)
      in if c = None then q\<lparr>last_node := Some n\<rparr> else q)"

text \<open>
  \<open>n\<close> takes the place of \<open>old\<close> below its new parent \<open>p\<close>, whose left child was \<open>pl\<close>; without a parent it
  becomes the root.
\<close>

definition link_parent :: "nat \<Rightarrow> nat option \<Rightarrow> nat option \<Rightarrow> nat \<Rightarrow> 'a AvahiPrioQueue \<Rightarrow> 'a AvahiPrioQueue" where
  "link_parent n p pl old q =
     (let q = q\<lparr>parent := (parent q)(n := p)\<rparr> in
      case p of
        Some p' \<Rightarrow>
          if pl = Some old then q\<lparr>left := (left q)(p' := Some n)\<rparr>
          else q\<lparr>right := (right q)(p' := Some n)\<rparr>
      | None \<Rightarrow> q\<lparr>root := Some n\<rparr>)"

definition left_of :: "'a AvahiPrioQueue \<Rightarrow> nat option \<Rightarrow> nat option" where
  "left_of q p = (case p of None \<Rightarrow> None | Some p' \<Rightarrow> left q p')"

section \<open>Exchanging nodes\<close>

definition swap_positions :: "nat \<Rightarrow> nat \<Rightarrow> 'a AvahiPrioQueue \<Rightarrow> 'a AvahiPrioQueue" where
  "swap_positions a b q =
     q\<lparr>node_x := (node_x q)(a := node_x q b, b := node_x q a),
       node_y := (node_y q)(a := node_y q b, b := node_y q a)\<rparr>"

text \<open>The branch \<open>B is parent of A\<close>.\<close>

definition exchange_with_parent :: "nat \<Rightarrow> nat \<Rightarrow> 'a AvahiPrioQueue \<Rightarrow> 'a AvahiPrioQueue" where
  "exchange_with_parent a b q =
     (let p = parent q b;
          q = q\<lparr>parent := (parent q)(b := Some a)\<rparr>;
          q = link_parent a p (left_of q p) b q
      in
      if left q b = Some a then
        let q = link_left b (left q a) q;
            q = q\<lparr>left := (left q)(a := Some b)\<rparr>;
            r = right q a;
            q = link_right a (right q b) q
        in link_right b r q
      else
        let q = link_right b (right q a) q;
            q = q\<lparr>right := (right q)(a := Some b)\<rparr>;
            l = left q a;
            q = link_left a (left q b) q
        in link_left b l q)"

text \<open>The branch \<open>A ist parent of B\<close>.\<close>

definition exchange_with_child :: "nat \<Rightarrow> nat \<Rightarrow> 'a AvahiPrioQueue \<Rightarrow> 'a AvahiPrioQueue" where
  "exchange_with_child a b q =
     (let p = parent q a;
          q = q\<lparr>parent := (parent q)(a := Some b)\<rparr>;
          q = link_parent b p (left_of q p) a q
      in
      if left q a = Some b then
        let q = link_left a (left q b) q;
            q = q\<lparr>left := (left q)(b := Some a)\<rparr>;
            r = right q a;
            q = link_right a (right q b) q
        in link_right b r q
      else
        let q = link_right a (right q b) q;
            q = q\<lparr>right := (right q)(b := Some a)\<rparr>;
            l = left q a;
            q = link_left a (left q b) q
        in link_left b l q)"

definition exchange_apart :: "nat \<Rightarrow> nat \<Rightarrow> 'a AvahiPrioQueue \<Rightarrow> 'a AvahiPrioQueue" where
  "exchange_apart a b q =
     (let ap = parent q a;
          bp = parent q b;
          apl = left_of q ap;
          bpl = left_of q bp;
          q = link_parent a bp bpl b q;
          q = link_parent b ap apl a q;
          l = left q a;
          r = right q a;
          q = link_left a (left q b) q;
          q = link_left b l q;
          q = link_right a (right q b) q
      in link_right b r q)"

definition swap_siblings :: "nat \<Rightarrow> nat \<Rightarrow> 'a AvahiPrioQueue \<Rightarrow> 'a AvahiPrioQueue" where
  "swap_siblings a b q =
     (let ap = prev_node q a; an = next_node q a;
          bp = prev_node q b; bn = next_node q b
      in
      if next_node q a = Some b then
        let q = q\<lparr>prev_node := (prev_node q)(a := Some b)\<rparr>;
            q = q\<lparr>next_node := (next_node q)(b := Some a)\<rparr>;
            q = link_next a bn q
        in link_prev b ap q
      else if next_node q b = Some a then
        let q = q\<lparr>next_node := (next_node q)(a := Some b)\<rparr>;
            q = q\<lparr>prev_node := (prev_node q)(b := Some a)\<rparr>;
            q = link_prev a bp q
        in link_next b an q
      else
        let q = link_prev a bp q;
            q = link_next a bn q;
            q = link_prev b ap q
        in link_next b an q)"

definition exchange_nodes :: "nat \<Rightarrow> nat \<Rightarrow> 'a AvahiPrioQueue \<Rightarrow> 'a AvahiPrioQueue" where
  "exchange_nodes a b q =
     (let q = swap_positions a b q;
          q = (if parent q a = Some b then exchange_with_parent a b q
               else if parent q b = Some a then exchange_with_child a b q
               else exchange_apart a b q)
      in swap_siblings a b q)"

section \<open>Operations\<close>

text \<open>
  The loop of \<open>get_node_at_xy\<close> with \<open>k\<close> levels to go. Coordinates and the number of nodes are natural
  numbers: a queue has fewer than $2^{32}$ nodes.
\<close>

primrec get_node_loop :: "'a AvahiPrioQueue \<Rightarrow> nat \<Rightarrow> nat \<Rightarrow> nat option \<Rightarrow> nat option option" where
  "get_node_loop q x 0 n = Some n"
| "get_node_loop q x (Suc k) n =
     (case n of
        None \<Rightarrow> None
      | Some m \<Rightarrow> get_node_loop q x k (if drop_bit k x AND 1 \<noteq> 0 then right q m else left q m))"

definition get_node_at_xy :: "'a AvahiPrioQueue \<Rightarrow> nat \<Rightarrow> nat \<Rightarrow> nat option" where
  "get_node_at_xy q x y =
     (if root q = None then None
      else
        (case get_node_loop q x y (root q) of
           Some (Some n) \<Rightarrow> if node_x q n = x \<and> node_y q n = y then Some n else None
         | _ \<Rightarrow> None))"

text \<open>The two loops of \<open>avahi_prio_queue_shuffle\<close>.\<close>

partial_function (option) shuffle_up ::
  "('a \<Rightarrow> 'a \<Rightarrow> int) \<Rightarrow> nat \<Rightarrow> 'a AvahiPrioQueue \<Rightarrow> 'a AvahiPrioQueue option" where
  "shuffle_up cmp n q =
     (case parent q n of
        None \<Rightarrow> Some q
      | Some p \<Rightarrow>
          if cmp (node_data q p) (node_data q n) > 0 then shuffle_up cmp n (exchange_nodes n p q)
          else Some q)"

definition smaller_child :: "('a \<Rightarrow> 'a \<Rightarrow> int) \<Rightarrow> 'a AvahiPrioQueue \<Rightarrow> nat \<Rightarrow> nat \<Rightarrow> nat" where
  "smaller_child cmp q n l =
     (case right q n of
        Some r \<Rightarrow> if cmp (node_data q r) (node_data q l) < 0 then r else l
      | None \<Rightarrow> l)"

partial_function (option) shuffle_down ::
  "('a \<Rightarrow> 'a \<Rightarrow> int) \<Rightarrow> nat \<Rightarrow> 'a AvahiPrioQueue \<Rightarrow> 'a AvahiPrioQueue option" where
  "shuffle_down cmp n q =
     (case left q n of
        None \<Rightarrow> if right q n = None then Some q else None
      | Some l \<Rightarrow>
          if cmp (node_data q n) (node_data q (smaller_child cmp q n l)) \<le> 0 then Some q
          else shuffle_down cmp n (exchange_nodes n (smaller_child cmp q n l) q))"

definition avahi_prio_queue_shuffle ::
  "('a \<Rightarrow> 'a \<Rightarrow> int) \<Rightarrow> nat \<Rightarrow> 'a AvahiPrioQueue \<Rightarrow> 'a AvahiPrioQueue option" where
  "avahi_prio_queue_shuffle cmp n q =
     (if n \<in> queue q then do { q \<leftarrow> shuffle_up cmp n q; shuffle_down cmp n q } else None)"

text \<open>\<open>n\<close> is the address of the new node.\<close>

definition put_below :: "nat \<Rightarrow> nat \<Rightarrow> 'a AvahiPrioQueue \<Rightarrow> 'a AvahiPrioQueue option" where
  "put_below n l q =
     (if root q = None \<or> n_nodes q = 0 then None
      else
        let y = node_y q l;
            x = node_x q l + 1;
            (x, y) = (if x \<ge> 2 ^ y then (0, y + 1) else (x, y));
            q = q\<lparr>node_x := (node_x q)(n := x), node_y := (node_y q)(n := y)\<rparr>;
            q = q\<lparr>next_node := (next_node q)(l := Some n)\<rparr>;
            q = q\<lparr>prev_node := (prev_node q)(n := Some l)\<rparr>
        in
        if \<not> y > 0 then None
        else do {
          p \<leftarrow> get_node_at_xy q (x div 2) (y - 1);
          let q = q\<lparr>parent := (parent q)(n := Some p)\<rparr>;
          Some (if x AND 1 \<noteq> 0 then q\<lparr>right := (right q)(p := Some n)\<rparr>
                else q\<lparr>left := (left q)(p := Some n)\<rparr>)
        })"

definition put_root :: "nat \<Rightarrow> 'a AvahiPrioQueue \<Rightarrow> 'a AvahiPrioQueue option" where
  "put_root n q =
     (if root q \<noteq> None \<or> n_nodes q \<noteq> 0 then None
      else Some (q\<lparr>node_y := (node_y q)(n := 0), node_x := (node_x q)(n := 0), root := Some n,
        prev_node := (prev_node q)(n := None), parent := (parent q)(n := None)\<rparr>))"

definition avahi_prio_queue_put ::
  "('a \<Rightarrow> 'a \<Rightarrow> int) \<Rightarrow> nat \<Rightarrow> 'a \<Rightarrow> 'a AvahiPrioQueue \<Rightarrow> 'a AvahiPrioQueue option" where
  "avahi_prio_queue_put cmp n d q =
     do {
       let q = q\<lparr>queue := insert n (queue q), node_data := (node_data q)(n := d)\<rparr>;
       q \<leftarrow> (case last_node q of Some l \<Rightarrow> put_below n l q | None \<Rightarrow> put_root n q);
       let q = q\<lparr>next_node := (next_node q)(n := None), left := (left q)(n := None),
         right := (right q)(n := None)\<rparr>;
       let q = q\<lparr>last_node := Some n, n_nodes := n_nodes q + 1\<rparr>;
       avahi_prio_queue_shuffle cmp n q
     }"

text \<open>The part of \<open>avahi_prio_queue_remove\<close> behind the recursive call, for the last node.\<close>

definition remove_last :: "nat \<Rightarrow> 'a AvahiPrioQueue \<Rightarrow> 'a AvahiPrioQueue option" where
  "remove_last n q =
     (if next_node q n \<noteq> None \<or> left q n \<noteq> None \<or> right q n \<noteq> None then None
      else do {
        let q = q\<lparr>last_node := prev_node q n\<rparr>;
        q \<leftarrow> (case prev_node q n of
                Some p \<Rightarrow>
                  if parent q n = None then None else Some (q\<lparr>next_node := (next_node q)(p := None)\<rparr>)
              | None \<Rightarrow> if parent q n \<noteq> None then None else Some q);
        q \<leftarrow> (case parent q n of
                Some p \<Rightarrow>
                  if prev_node q n = None then None
                  else if left q p = Some n then
                    if right q p \<noteq> None then None else Some (q\<lparr>left := (left q)(p := None)\<rparr>)
                  else
                    if right q p \<noteq> Some n \<or> left q p = None then None
                    else Some (q\<lparr>right := (right q)(p := None)\<rparr>)
              | None \<Rightarrow>
                  if root q \<noteq> Some n \<or> prev_node q n \<noteq> None \<or> n_nodes q \<noteq> 1 then None
                  else Some (q\<lparr>root := None\<rparr>));
        let q = q\<lparr>queue := queue q - {n}\<rparr>;
        if n_nodes q > 0 then Some (q\<lparr>n_nodes := n_nodes q - 1\<rparr>) else None
      })"

partial_function (option) avahi_prio_queue_remove ::
  "('a \<Rightarrow> 'a \<Rightarrow> int) \<Rightarrow> nat \<Rightarrow> 'a AvahiPrioQueue \<Rightarrow> 'a AvahiPrioQueue option" where
  "avahi_prio_queue_remove cmp n q =
     (if n \<notin> queue q then None
      else if last_node q \<noteq> Some n then
        (case last_node q of
           None \<Rightarrow> None
         | Some replacement \<Rightarrow>
             do {
               q \<leftarrow> avahi_prio_queue_remove cmp n (exchange_nodes replacement n q);
               avahi_prio_queue_shuffle cmp replacement q
             })
      else remove_last n q)"

partial_function (option) avahi_prio_queue_free ::
  "('a \<Rightarrow> 'a \<Rightarrow> int) \<Rightarrow> 'a AvahiPrioQueue \<Rightarrow> 'a AvahiPrioQueue option" where
  "avahi_prio_queue_free cmp q =
     (case last_node q of
        Some n \<Rightarrow> do { q \<leftarrow> avahi_prio_queue_remove cmp n q; avahi_prio_queue_free cmp q }
      | None \<Rightarrow> if n_nodes q = 0 then Some q else None)"

section \<open>The effect on each field\<close>

lemma upd_opt_apply [simp]: "upd_opt f c v n = (if c = Some n then v else f n)"
  by (simp add: upd_opt_def)

lemma link_left_fields [simp]:
  "left (link_left n c q) = (left q)(n := c)" "right (link_left n c q) = right q"
  "parent (link_left n c q) = upd_opt (parent q) c (Some n)" "root (link_left n c q) = root q"
  "next_node (link_left n c q) = next_node q" "prev_node (link_left n c q) = prev_node q"
  "last_node (link_left n c q) = last_node q" "queue (link_left n c q) = queue q"
  "n_nodes (link_left n c q) = n_nodes q" "node_data (link_left n c q) = node_data q"
  "node_x (link_left n c q) = node_x q" "node_y (link_left n c q) = node_y q"
  by (simp_all add: link_left_def set_parent_def)

lemma link_right_fields [simp]:
  "left (link_right n c q) = left q" "right (link_right n c q) = (right q)(n := c)"
  "parent (link_right n c q) = upd_opt (parent q) c (Some n)" "root (link_right n c q) = root q"
  "next_node (link_right n c q) = next_node q" "prev_node (link_right n c q) = prev_node q"
  "last_node (link_right n c q) = last_node q" "queue (link_right n c q) = queue q"
  "n_nodes (link_right n c q) = n_nodes q" "node_data (link_right n c q) = node_data q"
  "node_x (link_right n c q) = node_x q" "node_y (link_right n c q) = node_y q"
  by (simp_all add: link_right_def set_parent_def)

lemma link_prev_fields [simp]:
  "left (link_prev n c q) = left q" "right (link_prev n c q) = right q"
  "parent (link_prev n c q) = parent q" "root (link_prev n c q) = root q"
  "next_node (link_prev n c q) = upd_opt (next_node q) c (Some n)" "prev_node (link_prev n c q) = (prev_node q)(n := c)"
  "last_node (link_prev n c q) = last_node q" "queue (link_prev n c q) = queue q"
  "n_nodes (link_prev n c q) = n_nodes q" "node_data (link_prev n c q) = node_data q"
  "node_x (link_prev n c q) = node_x q" "node_y (link_prev n c q) = node_y q"
  by (simp_all add: link_prev_def set_next_def)

lemma link_next_fields [simp]:
  "left (link_next n c q) = left q" "right (link_next n c q) = right q"
  "parent (link_next n c q) = parent q" "root (link_next n c q) = root q"
  "next_node (link_next n c q) = (next_node q)(n := c)" "prev_node (link_next n c q) = upd_opt (prev_node q) c (Some n)"
  "last_node (link_next n c q) = (if c = None then Some n else last_node q)" "queue (link_next n c q) = queue q"
  "n_nodes (link_next n c q) = n_nodes q" "node_data (link_next n c q) = node_data q"
  "node_x (link_next n c q) = node_x q" "node_y (link_next n c q) = node_y q"
  by (simp_all add: link_next_def set_prev_def Let_def)

lemma link_parent_fields [simp]:
  "left (link_parent n p pl old q) = (if pl = Some old then upd_opt (left q) p (Some n) else left q)"
  "right (link_parent n p pl old q) = (if pl = Some old then right q else upd_opt (right q) p (Some n))"
  "parent (link_parent n p pl old q) = (parent q)(n := p)"
  "root (link_parent n p pl old q) = (if p = None then Some n else root q)"
  "next_node (link_parent n p pl old q) = next_node q" "prev_node (link_parent n p pl old q) = prev_node q"
  "last_node (link_parent n p pl old q) = last_node q" "queue (link_parent n p pl old q) = queue q"
  "n_nodes (link_parent n p pl old q) = n_nodes q" "node_data (link_parent n p pl old q) = node_data q"
  "node_x (link_parent n p pl old q) = node_x q" "node_y (link_parent n p pl old q) = node_y q"
  by (simp_all add: link_parent_def Let_def fun_eq_iff split: option.split)

lemma swap_positions_fields [simp]:
  "left (swap_positions a b q) = left q" "right (swap_positions a b q) = right q"
  "parent (swap_positions a b q) = parent q" "root (swap_positions a b q) = root q"
  "next_node (swap_positions a b q) = next_node q" "prev_node (swap_positions a b q) = prev_node q"
  "last_node (swap_positions a b q) = last_node q" "queue (swap_positions a b q) = queue q"
  "n_nodes (swap_positions a b q) = n_nodes q" "node_data (swap_positions a b q) = node_data q"
  "node_x (swap_positions a b q) = (node_x q)(a := node_x q b, b := node_x q a)"
  "node_y (swap_positions a b q) = (node_y q)(a := node_y q b, b := node_y q a)"
  by (simp_all add: swap_positions_def)

text \<open>The swapping of siblings and the three branches for the tree are independent.\<close>

lemma swap_siblings_fields [simp]:
  "left (swap_siblings a b q) = left q" "right (swap_siblings a b q) = right q"
  "parent (swap_siblings a b q) = parent q" "root (swap_siblings a b q) = root q"
  "queue (swap_siblings a b q) = queue q"
  "n_nodes (swap_siblings a b q) = n_nodes q" "node_data (swap_siblings a b q) = node_data q"
  "node_x (swap_siblings a b q) = node_x q" "node_y (swap_siblings a b q) = node_y q"
  by (simp_all add: swap_siblings_def Let_def)

lemma exchange_branch_fields [simp]:
  "next_node (exchange_with_parent a b q) = next_node q" "prev_node (exchange_with_parent a b q) = prev_node q"
  "last_node (exchange_with_parent a b q) = last_node q" "queue (exchange_with_parent a b q) = queue q"
  "n_nodes (exchange_with_parent a b q) = n_nodes q" "node_data (exchange_with_parent a b q) = node_data q"
  "node_x (exchange_with_parent a b q) = node_x q" "node_y (exchange_with_parent a b q) = node_y q"
  "next_node (exchange_with_child a b q) = next_node q" "prev_node (exchange_with_child a b q) = prev_node q"
  "last_node (exchange_with_child a b q) = last_node q" "queue (exchange_with_child a b q) = queue q"
  "n_nodes (exchange_with_child a b q) = n_nodes q" "node_data (exchange_with_child a b q) = node_data q"
  "node_x (exchange_with_child a b q) = node_x q" "node_y (exchange_with_child a b q) = node_y q"
  "next_node (exchange_apart a b q) = next_node q" "prev_node (exchange_apart a b q) = prev_node q"
  "last_node (exchange_apart a b q) = last_node q" "queue (exchange_apart a b q) = queue q"
  "n_nodes (exchange_apart a b q) = n_nodes q" "node_data (exchange_apart a b q) = node_data q"
  "node_x (exchange_apart a b q) = node_x q" "node_y (exchange_apart a b q) = node_y q"
  by (simp_all add: exchange_with_parent_def exchange_with_child_def exchange_apart_def Let_def)

lemma exchange_branch_root:
  "root (exchange_with_parent a b q) = (if parent q b = None then Some a else root q)"
  "root (exchange_with_child a b q) = (if parent q a = None then Some b else root q)"
  "root (exchange_apart a b q) =
     (if parent q a = None then Some b else if parent q b = None then Some a else root q)"
  by (simp_all add: exchange_with_parent_def exchange_with_child_def exchange_apart_def Let_def)

text \<open>
  What the links of a queue satisfy: children and parents refer to each other, as do neighbours, and
  there are no short cycles.
\<close>

definition tree_links :: "'a AvahiPrioQueue \<Rightarrow> bool" where
  "tree_links q =
     ((\<forall>n \<in> queue q. \<forall>c. left q n = Some c \<or> right q n = Some c \<longleftrightarrow> c \<in> queue q \<and> parent q c = Some n) \<and>
      (\<forall>n \<in> queue q. \<forall>p. parent q n = Some p \<longrightarrow> p \<in> queue q \<and> p \<noteq> n \<and> parent q p \<noteq> Some n) \<and>
      (\<forall>n \<in> queue q. \<forall>c. left q n = Some c \<longrightarrow> right q n \<noteq> Some c) \<and>
      (\<forall>n \<in> queue q. root q = Some n \<longleftrightarrow> parent q n = None))"

definition list_links :: "'a AvahiPrioQueue \<Rightarrow> bool" where
  "list_links q =
     ((\<forall>n \<in> queue q. \<forall>m. next_node q n = Some m \<longleftrightarrow> m \<in> queue q \<and> prev_node q m = Some n) \<and>
      (\<forall>n \<in> queue q. \<forall>p. prev_node q n = Some p \<longrightarrow> p \<in> queue q \<and> p \<noteq> n \<and> prev_node q p \<noteq> Some n) \<and>
      (\<forall>n \<in> queue q. last_node q = Some n \<longleftrightarrow> next_node q n = None))"

definition sw :: "nat \<Rightarrow> nat \<Rightarrow> nat \<Rightarrow> nat" where
  "sw a b n = (if n = a then b else if n = b then a else n)"

text \<open>Two nodes of a queue that are exchanged.\<close>

definition pair_in :: "nat \<Rightarrow> nat \<Rightarrow> 'a AvahiPrioQueue \<Rightarrow> bool" where
  "pair_in a b q = (tree_links q \<and> list_links q \<and> a \<in> queue q \<and> b \<in> queue q \<and> a \<noteq> b)"

lemma tree_linksD:
  assumes "tree_links q" "n \<in> queue q"
  shows "left q n = Some c \<Longrightarrow> c \<in> queue q \<and> parent q c = Some n"
    "right q n = Some c \<Longrightarrow> c \<in> queue q \<and> parent q c = Some n"
    "parent q n = Some p \<Longrightarrow> p \<in> queue q \<and> p \<noteq> n \<and> parent q p \<noteq> Some n \<and> (left q p = Some n \<or> right q p = Some n)"
    "left q n = Some c \<Longrightarrow> right q n \<noteq> Some c" "root q = Some n \<longleftrightarrow> parent q n = None"
  using assms unfolding tree_links_def by blast+

lemma list_linksD:
  assumes "list_links q" "n \<in> queue q"
  shows "next_node q n = Some m \<Longrightarrow> m \<in> queue q \<and> prev_node q m = Some n"
    "prev_node q n = Some p \<Longrightarrow> p \<in> queue q \<and> p \<noteq> n \<and> prev_node q p \<noteq> Some n \<and> next_node q p = Some n"
    "last_node q = Some n \<longleftrightarrow> next_node q n = None"
  using assms unfolding list_links_def by blast+

lemma map_sw: "map_option (sw a b) c = (if c = Some a then Some b else if c = Some b then Some a else c)"
  by (cases c) (simp_all add: sw_def)

lemma sw_cases:
  assumes "n = a \<Longrightarrow> P b" "n = b \<Longrightarrow> P a" "n \<noteq> a \<Longrightarrow> n \<noteq> b \<Longrightarrow> P n"
  shows "P (sw a b n)"
  using assms by (simp add: sw_def)

text \<open>What the nodes around a node of the queue cannot be.\<close>

lemma around:
  assumes "tree_links q" "n \<in> queue q"
  shows "parent q n \<noteq> Some n" "left q n \<noteq> Some n" "right q n \<noteq> Some n"
    "parent q n = Some m \<Longrightarrow> left q n \<noteq> Some m" "parent q n = Some m \<Longrightarrow> right q n \<noteq> Some m"
    "left q n = Some m \<Longrightarrow> right q n \<noteq> Some m"
  using tree_linksD [OF assms] tree_linksD(3) [OF assms(1)] by metis+

lemma child_iff:
  assumes "tree_links q" "n \<in> queue q" "m \<in> queue q"
  shows "parent q m = Some n \<longleftrightarrow> left q n = Some m \<or> right q n = Some m"
  using assms unfolding tree_links_def by blast

lemma exchange_apart_tree:
  assumes "pair_in a b q" "parent q a \<noteq> Some b" "parent q b \<noteq> Some a" "n \<in> queue q"
  shows "left (exchange_apart a b q) (sw a b n) = map_option (sw a b) (left q n)"
    "right (exchange_apart a b q) (sw a b n) = map_option (sw a b) (right q n)"
    "parent (exchange_apart a b q) (sw a b n) = map_option (sw a b) (parent q n)"
proof -
  note p = assms(1) [unfolded pair_in_def]
  have ne: "a \<noteq> b" "b \<noteq> a" using p by auto
  have a: "parent q a \<noteq> Some a" "left q a \<noteq> Some a" "right q a \<noteq> Some a" "left q a \<noteq> Some b" "right q a \<noteq> Some b"
    and b: "parent q b \<noteq> Some b" "left q b \<noteq> Some b" "right q b \<noteq> Some b" "left q b \<noteq> Some a" "right q b \<noteq> Some a"
    using p around [of q a] around [of q b] child_iff [of q] assms(2,3) by metis+
  have l: "left (exchange_apart a b q) m = (if m = b then left q a else if m = a then left q b
     else if parent q a = Some m \<and> left q m = Some a then Some b
     else if parent q b = Some m \<and> left q m = Some b then Some a else left q m)" for m
    using assms(2,3) ne a b
    by (cases "parent q a"; cases "parent q b") (auto simp: exchange_apart_def left_of_def Let_def)
  have r: "right (exchange_apart a b q) m = (if m = b then right q a else if m = a then right q b
     else if parent q a = Some m \<and> left q m \<noteq> Some a then Some b
     else if parent q b = Some m \<and> left q m \<noteq> Some b then Some a else right q m)" for m
    using assms(2,3) ne a b
    by (cases "parent q a"; cases "parent q b") (auto simp: exchange_apart_def left_of_def Let_def)
  have pp: "parent (exchange_apart a b q) m =
     (if right q a = Some m then Some b else if right q b = Some m then Some a
      else if left q a = Some m then Some b else if left q b = Some m then Some a
      else if m = b then parent q a else if m = a then parent q b else parent q m)" for m
    using assms(2,3) ne a b by (auto simp: exchange_apart_def left_of_def Let_def)
  have n: "left q n = Some c \<Longrightarrow> parent q c = Some n" "right q n = Some c \<Longrightarrow> parent q c = Some n"
    "left q n = Some c \<Longrightarrow> right q n \<noteq> Some c" for c
    using tree_linksD(1,2,4) [of q n] p assms(4) by blast+
  have pn: "parent q a = Some n \<Longrightarrow> left q n \<noteq> Some a \<Longrightarrow> right q n = Some a"
    "parent q b = Some n \<Longrightarrow> left q n \<noteq> Some b \<Longrightarrow> right q n = Some b"
    using tree_linksD(3) [of q a] tree_linksD(3) [of q b] p by blast+
  have ch: "parent q n = Some a \<longleftrightarrow> left q a = Some n \<or> right q a = Some n"
    "parent q n = Some b \<longleftrightarrow> left q b = Some n \<or> right q b = Some n"
    using child_iff [of q _ n] p assms(4) by blast+
  show "left (exchange_apart a b q) (sw a b n) = map_option (sw a b) (left q n)"
    by (rule sw_cases; simp add: l map_sw a b ne) (auto dest: n)
  show "right (exchange_apart a b q) (sw a b n) = map_option (sw a b) (right q n)"
    by (rule sw_cases; simp add: r map_sw a b ne) (use n pn ne in \<open>metis option.inject\<close>)
  show "parent (exchange_apart a b q) (sw a b n) = map_option (sw a b) (parent q n)"
    by (rule sw_cases; simp add: pp map_sw a b ne assms(2,3)) (use ch ne in \<open>metis option.inject\<close>)
qed

lemma exchange_with_parent_tree:
  assumes "pair_in a b q" "parent q a = Some b" "n \<in> queue q"
  shows "left (exchange_with_parent a b q) (sw a b n) = map_option (sw a b) (left q n)"
    "right (exchange_with_parent a b q) (sw a b n) = map_option (sw a b) (right q n)"
    "parent (exchange_with_parent a b q) (sw a b n) = map_option (sw a b) (parent q n)"
proof -
  note p = assms(1) [unfolded pair_in_def]
  have ne: "a \<noteq> b" "b \<noteq> a" using p by auto
  have a: "parent q a \<noteq> Some a" "left q a \<noteq> Some a" "right q a \<noteq> Some a" "left q a \<noteq> Some b" "right q a \<noteq> Some b"
    and b: "parent q b \<noteq> Some b" "left q b \<noteq> Some b" "right q b \<noteq> Some b" "parent q b \<noteq> Some a"
      "left q b = Some a \<Longrightarrow> right q b \<noteq> Some a" "left q b \<noteq> Some a \<Longrightarrow> right q b = Some a"
    using p around [of q a] around [of q b] child_iff [of q] tree_linksD(3) [of q a b] assms(2) by metis+
  have l: "left (exchange_with_parent a b q) m = (if m = b then left q a
     else if m = a then if left q b = Some a then Some b else left q b
     else if parent q b = Some m \<and> left q m = Some b then Some a else left q m)" for m
    using ne a b by (cases "parent q b") (auto simp: exchange_with_parent_def left_of_def Let_def)
  have r: "right (exchange_with_parent a b q) m = (if m = b then right q a
     else if m = a then if left q b = Some a then right q b else Some b
     else if parent q b = Some m \<and> left q m \<noteq> Some b then Some a else right q m)" for m
    using ne a b by (cases "parent q b") (auto simp: exchange_with_parent_def left_of_def Let_def)
  have pp: "parent (exchange_with_parent a b q) m =
     (if left q b = Some a then
        if right q a = Some m then Some b else if right q b = Some m then Some a
        else if left q a = Some m then Some b else if m = a then parent q b else if m = b then Some a
        else parent q m
      else if left q a = Some m then Some b else if left q b = Some m then Some a
        else if right q a = Some m then Some b else if m = a then parent q b else if m = b then Some a
        else parent q m)" for m
    using ne a b by (auto simp: exchange_with_parent_def left_of_def Let_def)
  have n: "left q n = Some c \<Longrightarrow> parent q c = Some n" "right q n = Some c \<Longrightarrow> parent q c = Some n"
    "left q n = Some c \<Longrightarrow> right q n \<noteq> Some c" for c
    using tree_linksD(1,2,4) [of q n] p assms(3) by blast+
  have pn: "parent q b = Some n \<Longrightarrow> left q n \<noteq> Some b \<Longrightarrow> right q n = Some b"
    using tree_linksD(3) [of q b] p by blast
  have ch: "parent q n = Some a \<longleftrightarrow> left q a = Some n \<or> right q a = Some n"
    "parent q n = Some b \<longleftrightarrow> left q b = Some n \<or> right q b = Some n"
    using child_iff [of q _ n] p assms(3) by blast+
  show "left (exchange_with_parent a b q) (sw a b n) = map_option (sw a b) (left q n)"
    by (rule sw_cases; simp add: l map_sw a b ne) (use n assms(2) ne in \<open>metis option.inject\<close>)
  show "right (exchange_with_parent a b q) (sw a b n) = map_option (sw a b) (right q n)"
    by (rule sw_cases; simp add: r map_sw a b ne) (use n pn b assms(2) ne in \<open>metis option.inject\<close>)+
  show "parent (exchange_with_parent a b q) (sw a b n) = map_option (sw a b) (parent q n)"
  proof (rule sw_cases)
    assume n: "n \<noteq> a" "n \<noteq> b"
    consider "parent q n = Some a" | "parent q n = Some b" | "parent q n \<noteq> Some a" "parent q n \<noteq> Some b" by blast
    then show "parent (exchange_with_parent a b q) n = map_option (sw a b) (parent q n)"
    proof cases
      case 1
      with ch ne have "left q b \<noteq> Some n" "right q b \<noteq> Some n" "left q a = Some n \<or> right q a = Some n" by auto
      with 1 show ?thesis by (auto simp: pp sw_def)
    next
      case 2
      with ch ne b n have "left q a \<noteq> Some n" "right q a \<noteq> Some n"
        "if left q b = Some a then right q b = Some n else left q b = Some n" by auto
      with 2 ne show ?thesis by (simp add: pp sw_def split: if_splits)
    next
      case 3
      with ch n show ?thesis by (simp add: pp map_sw)
    qed
  qed (use a b ne assms(2) in \<open>simp_all add: pp sw_def, simp_all add: map_sw [unfolded sw_def]\<close>)
qed

lemma exchange_with_child_eq:
  assumes "pair_in a b q" "parent q b = Some a"
  shows "left (exchange_with_child a b q) = left (exchange_with_parent b a q)"
    "right (exchange_with_child a b q) = right (exchange_with_parent b a q)"
    "parent (exchange_with_child a b q) = parent (exchange_with_parent b a q)"
    "root (exchange_with_child a b q) = root (exchange_with_parent b a q)"
proof -
  note p = assms(1) [unfolded pair_in_def]
  have ne: "a \<noteq> b" "parent q a \<noteq> Some a" "parent q a \<noteq> Some b" "parent q b \<noteq> Some b"
    using p tree_linksD(3) [of q] assms(2) by metis+
  have c: "right q a = Some m \<Longrightarrow> right q b \<noteq> Some m" "left q a = Some m \<Longrightarrow> left q b \<noteq> Some m" for m
    using tree_linksD(1,2) [of q _ m] p by (metis option.inject)+
  note defs = exchange_with_child_def exchange_with_parent_def left_of_def Let_def
  show "root (exchange_with_child a b q) = root (exchange_with_parent b a q)"
    using ne by (simp add: defs)
  show "left (exchange_with_child a b q) = left (exchange_with_parent b a q)"
    using ne by (cases "parent q a") (simp_all add: defs fun_eq_iff)
  show "right (exchange_with_child a b q) = right (exchange_with_parent b a q)"
    using ne by (cases "parent q a") (simp_all add: defs fun_eq_iff)
  show "parent (exchange_with_child a b q) = parent (exchange_with_parent b a q)"
    using ne c by (cases "parent q a") (simp_all add: defs fun_eq_iff)
qed

lemma next_iff:
  assumes "list_links q" "n \<in> queue q" "m \<in> queue q"
  shows "next_node q n = Some m \<longleftrightarrow> prev_node q m = Some n"
  using assms unfolding list_links_def by blast

lemma swap_siblings_list:
  assumes p: "list_links q \<and> a \<in> queue q \<and> b \<in> queue q \<and> a \<noteq> b" and "n \<in> queue q"
  shows "next_node (swap_siblings a b q) (sw a b n) = map_option (sw a b) (next_node q n)"
    "prev_node (swap_siblings a b q) (sw a b n) = map_option (sw a b) (prev_node q n)"
    "last_node (swap_siblings a b q) = map_option (sw a b) (last_node q)"
proof -
  have ne: "a \<noteq> b" "b \<noteq> a" using p by auto
  have self: "prev_node q a \<noteq> Some a" "prev_node q b \<noteq> Some b" "next_node q a \<noteq> Some a" "next_node q b \<noteq> Some b"
    using p list_linksD [of q a] list_linksD [of q b] by metis+
  have ab: "prev_node q b = Some a \<longleftrightarrow> next_node q a = Some b" "prev_node q a = Some b \<longleftrightarrow> next_node q b = Some a"
    "next_node q a = Some b \<Longrightarrow> next_node q b \<noteq> Some a"
    using p next_iff [of q] list_linksD(2) [of q a] list_linksD(2) [of q b] by metis+
  have an: "next_node q n = Some a \<longleftrightarrow> prev_node q a = Some n" "next_node q n = Some b \<longleftrightarrow> prev_node q b = Some n"
    "next_node q a = Some n \<longleftrightarrow> prev_node q n = Some a" "next_node q b = Some n \<longleftrightarrow> prev_node q n = Some b"
    using p next_iff [of q] assms(2) by blast+
  have last: "last_node q = Some a \<longleftrightarrow> next_node q a = None" "last_node q = Some b \<longleftrightarrow> next_node q b = None"
    using p list_linksD(3) by blast+
  show "last_node (swap_siblings a b q) = map_option (sw a b) (last_node q)"
    using ne last by (auto simp: swap_siblings_def Let_def map_sw)
  have nx: "next_node (swap_siblings a b q) m =
      (if next_node q a = Some b then
         if prev_node q a = Some m then Some b else if m = a then next_node q b else if m = b then Some a
         else next_node q m
       else if next_node q b = Some a then
         if m = b then next_node q a else if prev_node q b = Some m then Some a else if m = a then Some b
         else next_node q m
       else if m = b then next_node q a else if prev_node q a = Some m then Some b
         else if m = a then next_node q b else if prev_node q b = Some m then Some a else next_node q m)" for m
    by (simp add: swap_siblings_def Let_def)
  have pv: "prev_node (swap_siblings a b q) m =
      (if next_node q a = Some b then
         if m = b then prev_node q a else if next_node q b = Some m then Some a else if m = a then Some b
         else prev_node q m
       else if next_node q b = Some a then
         if next_node q a = Some m then Some b else if m = a then prev_node q b else if m = b then Some a
         else prev_node q m
       else if next_node q a = Some m then Some b else if m = b then prev_node q a
         else if next_node q b = Some m then Some a else if m = a then prev_node q b else prev_node q m)" for m
    by (simp add: swap_siblings_def Let_def)
  show "next_node (swap_siblings a b q) (sw a b n) = map_option (sw a b) (next_node q n)"
    by (rule sw_cases; simp add: nx map_sw ne self ab an) (use ne ab an in \<open>metis option.inject\<close>)+
  show "prev_node (swap_siblings a b q) (sw a b n) = map_option (sw a b) (prev_node q n)"
    by (rule sw_cases; simp add: pv map_sw ne self ab an) (use ne ab an in \<open>metis option.inject\<close>)+
qed

text \<open>
  Exchanging two nodes renames them in all the links: each one has the place of the other, and nothing
  else changes.
\<close>

lemma exchange_nodes_fields [simp]:
  "queue (exchange_nodes a b q) = queue q" "n_nodes (exchange_nodes a b q) = n_nodes q"
  "node_data (exchange_nodes a b q) = node_data q"
  by (simp_all add: exchange_nodes_def Let_def)

lemma sw_commute: "sw a b = sw b a"
  by (auto simp: sw_def fun_eq_iff)

lemma sw_sw [simp]: "sw a b (sw a b n) = n"
  by (simp add: sw_def)

lemma pair_in_positions: "pair_in a b (swap_positions c d q) = pair_in a b q"
  by (simp add: pair_in_def tree_links_def list_links_def)

lemma pair_in_commute: "pair_in a b q = pair_in b a q"
  unfolding pair_in_def by metis

lemma list_links_cong:
  "next_node q' = next_node q \<Longrightarrow> prev_node q' = prev_node q \<Longrightarrow> last_node q' = last_node q \<Longrightarrow>
   queue q' = queue q \<Longrightarrow> list_links q' = list_links q"
  by (simp add: list_links_def)

lemma exchange_nodes_sw:
  assumes "pair_in a b q" "n \<in> queue q"
  defines "q' \<equiv> exchange_nodes a b q"
  shows "left q' (sw a b n) = map_option (sw a b) (left q n)"
    "right q' (sw a b n) = map_option (sw a b) (right q n)"
    "parent q' (sw a b n) = map_option (sw a b) (parent q n)"
    "next_node q' (sw a b n) = map_option (sw a b) (next_node q n)"
    "prev_node q' (sw a b n) = map_option (sw a b) (prev_node q n)"
    "root q' = map_option (sw a b) (root q)" "last_node q' = map_option (sw a b) (last_node q)"
    "node_x q' (sw a b n) = node_x q n" "node_y q' (sw a b n) = node_y q n"
proof -
  define q1 where "q1 = swap_positions a b q"
  define q2 where "q2 = (if parent q1 a = Some b then exchange_with_parent a b q1
    else if parent q1 b = Some a then exchange_with_child a b q1 else exchange_apart a b q1)"
  have q': "q' = swap_siblings a b q2" by (simp add: q'_def exchange_nodes_def q1_def q2_def Let_def)
  have p1: "pair_in a b q1" "n \<in> queue q1" "pair_in b a q1"
    using assms(1,2) pair_in_commute [of a b q] by (simp_all add: q1_def pair_in_positions)
  have f1: "left q1 = left q" "right q1 = right q" "parent q1 = parent q" "root q1 = root q"
    "next_node q1 = next_node q" "prev_node q1 = prev_node q" "last_node q1 = last_node q"
    by (simp_all add: q1_def)
  have tree: "left q2 (sw a b n) = map_option (sw a b) (left q1 n) \<and>
    right q2 (sw a b n) = map_option (sw a b) (right q1 n) \<and>
    parent q2 (sw a b n) = map_option (sw a b) (parent q1 n)"
  proof -
    consider "parent q1 a = Some b" | "parent q1 a \<noteq> Some b" "parent q1 b = Some a"
      | "parent q1 a \<noteq> Some b" "parent q1 b \<noteq> Some a" by blast
    then show ?thesis
    proof cases
      case 1
      with exchange_with_parent_tree [OF p1(1) _ p1(2)] show ?thesis by (simp add: q2_def)
    next
      case 2
      with exchange_with_parent_tree [OF p1(3) _ p1(2)] exchange_with_child_eq [OF p1(1)]
      show ?thesis by (simp add: q2_def sw_commute [of a b])
    next
      case 3
      with exchange_apart_tree [OF p1(1) _ _ p1(2)] show ?thesis by (simp add: q2_def)
    qed
  qed
  then show "left q' (sw a b n) = map_option (sw a b) (left q n)"
    "right q' (sw a b n) = map_option (sw a b) (right q n)"
    "parent q' (sw a b n) = map_option (sw a b) (parent q n)" by (simp_all add: q' f1)
  have f2: "next_node q2 = next_node q" "prev_node q2 = prev_node q" "last_node q2 = last_node q"
    "queue q2 = queue q" by (simp_all add: q2_def q1_def)
  then have "list_links q2 \<and> a \<in> queue q2 \<and> b \<in> queue q2 \<and> a \<noteq> b" "n \<in> queue q2"
    using assms(1,2) list_links_cong [of q2 q] by (simp_all add: pair_in_def)
  from swap_siblings_list [OF this] f2
  show "next_node q' (sw a b n) = map_option (sw a b) (next_node q n)"
    "prev_node q' (sw a b n) = map_option (sw a b) (prev_node q n)"
    "last_node q' = map_option (sw a b) (last_node q)" by (simp_all add: q')
  have "a \<noteq> b" using assms(1) by (simp add: pair_in_def)
  then show "node_x q' (sw a b n) = node_x q n" "node_y q' (sw a b n) = node_y q n"
    by (simp_all add: q' q2_def q1_def sw_def)
  have r: "root q = Some a \<longleftrightarrow> parent q a = None" "root q = Some b \<longleftrightarrow> parent q b = None"
    using assms(1) tree_linksD(5) unfolding pair_in_def by blast+
  have "root q2 = map_option (sw a b) (root q1)"
    using r \<open>a \<noteq> b\<close> by (auto simp: q2_def exchange_branch_root map_sw f1)
  then show "root q' = map_option (sw a b) (root q)" by (simp add: q' f1)
qed

end
