(* ===== verification/Prioq_Heap.thy ===== *)
theory Prioq_Heap
  imports Prioq
begin

text \<open>
  The linked tree of \<^verbatim>\<open>avahi-core/prioq.c\<close> represents the list of its nodes in level order, in which the
  links of a node are given by its position as in a binary heap in an array. On this level exchanging two
  nodes swaps two elements, and the operations of the queue keep the order of a heap.
\<close>

section \<open>Queues as lists\<close>

definition at :: "nat list \<Rightarrow> nat \<Rightarrow> nat option" where
  "at xs i = (if i < length xs then Some (xs ! i) else None)"

text \<open>The links and the coordinates of the node at position \<open>i\<close>.\<close>

definition placed :: "'a AvahiPrioQueue \<Rightarrow> nat list \<Rightarrow> nat \<Rightarrow> bool" where
  "placed q xs i =
     (left q (xs ! i) = at xs (2 * i + 1) \<and> right q (xs ! i) = at xs (2 * i + 2) \<and>
      parent q (xs ! i) = (if i = 0 then None else Some (xs ! ((i - 1) div 2))) \<and>
      next_node q (xs ! i) = at xs (i + 1) \<and>
      prev_node q (xs ! i) = (if i = 0 then None else Some (xs ! (i - 1))) \<and>
      node_x q (xs ! i) < 2 ^ node_y q (xs ! i) \<and> i + 1 = 2 ^ node_y q (xs ! i) + node_x q (xs ! i))"

definition rep :: "'a AvahiPrioQueue \<Rightarrow> nat list \<Rightarrow> bool" where
  "rep q xs =
     (distinct xs \<and> set xs = queue q \<and> n_nodes q = length xs \<and> root q = at xs 0 \<and>
      last_node q = (if xs = [] then None else Some (last xs)) \<and> (\<forall>i < length xs. placed q xs i))"

lemma at_Some: "at xs i = Some n \<longleftrightarrow> i < length xs \<and> xs ! i = n"
  by (auto simp: at_def)

lemma at_map [simp]: "at (map f xs) i = map_option f (at xs i)"
  by (simp add: at_def)

lemma repD:
  assumes "rep q xs"
  shows "distinct xs" "set xs = queue q" "n_nodes q = length xs" "root q = at xs 0"
    "last_node q = (if xs = [] then None else Some (last xs))"
  using assms by (auto simp: rep_def)

lemma rep_node:
  assumes "rep q xs" "i < length xs"
  shows "left q (xs ! i) = at xs (2 * i + 1)" "right q (xs ! i) = at xs (2 * i + 2)"
    "parent q (xs ! i) = (if i = 0 then None else Some (xs ! ((i - 1) div 2)))"
    "next_node q (xs ! i) = at xs (i + 1)" "prev_node q (xs ! i) = (if i = 0 then None else Some (xs ! (i - 1)))"
    "xs ! i \<in> queue q"
  using assms by (auto simp: rep_def placed_def)

lemma rep_index:
  assumes "rep q xs" "n \<in> queue q"
  obtains i where "i < length xs" "xs ! i = n"
  using assms(2) unfolding repD(2) [OF assms(1), symmetric] in_set_conv_nth by blast

lemma rep_parent:
  assumes "rep q xs" "i < length xs" "j < length xs"
  shows "parent q (xs ! j) = Some (xs ! i) \<longleftrightarrow> j = 2 * i + 1 \<or> j = 2 * i + 2"
proof -
  have "(j - 1) div 2 < length xs" using assms(3) by linarith
  then have "parent q (xs ! j) = Some (xs ! i) \<longleftrightarrow> j \<noteq> 0 \<and> (j - 1) div 2 = i"
    using rep_node(3) [OF assms(1,3)] nth_eq_iff_index_eq [OF repD(1) [OF assms(1)]] assms(2) by auto
  also have "\<dots> \<longleftrightarrow> j = 2 * i + 1 \<or> j = 2 * i + 2" by (cases j) auto
  finally show ?thesis .
qed

lemma rep_tree_links:
  assumes "rep q xs"
  shows "tree_links q"
proof -
  note ix = nth_eq_iff_index_eq [OF repD(1) [OF assms]]
  show ?thesis unfolding tree_links_def
  proof (intro conjI ballI allI impI)
    fix n assume "n \<in> queue q"
    then obtain i where i: "i < length xs" "xs ! i = n" by (rule rep_index [OF assms])
    note r = rep_node [OF assms i(1), unfolded i(2)]
    show "(left q n = Some c \<or> right q n = Some c) = (c \<in> queue q \<and> parent q c = Some n)" for c
    proof
      assume "left q n = Some c \<or> right q n = Some c"
      then show "c \<in> queue q \<and> parent q c = Some n"
        using rep_parent [OF assms i(1)] rep_node(6) [OF assms] i(2) by (auto simp: r at_Some)
    next
      assume c: "c \<in> queue q \<and> parent q c = Some n"
      then obtain j where j: "j < length xs" "xs ! j = c" using rep_index [OF assms] by blast
      with c have "j = 2 * i + 1 \<or> j = 2 * i + 2" using rep_parent [OF assms i(1) j(1)] i(2) by simp
      with j show "left q n = Some c \<or> right q n = Some c" by (auto simp: r at_Some)
    qed
    show "left q n = Some c \<Longrightarrow> right q n \<noteq> Some c" for c
      using ix [of "2 * i + 1" "2 * i + 2"] by (auto simp: r at_Some)
    show "(root q = Some n) = (parent q n = None)"
      using i ix [of 0 i] by (auto simp: r repD(4) [OF assms] at_def)
    fix p assume p: "parent q n = Some p"
    then have j: "i \<noteq> 0" "xs ! ((i - 1) div 2) = p" "(i - 1) div 2 < length xs" using r(3) i(1) by (auto split: if_splits)
    show "p \<in> queue q" using rep_node(6) [OF assms j(3)] j(2) by simp
    show "p \<noteq> n" using j i ix [of "(i - 1) div 2" i] by auto
    show "parent q p \<noteq> Some n" using rep_parent [OF assms i(1) j(3)] j i by auto
  qed
qed

lemma rep_list_links:
  assumes "rep q xs"
  shows "list_links q"
proof -
  note ix = nth_eq_iff_index_eq [OF repD(1) [OF assms]]
  show ?thesis unfolding list_links_def
  proof (intro conjI ballI allI impI)
    fix n assume "n \<in> queue q"
    then obtain i where i: "i < length xs" "xs ! i = n" by (rule rep_index [OF assms])
    note r = rep_node [OF assms i(1), unfolded i(2)]
    show "(next_node q n = Some m) = (m \<in> queue q \<and> prev_node q m = Some n)" for m
    proof
      assume "next_node q n = Some m"
      then show "m \<in> queue q \<and> prev_node q m = Some n"
        using rep_node(5,6) [OF assms, of "i + 1"] i(2) by (auto simp: r at_Some)
    next
      assume m: "m \<in> queue q \<and> prev_node q m = Some n"
      then obtain j where j: "j < length xs" "xs ! j = m" using rep_index [OF assms] by blast
      with m rep_node(5) [OF assms j(1)] have "j \<noteq> 0" "xs ! (j - 1) = xs ! i" using i by (auto split: if_splits)
      then have "j = i + 1" using ix [of "j - 1" i] i(1) j(1) by auto
      with j show "next_node q n = Some m" by (auto simp: r at_Some)
    qed
    show "(last_node q = Some n) = (next_node q n = None)"
      using i ix [of "length xs - 1" i] by (auto simp: r repD(5) [OF assms] at_def last_conv_nth)
    fix p assume p: "prev_node q n = Some p"
    then have j: "i \<noteq> 0" "xs ! (i - 1) = p" using r(5) by (auto split: if_splits)
    then have j': "i - 1 < length xs" using i by simp
    show "p \<in> queue q" using rep_node(6) [OF assms j'] j(2) by simp
    show "p \<noteq> n" using j i ix [of "i - 1" i] by auto
    show "prev_node q p \<noteq> Some n" using rep_node(5) [OF assms j'] j i ix [of "i - 1 - 1" i] by auto
  qed
qed

lemma sw_eq_iff: "sw a b n = m \<longleftrightarrow> n = sw a b m"
  by (auto simp: sw_def)

lemma inj_sw: "inj (sw a b)"
  by (rule injI) (simp add: sw_eq_iff)

lemma sw_image: "a \<in> A \<Longrightarrow> b \<in> A \<Longrightarrow> sw a b ` A = A"
proof (intro equalityI subsetI)
  fix x assume "a \<in> A" "b \<in> A" "x \<in> A"
  then have "sw a b x \<in> A" by (simp add: sw_def)
  then show "x \<in> sw a b ` A" by (metis image_eqI sw_sw)
qed (auto simp: sw_def)

lemma rep_exchange:
  assumes "rep q xs" "a \<in> queue q" "b \<in> queue q" "a \<noteq> b"
  shows "rep (exchange_nodes a b q) (map (sw a b) xs)"
proof -
  have p: "pair_in a b q"
    using assms rep_tree_links [OF assms(1)] rep_list_links [OF assms(1)] by (simp add: pair_in_def)
  note e = exchange_nodes_sw [OF p]
  have "placed (exchange_nodes a b q) (map (sw a b) xs) i" if i: "i < length xs" for i
  proof -
    note e' = e [OF rep_node(6) [OF assms(1) i]]
    have "(i - 1) div 2 < length xs" "i - 1 < length xs" using i by linarith+
    moreover have "placed q xs i" using assms(1) i by (simp add: rep_def)
    ultimately show ?thesis using i rep_node(1-5) [OF assms(1) i] by (simp add: placed_def e')
  qed
  moreover have "distinct (map (sw a b) xs)" "set (map (sw a b) xs) = queue q"
    using repD(1,2) [OF assms(1)] sw_image [OF assms(2,3)] inj_on_subset [OF inj_sw subset_UNIV]
    by (auto simp: distinct_map)
  moreover have "last_node (exchange_nodes a b q) = (if map (sw a b) xs = [] then None else Some (last (map (sw a b) xs)))"
    using e(7) [OF assms(2)] repD(5) [OF assms(1)] by (simp add: last_map)
  ultimately show ?thesis
    using e(6) [OF assms(2)] repD(3,4) [OF assms(1)] by (simp add: rep_def)
qed

section \<open>Order\<close>

definition heap_ordered :: "('a \<Rightarrow> 'a \<Rightarrow> int) \<Rightarrow> (nat \<Rightarrow> 'a) \<Rightarrow> nat list \<Rightarrow> bool" where
  "heap_ordered cmp d xs = (\<forall>k. 0 < k \<and> k < length xs \<longrightarrow> cmp (d (xs ! ((k - 1) div 2))) (d (xs ! k)) \<le> 0)"

text \<open>The order of a heap but for the node at position \<open>i\<close>, which may be too large or too small.\<close>

definition almost_ordered :: "('a \<Rightarrow> 'a \<Rightarrow> int) \<Rightarrow> (nat \<Rightarrow> 'a) \<Rightarrow> nat list \<Rightarrow> nat \<Rightarrow> bool" where
  "almost_ordered cmp d xs i =
     ((\<forall>k. 0 < k \<and> k < length xs \<and> k \<noteq> i \<and> (k - 1) div 2 \<noteq> i \<longrightarrow> cmp (d (xs ! ((k - 1) div 2))) (d (xs ! k)) \<le> 0) \<and>
      (\<forall>k. 0 < i \<and> 0 < k \<and> k < length xs \<and> (k - 1) div 2 = i \<longrightarrow> cmp (d (xs ! ((i - 1) div 2))) (d (xs ! k)) \<le> 0))"

text \<open>A queue in order; its nodes are those of the set \<open>queue\<close>.\<close>

definition pq_ok :: "('a \<Rightarrow> 'a \<Rightarrow> int) \<Rightarrow> 'a AvahiPrioQueue \<Rightarrow> bool" where
  "pq_ok cmp q = (\<exists>xs. rep q xs \<and> heap_ordered cmp (node_data q) xs)"

lemma nth_sw:
  assumes "distinct xs" "i < length xs" "j < length xs" "k < length xs"
  shows "map (sw (xs ! i) (xs ! j)) xs ! k = (if k = i then xs ! j else if k = j then xs ! i else xs ! k)"
  using assms nth_eq_iff_index_eq [OF assms(1)] by (auto simp: sw_def)

lemma parent_less: "0 < k \<Longrightarrow> (k - 1) div 2 < (k :: nat)"
  by linarith

context c_compare
begin

lemma almost_up:
  assumes "distinct xs" "0 < i" "i < length xs" "almost_ordered cmp d xs i"
  defines "j \<equiv> (i - 1) div 2"
  shows "almost_ordered cmp d (map (sw (xs ! i) (xs ! j)) xs) j"
proof -
  have j: "j < i" "j < length xs" using assms(2,3) by (simp_all add: j_def)
  note nth = nth_sw [OF assms(1,3) j(2)]
  have ok: "cmp (d (xs ! ((k - 1) div 2))) (d (xs ! k)) \<le> 0"
    if "0 < k" "k < length xs" "k \<noteq> i" "(k - 1) div 2 \<noteq> i" for k
    using assms(4) that by (auto simp: almost_ordered_def)
  have far: "cmp (d (xs ! j)) (d (xs ! k)) \<le> 0" if "0 < k" "k < length xs" "(k - 1) div 2 = i" for k
    using assms(2,4) that by (auto simp: almost_ordered_def j_def)
  show ?thesis unfolding almost_ordered_def length_map
  proof (intro conjI allI impI; elim conjE)
    fix k
    assume k: "0 < k" "k < length xs" "k \<noteq> j" "(k - 1) div 2 \<noteq> j"
    have pk: "(k - 1) div 2 < length xs" using k parent_less [of k] by linarith
    have ki: "k \<noteq> i" using k by (auto simp: j_def)
    show "cmp (d (map (sw (xs ! i) (xs ! j)) xs ! ((k - 1) div 2))) (d (map (sw (xs ! i) (xs ! j)) xs ! k)) \<le> 0"
      using k ki ok [of k] far [of k] unfolding nth [OF pk] nth [OF k(2)] by auto
  next
    fix k
    assume k: "0 < j" "0 < k" "k < length xs" "(k - 1) div 2 = j"
    have pj: "(j - 1) div 2 < j" "(j - 1) div 2 < length xs" using k(1) j(2) parent_less [of j] by linarith+
    have kj: "k \<noteq> j" using k parent_less [of k] by auto
    have top: "cmp (d (xs ! ((j - 1) div 2))) (d (xs ! j)) \<le> 0" using ok [of j] k j pj by auto
    moreover have "cmp (d (xs ! j)) (d (xs ! k)) \<le> 0" if "k \<noteq> i" using ok [of k] k that j by auto
    ultimately show "cmp (d (map (sw (xs ! i) (xs ! j)) xs ! ((j - 1) div 2))) (d (map (sw (xs ! i) (xs ! j)) xs ! k)) \<le> 0"
      using j pj k kj cmp_trans unfolding nth [OF pj(2)] nth [OF k(3)] by auto
  qed
qed

lemma almost_down:
  assumes "distinct xs" "c < length xs" "(c - 1) div 2 = i" "0 < c" "almost_ordered cmp d xs i"
    and "\<And>k. 0 < k \<Longrightarrow> k < length xs \<Longrightarrow> (k - 1) div 2 = i \<Longrightarrow> cmp (d (xs ! c)) (d (xs ! k)) \<le> 0"
  shows "almost_ordered cmp d (map (sw (xs ! i) (xs ! c)) xs) c"
proof -
  have i: "i < c" "i < length xs" using assms(2-4) parent_less [of c] by linarith+
  note nth = nth_sw [OF assms(1) i(2) assms(2)]
  have ok: "cmp (d (xs ! ((k - 1) div 2))) (d (xs ! k)) \<le> 0"
    if "0 < k" "k < length xs" "k \<noteq> i" "(k - 1) div 2 \<noteq> i" for k
    using assms(5) that by (auto simp: almost_ordered_def)
  have far: "cmp (d (xs ! ((i - 1) div 2))) (d (xs ! c)) \<le> 0" if "0 < i"
    using assms(2-5) that by (auto simp: almost_ordered_def)
  show ?thesis unfolding almost_ordered_def length_map
  proof (intro conjI allI impI; elim conjE)
    fix k
    assume k: "0 < k" "k < length xs" "k \<noteq> c" "(k - 1) div 2 \<noteq> c"
    have pk: "(k - 1) div 2 < length xs" "(k - 1) div 2 \<noteq> k" using k parent_less [of k] by linarith+
    show "cmp (d (map (sw (xs ! i) (xs ! c)) xs ! ((k - 1) div 2))) (d (map (sw (xs ! i) (xs ! c)) xs ! k)) \<le> 0"
      using k pk ok [of k] far assms(6) [of k] unfolding nth [OF pk(1)] nth [OF k(2)] by auto
  next
    fix k
    assume k: "0 < c" "0 < k" "k < length xs" "(k - 1) div 2 = c"
    have "k \<noteq> i" "k \<noteq> c" "c \<noteq> i" using k i parent_less [of k] by linarith+
    with k i assms(3) ok [of k]
    show "cmp (d (map (sw (xs ! i) (xs ! c)) xs ! ((c - 1) div 2))) (d (map (sw (xs ! i) (xs ! c)) xs ! k)) \<le> 0"
      unfolding assms(3) nth [OF i(2)] nth [OF k(3)] by auto
  qed
qed

lemma shuffle_up_ok:
  assumes "rep q xs" "i < length xs" "xs ! i = n" "almost_ordered cmp (node_data q) xs i"
  shows "\<exists>q' xs' j. shuffle_up cmp n q = Some q' \<and> rep q' xs' \<and> j < length xs' \<and> xs' ! j = n \<and>
    almost_ordered cmp (node_data q') xs' j \<and> queue q' = queue q \<and> node_data q' = node_data q \<and>
    (0 < j \<longrightarrow> cmp (node_data q (xs' ! ((j - 1) div 2))) (node_data q n) \<le> 0)"
  using assms
proof (induction i arbitrary: q xs rule: less_induct)
  case (less i)
  note r = rep_node [OF less.prems(1,2), unfolded less.prems(3)]
  show ?case
  proof (cases "i = 0")
    case True
    then have "shuffle_up cmp n q = Some q" by (simp add: shuffle_up.simps [of cmp n q] r)
    with less.prems True show ?thesis by (intro exI [of _ q] exI [of _ xs] exI [of _ i]) simp
  next
    case False
    define j where "j = (i - 1) div 2"
    have j: "j < i" "j < length xs" using False less.prems(2) by (simp_all add: j_def)
    have par: "parent q n = Some (xs ! j)" using False by (simp add: r j_def)
    show ?thesis
    proof (cases "cmp (node_data q (xs ! j)) (node_data q n) > 0")
      case False
      then have "shuffle_up cmp n q = Some q" by (simp add: shuffle_up.simps [of cmp n q] par)
      with less.prems False show ?thesis by (intro exI [of _ q] exI [of _ xs] exI [of _ i]) (simp add: j_def)
    next
      case True
      let ?q = "exchange_nodes n (xs ! j) q" and ?xs = "map (sw n (xs ! j)) xs"
      have up: "shuffle_up cmp n q = shuffle_up cmp n ?q" using True by (simp add: shuffle_up.simps [of cmp n q] par)
      have d: "distinct xs" using less.prems(1) by (rule repD)
      have ne: "n \<noteq> xs ! j" using nth_eq_iff_index_eq [OF d less.prems(2) j(2)] j less.prems(3) by auto
      have "rep ?q ?xs"
        by (rule rep_exchange [OF less.prems(1) r(6) rep_node(6) [OF less.prems(1) j(2)] ne])
      moreover have "?xs ! j = n" using j(2) by (simp add: sw_def)
      moreover have "almost_ordered cmp (node_data ?q) ?xs j"
        using almost_up [OF d _ less.prems(2,4)] \<open>i \<noteq> 0\<close> less.prems(3) by (simp add: j_def)
      ultimately show ?thesis using less.IH [OF j(1), of ?q ?xs] j(2) up by simp
    qed
  qed
qed

lemma smaller_child_ok:
  assumes "rep q xs" "i < length xs" "xs ! i = n" "left q n = Some l"
  obtains c where "c < length xs" "0 < c" "(c - 1) div 2 = i" "smaller_child cmp q n l = xs ! c"
    "\<And>k. 0 < k \<Longrightarrow> k < length xs \<Longrightarrow> (k - 1) div 2 = i \<Longrightarrow> cmp (node_data q (xs ! c)) (node_data q (xs ! k)) \<le> 0"
proof -
  note r = rep_node [OF assms(1,2), unfolded assms(3)]
  have l: "2 * i + 1 < length xs" "xs ! (2 * i + 1) = l" using assms(4) by (simp_all add: r at_Some)
  have kids: "k = 2 * i + 1 \<or> k = 2 * i + 2" if "0 < k" "(k - 1) div 2 = i" for k using that by (cases k) auto
  show ?thesis
  proof (cases "2 * i + 2 < length xs \<and> cmp (node_data q (xs ! (2 * i + 2))) (node_data q l) < 0")
    case True
    then have "right q n = Some (xs ! (2 * i + 2))" by (simp add: r at_def)
    with True have "smaller_child cmp q n l = xs ! (2 * i + 2)" by (simp add: smaller_child_def)
    moreover have "cmp (node_data q (xs ! (2 * i + 2))) (node_data q (xs ! k)) \<le> 0"
      if "0 < k" "k < length xs" "(k - 1) div 2 = i" for k
      using kids [OF that(1,3)] True l(2) cmp_refl [of "node_data q (xs ! (2 * i + 2))"] by fastforce
    ultimately show ?thesis using True by (intro that [of "2 * i + 2"]) auto
  next
    case False
    then have "smaller_child cmp q n l = l" by (auto simp: smaller_child_def r at_def)
    moreover have "cmp (node_data q l) (node_data q (xs ! k)) \<le> 0"
      if "0 < k" "k < length xs" "(k - 1) div 2 = i" for k
      using kids [OF that(1,3)] False that(2) l(2) cmp_refl [of "node_data q l"] cmp_le_swap
      by (metis le_less linorder_not_less)
    ultimately show ?thesis using l by (intro that [of "2 * i + 1"]) auto
  qed
qed

lemma shuffle_down_ok:
  assumes "rep q xs" "i < length xs" "xs ! i = n" "almost_ordered cmp (node_data q) xs i"
    and "0 < i \<longrightarrow> cmp (node_data q (xs ! ((i - 1) div 2))) (node_data q n) \<le> 0"
  shows "\<exists>q' xs'. shuffle_down cmp n q = Some q' \<and> rep q' xs' \<and> heap_ordered cmp (node_data q') xs' \<and>
    queue q' = queue q \<and> node_data q' = node_data q"
  using assms
proof (induction "length xs - i" arbitrary: i q xs rule: less_induct)
  case less
  note r = rep_node [OF less.prems(1,2), unfolded less.prems(3)]
  note al = less.prems(4) [unfolded almost_ordered_def]
  have kids: "k = 2 * i + 1 \<or> k = 2 * i + 2" if "0 < k" "(k - 1) div 2 = i" for k using that by (cases k) auto
  have fin: "heap_ordered cmp (node_data q) xs"
    if "\<And>k. 0 < k \<Longrightarrow> k < length xs \<Longrightarrow> (k - 1) div 2 = i \<Longrightarrow> cmp (node_data q n) (node_data q (xs ! k)) \<le> 0"
    unfolding heap_ordered_def
  proof (intro allI impI)
    fix k assume k: "0 < k \<and> k < length xs"
    consider "k = i" | "(k - 1) div 2 = i" | "k \<noteq> i" "(k - 1) div 2 \<noteq> i" by blast
    then show "cmp (node_data q (xs ! ((k - 1) div 2))) (node_data q (xs ! k)) \<le> 0"
      by cases (use k al that less.prems(3,5) in auto)
  qed
  show ?case
  proof (cases "left q n")
    case None
    then have "length xs \<le> 2 * i + 1" by (simp add: r at_def split: if_splits)
    then have "right q n = None" "heap_ordered cmp (node_data q) xs"
      using fin kids by (auto simp: r at_def)
    with None less.prems(1) show ?thesis by (auto simp: shuffle_down.simps [of cmp n q])
  next
    case (Some l)
    obtain c where c: "c < length xs" "0 < c" "(c - 1) div 2 = i" "smaller_child cmp q n l = xs ! c"
      "\<And>k. 0 < k \<Longrightarrow> k < length xs \<Longrightarrow> (k - 1) div 2 = i \<Longrightarrow> cmp (node_data q (xs ! c)) (node_data q (xs ! k)) \<le> 0"
      using smaller_child_ok [OF less.prems(1-3) Some] by blast
    show ?thesis
    proof (cases "cmp (node_data q n) (node_data q (xs ! c)) \<le> 0")
      case True
      then have "heap_ordered cmp (node_data q) xs" using c(5) cmp_trans by (intro fin) blast
      with True Some c(4) less.prems(1) show ?thesis by (auto simp: shuffle_down.simps [of cmp n q])
    next
      case False
      let ?q = "exchange_nodes n (xs ! c) q" and ?xs = "map (sw n (xs ! c)) xs"
      have down: "shuffle_down cmp n q = shuffle_down cmp n ?q"
        using False Some c(4) by (simp add: shuffle_down.simps [of cmp n q])
      have d: "distinct xs" using less.prems(1) by (rule repD)
      have ic: "i < c" using c(2,3) parent_less by blast
      have ne: "n \<noteq> xs ! c" using nth_eq_iff_index_eq [OF d less.prems(2) c(1)] ic less.prems(3) by auto
      have "rep ?q ?xs"
        by (rule rep_exchange [OF less.prems(1) r(6) rep_node(6) [OF less.prems(1) c(1)] ne])
      moreover have "?xs ! c = n" "?xs ! i = xs ! c" using c(1) less.prems(2,3) by (simp_all add: sw_def)
      moreover have "almost_ordered cmp (node_data ?q) ?xs c"
        using almost_down [OF d c(1,3,2) less.prems(4) c(5)] less.prems(3) by simp
      moreover have "cmp (node_data q (xs ! c)) (node_data q n) \<le> 0" using False cmp_total by blast
      moreover have "length ?xs - c < length xs - i" using ic c(1) by simp
      ultimately show ?thesis using less.hyps [of ?xs c ?q] c(1,3) down by simp
    qed
  qed
qed

lemma shuffle_ok:
  assumes "rep q xs" "i < length xs" "xs ! i = n" "almost_ordered cmp (node_data q) xs i"
  shows "\<exists>q'. avahi_prio_queue_shuffle cmp n q = Some q' \<and> pq_ok cmp q' \<and> queue q' = queue q \<and> node_data q' = node_data q"
proof -
  obtain q1 xs1 j where 1: "shuffle_up cmp n q = Some q1" "rep q1 xs1" "j < length xs1" "xs1 ! j = n"
    "almost_ordered cmp (node_data q1) xs1 j" "queue q1 = queue q" "node_data q1 = node_data q"
    "0 < j \<longrightarrow> cmp (node_data q (xs1 ! ((j - 1) div 2))) (node_data q n) \<le> 0"
    using shuffle_up_ok [OF assms] by blast
  then obtain q2 xs2 where "shuffle_down cmp n q1 = Some q2" "rep q2 xs2" "heap_ordered cmp (node_data q2) xs2"
    "queue q2 = queue q1" "node_data q2 = node_data q1"
    using shuffle_down_ok [of q1 xs1 j n] by auto
  moreover have "n \<in> queue q" using rep_node(6) [OF assms(1,2)] assms(3) by simp
  ultimately show ?thesis using 1 by (auto simp: avahi_prio_queue_shuffle_def pq_ok_def)
qed

text \<open>Changing the data of one node makes a heap an almost ordered one.\<close>

lemma almost_ordered_upd:
  assumes "distinct xs" "heap_ordered cmp d xs" "i < length xs"
    and "\<And>k. k < length xs \<Longrightarrow> k \<noteq> i \<Longrightarrow> d' (ys ! k) = d (xs ! k)" "length ys \<le> length xs"
  shows "almost_ordered cmp d' ys i"
proof -
  have ok: "cmp (d (xs ! ((k - 1) div 2))) (d (xs ! k)) \<le> 0" if "0 < k" "k < length xs" for k
    using assms(2) that by (simp add: heap_ordered_def)
  have same: "d' (ys ! k) = d (xs ! k)" if "k < length ys" "k \<noteq> i" for k
    using assms(4,5) that by simp
  show ?thesis unfolding almost_ordered_def
  proof (intro conjI allI impI; elim conjE)
    fix k assume k: "0 < k" "k < length ys" "k \<noteq> i" "(k - 1) div 2 \<noteq> i"
    have "(k - 1) div 2 < length ys" using k by linarith
    with k same [of k] same [of "(k - 1) div 2"] ok [of k] assms(5)
    show "cmp (d' (ys ! ((k - 1) div 2))) (d' (ys ! k)) \<le> 0" by simp
  next
    fix k assume k: "0 < i" "0 < k" "k < length ys" "(k - 1) div 2 = i"
    have l: "(i - 1) div 2 < i" "i < k" "k < length xs" using k assms(5) parent_less [of i] parent_less [of k] by linarith+
    have "cmp (d (xs ! ((i - 1) div 2))) (d (xs ! i)) \<le> 0" "cmp (d (xs ! i)) (d (xs ! k)) \<le> 0"
      using ok [of i] ok [of k] k l by simp_all
    then have "cmp (d (xs ! ((i - 1) div 2))) (d (xs ! k)) \<le> 0" by (rule cmp_trans)
    with k l same [of k] same [of "(i - 1) div 2"]
    show "cmp (d' (ys ! ((i - 1) div 2))) (d' (ys ! k)) \<le> 0" by simp
  qed
qed

lemma shuffle_changed:
  assumes "pq_ok cmp q" "n \<in> queue q"
  shows "\<exists>q'. avahi_prio_queue_shuffle cmp n (q\<lparr>node_data := (node_data q)(n := x)\<rparr>) = Some q' \<and> pq_ok cmp q' \<and>
    queue q' = queue q \<and> node_data q' = (node_data q)(n := x)"
proof -
  obtain xs where xs: "rep q xs" "heap_ordered cmp (node_data q) xs" using assms(1) by (auto simp: pq_ok_def)
  obtain i where i: "i < length xs" "xs ! i = n" using rep_index [OF xs(1) assms(2)] by blast
  let ?q = "q\<lparr>node_data := (node_data q)(n := x)\<rparr>"
  have "rep ?q xs" using xs(1) by (simp add: rep_def placed_def)
  moreover have "almost_ordered cmp (node_data ?q) xs i"
    by (rule almost_ordered_upd [OF repD(1) [OF xs(1)] xs(2) i(1)])
      (use i nth_eq_iff_index_eq [OF repD(1) [OF xs(1)]] in auto)
  ultimately show ?thesis using shuffle_ok [of ?q xs i n] i by simp
qed

end

end
