(* ===== verification/Prioq_Ops.thy ===== *)
theory Prioq_Ops
  imports Prioq_Heap
begin

text \<open>
  The operations of \<^verbatim>\<open>avahi-core/prioq.c\<close> return without a failed assertion and keep a queue in order; the
  root is a least element.
\<close>

section \<open>Finding a node by its coordinates\<close>

lemma xy_unique:
  fixes x y x' y' :: nat
  assumes "x < 2 ^ y" "x' < 2 ^ y'" "2 ^ y + x = 2 ^ y' + x'"
  shows "y = y' \<and> x = x'"
proof -
  have False if "(a :: nat) < b" "s < 2 ^ a" "2 ^ a + s = 2 ^ b + t" for a b s t :: nat
  proof -
    have "(2 :: nat) ^ Suc a \<le> 2 ^ b" using that(1) by (intro power_increasing) auto
    with that show False by simp
  qed
  then have "y = y'" using assms by (metis linorder_neqE_nat)
  with assms(3) show ?thesis by simp
qed

lemma rep_xy:
  assumes "rep q xs" "i < length xs" "i + 1 = 2 ^ y + x" "x < 2 ^ y"
  shows "node_x q (xs ! i) = x" "node_y q (xs ! i) = y"
proof -
  have "placed q xs i" using assms(1,2) by (simp add: rep_def)
  then have "node_x q (xs ! i) < 2 ^ node_y q (xs ! i)" "i + 1 = 2 ^ node_y q (xs ! i) + node_x q (xs ! i)"
    by (simp_all add: placed_def)
  with xy_unique [of x y "node_x q (xs ! i)" "node_y q (xs ! i)"] assms(3,4)
  show "node_x q (xs ! i) = x" "node_y q (xs ! i) = y" by simp_all
qed

lemma get_node_loop_cong: "left q' = left q \<Longrightarrow> right q' = right q \<Longrightarrow> get_node_loop q' x k n = get_node_loop q x k n"
  by (induction k arbitrary: n) (auto split: option.splits)

lemma get_node_loop_rep:
  assumes "rep q xs" "k \<le> y" "2 ^ y + x \<le> length xs"
  shows "get_node_loop q x k (at xs ((2 ^ y + x) div 2 ^ k - 1)) = Some (at xs (2 ^ y + x - 1))"
  using assms(2)
proof (induction k)
  case (Suc k)
  define v where "v = (2 ^ y + x) div 2 ^ Suc k"
  define w where "w = (2 ^ y + x) div 2 ^ k"
  have e: "2 ^ y = (2 :: nat) ^ (y - k) * 2 ^ k" using Suc.prems by (simp flip: power_add)
  have w: "w = 2 ^ (y - k) + x div 2 ^ k" unfolding w_def e by simp
  have even: "even ((2 :: nat) ^ (y - k))" using Suc.prems by simp
  have v: "v = w div 2" unfolding v_def w_def power_Suc2 by (simp add: div_mult2_eq)
  have "1 \<le> 2 ^ (y - k) div (2 :: nat)" using Suc.prems by (cases "y - k") auto
  then have pos: "1 \<le> v" unfolding v w by (meson div_le_mono le_add1 le_trans)
  have "w \<le> 2 ^ y + x" unfolding w_def by (rule div_le_dividend)
  then have len: "v - 1 < length xs" using pos assms(3) unfolding v by linarith
  have odd: "drop_bit k x AND 1 \<noteq> 0 \<longleftrightarrow> odd w"
    unfolding w using even by (simp add: drop_bit_eq_div and_one_eq odd_iff_mod_2_eq_one)
  have "(if drop_bit k x AND 1 \<noteq> 0 then right q (xs ! (v - 1)) else left q (xs ! (v - 1))) = at xs (w - 1)"
  proof (cases "odd w")
    case True
    then have "2 * (v - 1) + 2 = w - 1" using pos unfolding v by presburger
    with True odd rep_node(2) [OF assms(1) len] show ?thesis by simp
  next
    case False
    then have "2 * (v - 1) + 1 = w - 1" using pos unfolding v by presburger
    with False odd rep_node(1) [OF assms(1) len] show ?thesis by simp
  qed
  moreover have "at xs (v - 1) = Some (xs ! (v - 1))" using len by (simp add: at_def)
  ultimately have "get_node_loop q x (Suc k) (at xs (v - 1)) = get_node_loop q x k (at xs (w - 1))"
    by (simp only: get_node_loop.simps option.case)
  also have "\<dots> = Some (at xs (2 ^ y + x - 1))" using Suc.IH Suc.prems unfolding w_def by simp
  finally show ?case unfolding v_def .
qed simp

lemma get_node_at_xy_rep:
  assumes "rep q xs" "i < length xs" "i + 1 = 2 ^ y + x" "x < 2 ^ y"
    and "left q' = left q" "right q' = right q" "root q' = root q"
    and "node_x q' (xs ! i) = node_x q (xs ! i)" "node_y q' (xs ! i) = node_y q (xs ! i)"
  shows "get_node_at_xy q' x y = Some (xs ! i)"
proof -
  have "(2 ^ y + x) div 2 ^ y = 1" using assms(4) by (simp add: div_add_self1)
  then have "get_node_loop q x y (root q) = Some (at xs i)"
    using get_node_loop_rep [OF assms(1) order_refl, of y x] assms(2) repD(4) [OF assms(1)]
    by (simp flip: assms(3))
  moreover have "root q \<noteq> None" using repD(4) [OF assms(1)] assms(2) by (auto simp: at_def)
  ultimately show ?thesis
    using rep_xy [OF assms(1-4)] assms(2,5-9) get_node_loop_cong [OF assms(5,6)]
    by (simp add: get_node_at_xy_def at_def)
qed

section \<open>Putting a node\<close>

text \<open>The position behind the last node.\<close>

lemma next_xy:
  fixes x y m :: nat
  assumes "m = 2 ^ y + x" "x < 2 ^ y" "0 < m"
  obtains x' y' where "(if x + 1 \<ge> 2 ^ y then (0, y + 1) else (x + 1, y)) = (x', y')"
    "m + 1 = 2 ^ y' + x'" "x' < 2 ^ y'" "0 < y'" "(m - 1) div 2 + 1 = 2 ^ (y' - 1) + x' div 2"
    "x' div 2 < 2 ^ (y' - 1)" "x' AND 1 \<noteq> 0 \<longleftrightarrow> even m"
proof -
  define x' where "x' = (if x + 1 \<ge> 2 ^ y then 0 else x + 1)"
  define y' where "y' = (if x + 1 \<ge> 2 ^ y then y + 1 else y)"
  have m: "m + 1 = 2 ^ y' + x'" "x' < 2 ^ y'" using assms by (auto simp: x'_def y'_def)
  have pos: "0 < y'" using assms by (cases y) (auto simp: y'_def)
  then obtain z where z: "y' = Suc z" by (cases y') auto
  show ?thesis
  proof (rule that [of x' y'])
    show "(m - 1) div 2 + 1 = 2 ^ (y' - 1) + x' div 2" using m(1) assms(3) z by (cases m) auto
    show "x' div 2 < 2 ^ (y' - 1)" using m(2) z by (simp add: less_mult_imp_div_less mult.commute)
    show "x' AND 1 \<noteq> 0 \<longleftrightarrow> even m" using m(1) z by (simp add: and_one_eq odd_iff_mod_2_eq_one [symmetric]) presburger
  qed (use m pos in \<open>auto simp: x'_def y'_def\<close>)
qed

lemma at_snoc: "at (xs @ [n]) i = (if i = length xs then Some n else at xs i)"
  by (simp add: at_def nth_append)

lemma put_below_eq:
  assumes "root q \<noteq> None" "n_nodes q \<noteq> 0" "0 < y'"
    and "(if node_x q l + 1 \<ge> 2 ^ node_y q l then (0, node_y q l + 1) else (node_x q l + 1, node_y q l)) = (x', y')"
    and "q2 = q\<lparr>node_x := (node_x q)(n := x'), node_y := (node_y q)(n := y'),
      next_node := (next_node q)(l := Some n), prev_node := (prev_node q)(n := Some l)\<rparr>"
    and "get_node_at_xy q2 (x' div 2) (y' - 1) = Some p"
  shows "put_below n l q = Some (let q = q2\<lparr>parent := (parent q2)(n := Some p)\<rparr> in
    if x' AND 1 \<noteq> 0 then q\<lparr>right := (right q)(p := Some n)\<rparr> else q\<lparr>left := (left q)(p := Some n)\<rparr>)"
proof -
  have q2: "q\<lparr>node_x := (node_x q)(n := x'), node_y := (node_y q)(n := y')\<rparr>
      \<lparr>next_node := (next_node (q\<lparr>node_x := (node_x q)(n := x'), node_y := (node_y q)(n := y')\<rparr>))(l := Some n)\<rparr>
      \<lparr>prev_node := (prev_node (q\<lparr>node_x := (node_x q)(n := x'), node_y := (node_y q)(n := y')\<rparr>
        \<lparr>next_node := (next_node (q\<lparr>node_x := (node_x q)(n := x'), node_y := (node_y q)(n := y')\<rparr>))(l := Some n)\<rparr>))
          (n := Some l)\<rparr> = q2"
    by (simp add: assms(5))
  show ?thesis
    unfolding put_below_def Let_def assms(4) prod.case q2
    using assms(1-3) by (simp only: assms(6) Option.bind.simps if_False simp_thms)
qed

text \<open>The queue with a node behind the last one, before it is moved to its place.\<close>

lemma put_below_rep:
  assumes "rep q xs" "xs \<noteq> []" "n \<notin> queue q" "last_node q = Some l"
    and q1: "q1 = q\<lparr>queue := insert n (queue q), node_data := dd\<rparr>"
  shows "\<exists>q2. put_below n l q1 = Some q2 \<and>
    rep (q2\<lparr>next_node := (next_node q2)(n := None), left := (left q2)(n := None), right := (right q2)(n := None),
      last_node := Some n, n_nodes := n_nodes q2 + 1\<rparr>) (xs @ [n]) \<and> node_data q2 = dd \<and> queue q2 = insert n (queue q)"
proof -
  define m where "m = length xs"
  have m: "0 < m" using assms(2) by (simp add: m_def)
  have l: "l = xs ! (m - 1)" "m - 1 < length xs"
    using assms(2,4) repD(5) [OF assms(1)] m by (simp_all add: last_conv_nth m_def)
  have n: "n \<notin> set xs" using assms(3) repD(2) [OF assms(1)] by simp
  have pl: "placed q xs (m - 1)" using assms(1) l(2) by (simp add: rep_def)
  define x where "x = node_x q l"
  define y where "y = node_y q l"
  have xy: "node_x q l = x" "node_y q l = y" "x < 2 ^ y" "m = 2 ^ y + x"
    using pl m unfolding placed_def l(1) [symmetric] x_def y_def by simp_all
  obtain x' y' where x': "(if x + 1 \<ge> 2 ^ y then (0, y + 1) else (x + 1, y)) = (x', y')"
    "m + 1 = 2 ^ y' + x'" "x' < 2 ^ y'" "0 < y'" "(m - 1) div 2 + 1 = 2 ^ (y' - 1) + x' div 2"
    "x' div 2 < 2 ^ (y' - 1)" "x' AND 1 \<noteq> 0 \<longleftrightarrow> even m" by (rule next_xy [OF xy(4,3) m])
  define j where "j = (m - 1) div 2"
  have j: "j < length xs" using m unfolding j_def m_def by linarith
  define p where "p = xs ! j"
  have pn: "p \<noteq> n" using n j by (auto simp: p_def)
  define q2 where "q2 = q1\<lparr>node_x := (node_x q)(n := x'), node_y := (node_y q)(n := y'),
    next_node := (next_node q)(l := Some n), prev_node := (prev_node q)(n := Some l)\<rparr>"
  have get: "get_node_at_xy q2 (x' div 2) (y' - 1) = Some p"
    unfolding p_def by (rule get_node_at_xy_rep [OF assms(1) j])
      (use x' pn in \<open>simp_all add: j_def q2_def q1 p_def [symmetric]\<close>, simp_all add: p_def j_def)
  define q3 where "q3 = (let q = q2\<lparr>parent := (parent q2)(n := Some p)\<rparr> in
    if even m then q\<lparr>right := (right q)(p := Some n)\<rparr> else q\<lparr>left := (left q)(p := Some n)\<rparr>)"
  have "root q1 \<noteq> None" "n_nodes q1 \<noteq> 0"
    using repD(3,4) [OF assms(1)] m by (auto simp: q1 at_def m_def)
  then have put: "put_below n l q1 = Some q3"
    unfolding q3_def x'(7) [symmetric]
  proof (rule put_below_eq)
    have "node_x q1 l = x" "node_y q1 l = y" using xy by (simp_all add: q1)
    then show "(if node_x q1 l + 1 \<ge> 2 ^ node_y q1 l then (0, node_y q1 l + 1) else (node_x q1 l + 1, node_y q1 l)) = (x', y')"
      by (simp only: x'(1))
  qed (use get x'(4) in \<open>simp_all add: q1 q2_def\<close>)
  define q4 where "q4 = q3\<lparr>next_node := (next_node q3)(n := None), left := (left q3)(n := None),
    right := (right q3)(n := None), last_node := Some n, n_nodes := n_nodes q3 + 1\<rparr>"
  have f: "left q4 = (if even m then left q else (left q)(p := Some n))(n := None)"
    "right q4 = (if even m then (right q)(p := Some n) else right q)(n := None)"
    "parent q4 = (parent q)(n := Some p)" "next_node q4 = (next_node q)(l := Some n, n := None)"
    "prev_node q4 = (prev_node q)(n := Some l)" "node_x q4 = (node_x q)(n := x')" "node_y q4 = (node_y q)(n := y')"
    "queue q4 = insert n (queue q)" "root q4 = root q" "last_node q4 = Some n" "n_nodes q4 = n_nodes q + 1"
    by (auto simp: q4_def q3_def q2_def q1 Let_def)
  have "placed q4 (xs @ [n]) i" if i: "i < length (xs @ [n])" for i
  proof (cases "i = m")
    case True
    then have "at (xs @ [n]) (2 * i + 1) = None" "at (xs @ [n]) (2 * i + 2) = None" "at (xs @ [n]) (i + 1) = None"
      using m by (simp_all add: at_def m_def)
    with True m n x'(2,3) j show ?thesis
      by (simp add: placed_def f nth_append m_def [symmetric] p_def j_def l)
  next
    case False
    then have i': "i < length xs" "i < m" using i by (simp_all add: m_def)
    note r = rep_node [OF assms(1) i'(1)]
    have pli: "placed q xs i" using assms(1) i'(1) by (simp add: rep_def)
    have in': "xs ! i \<noteq> n" using n i'(1) by auto
    note ix = nth_eq_iff_index_eq [OF repD(1) [OF assms(1)] i'(1)]
    have ip: "xs ! i = p \<longleftrightarrow> i = j" "xs ! i = l \<longleftrightarrow> i = m - 1" using ix j l by (simp_all add: p_def)
    have kid: "2 * i + 1 = m \<longleftrightarrow> i = j \<and> odd m" "2 * i + 2 = m \<longleftrightarrow> i = j \<and> even m"
      using m unfolding j_def by presburger+
    have "left q4 (xs ! i) = at (xs @ [n]) (2 * i + 1)" "right q4 (xs ! i) = at (xs @ [n]) (2 * i + 2)"
      using in' unfolding at_snoc m_def [symmetric] kid by (simp_all add: f r ip) (simp_all add: p_def)
    note this
    moreover have "next_node q4 (xs ! i) = at (xs @ [n]) (i + 1)"
      using in' i' by (auto simp: f r ip at_snoc m_def [symmetric])
    ultimately show ?thesis
      using pli in' i' by (auto simp: placed_def f nth_append)
  qed
  then have "rep q4 (xs @ [n])"
    using repD [OF assms(1)] n assms(2) by (simp add: rep_def f at_snoc)
  with put show ?thesis by (auto simp: q4_def q3_def q2_def q1 Let_def)
qed

lemma put_root_rep:
  assumes "rep q []" and q1: "q1 = q\<lparr>queue := insert n (queue q), node_data := dd\<rparr>"
  shows "\<exists>q2. put_root n q1 = Some q2 \<and>
    rep (q2\<lparr>next_node := (next_node q2)(n := None), left := (left q2)(n := None), right := (right q2)(n := None),
      last_node := Some n, n_nodes := n_nodes q2 + 1\<rparr>) [n] \<and> node_data q2 = dd \<and> queue q2 = insert n (queue q)"
  using repD [OF assms(1)] by (simp add: put_root_def q1 rep_def placed_def at_def)

section \<open>Removing the last node\<close>

lemma remove_last_single:
  assumes "rep q [n]"
  shows "\<exists>q'. remove_last n q = Some q' \<and> rep q' [] \<and> node_data q' = node_data q \<and> queue q' = queue q - {n}"
proof -
  note r = rep_node [OF assms, of 0, simplified]
  show ?thesis using repD [OF assms] r by (simp add: remove_last_def rep_def at_def)
qed

lemma remove_last_rep:
  assumes "rep q (ys @ [n])" "ys \<noteq> []"
  shows "\<exists>q'. remove_last n q = Some q' \<and> rep q' ys \<and> node_data q' = node_data q \<and> queue q' = queue q - {n}"
proof -
  define m where "m = length ys"
  have m: "0 < m" "m < length (ys @ [n])" "(ys @ [n]) ! m = n" using assms(2) by (simp_all add: m_def)
  have d: "n \<notin> set ys" "distinct ys" using repD(1) [OF assms(1)] by simp_all
  note rn = rep_node [OF assms(1) m(2), unfolded m(3)]
  define j where "j = (m - 1) div 2"
  define p where "p = ys ! j"
  have j: "j < m" using m(1) unfolding j_def by linarith
  have old: "at (ys @ [n]) k = (if k = m then Some n else at ys k)" for k by (simp add: at_snoc m_def)
  have n: "next_node q n = None" "left q n = None" "right q n = None" "prev_node q n = Some (ys ! (m - 1))"
    "parent q n = Some p"
    using m(1) j unfolding rn by (simp_all add: at_def m_def nth_append j_def p_def)
  have i: "left q (ys ! i) = at (ys @ [n]) (2 * i + 1)" "right q (ys ! i) = at (ys @ [n]) (2 * i + 2)"
    "next_node q (ys ! i) = at (ys @ [n]) (i + 1)" "ys ! i \<noteq> n" if "i < m" for i
    using rep_node [OF assms(1), of i] that d(1) by (auto simp: nth_append m_def)
  have kid: "2 * i + 1 = m \<longleftrightarrow> i = j \<and> odd m" "2 * i + 2 = m \<longleftrightarrow> i = j \<and> even m" for i
    using m(1) unfolding j_def by presburger+
  have lp: "left q p = (if odd m then Some n else at ys (2 * j + 1))"
    and rp: "right q p = (if even m then Some n else None)"
    using i(1,2) [OF j] unfolding p_def old kid by (simp_all add: at_def m_def j_def)
  have lp': "even m \<Longrightarrow> left q p \<noteq> None \<and> left q p \<noteq> Some n"
    using lp d(1) m(1) j unfolding at_def j_def m_def by (auto simp: set_conv_nth) presburger+
  define q' where "q' = q\<lparr>last_node := Some (ys ! (m - 1)), next_node := (next_node q)(ys ! (m - 1) := None),
    left := (if odd m then (left q)(p := None) else left q), right := (if odd m then right q else (right q)(p := None)),
    queue := queue q - {n}, n_nodes := n_nodes q - 1\<rparr>"
  have rem: "remove_last n q = Some q'"
    using n lp rp lp' repD(3) [OF assms(1)] by (auto simp: remove_last_def q'_def)
  have "placed q' ys k" if k: "k < length ys" for k
  proof -
    have km: "k < m" using k by (simp add: m_def)
    have pk: "placed q (ys @ [n]) k" using assms(1) k by (simp add: rep_def)
    have ix: "ys ! k = p \<longleftrightarrow> k = j" "ys ! k = ys ! (m - 1) \<longleftrightarrow> k = m - 1"
      using nth_eq_iff_index_eq [OF d(2)] k j m(1) by (simp_all add: p_def m_def)
    have "left q' (ys ! k) = (if k = j \<and> odd m then None else left q (ys ! k))"
      "right q' (ys ! k) = (if k = j \<and> even m then None else right q (ys ! k))"
      "next_node q' (ys ! k) = (if k = m - 1 then None else next_node q (ys ! k))"
      unfolding ix [symmetric] by (simp_all add: q'_def)
    moreover have "at ys m = None" "k = m - 1 \<longleftrightarrow> k + 1 = m" using m(1) by (auto simp: at_def m_def)
    ultimately have "left q' (ys ! k) = at ys (2 * k + 1)" "right q' (ys ! k) = at ys (2 * k + 2)"
      "next_node q' (ys ! k) = at ys (k + 1)"
      unfolding i(1-3) [OF km] old kid [symmetric] by presburger+
    with pk k show ?thesis by (auto simp: placed_def q'_def nth_append)
  qed
  then have "rep q' ys"
    using repD [OF assms(1)] d m(1) assms(2)
    by (auto simp: rep_def q'_def at_snoc last_conv_nth m_def at_def nth_append)
  with rem show ?thesis by (simp add: q'_def)
qed

section \<open>The operations on queues in order\<close>

lemma pq_ok_new: "pq_ok cmp (avahi_prio_queue_new junk)" "queue (avahi_prio_queue_new junk) = {}"
  by (auto simp: pq_ok_def rep_def heap_ordered_def avahi_prio_queue_new_def at_def intro!: exI [of _ "[]"])

lemma pq_root_None: "pq_ok cmp q \<Longrightarrow> root q = None \<longleftrightarrow> queue q = {}"
  by (auto simp: pq_ok_def rep_def at_def split: if_splits)

lemma pq_root_in: "pq_ok cmp q \<Longrightarrow> root q = Some n \<Longrightarrow> n \<in> queue q"
  by (auto simp: pq_ok_def rep_def at_def split: if_splits)

lemma pq_finite: "pq_ok cmp q \<Longrightarrow> finite (queue q) \<and> card (queue q) = n_nodes q"
  unfolding pq_ok_def rep_def by (metis List.finite_set distinct_card)

lemma heap_ordered_snoc: "heap_ordered cmp d (xs @ [n]) \<Longrightarrow> heap_ordered cmp d xs"
proof -
  assume h: "heap_ordered cmp d (xs @ [n])"
  have "cmp (d (xs ! ((k - 1) div 2))) (d (xs ! k)) \<le> 0" if "0 < k" "k < length xs" for k
  proof -
    have "(k - 1) div 2 < length xs" using that by linarith
    with h that show ?thesis unfolding heap_ordered_def by (auto simp: nth_append dest!: spec [of _ k])
  qed
  then show ?thesis by (simp add: heap_ordered_def)
qed

context c_compare
begin

text \<open>The root is a least element.\<close>

lemma heap_ordered_root:
  assumes "heap_ordered cmp d xs" "i < length xs"
  shows "cmp (d (xs ! 0)) (d (xs ! i)) \<le> 0"
  using assms(2)
proof (induction i rule: less_induct)
  case (less i)
  show ?case
  proof (cases "i = 0")
    case True
    then show ?thesis using cmp_refl [of "d (xs ! 0)"] by simp
  next
    case False
    then have p: "(i - 1) div 2 < i" by (intro parent_less) simp
    have "cmp (d (xs ! 0)) (d (xs ! ((i - 1) div 2))) \<le> 0" using less p by simp
    moreover have "cmp (d (xs ! ((i - 1) div 2))) (d (xs ! i)) \<le> 0"
      using assms(1) less.prems False by (simp add: heap_ordered_def)
    ultimately show ?thesis by (rule cmp_trans)
  qed
qed

lemma pq_root_least:
  assumes "pq_ok cmp q" "root q = Some n" "m \<in> queue q"
  shows "cmp (node_data q n) (node_data q m) \<le> 0"
proof -
  obtain xs where xs: "rep q xs" "heap_ordered cmp (node_data q) xs" using assms(1) by (auto simp: pq_ok_def)
  obtain i where "i < length xs" "xs ! i = m" using rep_index [OF xs(1) assms(3)] by blast
  moreover have "n = xs ! 0" using assms(2) repD(4) [OF xs(1)] by (auto simp: at_def split: if_splits)
  ultimately show ?thesis using heap_ordered_root [OF xs(2)] by blast
qed

lemma put_ok:
  assumes "pq_ok cmp q" "n \<notin> queue q"
  shows "\<exists>q'. avahi_prio_queue_put cmp n x q = Some q' \<and> pq_ok cmp q' \<and> queue q' = insert n (queue q) \<and>
    node_data q' = (node_data q)(n := x)"
proof -
  obtain xs where xs: "rep q xs" "heap_ordered cmp (node_data q) xs" using assms(1) by (auto simp: pq_ok_def)
  let ?d = "(node_data q)(n := x)"
  define q1 where "q1 = q\<lparr>queue := insert n (queue q), node_data := ?d\<rparr>"
  have last: "last_node q1 = (if xs = [] then None else Some (last xs))" using repD(5) [OF xs(1)] by (simp add: q1_def)
  obtain q2 where q2: "(case last_node q1 of Some l \<Rightarrow> put_below n l q1 | None \<Rightarrow> put_root n q1) = Some q2"
    "rep (q2\<lparr>next_node := (next_node q2)(n := None), left := (left q2)(n := None), right := (right q2)(n := None),
      last_node := Some n, n_nodes := n_nodes q2 + 1\<rparr>) (xs @ [n])" "node_data q2 = ?d" "queue q2 = insert n (queue q)"
  proof (cases "xs = []")
    case True
    with put_root_rep [where q = q and ?q1.0 = q1 and n = n and dd = ?d] xs(1) last show ?thesis by (auto simp: q1_def intro: that)
  next
    case False
    with put_below_rep [OF xs(1) False assms(2), where l = "last xs" and ?q1.0 = q1 and dd = ?d] last repD(5) [OF xs(1)] show ?thesis
      by (auto simp: q1_def intro: that)
  qed
  define q3 where "q3 = q2\<lparr>next_node := (next_node q2)(n := None), left := (left q2)(n := None),
    right := (right q2)(n := None), last_node := Some n, n_nodes := n_nodes q2 + 1\<rparr>"
  have q3: "rep q3 (xs @ [n])" "node_data q3 = ?d" "queue q3 = insert n (queue q)"
    using q2(2-4) by (simp_all add: q3_def)
  have "almost_ordered cmp (node_data q3) (xs @ [n]) (length xs)"
    unfolding almost_ordered_def
  proof (intro conjI allI impI; elim conjE)
    fix k assume k: "0 < k" "k < length (xs @ [n])" "k \<noteq> length xs" "(k - 1) div 2 \<noteq> length xs"
    have l: "k < length xs" "(k - 1) div 2 < length xs" using k by auto
    then have "xs ! k \<noteq> n" "xs ! ((k - 1) div 2) \<noteq> n" using assms(2) repD(2) [OF xs(1)] nth_mem by blast+
    with xs(2) k(1) l show "cmp (node_data q3 ((xs @ [n]) ! ((k - 1) div 2))) (node_data q3 ((xs @ [n]) ! k)) \<le> 0"
      by (simp add: heap_ordered_def q3(2) nth_append)
  qed auto
  then obtain q' where "avahi_prio_queue_shuffle cmp n q3 = Some q'" "pq_ok cmp q'" "queue q' = queue q3"
    "node_data q' = node_data q3"
    using shuffle_ok [OF q3(1), of "length xs" n] by auto
  moreover have "avahi_prio_queue_put cmp n x q = avahi_prio_queue_shuffle cmp n q3"
    using q2(1) by (simp add: avahi_prio_queue_put_def q1_def [symmetric] q3_def Let_def)
  ultimately show ?thesis using q3 by auto
qed

lemma remove_ok:
  assumes "pq_ok cmp q" "n \<in> queue q"
  shows "\<exists>q'. avahi_prio_queue_remove cmp n q = Some q' \<and> pq_ok cmp q' \<and> queue q' = queue q - {n} \<and>
    node_data q' = node_data q"
proof -
  obtain xs where xs: "rep q xs" "heap_ordered cmp (node_data q) xs" using assms(1) by (auto simp: pq_ok_def)
  have ne: "xs \<noteq> []" using assms(2) repD(2) [OF xs(1)] by auto
  then obtain ys l where ys: "xs = ys @ [l]" by (metis append_butlast_last_id)
  have last: "last_node q = Some l" using repD(5) [OF xs(1)] ys by simp
  have rl: "\<exists>q'. remove_last k p = Some q' \<and> rep q' zs \<and> node_data q' = node_data p \<and> queue q' = queue p - {k}"
    if "rep p (zs @ [k])" for p :: "'a AvahiPrioQueue" and k zs
    using remove_last_single [of p k] remove_last_rep [of p zs k] that by (cases "zs = []") auto
  show ?thesis
  proof (cases "n = l")
    case True
    then have "avahi_prio_queue_remove cmp n q = remove_last n q"
      using assms(2) last by (simp add: avahi_prio_queue_remove.simps [of cmp l q])
    with rl [of q ys n] xs True ys heap_ordered_snoc [of cmp "node_data q" ys l] show ?thesis
      by (fastforce simp: pq_ok_def)
  next
    case False
    define q1 where "q1 = exchange_nodes l n q"
    have l: "l \<in> queue q" using ys repD(2) [OF xs(1)] by auto
    obtain i where i: "i < length ys" "ys ! i = n"
      using assms(2) False ys repD(2) [OF xs(1)] by (metis Un_iff empty_iff empty_set in_set_conv_nth insert_iff list.simps(15) set_append)
    have d: "distinct (ys @ [l])" using repD(1) [OF xs(1)] ys by simp
    have r1: "rep q1 (map (sw l n) ys @ [n])"
      using rep_exchange [OF xs(1) l assms(2)] False ys by (simp add: q1_def sw_def)
    have q1: "queue q1 = queue q" "node_data q1 = node_data q" "last_node q1 = Some n"
      using repD(5) [OF r1] by (simp_all add: q1_def)
    then have "avahi_prio_queue_remove cmp n q1 = remove_last n q1"
      using assms(2) by (simp add: avahi_prio_queue_remove.simps [of cmp n q1])
    then obtain q2 where q2: "avahi_prio_queue_remove cmp n q1 = Some q2" "rep q2 (map (sw l n) ys)"
      "node_data q2 = node_data q" "queue q2 = queue q - {n}" using rl [OF r1] q1 by auto
    have "almost_ordered cmp (node_data q2) (map (sw l n) ys) i"
    proof (rule almost_ordered_upd [OF _ heap_ordered_snoc [OF xs(2) [unfolded ys]] i(1)])
      fix k assume k: "k < length ys" "k \<noteq> i"
      then have "ys ! k \<noteq> n" "ys ! k \<noteq> l" using d i nth_eq_iff_index_eq [of ys k i] nth_mem by auto
      with k show "node_data q2 (map (sw l n) ys ! k) = node_data q (ys ! k)" by (simp add: q2(3) sw_def)
    qed (use d in auto)
    moreover have "i < length (map (sw l n) ys)" "map (sw l n) ys ! i = l" using i by (simp_all add: sw_def)
    ultimately obtain q3 where "avahi_prio_queue_shuffle cmp l q2 = Some q3" "pq_ok cmp q3" "queue q3 = queue q2"
      "node_data q3 = node_data q2" using shuffle_ok [OF q2(2), of i l] by auto
    moreover have "avahi_prio_queue_remove cmp n q = Option.bind (avahi_prio_queue_remove cmp n q1) (avahi_prio_queue_shuffle cmp l)"
      using assms(2) last False by (simp add: avahi_prio_queue_remove.simps [of cmp n q] q1_def)
    ultimately show ?thesis using q2 by auto
  qed
qed

lemma free_ok: "pq_ok cmp q \<Longrightarrow> \<exists>q'. avahi_prio_queue_free cmp q = Some q' \<and> queue q' = {}"
proof (induction "n_nodes q" arbitrary: q rule: less_induct)
  case less
  show ?case
  proof (cases "last_node q")
    case None
    then have "n_nodes q = 0" "queue q = {}" using less.prems by (auto simp: pq_ok_def rep_def split: if_splits)
    with None show ?thesis by (simp add: avahi_prio_queue_free.simps [of cmp q])
  next
    case (Some n)
    then have n: "n \<in> queue q" using less.prems by (auto simp: pq_ok_def rep_def split: if_splits)
    then obtain q' where q': "avahi_prio_queue_remove cmp n q = Some q'" "pq_ok cmp q'" "queue q' = queue q - {n}"
      using remove_ok [OF less.prems] by blast
    have "n_nodes q' < n_nodes q"
      using pq_finite [OF less.prems] pq_finite [OF q'(2)] n unfolding q'(3) by (metis card_Diff1_less)
    with less.hyps [OF _ q'(2)] q'(1) Some show ?thesis by (simp add: avahi_prio_queue_free.simps [of cmp q])
  qed
qed

end

end
