(* ===== verification/Prioq_Contract.thy ===== *)
theory Prioq_Contract
  imports Prioq_Ops
begin

text \<open>
  The contract of a priority queue, which the queue of time events relies on, and that
  \<^verbatim>\<open>avahi-core/prioq.c\<close> fulfils it for every comparison that is a total preorder.
\<close>

locale prio_queue =
  fixes cmp :: "'a \<Rightarrow> 'a \<Rightarrow> int"
    and ok :: "'q \<Rightarrow> bool"
    and elems :: "'q \<Rightarrow> nat set"
    and item :: "'q \<Rightarrow> nat \<Rightarrow> 'a"
    and first :: "'q \<Rightarrow> nat option"
    and put :: "nat \<Rightarrow> 'a \<Rightarrow> 'q \<Rightarrow> 'q option"
    and remove :: "nat \<Rightarrow> 'q \<Rightarrow> 'q option"
    and change :: "nat \<Rightarrow> 'a \<Rightarrow> 'q \<Rightarrow> 'q option"
  assumes elems_finite: "ok q \<Longrightarrow> finite (elems q)"
    and first_None: "ok q \<Longrightarrow> first q = None \<longleftrightarrow> elems q = {}"
    and first_in: "ok q \<Longrightarrow> first q = Some n \<Longrightarrow> n \<in> elems q"
    and first_least: "ok q \<Longrightarrow> first q = Some n \<Longrightarrow> m \<in> elems q \<Longrightarrow> cmp (item q n) (item q m) \<le> 0"
    and put_law: "ok q \<Longrightarrow> n \<notin> elems q \<Longrightarrow>
      \<exists>q'. put n x q = Some q' \<and> ok q' \<and> elems q' = insert n (elems q) \<and> item q' = (item q)(n := x)"
    and remove_law: "ok q \<Longrightarrow> n \<in> elems q \<Longrightarrow>
      \<exists>q'. remove n q = Some q' \<and> ok q' \<and> elems q' = elems q - {n} \<and> item q' = item q"
    and change_law: "ok q \<Longrightarrow> n \<in> elems q \<Longrightarrow>
      \<exists>q'. change n x q = Some q' \<and> ok q' \<and> elems q' = elems q \<and> item q' = (item q)(n := x)"
begin

lemma first_exists: "ok q \<Longrightarrow> elems q \<noteq> {} \<Longrightarrow> \<exists>n \<in> elems q. first q = Some n"
  using first_None first_in by (metis not_None_eq)

text \<open>Removing the first element leaves the greater ones and one element less.\<close>

lemma remove_first:
  assumes "ok q" "first q = Some n"
  obtains q' where "remove n q = Some q'" "ok q'" "elems q' = elems q - {n}" "item q' = item q"
    "card (elems q) = Suc (card (elems q'))" "\<And>m. m \<in> elems q' \<Longrightarrow> cmp (item q n) (item q m) \<le> 0"
proof -
  obtain q' where q': "remove n q = Some q'" "ok q'" "elems q' = elems q - {n}" "item q' = item q"
    using remove_law [OF assms(1) first_in [OF assms]] by blast
  moreover have "card (elems q) = Suc (card (elems q'))"
    using first_in [OF assms] elems_finite [OF assms(1)] q'(3) by (metis card_Suc_Diff1)
  ultimately show ?thesis using that first_least [OF assms] by simp
qed

end

definition change_data ::
  "('a \<Rightarrow> 'a \<Rightarrow> int) \<Rightarrow> nat \<Rightarrow> 'a \<Rightarrow> 'a AvahiPrioQueue \<Rightarrow> 'a AvahiPrioQueue option" where
  "change_data cmp n x q = avahi_prio_queue_shuffle cmp n (q\<lparr>node_data := (node_data q)(n := x)\<rparr>)"

sublocale c_compare \<subseteq> pq: prio_queue cmp "pq_ok cmp" queue node_data root
  "avahi_prio_queue_put cmp" "avahi_prio_queue_remove cmp" "change_data cmp"
proof unfold_locales
  show "\<And>q. pq_ok cmp q \<Longrightarrow> finite (queue q)" using pq_finite by blast
  show "\<And>q. pq_ok cmp q \<Longrightarrow> (root q = None) = (queue q = {})" using pq_root_None by blast
  show "\<And>q n. pq_ok cmp q \<Longrightarrow> root q = Some n \<Longrightarrow> n \<in> queue q" using pq_root_in by blast
  show "\<And>q n m. pq_ok cmp q \<Longrightarrow> root q = Some n \<Longrightarrow> m \<in> queue q \<Longrightarrow> cmp (node_data q n) (node_data q m) \<le> 0"
    by (rule pq_root_least)
  show "\<And>q n x. pq_ok cmp q \<Longrightarrow> n \<notin> queue q \<Longrightarrow>
      \<exists>q'. avahi_prio_queue_put cmp n x q = Some q' \<and> pq_ok cmp q' \<and> queue q' = insert n (queue q) \<and>
        node_data q' = (node_data q)(n := x)" by (rule put_ok)
  show "\<And>q n. pq_ok cmp q \<Longrightarrow> n \<in> queue q \<Longrightarrow>
      \<exists>q'. avahi_prio_queue_remove cmp n q = Some q' \<and> pq_ok cmp q' \<and> queue q' = queue q - {n} \<and>
        node_data q' = node_data q" by (rule remove_ok)
  show "\<And>q n x. pq_ok cmp q \<Longrightarrow> n \<in> queue q \<Longrightarrow>
      \<exists>q'. change_data cmp n x q = Some q' \<and> pq_ok cmp q' \<and> queue q' = queue q \<and>
        node_data q' = (node_data q)(n := x)" unfolding change_data_def by (rule shuffle_changed)
qed

section \<open>Properties\<close>

text \<open>C18. Exchanging two nodes is a swap: on a queue whose links represent the list of its nodes in level
  order, the rewiring of parents, children and neighbours in \<open>exchange_nodes\<close>, with its cases for nodes that
  are next to each other in the tree or in level order, gives a queue whose links represent the list with the two
  nodes swapped.\<close>

theorem exchange_nodes_swaps:
  assumes "rep q xs" "i < length xs" "j < length xs" "i \<noteq> j"
  shows "rep (exchange_nodes (xs ! i) (xs ! j) q) (xs[i := xs ! j, j := xs ! i])"
proof -
  have d: "distinct xs" using assms(1) by (rule repD)
  have "map (sw (xs ! i) (xs ! j)) xs = xs[i := xs ! j, j := xs ! i]"
    by (rule nth_equalityI) (use assms(2-4) nth_sw [OF d assms(2,3)] in \<open>auto simp: nth_list_update\<close>)
  moreover have "xs ! i \<noteq> xs ! j" using nth_eq_iff_index_eq [OF d assms(2,3)] assms(4) by simp
  ultimately show ?thesis
    using rep_exchange [OF assms(1) rep_node(6) [OF assms(1,2)] rep_node(6) [OF assms(1,3)]] by simp
qed

text \<open>C10. Operations of the queue: whenever a queue is in order, each operation returns without a failed
  assertion and leaves a queue in order. Putting a fresh node adds it, removing a node takes away this one
  only, and moving a node whose data has changed keeps all nodes; the root is NULL exactly when the queue is
  empty, and otherwise a node with a least element; freeing removes every node.\<close>

theorem prio_queue_operations:
  assumes "c_compare cmp" "pq_ok cmp q"
  shows "(n \<notin> queue q \<longrightarrow> (\<exists>q'. avahi_prio_queue_put cmp n x q = Some q' \<and> pq_ok cmp q' \<and>
      queue q' = insert n (queue q) \<and> node_data q' = (node_data q)(n := x))) \<and>
    (n \<in> queue q \<longrightarrow> (\<exists>q'. avahi_prio_queue_remove cmp n q = Some q' \<and> pq_ok cmp q' \<and>
      queue q' = queue q - {n} \<and> node_data q' = node_data q)) \<and>
    (n \<in> queue q \<longrightarrow> (\<exists>q'. avahi_prio_queue_shuffle cmp n (q\<lparr>node_data := (node_data q)(n := x)\<rparr>) = Some q' \<and>
      pq_ok cmp q' \<and> queue q' = queue q \<and> node_data q' = (node_data q)(n := x))) \<and>
    (root q = None \<longleftrightarrow> queue q = {}) \<and>
    (\<forall>r m. root q = Some r \<and> m \<in> queue q \<longrightarrow> r \<in> queue q \<and> cmp (node_data q r) (node_data q m) \<le> 0) \<and>
    (\<exists>q'. avahi_prio_queue_free cmp q = Some q' \<and> queue q' = {})"
  using c_compare.put_ok [OF assms, of n x] c_compare.remove_ok [OF assms, of n]
    c_compare.shuffle_changed [OF assms, of n x] pq_root_None [OF assms(2)] pq_root_in [OF assms(2)]
    c_compare.pq_root_least [OF assms] c_compare.free_ok [OF assms]
  by blast

interpretation int_order: c_compare "\<lambda>a b :: int. a - b"
  by unfold_locales simp_all

theorem prio_queue_operations_witness:
  "\<exists>q'. avahi_prio_queue_put (\<lambda>a b :: int. a - b) 0 5 (avahi_prio_queue_new undefined) = Some q' \<and>
     pq_ok (\<lambda>a b. a - b) q' \<and> queue q' = {0}"
proof -
  have n: "0 \<notin> queue (avahi_prio_queue_new undefined)" by (simp add: avahi_prio_queue_new_def)
  from prio_queue_operations [OF int_order.c_compare_axioms pq_ok_new(1), of 0 undefined 5] n show ?thesis
    by (auto simp: pq_ok_new(2))
qed

theorem exchange_nodes_swaps_witness:
  "\<exists>q :: int AvahiPrioQueue. rep q [1, 2] \<and> rep (exchange_nodes 1 2 q) [2, 1]"
proof -
  define q :: "int AvahiPrioQueue" where "q = undefined\<lparr>root := Some 1, last_node := Some 2, n_nodes := 2, queue := {1, 2},
    node_x := (\<lambda>_. 0), node_y := (\<lambda>n. if n = 1 then 0 else 1), left := (\<lambda>n. if n = 1 then Some 2 else None),
    right := (\<lambda>_. None), parent := (\<lambda>n. if n = 1 then None else Some 1),
    next_node := (\<lambda>n. if n = 1 then Some 2 else None), prev_node := (\<lambda>n. if n = 1 then None else Some 1)\<rparr>"
  have "rep q [1, 2]" by (auto simp: rep_def q_def at_def placed_def less_Suc_eq numeral_2_eq_2)
  moreover from exchange_nodes_swaps [OF this, of 0 1] have "rep (exchange_nodes 1 2 q) [2, 1]" by simp
  ultimately show ?thesis by blast
qed

end
