(* ===== verification/Timeeventq.thy ===== *)
theory Timeeventq
  imports Prioq_Contract Timeval
begin

text \<open>
  \<^verbatim>\<open>avahi-core/timeeventq.c\<close>: events that run at a point in time, in a priority queue. An event and the node
  of the priority queue that refers to it are one: an event is given by its node, and the data of the node
  is the event. The timeout of the event loop is the field \<open>timeout\<close>, the time of the last call of
  \<open>timeout_update\<close> (\<^const>\<open>None\<close> for NULL, with which the timeout never elapses); the loop calls
  \<open>expiration_event\<close> when this time has come.

  The callbacks are code of the users of the queue: \<open>run\<close>, which gives for a callback and an event what the
  callback does to the queue, is an argument. \<^const>\<open>None\<close> as a result is a failed assertion.
\<close>

section \<open>Events and queues\<close>

record 'c AvahiTimeEvent =
  expiry :: timeval
  last_run :: timeval
  callback :: 'c

record 'c AvahiTimeEventQueue =
  prioq :: "'c AvahiTimeEvent AvahiPrioQueue"
  timeout :: "timeval option"

definition compare_events :: "'c AvahiTimeEvent \<Rightarrow> 'c AvahiTimeEvent \<Rightarrow> int" where
  "compare_events a b =
     (let ret = avahi_timeval_compare (expiry a) (expiry b) in
      if ret \<noteq> 0 then ret else avahi_timeval_compare (last_run a) (last_run b))"

definition time_event_queue_root :: "'c AvahiTimeEventQueue \<Rightarrow> nat option" where
  "time_event_queue_root q = root (prioq q)"

definition event :: "'c AvahiTimeEventQueue \<Rightarrow> nat \<Rightarrow> 'c AvahiTimeEvent" where
  "event q e = node_data (prioq q) e"

definition update_timeout :: "'c AvahiTimeEventQueue \<Rightarrow> 'c AvahiTimeEventQueue" where
  "update_timeout q =
     (case time_event_queue_root q of
        Some e \<Rightarrow> q\<lparr>timeout := Some (expiry (event q e))\<rparr>
      | None \<Rightarrow> q\<lparr>timeout := None\<rparr>)"

text \<open>
  The expiration up to the call of the callback, which is the call for the event in the result, and the whole of
  it. \<open>now\<close> is the result of \<open>gettimeofday\<close>.
\<close>

definition expiration_start ::
  "timeval \<Rightarrow> 'c AvahiTimeEventQueue \<Rightarrow> (nat option \<times> 'c AvahiTimeEventQueue) option" where
  "expiration_start now q =
     (case time_event_queue_root q of
        Some e \<Rightarrow>
          if avahi_timeval_compare now (expiry (event q e)) \<ge> 0 then
            do {
              let p = prioq q;
              let p = p\<lparr>node_data := (node_data p)(e := (node_data p e)\<lparr>last_run := now\<rparr>)\<rparr>;
              p \<leftarrow> avahi_prio_queue_shuffle compare_events e p;
              Some (Some e, q\<lparr>prioq := p\<rparr>)
            }
          else Some (None, q)
      | None \<Rightarrow> Some (None, q))"

definition expiration_event ::
  "('c \<Rightarrow> nat \<Rightarrow> 'c AvahiTimeEventQueue \<Rightarrow> 'c AvahiTimeEventQueue option) \<Rightarrow> timeval \<Rightarrow>
   'c AvahiTimeEventQueue \<Rightarrow> 'c AvahiTimeEventQueue option" where
  "expiration_event run now q =
     do {
       (due, q) \<leftarrow> expiration_start now q;
       q \<leftarrow> (case due of Some e \<Rightarrow> run (callback (event q e)) e q | None \<Rightarrow> Some q);
       Some (update_timeout q)
     }"

definition avahi_time_event_queue_new ::
  "'c AvahiTimeEvent AvahiPrioQueue \<Rightarrow> 'c AvahiTimeEventQueue" where
  "avahi_time_event_queue_new junk = \<lparr>prioq = avahi_prio_queue_new junk, timeout = None\<rparr>"

text \<open>
  \<open>e\<close> is the address of the new event, \<open>tv\<close> the time or NULL. \<open>fix_expiry_time\<close> returns before it does
  anything.
\<close>

definition avahi_time_event_new ::
  "nat \<Rightarrow> timeval option \<Rightarrow> 'c \<Rightarrow> 'c AvahiTimeEventQueue \<Rightarrow> 'c AvahiTimeEventQueue option" where
  "avahi_time_event_new e tv cb q =
     do {
       let ev = \<lparr>expiry = (case tv of Some t \<Rightarrow> t | None \<Rightarrow> \<lparr>tv_sec = 0, tv_usec = 0\<rparr>),
                 last_run = \<lparr>tv_sec = 0, tv_usec = 0\<rparr>, callback = cb\<rparr>;
       p \<leftarrow> avahi_prio_queue_put compare_events e ev (prioq q);
       Some (update_timeout (q\<lparr>prioq := p\<rparr>))
     }"

definition avahi_time_event_free :: "nat \<Rightarrow> 'c AvahiTimeEventQueue \<Rightarrow> 'c AvahiTimeEventQueue option" where
  "avahi_time_event_free e q =
     do {
       p \<leftarrow> avahi_prio_queue_remove compare_events e (prioq q);
       Some (update_timeout (q\<lparr>prioq := p\<rparr>))
     }"

definition avahi_time_event_update ::
  "nat \<Rightarrow> timeval \<Rightarrow> 'c AvahiTimeEventQueue \<Rightarrow> 'c AvahiTimeEventQueue option" where
  "avahi_time_event_update e tv q =
     do {
       let p = prioq q;
       let p = p\<lparr>node_data := (node_data p)(e := (node_data p e)\<lparr>expiry := tv\<rparr>)\<rparr>;
       p \<leftarrow> avahi_prio_queue_shuffle compare_events e p;
       Some (update_timeout (q\<lparr>prioq := p\<rparr>))
     }"

text \<open>The loop of \<open>avahi_time_event_queue_free\<close>, which frees all events before the priority queue.\<close>

partial_function (option) free_events :: "'c AvahiTimeEventQueue \<Rightarrow> 'c AvahiTimeEventQueue option" where
  "free_events q =
     (case time_event_queue_root q of
        Some e \<Rightarrow> do { q \<leftarrow> avahi_time_event_free e q; free_events q }
      | None \<Rightarrow> Some q)"

definition avahi_time_event_queue_free :: "'c AvahiTimeEventQueue \<Rightarrow> 'c AvahiTimeEvent AvahiPrioQueue option" where
  "avahi_time_event_queue_free q = do { q \<leftarrow> free_events q; avahi_prio_queue_free compare_events (prioq q) }"

section \<open>The invariant\<close>

interpretation event_order: c_compare "compare_events :: 'c AvahiTimeEvent \<Rightarrow> 'c AvahiTimeEvent \<Rightarrow> int"
proof unfold_locales
  fix a b c :: "'c AvahiTimeEvent"
  show "compare_events a b < 0 \<longleftrightarrow> compare_events b a > 0"
    using timeval_order.cmp_swap [of "expiry a" "expiry b"] timeval_order.cmp_swap [of "expiry b" "expiry a"]
      timeval_order.cmp_swap [of "last_run a" "last_run b"]
    by (auto simp: compare_events_def Let_def)
  show "compare_events a b \<le> 0 \<Longrightarrow> compare_events b c \<le> 0 \<Longrightarrow> compare_events a c \<le> 0"
    by (auto simp: compare_events_def Let_def avahi_timeval_compare_def split: if_splits)
qed

definition events :: "'c AvahiTimeEventQueue \<Rightarrow> nat set" where
  "events q = queue (prioq q)"

text \<open>The priority queue is in order and the timeout is armed for the first event.\<close>

definition teq_ok :: "'c AvahiTimeEventQueue \<Rightarrow> bool" where
  "teq_ok q =
     (pq_ok compare_events (prioq q) \<and>
      timeout q = map_option (\<lambda>e. expiry (event q e)) (root (prioq q)))"

lemma update_timeout_fields [simp]:
  "prioq (update_timeout q) = prioq q" "events (update_timeout q) = events q" "event (update_timeout q) = event q"
  by (simp_all add: update_timeout_def events_def event_def fun_eq_iff split: option.split)

lemma update_timeout_ok: "pq_ok compare_events (prioq q) \<Longrightarrow> teq_ok (update_timeout q)"
  by (simp add: teq_ok_def update_timeout_def event_def time_event_queue_root_def split: option.split)

lemma teq_pq: "teq_ok q \<Longrightarrow> pq_ok compare_events (prioq q)"
  by (simp add: teq_ok_def)

lemma event_new_ok:
  assumes "teq_ok q" "e \<notin> events q"
  obtains q' where "avahi_time_event_new e tv cb q = Some q'" "teq_ok q'" "events q' = insert e (events q)"
    "event q' = (event q)(e := \<lparr>expiry = (case tv of Some t \<Rightarrow> t | None \<Rightarrow> \<lparr>tv_sec = 0, tv_usec = 0\<rparr>),
      last_run = \<lparr>tv_sec = 0, tv_usec = 0\<rparr>, callback = cb\<rparr>)"
proof -
  let ?e = "\<lparr>expiry = (case tv of Some t \<Rightarrow> t | None \<Rightarrow> \<lparr>tv_sec = 0, tv_usec = 0\<rparr>),
      last_run = \<lparr>tv_sec = 0, tv_usec = 0\<rparr>, callback = cb\<rparr>"
  obtain p where "avahi_prio_queue_put compare_events e ?e (prioq q) = Some p" "pq_ok compare_events p"
    "queue p = insert e (queue (prioq q))" "node_data p = (node_data (prioq q))(e := ?e)"
    using event_order.pq.put_law [OF teq_pq [OF assms(1)]] assms(2) unfolding events_def by blast
  then show ?thesis
    by (intro that [of "update_timeout (q\<lparr>prioq := p\<rparr>)"])
      (simp_all add: avahi_time_event_new_def update_timeout_ok, simp_all add: events_def event_def fun_eq_iff)
qed

lemma event_free_ok:
  assumes "teq_ok q" "e \<in> events q"
  obtains q' where "avahi_time_event_free e q = Some q'" "teq_ok q'" "events q' = events q - {e}" "event q' = event q"
proof -
  obtain p where "avahi_prio_queue_remove compare_events e (prioq q) = Some p" "pq_ok compare_events p"
    "queue p = queue (prioq q) - {e}" "node_data p = node_data (prioq q)"
    using event_order.pq.remove_law [OF teq_pq [OF assms(1)]] assms(2) unfolding events_def by blast
  then show ?thesis
    by (intro that [of "update_timeout (q\<lparr>prioq := p\<rparr>)"])
      (simp_all add: avahi_time_event_free_def update_timeout_ok, simp_all add: events_def event_def fun_eq_iff)
qed

lemma event_update_ok:
  assumes "teq_ok q" "e \<in> events q"
  obtains q' where "avahi_time_event_update e tv q = Some q'" "teq_ok q'" "events q' = events q"
    "event q' = (event q)(e := (event q e)\<lparr>expiry := tv\<rparr>)"
proof -
  obtain p where "change_data compare_events e ((node_data (prioq q) e)\<lparr>expiry := tv\<rparr>) (prioq q) = Some p"
    "pq_ok compare_events p" "queue p = queue (prioq q)"
    "node_data p = (node_data (prioq q))(e := (node_data (prioq q) e)\<lparr>expiry := tv\<rparr>)"
    using event_order.pq.change_law [OF teq_pq [OF assms(1)]] assms(2) unfolding events_def by blast
  then show ?thesis
    by (intro that [of "update_timeout (q\<lparr>prioq := p\<rparr>)"])
      (simp_all add: avahi_time_event_update_def update_timeout_ok change_data_def,
        simp_all add: events_def event_def fun_eq_iff)
qed

lemma timeval_compare_0: "avahi_timeval_compare a b = 0 \<longleftrightarrow> a = b"
  by (auto simp: avahi_timeval_compare_def)

lemma first_expiry:
  assumes "pq_ok compare_events (prioq q)" "root (prioq q) = Some e" "f \<in> events q"
  shows "avahi_timeval_compare (expiry (event q e)) (expiry (event q f)) \<le> 0"
  using event_order.pq.first_least [OF assms(1,2), of f] assms(3)
  by (auto simp: compare_events_def Let_def events_def event_def split: if_splits)

text \<open>An event that is due: it is marked as run, and its callback is called on a queue in order.\<close>

lemma expiration_due:
  assumes "teq_ok q" "root (prioq q) = Some e" "avahi_timeval_compare now (expiry (event q e)) \<ge> 0"
  obtains q1 where "expiration_start now q = Some (Some e, q1)"
    "expiration_event run now q = map_option update_timeout (run (callback (event q e)) e q1)"
    "teq_ok q1" "events q1 = events q" "event q1 = (event q)(e := (event q e)\<lparr>last_run := now\<rparr>)" "e \<in> events q"
proof -
  note pq = teq_pq [OF assms(1)]
  let ?x = "(node_data (prioq q) e)\<lparr>last_run := now\<rparr>"
  have e: "e \<in> queue (prioq q)" using event_order.pq.first_in [OF pq assms(2)] .
  obtain p where p: "change_data compare_events e ?x (prioq q) = Some p" "pq_ok compare_events p"
    "queue p = queue (prioq q)" "node_data p = (node_data (prioq q))(e := ?x)"
    using event_order.pq.change_law [OF pq e] by blast
  define q1 where "q1 = q\<lparr>prioq := p\<rparr>"
  have ev: "events q1 = events q" "event q1 = (event q)(e := (event q e)\<lparr>last_run := now\<rparr>)"
    using p by (simp_all add: q1_def events_def event_def fun_eq_iff)
  have ok1: "pq_ok compare_events (prioq q1)" using p(2) by (simp add: q1_def)
  obtain r where r: "root p = Some r" "r \<in> queue p"
    using event_order.pq.first_exists [OF p(2)] e p(3) by blast
  have "expiry (event q1 r) = expiry (event q e)"
  proof -
    have "avahi_timeval_compare (expiry (event q1 r)) (expiry (event q1 e)) \<le> 0"
      using first_expiry [OF ok1, of r e] r(1) e ev(1) by (simp add: q1_def events_def)
    moreover have "avahi_timeval_compare (expiry (event q e)) (expiry (event q r)) \<le> 0"
      using first_expiry [OF pq assms(2), of r] r(2) p(3) by (simp add: events_def)
    ultimately have "avahi_timeval_compare (expiry (event q e)) (expiry (event q1 r)) = 0"
      using timeval_order.cmp_le_swap [of "expiry (event q1 r)" "expiry (event q e)"] by (auto simp: ev split: if_splits)
    then show ?thesis by (simp add: timeval_compare_0)
  qed
  then have "teq_ok q1" using assms(1,2) ok1 r(1) by (simp add: teq_ok_def q1_def)
  moreover have start: "expiration_start now q = Some (Some e, q1)"
    using assms(2,3) p(1,4) by (simp add: expiration_start_def time_event_queue_root_def change_data_def q1_def event_def)
  moreover have "callback (event q1 e) = callback (event q e)" using ev(2) by simp
  then have "expiration_event run now q = map_option update_timeout (run (callback (event q e)) e q1)"
    by (cases "run (callback (event q e)) e q1") (simp_all add: expiration_event_def start)
  ultimately show ?thesis using that ev e by (simp add: events_def)
qed

section \<open>Properties\<close>

text \<open>C12. The queue of time events keeps its priority queue in order and the timeout of the event loop armed
  for an event with the earliest time: creating, freeing and updating events and the expiration keep this and
  return, provided that the callbacks keep it.\<close>

theorem time_event_queue_invariant:
  assumes "teq_ok q"
    and "\<forall>cb e q. teq_ok q \<and> e \<in> events q \<longrightarrow> (\<exists>q'. run cb e q = Some q' \<and> teq_ok q')"
  shows "(timeout q = None \<longleftrightarrow> events q = {}) \<and>
    (\<forall>t. timeout q = Some t \<longrightarrow> (\<exists>e \<in> events q. expiry (event q e) = t) \<and>
       (\<forall>e \<in> events q. avahi_timeval_compare t (expiry (event q e)) \<le> 0)) \<and>
    (e \<notin> events q \<longrightarrow> (\<exists>q'. avahi_time_event_new e tv cb q = Some q' \<and> teq_ok q' \<and> events q' = insert e (events q))) \<and>
    (e \<in> events q \<longrightarrow> (\<exists>q'. avahi_time_event_free e q = Some q' \<and> teq_ok q' \<and> events q' = events q - {e})) \<and>
    (e \<in> events q \<longrightarrow> (\<exists>q'. avahi_time_event_update e t q = Some q' \<and> teq_ok q' \<and> events q' = events q \<and>
       expiry (event q' e) = t)) \<and>
    (\<exists>q'. expiration_event run now q = Some q' \<and> teq_ok q')"
proof (intro conjI)
  note pq = teq_pq [OF assms(1)]
  show "timeout q = None \<longleftrightarrow> events q = {}"
    using assms(1) pq_root_None [OF pq] by (simp add: teq_ok_def events_def)
  show "\<forall>t. timeout q = Some t \<longrightarrow> (\<exists>e \<in> events q. expiry (event q e) = t) \<and>
       (\<forall>e \<in> events q. avahi_timeval_compare t (expiry (event q e)) \<le> 0)"
    using assms(1) first_expiry [OF pq] event_order.pq.first_in [OF pq] by (auto simp: teq_ok_def events_def)
  show "e \<notin> events q \<longrightarrow> (\<exists>q'. avahi_time_event_new e tv cb q = Some q' \<and> teq_ok q' \<and> events q' = insert e (events q))"
    using event_new_ok [OF assms(1)] by metis
  show "e \<in> events q \<longrightarrow> (\<exists>q'. avahi_time_event_free e q = Some q' \<and> teq_ok q' \<and> events q' = events q - {e})"
    using event_free_ok [OF assms(1)] by metis
  show "e \<in> events q \<longrightarrow> (\<exists>q'. avahi_time_event_update e t q = Some q' \<and> teq_ok q' \<and> events q' = events q \<and>
       expiry (event q' e) = t)"
    by (rule impI, rule event_update_ok [OF assms(1), of e t]) auto
  show "\<exists>q'. expiration_event run now q = Some q' \<and> teq_ok q'"
  proof (cases "\<exists>e. root (prioq q) = Some e \<and> avahi_timeval_compare now (expiry (event q e)) \<ge> 0")
    case True
    then obtain e where e: "root (prioq q) = Some e" "avahi_timeval_compare now (expiry (event q e)) \<ge> 0" by blast
    obtain q1 where "expiration_event run now q = map_option update_timeout (run (callback (event q e)) e q1)"
      "teq_ok q1" "e \<in> events q1" using expiration_due [OF assms(1) e] by metis
    with assms(2) show ?thesis by (metis option.map(2) teq_pq update_timeout_ok)
  next
    case False
    then have "expiration_event run now q = Some (update_timeout q)"
      by (auto simp: expiration_event_def expiration_start_def time_event_queue_root_def split: option.split)
    with update_timeout_ok [OF pq] show ?thesis by simp
  qed
qed

theorem time_event_queue_invariant_witness:
  "\<exists>q'. avahi_time_event_new 7 None () (avahi_time_event_queue_new undefined) = Some q' \<and> teq_ok q' \<and> events q' = {7}"
proof -
  have ok: "teq_ok (avahi_time_event_queue_new undefined :: unit AvahiTimeEventQueue)"
    using pq_ok_new(1) by (simp add: teq_ok_def avahi_time_event_queue_new_def avahi_prio_queue_new_def)
  have run: "\<forall>cb e q. teq_ok q \<and> e \<in> events q \<longrightarrow> (\<exists>q'. (\<lambda>(_ :: unit) _ q. Some q) cb e q = Some q' \<and> teq_ok q')" by simp
  have "7 \<notin> events (avahi_time_event_queue_new undefined :: unit AvahiTimeEventQueue)"
    by (simp add: events_def avahi_time_event_queue_new_def pq_ok_new)
  with time_event_queue_invariant [OF ok run, of 7 None "()"] show ?thesis
    by (auto simp: events_def avahi_time_event_queue_new_def pq_ok_new)
qed

text \<open>
  Calls of \<open>expiration_event\<close> at some times: the events that are run, and the queue afterwards.
\<close>

primrec expirations ::
  "timeval list \<Rightarrow> ('c \<Rightarrow> nat \<Rightarrow> 'c AvahiTimeEventQueue \<Rightarrow> 'c AvahiTimeEventQueue option) \<Rightarrow>
   'c AvahiTimeEventQueue \<Rightarrow> (nat list \<times> 'c AvahiTimeEventQueue) option" where
  "expirations [] run q = Some ([], q)"
| "expirations (now # nows) run q =
     do {
       (due, _) \<leftarrow> expiration_start now q;
       q \<leftarrow> expiration_event run now q;
       (es, q) \<leftarrow> expirations nows run q;
       Some (case due of Some e \<Rightarrow> e # es | None \<Rightarrow> es, q)
     }"

text \<open>
  Callbacks that yield to the event \<open>g\<close> due at the time \<open>t\<close>: they leave \<open>g\<close> alone, they move their own event, if they keep
  it, to a time not before \<open>t\<close>, which may be \<open>t\<close> itself, and set all others that they touch to times after \<open>t\<close>.
\<close>

definition yielded :: "nat \<Rightarrow> timeval \<Rightarrow> nat \<Rightarrow> 'c AvahiTimeEventQueue \<Rightarrow> 'c AvahiTimeEventQueue \<Rightarrow> bool" where
  "yielded g t e q q' =
     (teq_ok q' \<and> (g \<in> events q \<and> e \<noteq> g \<longrightarrow> g \<in> events q' \<and> event q' g = event q g) \<and>
      (\<forall>f \<in> events q'.
         f \<in> events q \<and> f \<noteq> e \<and> event q' f = event q f \<or>
         f = e \<and> last_run (event q' f) = last_run (event q f) \<and> avahi_timeval_compare t (expiry (event q' f)) \<le> 0 \<or>
         avahi_timeval_compare t (expiry (event q' f)) < 0))"

definition yields_to ::
  "nat \<Rightarrow> timeval \<Rightarrow> ('c \<Rightarrow> nat \<Rightarrow> 'c AvahiTimeEventQueue \<Rightarrow> 'c AvahiTimeEventQueue option) \<Rightarrow> bool" where
  "yields_to g t run =
     (\<forall>cb e q. teq_ok q \<and> e \<in> events q \<longrightarrow> (\<exists>q'. run cb e q = Some q' \<and> yielded g t e q q'))"

text \<open>The events that are not behind \<open>g\<close>, with \<open>g\<close> itself.\<close>

definition ahead :: "nat \<Rightarrow> 'c AvahiTimeEventQueue \<Rightarrow> nat set" where
  "ahead g q = {e \<in> events q. compare_events (event q e) (event q g) \<le> 0}"

lemma finite_ahead: "teq_ok q \<Longrightarrow> finite (ahead g q)"
  using pq_finite [OF teq_pq, of q] unfolding ahead_def events_def by simp

text \<open>One expiration with such callbacks: idle, or it runs the first event, which then is behind \<open>g\<close>.\<close>

lemma expiration_yields:
  assumes "teq_ok q" "yields_to g t run"
  obtains due q1 q' where "expiration_start now q = Some (due, q1)" "expiration_event run now q = Some q'" "teq_ok q'"
    "g \<in> events q \<and> t = expiry (event q g) \<and> avahi_timeval_compare now t \<ge> 0 \<and>
       avahi_timeval_compare (last_run (event q g)) now < 0 \<longrightarrow>
       due = Some g \<or> g \<in> events q' \<and> event q' g = event q g \<and> ahead g q' \<subset> ahead g q"
proof (cases "\<exists>e. root (prioq q) = Some e \<and> avahi_timeval_compare now (expiry (event q e)) \<ge> 0")
  case False
  then have idle: "expiration_start now q = Some (None, q)" "expiration_event run now q = Some (update_timeout q)"
    by (auto simp: expiration_event_def expiration_start_def time_event_queue_root_def split: option.split)
  have "\<not> (g \<in> events q \<and> avahi_timeval_compare now (expiry (event q g)) \<ge> 0)"
  proof
    assume g: "g \<in> events q \<and> avahi_timeval_compare now (expiry (event q g)) \<ge> 0"
    then obtain e where e: "root (prioq q) = Some e"
      using event_order.pq.first_exists [OF teq_pq [OF assms(1)]] unfolding events_def by blast
    from first_expiry [OF teq_pq [OF assms(1)] e, of g] g False e show False
      using timeval_order.cmp_trans [of "expiry (event q e)" "expiry (event q g)" now]
        timeval_order.cmp_swap [of now "expiry (event q e)"] timeval_order.cmp_swap [of now "expiry (event q g)"]
      by (meson not_less order_less_le)
  qed
  with idle update_timeout_ok [OF teq_pq [OF assms(1)]] that show ?thesis by blast
next
  case True
  then obtain e where e: "root (prioq q) = Some e" "avahi_timeval_compare now (expiry (event q e)) \<ge> 0" by blast
  obtain q1 where q1: "expiration_start now q = Some (Some e, q1)"
    "expiration_event run now q = map_option update_timeout (run (callback (event q e)) e q1)"
    "teq_ok q1" "events q1 = events q" "event q1 = (event q)(e := (event q e)\<lparr>last_run := now\<rparr>)" "e \<in> events q"
    by (rule expiration_due [OF assms(1) e])
  have e1: "e \<in> events q1" using q1(4,6) by simp
  obtain q2 where q2: "run (callback (event q e)) e q1 = Some q2" "yielded g t e q1 q2"
    using assms(2) q1(3) e1 unfolding yields_to_def by blast
  have q2_ok: "teq_ok q2" using q2(2) by (simp add: yielded_def)
  have q2_g: "g \<in> events q2" "event q2 g = event q1 g" if "g \<in> events q1" "e \<noteq> g" using q2(2) that by (simp_all add: yielded_def)
  have q2_f: "f \<in> events q1 \<and> f \<noteq> e \<and> event q2 f = event q1 f \<or>
       f = e \<and> last_run (event q2 f) = last_run (event q1 f) \<and> avahi_timeval_compare t (expiry (event q2 f)) \<le> 0 \<or>
       avahi_timeval_compare t (expiry (event q2 f)) < 0" if "f \<in> events q2" for f
    using q2(2) that unfolding yielded_def by blast
  have behind: "e = g \<or> g \<in> events (update_timeout q2) \<and> event (update_timeout q2) g = event q g \<and> ahead g (update_timeout q2) \<subset> ahead g q"
    if g: "g \<in> events q" "t = expiry (event q g)" "avahi_timeval_compare (last_run (event q g)) now < 0"
  proof (cases "e = g")
    case False
    have g2: "g \<in> events q2" "event q2 g = event q g" using q2_g g(1) False q1(4,5) by simp_all
    have "e \<in> ahead g q"
      using event_order.pq.first_least [OF teq_pq [OF assms(1)] e(1), of g] g(1) q1(6) by (simp add: ahead_def events_def event_def)
    moreover have "f \<in> ahead g q - {e}" if f: "f \<in> ahead g q2" for f
    proof -
      have le: "f \<in> events q2" "compare_events (event q2 f) (event q g) \<le> 0" using f g2(2) by (simp_all add: ahead_def)
      have swap: "avahi_timeval_compare a b \<le> 0 \<Longrightarrow> avahi_timeval_compare b a \<ge> 0" for a b
        using timeval_order.cmp_swap [of b a] by linarith
      have "avahi_timeval_compare (expiry (event q2 f)) t \<le> 0"
        using le(2) unfolding compare_events_def g(2) Let_def by (simp split: if_splits)
      from swap [OF this] have "\<not> avahi_timeval_compare t (expiry (event q2 f)) < 0" by simp
      moreover have False if "f = e" "last_run (event q2 f) = last_run (event q1 f)" "avahi_timeval_compare t (expiry (event q2 f)) \<le> 0"
      proof -
        have "last_run (event q2 f) = now" using that(1,2) by (simp add: q1(5))
        moreover have "avahi_timeval_compare t (expiry (event q2 f)) = 0"
          using that(3) \<open>\<not> avahi_timeval_compare t (expiry (event q2 f)) < 0\<close> by linarith
        then have "expiry (event q2 f) = t" by (simp add: timeval_compare_0)
        ultimately have "avahi_timeval_compare now (last_run (event q g)) \<le> 0"
          using le(2) timeval_compare_0 [of t t] unfolding compare_events_def g(2) Let_def by simp
        from swap [OF this] g(3) show False by simp
      qed
      ultimately have "f \<in> events q1 \<and> f \<noteq> e \<and> event q2 f = event q1 f" using q2_f [OF le(1)] by blast
      with le(2) show ?thesis by (simp add: ahead_def q1(4,5))
    qed
    ultimately have "ahead g q2 \<subset> ahead g q" by blast
    then have "ahead g (update_timeout q2) \<subset> ahead g q" by (simp add: ahead_def)
    with g2 show ?thesis by simp
  qed simp
  have "expiration_event run now q = Some (update_timeout q2)" using q1(2) q2(1) by simp
  from that [OF q1(1) this update_timeout_ok [OF teq_pq [OF q2_ok]]] behind show ?thesis by blast
qed

lemma expirations_return:
  assumes "yields_to g t run" "teq_ok q"
  shows "\<exists>es q'. expirations nows run q = Some (es, q') \<and> teq_ok q'"
  using assms(2)
proof (induction nows arbitrary: q)
  case (Cons now nows)
  obtain due q1 q' where q': "expiration_start now q = Some (due, q1)" "expiration_event run now q = Some q'" "teq_ok q'"
    by (rule expiration_yields [OF Cons.prems assms(1), of now])
  from Cons.IH [OF q'(3)] q'(1,2) show ?case by auto
qed simp

text \<open>C25. No event waits for ever: an event that is due is run after at most as many expirations as there are events that are
  not behind it, whatever else is in the queue and whatever the callbacks of the others do, as long as they leave
  it alone and do not move events in front of it. An event may keep its time or move itself to the same time again and
  again: the time of the last run, which orders events of the same time, puts it behind those that have waited longer.\<close>

theorem expirations_fair:
  assumes "teq_ok q" "g \<in> events q" "yields_to g (expiry (event q g)) run" "card (ahead g q) \<le> length nows"
    and "\<forall>now \<in> set nows. avahi_timeval_compare now (expiry (event q g)) \<ge> 0 \<and> avahi_timeval_compare (last_run (event q g)) now < 0"
  shows "\<exists>es q'. expirations nows run q = Some (es, q') \<and> teq_ok q' \<and> g \<in> set es"
proof -
  define t l where "t = expiry (event q g)" and "l = last_run (event q g)"
  have "\<exists>es q'. expirations nows run q = Some (es, q') \<and> teq_ok q' \<and> g \<in> set es"
    if "teq_ok q" "g \<in> events q" "expiry (event q g) = t" "last_run (event q g) = l" "card (ahead g q) \<le> length nows"
      "\<forall>now \<in> set nows. avahi_timeval_compare now t \<ge> 0 \<and> avahi_timeval_compare l now < 0" for q
    using that
  proof (induction nows arbitrary: q)
    case Nil
    have "compare_events (event q g) (event q g) \<le> 0"
      by (simp add: compare_events_def avahi_timeval_compare_def)
    then have "g \<in> ahead g q" using Nil.prems(2) by (simp add: ahead_def)
    with Nil.prems(5) finite_ahead [OF Nil.prems(1)] show ?case by auto
  next
    case (Cons now nows)
    have yield: "yields_to g t run" using assms(3) by (simp add: t_def)
    obtain due q1 q' where q': "expiration_start now q = Some (due, q1)" "expiration_event run now q = Some q'" "teq_ok q'"
      "g \<in> events q \<and> t = expiry (event q g) \<and> avahi_timeval_compare now t \<ge> 0 \<and>
       avahi_timeval_compare (last_run (event q g)) now < 0 \<longrightarrow>
       due = Some g \<or> g \<in> events q' \<and> event q' g = event q g \<and> ahead g q' \<subset> ahead g q"
      by (rule expiration_yields [OF Cons.prems(1) yield, of now])
    then consider "due = Some g" | "g \<in> events q'" "event q' g = event q g" "ahead g q' \<subset> ahead g q" using Cons.prems by auto
    then show ?case
    proof cases
      case 1
      from expirations_return [OF yield q'(3), of nows] q'(1,2) 1 show ?thesis by auto
    next
      case 2
      then have "card (ahead g q') < card (ahead g q)" using finite_ahead [OF Cons.prems(1)] by (simp add: psubset_card_mono)
      with Cons.IH [OF q'(3) 2(1)] Cons.prems 2(2) q'(1,2) show ?thesis by (auto split: option.split)
    qed
  qed
  with assms show ?thesis unfolding t_def l_def by blast
qed

lemma new_queue_ok: "teq_ok (avahi_time_event_queue_new junk)" "events (avahi_time_event_queue_new junk) = {}"
  using pq_ok_new by (simp_all add: teq_ok_def avahi_time_event_queue_new_def avahi_prio_queue_new_def events_def)

theorem expirations_fair_witness:
  "\<exists>q1 q2 :: unit AvahiTimeEventQueue. \<exists>es r.
     avahi_time_event_new 3 None () (avahi_time_event_queue_new undefined) = Some q1 \<and>
     avahi_time_event_new 4 None () q1 = Some q2 \<and>
     expirations [\<lparr>tv_sec = 5, tv_usec = 0\<rparr>, \<lparr>tv_sec = 5, tv_usec = 0\<rparr>] (\<lambda>_ e. avahi_time_event_update e \<lparr>tv_sec = 0, tv_usec = 0\<rparr>) q2 = Some (es, r) \<and> 4 \<in> set es"
proof -
  obtain q1 :: "unit AvahiTimeEventQueue" where q1: "avahi_time_event_new 3 None () (avahi_time_event_queue_new undefined) = Some q1"
    "teq_ok q1" "events q1 = {3}"
    by (rule event_new_ok [OF new_queue_ok(1), of 3 undefined None "()"]) (simp_all add: new_queue_ok(2))
  obtain q2 where q2: "avahi_time_event_new 4 None () q1 = Some q2" "teq_ok q2" "events q2 = {3, 4}"
    "expiry (event q2 4) = \<lparr>tv_sec = 0, tv_usec = 0\<rparr>" "last_run (event q2 4) = \<lparr>tv_sec = 0, tv_usec = 0\<rparr>"
    by (rule event_new_ok [OF q1(2), of 4 None "()"]) (simp_all add: q1(3) insert_commute)
  have "card (ahead 4 q2) \<le> card {3, 4 :: nat}" by (rule card_mono) (auto simp: ahead_def q2(3))
  then have "card (ahead 4 q2) \<le> length [\<lparr>tv_sec = 5, tv_usec = 0\<rparr>, \<lparr>tv_sec = 5, tv_usec = 0\<rparr>]" by simp
  moreover have "yields_to 4 \<lparr>tv_sec = 0, tv_usec = 0\<rparr> (\<lambda>_ :: unit. \<lambda>e. avahi_time_event_update e \<lparr>tv_sec = 0, tv_usec = 0\<rparr>)"
    unfolding yields_to_def
  proof (intro allI impI)
    fix e :: nat and q :: "unit AvahiTimeEventQueue" assume q: "teq_ok q \<and> e \<in> events q"
    obtain q' where q': "avahi_time_event_update e \<lparr>tv_sec = 0, tv_usec = 0\<rparr> q = Some q'" "teq_ok q'" "events q' = events q"
      "event q' = (event q)(e := (event q e)\<lparr>expiry := \<lparr>tv_sec = 0, tv_usec = 0\<rparr>\<rparr>)"
      using event_update_ok [of q e] q by blast
    then have "yielded 4 \<lparr>tv_sec = 0, tv_usec = 0\<rparr> e q q'"
      by (auto simp: yielded_def timeval_compare_0 avahi_timeval_compare_def)
    with q'(1) show "\<exists>q'. avahi_time_event_update e \<lparr>tv_sec = 0, tv_usec = 0\<rparr> q = Some q' \<and> yielded 4 \<lparr>tv_sec = 0, tv_usec = 0\<rparr> e q q'"
      by blast
  qed
  ultimately show ?thesis
    using expirations_fair [OF q2(2), of 4 "\<lambda>_ e. avahi_time_event_update e \<lparr>tv_sec = 0, tv_usec = 0\<rparr>"
        "[\<lparr>tv_sec = 5, tv_usec = 0\<rparr>, \<lparr>tv_sec = 5, tv_usec = 0\<rparr>]"] q1(1) q2(1,3,4,5)
    by (auto simp: avahi_timeval_compare_def)
qed

text \<open>C26. Freeing the queue ends: the loop over the events and the one over the nodes of the priority queue
  return on every queue in order, and no event and no node is left.\<close>

theorem time_event_queue_free_returns:
  assumes "teq_ok q"
  shows "\<exists>q' p. free_events q = Some q' \<and> events q' = {} \<and> avahi_time_event_queue_free q = Some p \<and> queue p = {}"
proof -
  have "\<exists>q'. free_events q = Some q' \<and> teq_ok q' \<and> events q' = {}"
    using assms
  proof (induction "card (events q)" arbitrary: q rule: less_induct)
    case less
    note pq = teq_pq [OF less.prems]
    show ?case
    proof (cases "root (prioq q)")
      case None
      then have "events q = {}" using pq_root_None [OF pq] by (simp add: events_def)
      with None less.prems show ?thesis by (simp add: free_events.simps [of q] time_event_queue_root_def)
    next
      case (Some e)
      then have e: "e \<in> events q" using event_order.pq.first_in [OF pq] by (simp add: events_def)
      obtain q1 where q1: "avahi_time_event_free e q = Some q1" "teq_ok q1" "events q1 = events q - {e}"
        by (rule event_free_ok [OF less.prems e])
      have "card (events q1) < card (events q)"
        using q1(3) e pq_finite [OF pq] by (metis card_Diff1_less events_def)
      with less.hyps [OF _ q1(2)] q1(1) Some show ?thesis
        by (simp add: free_events.simps [of q] time_event_queue_root_def)
    qed
  qed
  then obtain q' where q': "free_events q = Some q'" "teq_ok q'" "events q' = {}" by blast
  with event_order.free_ok [OF teq_pq [OF q'(2)]] show ?thesis by (auto simp: avahi_time_event_queue_free_def)
qed

theorem time_event_queue_free_returns_witness:
  "\<exists>q q' p. avahi_time_event_new 7 None () (avahi_time_event_queue_new undefined) = Some q \<and> events q = {7} \<and>
     free_events q = Some q' \<and> events q' = {} \<and> avahi_time_event_queue_free q = Some p \<and> queue p = {}"
proof -
  obtain q where q: "avahi_time_event_new 7 None () (avahi_time_event_queue_new undefined) = Some q" "teq_ok q" "events q = {7}"
    by (rule event_new_ok [OF new_queue_ok(1), of 7 undefined None "()"]) (simp_all add: new_queue_ok(2))
  with time_event_queue_free_returns [OF q(2)] show ?thesis by blast
qed

end
