(* ===== verification/Timers.thy ===== *)
theory Timers
  imports Timeeventq
begin

text \<open>
  The queue of time events as its clients use it: the cache and the schedulers keep objects with a pointer to an
  event each, whose callback gets the object. Objects are addresses. The queue is shared: for each client, the
  callback \<open>Elapse x\<close> is its own one with the object \<open>x\<close>, and \<open>Other\<close> stands for those of all others.
\<close>

datatype 'o event_callback = Elapse nat | Other 'o

text \<open>What \<^verbatim>\<open>malloc\<close> returns: an address that is not in use.\<close>

definition fresh :: "nat set \<Rightarrow> nat" where
  "fresh A = Suc (Max (insert 0 A))"

text \<open>
  Taking an item out of a linked list (\<^verbatim>\<open>llist.h\<close>), which asserts that the item is the head when it has no
  predecessor.
\<close>

definition llist_remove :: "nat \<Rightarrow> nat list \<Rightarrow> nat list option" where
  "llist_remove e es = (if e \<in> set es then Some (remove1 e es) else None)"

section \<open>The events of one client\<close>

definition elapse_events :: "'o event_callback AvahiTimeEventQueue \<Rightarrow> (nat \<times> nat \<times> timeval) set" where
  "elapse_events q = {(ev, e, expiry (event q ev)) | ev e. ev \<in> events q \<and> callback (event q ev) = Elapse e}"

lemma elapse_eventsI:
  "ev \<in> events q \<Longrightarrow> callback (event q ev) = Elapse e \<Longrightarrow> (ev, e, expiry (event q ev)) \<in> elapse_events q"
  by (auto simp: elapse_events_def)

lemma elapse_eventsD:
  assumes "(ev, e, t) \<in> elapse_events q"
  shows "ev \<in> events q" "callback (event q ev) = Elapse e" "t = expiry (event q ev)"
  using assms by (auto simp: elapse_events_def)

lemma elapse_events_inj: "(ev, e, t) \<in> elapse_events q \<Longrightarrow> (ev, f, u) \<in> elapse_events q \<Longrightarrow> e = f \<and> t = u"
  by (auto simp: elapse_events_def)

lemma elapse_events_cong:
  assumes "events q' = events q"
    "\<And>ev. ev \<in> events q \<Longrightarrow> callback (event q' ev) = callback (event q ev) \<and> expiry (event q' ev) = expiry (event q ev)"
  shows "elapse_events q' = elapse_events q"
  unfolding elapse_events_def using assms by force

lemma elapse_events_update_timeout [simp]: "elapse_events (update_timeout q) = elapse_events q"
  by (simp add: elapse_events_def)

lemma free_elapse:
  assumes "teq_ok q" "ev \<in> events q"
  obtains q' where "avahi_time_event_free ev q = Some q'" "teq_ok q'"
    "elapse_events q' = {x \<in> elapse_events q. fst x \<noteq> ev}"
proof (rule event_free_ok [OF assms])
  fix q' assume q': "avahi_time_event_free ev q = Some q'" "teq_ok q'" "events q' = events q - {ev}" "event q' = event q"
  have "elapse_events q' = {x \<in> elapse_events q. fst x \<noteq> ev}"
    unfolding elapse_events_def q'(3,4) by auto
  with q' show ?thesis by (intro that)
qed

lemma update_elapse:
  assumes "teq_ok q" "ev \<in> events q" "callback (event q ev) = Elapse e"
  obtains q' where "avahi_time_event_update ev t q = Some q'" "teq_ok q'"
    "elapse_events q' = insert (ev, e, t) {x \<in> elapse_events q. fst x \<noteq> ev}" "ev \<in> events q'"
proof (rule event_update_ok [OF assms(1,2), of t])
  fix q' assume q': "avahi_time_event_update ev t q = Some q'" "teq_ok q'" "events q' = events q"
    "event q' = (event q)(ev := (event q ev)\<lparr>expiry := t\<rparr>)"
  have "elapse_events q' = insert (ev, e, t) {x \<in> elapse_events q. fst x \<noteq> ev}"
  proof (rule set_eqI)
    fix x :: "nat \<times> nat \<times> timeval"
    obtain v f u where x: "x = (v, f, u)" by (cases x)
    show "x \<in> elapse_events q' \<longleftrightarrow> x \<in> insert (ev, e, t) {x \<in> elapse_events q. fst x \<noteq> ev}"
      unfolding x elapse_events_def q'(3,4) using assms(2,3) by (cases "v = ev") auto
  qed
  with q' assms(2) show ?thesis by (intro that [of q']) simp_all
qed

lemma new_elapse:
  assumes "teq_ok q" "ev \<notin> events q"
  obtains q' where "avahi_time_event_new ev (Some t) (Elapse e) q = Some q'" "teq_ok q'"
    "elapse_events q' = insert (ev, e, t) (elapse_events q)" "ev \<in> events q'"
proof (rule event_new_ok [OF assms, of "Some t" "Elapse e"])
  fix q' :: "'a event_callback AvahiTimeEventQueue"
  assume q': "avahi_time_event_new ev (Some t) (Elapse e) q = Some q'" "teq_ok q'" "events q' = insert ev (events q)"
    "event q' = (event q)(ev := \<lparr>expiry = (case Some t of Some t \<Rightarrow> t | None \<Rightarrow> \<lparr>tv_sec = 0, tv_usec = 0\<rparr>),
      last_run = \<lparr>tv_sec = 0, tv_usec = 0\<rparr>, callback = Elapse e\<rparr>)"
  have "elapse_events q' = insert (ev, e, t) (elapse_events q)"
    unfolding elapse_events_def q'(3,4) using assms(2) by (auto split: if_splits)
  with q' show ?thesis by (intro that [of q']) simp_all
qed

lemma fresh_not_in: "finite A \<Longrightarrow> fresh A \<notin> A"
  unfolding fresh_def using Max_ge [of "insert 0 A"] by (meson Suc_n_not_le_n finite.insertI insertCI)

lemma fresh_event: "teq_ok q \<Longrightarrow> fresh (events q) \<notin> events q"
  using event_order.pq.elems_finite [OF teq_pq] unfolding events_def by (metis fresh_not_in)

section \<open>Objects with an event each\<close>

text \<open>
  Every one of the objects \<open>js\<close> has an event, \<open>te j\<close>, at the time \<open>due j\<close>, and there are no others of this client.
\<close>

definition timers_ok ::
  "nat set \<Rightarrow> (nat \<Rightarrow> nat option) \<Rightarrow> (nat \<Rightarrow> timeval) \<Rightarrow> 'o event_callback AvahiTimeEventQueue \<Rightarrow> bool" where
  "timers_ok js te due q =
     (teq_ok q \<and> (\<forall>j \<in> js. te j \<noteq> None) \<and> elapse_events q = (\<lambda>j. (the (te j), j, due j)) ` js)"

lemma timers_ok_teq: "timers_ok js te due q \<Longrightarrow> teq_ok q"
  by (simp add: timers_ok_def)

lemma timers_ok_cong:
  assumes "timers_ok js te due q" "\<And>j. j \<in> js \<Longrightarrow> te' j = te j \<and> due' j = due j"
  shows "timers_ok js te' due' q"
proof -
  have "(\<lambda>j. (the (te' j), j, due' j)) ` js = (\<lambda>j. (the (te j), j, due j)) ` js"
    using assms(2) by (intro image_cong) auto
  with assms show ?thesis by (simp add: timers_ok_def)
qed

lemma timers_event:
  assumes "timers_ok js te due q" "j \<in> js"
  obtains ev where "te j = Some ev" "ev \<in> events q" "callback (event q ev) = Elapse j" "expiry (event q ev) = due j"
proof -
  obtain ev where ev: "te j = Some ev" using assms by (auto simp: timers_ok_def)
  then have "(ev, j, due j) \<in> elapse_events q" using assms by (force simp: timers_ok_def intro: rev_image_eqI)
  from elapse_eventsD [OF this] ev that show ?thesis by simp
qed

lemma timers_owner:
  assumes "timers_ok js te due q" "ev \<in> events q" "callback (event q ev) = Elapse j"
  shows "j \<in> js" "te j = Some ev" "expiry (event q ev) = due j"
  using elapse_eventsI [OF assms(2,3)] assms(1) by (auto simp: timers_ok_def)

lemma timers_one_event:
  assumes "timers_ok js te due q" "j \<in> js"
  shows "\<exists>!ev. ev \<in> events q \<and> callback (event q ev) = Elapse j"
    "\<exists>t. timeout q = Some t \<and> avahi_timeval_compare t (due j) \<le> 0"
proof -
  obtain ev where ev: "te j = Some ev" "ev \<in> events q" "callback (event q ev) = Elapse j" "expiry (event q ev) = due j"
    by (rule timers_event [OF assms])
  show "\<exists>!ev. ev \<in> events q \<and> callback (event q ev) = Elapse j"
  proof (rule ex1I [of _ ev])
    show "v = ev" if "v \<in> events q \<and> callback (event q v) = Elapse j" for v
      using timers_owner(2) [OF assms(1), of v j] that ev(1) by simp
  qed (simp add: ev)
  have ok: "teq_ok q" by (rule timers_ok_teq [OF assms(1)])
  obtain r where r: "root (prioq q) = Some r"
    using event_order.pq.first_exists [OF teq_pq [OF ok]] ev(2) unfolding events_def by blast
  then have "timeout q = Some (expiry (event q r))" using ok by (simp add: teq_ok_def)
  with first_expiry [OF teq_pq [OF ok] r ev(2)] ev(4)
  show "\<exists>t. timeout q = Some t \<and> avahi_timeval_compare t (due j) \<le> 0" by simp
qed

lemma timers_other_ok:
  assumes "timers_ok js te due q" "teq_ok q'" "elapse_events q' = elapse_events q"
  shows "timers_ok js te due q'"
  using assms by (simp add: timers_ok_def)

lemma timer_image:
  assumes "timers_ok js te due q" "j \<in> js" "te j = Some ev"
  shows "{x \<in> elapse_events q. fst x \<noteq> ev} = (\<lambda>i. (the (te i), i, due i)) ` (js - {j})"
proof -
  have own: "i = j" if i: "i \<in> js" "te i = Some ev" for i
  proof -
    obtain v where "te i = Some v" "callback (event q v) = Elapse i" by (rule timers_event [OF assms(1) i(1)])
    then have "callback (event q ev) = Elapse i" unfolding i(2) by blast
    moreover obtain w where "te j = Some w" "callback (event q w) = Elapse j" by (rule timers_event [OF assms(1,2)])
    then have "callback (event q ev) = Elapse j" unfolding assms(3) by blast
    ultimately show "i = j" by simp
  qed
  have "\<forall>i \<in> js. te i \<noteq> None" using assms(1) unfolding timers_ok_def by blast
  then have s: "i \<in> js - {j} \<longleftrightarrow> i \<in> js \<and> the (te i) \<noteq> ev" for i
    using own [of i] assms(3) by (cases "te i") auto
  have e: "elapse_events q = (\<lambda>i. (the (te i), i, due i)) ` js" using assms(1) unfolding timers_ok_def by blast
  show ?thesis
  proof (intro set_eqI iffI)
    fix x assume "x \<in> {x \<in> elapse_events q. fst x \<noteq> ev}"
    then obtain i where "i \<in> js" "x = (the (te i), i, due i)" "fst x \<noteq> ev" unfolding e by blast
    then show "x \<in> (\<lambda>i. (the (te i), i, due i)) ` (js - {j})" using s [of i] by (intro image_eqI [of _ _ i]) auto
  next
    fix x assume "x \<in> (\<lambda>i. (the (te i), i, due i)) ` (js - {j})"
    then obtain i where "i \<in> js - {j}" "x = (the (te i), i, due i)" by blast
    then show "x \<in> {x \<in> elapse_events q. fst x \<noteq> ev}" unfolding e using s [of i] by auto
  qed
qed

lemma timers_free:
  assumes "timers_ok js te due q" "j \<in> js" "te j = Some ev"
  obtains q' where "avahi_time_event_free ev q = Some q'" "timers_ok (js - {j}) te due q'"
proof -
  have ev: "ev \<in> events q" using timers_event [OF assms(1,2)] assms(3) by auto
  obtain q' where q': "avahi_time_event_free ev q = Some q'" "teq_ok q'"
    "elapse_events q' = {x \<in> elapse_events q. fst x \<noteq> ev}"
    by (rule free_elapse [OF timers_ok_teq [OF assms(1)] ev])
  with timer_image [OF assms] have "elapse_events q' = (\<lambda>j. (the (te j), j, due j)) ` (js - {j})" by simp
  with q' assms(1) that show ?thesis by (simp add: timers_ok_def)
qed

lemma timers_update:
  assumes "timers_ok js te due q" "j \<in> js" "te j = Some ev"
  obtains q' where "avahi_time_event_update ev t q = Some q'" "timers_ok js te (due(j := t)) q'"
proof -
  have ev: "ev \<in> events q" "callback (event q ev) = Elapse j" using timers_event [OF assms(1,2)] assms(3) by auto
  obtain q' where q': "avahi_time_event_update ev t q = Some q'" "teq_ok q'"
    "elapse_events q' = insert (ev, j, t) {x \<in> elapse_events q. fst x \<noteq> ev}"
    by (rule update_elapse [OF timers_ok_teq [OF assms(1)] ev])
  let ?f = "\<lambda>i. (the (te i), i, (due(j := t)) i)"
  have "?f ` (js - {j}) = (\<lambda>i. (the (te i), i, due i)) ` (js - {j})" by (intro image_cong) auto
  moreover have "?f ` js = insert (ev, j, t) (?f ` (js - {j}))"
    using assms(3) by (subst insert_Diff [OF assms(2), symmetric], subst image_insert) simp
  ultimately have "elapse_events q' = ?f ` js" using q'(3) timer_image [OF assms] by simp
  with q' assms(1) that show ?thesis by (simp add: timers_ok_def)
qed

lemma timers_new:
  assumes "timers_ok js te due q" "j \<notin> js" "ev = fresh (events q)"
  obtains q' where "avahi_time_event_new ev (Some t) (Elapse j) q = Some q'"
    "timers_ok (insert j js) (te(j := Some ev)) (due(j := t)) q'"
proof -
  obtain q' where q': "avahi_time_event_new ev (Some t) (Elapse j) q = Some q'" "teq_ok q'"
    "elapse_events q' = insert (ev, j, t) (elapse_events q)"
    using new_elapse [OF timers_ok_teq [OF assms(1)] fresh_event [OF timers_ok_teq [OF assms(1)]]] assms(3) by metis
  have "elapse_events q = (\<lambda>i. (the ((te(j := Some ev)) i), i, (due(j := t)) i)) ` js"
    using assms(1,2) unfolding timers_ok_def by (auto intro!: image_cong)
  with q' assms(1) that [of q'] show ?thesis by (simp add: timers_ok_def)
qed

text \<open>The expiration of an event marks it as run and then calls its callback, on a queue in order.\<close>

lemma expiration_start_ok:
  assumes "teq_ok q"
  obtains (idle) "expiration_start now q = Some (None, q)"
    "\<forall>ev \<in> events q. avahi_timeval_compare now (expiry (event q ev)) < 0"
  | (due) ev q1 where "expiration_start now q = Some (Some ev, q1)" "teq_ok q1" "ev \<in> events q1"
    "elapse_events q1 = elapse_events q" "callback (event q1 ev) = callback (event q ev)"
    "avahi_timeval_compare now (expiry (event q ev)) \<ge> 0" "events q1 = events q"
proof (cases "root (prioq q)")
  case None
  then have "events q = {}" using event_order.pq.first_exists [OF teq_pq [OF assms]] unfolding events_def by fastforce
  with None idle show ?thesis by (simp add: expiration_start_def time_event_queue_root_def)
next
  case (Some e)
  show ?thesis
  proof (cases "avahi_timeval_compare now (expiry (event q e)) \<ge> 0")
    case True
    obtain q1 where q1: "expiration_start now q = Some (Some e, q1)" "teq_ok q1" "events q1 = events q"
      "event q1 = (event q)(e := (event q e)\<lparr>last_run := now\<rparr>)" "e \<in> events q"
      using expiration_due [OF assms Some True] by metis
    have "elapse_events q1 = elapse_events q" by (rule elapse_events_cong) (simp_all add: q1(3,4))
    with q1 True show ?thesis by (intro due [of e q1]) simp_all
  next
    case False
    have "avahi_timeval_compare now (expiry (event q ev)) < 0" if "ev \<in> events q" for ev
      using first_expiry [OF teq_pq [OF assms] Some that] False
        timeval_order.cmp_trans [of "expiry (event q e)" "expiry (event q ev)" now]
        timeval_order.cmp_swap [of now "expiry (event q ev)"] timeval_order.cmp_swap [of now "expiry (event q e)"]
      by (meson not_less order_less_le)
    with False Some idle show ?thesis by (simp add: expiration_start_def time_event_queue_root_def)
  qed
qed

end
