(* ===== verification/Cache.thy ===== *)
theory Cache
  imports Timers Hashmap RR_Same Address
begin

text \<open>
  \<^verbatim>\<open>avahi-core/cache.c\<close>: the records that other hosts have announced on an interface. An entry is on the list
  of all entries, and on the list of the entries of its key, whose head is the value of the key in a hash
  table. It has an event in the queue of time events, which is shared with other parts of the server.

  Entries are addresses, with the contents of \<open>struct AvahiCacheEntry\<close> as a function of the address; both
  linked lists (\<^verbatim>\<open>llist.h\<close>) are sequences of addresses, so that the value of the hash table is the list that its
  pointer leads to. \<^verbatim>\<open>malloc\<close> returns an address that is not in use. An operation takes place at the time
  \<open>now\<close>, and \<open>rnd\<close> is what \<open>rand\<close> would return. \<^const>\<open>None\<close> is a failed assertion.
\<close>

section \<open>State\<close>

datatype AvahiCacheEntryState =
  AVAHI_CACHE_VALID | AVAHI_CACHE_EXPIRY1 | AVAHI_CACHE_EXPIRY2 | AVAHI_CACHE_EXPIRY3 |
  AVAHI_CACHE_EXPIRY_FINAL | AVAHI_CACHE_POOF | AVAHI_CACHE_POOF_FINAL | AVAHI_CACHE_GOODBYE_FINAL |
  AVAHI_CACHE_REPLACE_FINAL

record AvahiCacheEntry =
  cache_record :: AvahiRecord
  cache_timestamp :: timeval
  poof_timestamp :: timeval
  cache_expiry :: timeval
  cache_flush :: bool
  poof_num :: int
  origin :: AvahiAddress
  state :: AvahiCacheEntryState
  time_event :: "nat option"
  poof_address :: AvahiAddress

datatype AvahiBrowserEvent =
  AVAHI_BROWSER_NEW | AVAHI_BROWSER_REMOVE | AVAHI_BROWSER_CACHE_EXHAUSTED | AVAHI_BROWSER_ALL_FOR_NOW |
  AVAHI_BROWSER_FAILURE

text \<open>
  The fields of \<open>struct AvahiCache\<close>, and what it reaches through \<open>server\<close> and \<open>interface\<close>: the queue of time
  events, the limit of the configuration, the events that \<open>avahi_multicast_lookup_engine_notify\<close> was called
  with (the latest first) and the keys that \<open>avahi_interface_post_query\<close> was called with.
\<close>

record 'o AvahiCache =
  hashmap :: "(AvahiKey, nat list) AvahiHashmap"
  cache_entries :: "nat list"
  entry :: "nat \<Rightarrow> AvahiCacheEntry"
  n_entries :: nat
  cache_last_rand :: int
  last_rand_timestamp :: int
  time_event_queue :: "'o event_callback AvahiTimeEventQueue"
  n_cache_entries_max :: nat
  notified :: "(AvahiRecord \<times> AvahiBrowserEvent) list"
  posted :: "AvahiKey list"

abbreviation upd_entry :: "nat \<Rightarrow> (AvahiCacheEntry \<Rightarrow> AvahiCacheEntry) \<Rightarrow> 'o AvahiCache \<Rightarrow> 'o AvahiCache" where
  "upd_entry e f c \<equiv> c\<lparr>entry := (entry c)(e := f (entry c e))\<rparr>"

abbreviation ckey :: "('o, 'z) AvahiCache_scheme \<Rightarrow> nat \<Rightarrow> AvahiKey" where
  "ckey c e \<equiv> rkey (cache_record (entry c e))"

definition notify :: "nat \<Rightarrow> AvahiBrowserEvent \<Rightarrow> 'o AvahiCache \<Rightarrow> 'o AvahiCache" where
  "notify e ev c = c\<lparr>notified := (cache_record (entry c e), ev) # notified c\<rparr>"

section \<open>Removing entries\<close>

definition remove_entry :: "nat \<Rightarrow> 'o AvahiCache \<Rightarrow> 'o AvahiCache option" where
  "remove_entry e c =
     do {
       t \<leftarrow> llist_remove e (case avahi_hashmap_lookup (hashmap c) (ckey c e) of Some t \<Rightarrow> t | None \<Rightarrow> []);
       let c = c\<lparr>hashmap :=
         (case t of
            f # _ \<Rightarrow> fst (snd (avahi_hashmap_replace (hashmap c) (ckey c f) t))
          | [] \<Rightarrow> fst (avahi_hashmap_remove (hashmap c) (ckey c e)))\<rparr>;
       es \<leftarrow> llist_remove e (cache_entries c);
       let c = c\<lparr>cache_entries := es\<rparr>;
       c \<leftarrow> (case time_event (entry c e) of
              Some ev \<Rightarrow> do {
                q \<leftarrow> avahi_time_event_free ev (time_event_queue c);
                Some (c\<lparr>time_event_queue := q\<rparr>)
              }
            | None \<Rightarrow> Some c);
       let c = notify e AVAHI_BROWSER_REMOVE c;
       if n_entries c \<ge> 1 then Some (c\<lparr>n_entries := n_entries c - 1\<rparr>) else None
     }"

text \<open>The queue and the configuration belong to the server. The field \<open>last_rand\<close> is not initialised.\<close>

definition avahi_cache_new :: "'o event_callback AvahiTimeEventQueue \<Rightarrow> nat \<Rightarrow> (nat \<Rightarrow> AvahiCacheEntry) \<Rightarrow> int \<Rightarrow> 'o AvahiCache" where
  "avahi_cache_new q n junk junk_rand =
     \<lparr>hashmap = avahi_hashmap_new key_hash_fun key_equal_fun False False,
      cache_entries = [], entry = junk, n_entries = 0, cache_last_rand = junk_rand, last_rand_timestamp = 0,
      time_event_queue = q, n_cache_entries_max = n, notified = [], posted = []\<rparr>"

partial_function (option) avahi_cache_flush :: "'o AvahiCache \<Rightarrow> 'o AvahiCache option" where
  "avahi_cache_flush c =
     (case cache_entries c of
        [] \<Rightarrow> Some c
      | e # _ \<Rightarrow> do { c \<leftarrow> remove_entry e c; avahi_cache_flush c })"

text \<open>The result is what the server keeps: the queue, and the log of events.\<close>

definition avahi_cache_free :: "'o AvahiCache \<Rightarrow> 'o AvahiCache option" where
  "avahi_cache_free c =
     do {
       c \<leftarrow> avahi_cache_flush c;
       if n_entries c = 0 then Some c else None
     }"

section \<open>Looking up\<close>

text \<open>The list of the entries of a key; NULL is the empty list.\<close>

definition lookup_key :: "('o, 'z) AvahiCache_scheme \<Rightarrow> AvahiKey \<Rightarrow> nat list option" where
  "lookup_key c k =
     (if avahi_key_is_pattern k then None
      else Some (case avahi_hashmap_lookup (hashmap c) k of Some es \<Rightarrow> es | None \<Rightarrow> []))"

text \<open>
  The loops of \<open>avahi_cache_walk\<close> over all entries and over the entries of a key. The next entry is
  determined before the callback is called, which may remove its own entry. The callback returns an optional
  result, with which the walk ends. Its \<open>userdata\<close>, where it changes them, are further fields of the record.
\<close>

fun walk_all ::
  "(nat \<Rightarrow> ('o, 'z) AvahiCache_scheme \<Rightarrow> ('r option \<times> ('o, 'z) AvahiCache_scheme) option) \<Rightarrow> AvahiKey \<Rightarrow> nat list \<Rightarrow> ('o, 'z) AvahiCache_scheme \<Rightarrow>
   ('r option \<times> ('o, 'z) AvahiCache_scheme) option" where
  "walk_all cb pattern [] c = Some (None, c)"
| "walk_all cb pattern (e # es) c =
     do {
       m \<leftarrow> avahi_key_pattern_match pattern (ckey c e);
       if m then
         do {
           (r, c) \<leftarrow> cb e c;
           if r \<noteq> None then Some (r, c) else walk_all cb pattern es c
         }
       else walk_all cb pattern es c
     }"

fun walk_key ::
  "(nat \<Rightarrow> ('o, 'z) AvahiCache_scheme \<Rightarrow> ('r option \<times> ('o, 'z) AvahiCache_scheme) option) \<Rightarrow> nat list \<Rightarrow> ('o, 'z) AvahiCache_scheme \<Rightarrow>
   ('r option \<times> ('o, 'z) AvahiCache_scheme) option" where
  "walk_key cb [] c = Some (None, c)"
| "walk_key cb (e # es) c =
     do {
       (r, c) \<leftarrow> cb e c;
       if r \<noteq> None then Some (r, c) else walk_key cb es c
     }"

definition avahi_cache_walk ::
  "AvahiKey \<Rightarrow> (nat \<Rightarrow> ('o, 'z) AvahiCache_scheme \<Rightarrow> ('r option \<times> ('o, 'z) AvahiCache_scheme) option) \<Rightarrow> ('o, 'z) AvahiCache_scheme \<Rightarrow>
   ('r option \<times> ('o, 'z) AvahiCache_scheme) option" where
  "avahi_cache_walk pattern cb c =
     (if avahi_key_is_pattern pattern then walk_all cb pattern (cache_entries c) c
      else do { es \<leftarrow> lookup_key c pattern; walk_key cb es c })"

definition lookup_record_callback ::
  "AvahiRecord \<Rightarrow> nat \<Rightarrow> 'o AvahiCache \<Rightarrow> (nat option \<times> 'o AvahiCache) option" where
  "lookup_record_callback r e c =
     do {
       eq \<leftarrow> avahi_record_equal_no_ttl (cache_record (entry c e)) r;
       Some (if eq then Some e else None, c)
     }"

definition lookup_record :: "'o AvahiCache \<Rightarrow> AvahiRecord \<Rightarrow> nat option option" where
  "lookup_record c r = map_option fst (avahi_cache_walk (rkey r) (lookup_record_callback r) c)"

section \<open>Expiry\<close>

definition update_time_event :: "nat \<Rightarrow> 'o AvahiCache \<Rightarrow> 'o AvahiCache option" where
  "update_time_event e c =
     (case time_event (entry c e) of
        Some ev \<Rightarrow> do {
          q \<leftarrow> avahi_time_event_update ev (cache_expiry (entry c e)) (time_event_queue c);
          Some (c\<lparr>time_event_queue := q\<rparr>)
        }
      | None \<Rightarrow> do {
          let ev = fresh (events (time_event_queue c));
          q \<leftarrow> avahi_time_event_new ev (Some (cache_expiry (entry c e))) (Elapse e) (time_event_queue c);
          Some (upd_entry e (time_event_update (\<lambda>_. Some ev)) (c\<lparr>time_event_queue := q\<rparr>))
        })"

text \<open>\<open>AvahiUsec\<close> has 64 bits; the largest value here is below $2^{32} \cdot 10^4 \cdot 102 < 2^{53}$.\<close>

definition next_expiry :: "timeval \<Rightarrow> int \<Rightarrow> nat \<Rightarrow> nat \<Rightarrow> 'o AvahiCache \<Rightarrow> 'o AvahiCache option" where
  "next_expiry now rnd e percent c =
     (if \<not> (percent > 0 \<and> percent \<le> 100) then None
      else
        let usec = unat (ttl (cache_record (entry c e))) * 10000;
            left = usec * percent;
            right = usec * (percent + 2);
            c = (if tv_sec now \<ge> last_rand_timestamp c + 10
                 then c\<lparr>cache_last_rand := rnd, last_rand_timestamp := tv_sec now\<rparr> else c);
            usec = int left + rand_scale (right - left) (cache_last_rand c)
        in update_time_event e
             (upd_entry e (\<lambda>x. x\<lparr>cache_expiry := avahi_timeval_add (cache_timestamp x) usec\<rparr>) c))"

definition expire_in_one_second ::
  "timeval \<Rightarrow> nat \<Rightarrow> AvahiCacheEntryState \<Rightarrow> 'o AvahiCache \<Rightarrow> 'o AvahiCache option" where
  "expire_in_one_second now e st c =
     update_time_event e
       (upd_entry e (\<lambda>x. x\<lparr>state := st, cache_expiry := avahi_timeval_add now 1000000\<rparr>) c)"

text \<open>
  \<open>shall_refresh\<close> is \<open>avahi_querier_shall_refresh_cache\<close> of \<^verbatim>\<open>querier.c\<close>, which may move the event of the querier
  in the queue, and \<open>post_query\<close> is \<open>avahi_interface_post_query\<close> of \<^verbatim>\<open>iface.c\<close>, which may add an event to it.
\<close>

definition elapse_func ::
  "(AvahiKey \<Rightarrow> 'o event_callback AvahiTimeEventQueue \<Rightarrow> (bool \<times> 'o event_callback AvahiTimeEventQueue) option) \<Rightarrow>
   (AvahiKey \<Rightarrow> 'o event_callback AvahiTimeEventQueue \<Rightarrow> 'o event_callback AvahiTimeEventQueue option) \<Rightarrow>
   timeval \<Rightarrow> int \<Rightarrow> nat \<Rightarrow> 'o AvahiCache \<Rightarrow> 'o AvahiCache option" where
  "elapse_func shall_refresh post_query now rnd e c =
     (let later = (\<lambda>st percent.
        do {
          let c = upd_entry e (state_update (\<lambda>_. st)) c;
          (refresh, q) \<leftarrow> shall_refresh (ckey c e) (time_event_queue c);
          let c = c\<lparr>time_event_queue := q\<rparr>;
          c \<leftarrow> (if refresh then do {
                  q \<leftarrow> post_query (ckey c e) q;
                  Some (c\<lparr>time_event_queue := q, posted := ckey c e # posted c\<rparr>)
                } else Some c);
          next_expiry now rnd e percent c
        })
      in case state (entry c e) of
           AVAHI_CACHE_EXPIRY_FINAL \<Rightarrow> remove_entry e c
         | AVAHI_CACHE_POOF_FINAL \<Rightarrow> remove_entry e c
         | AVAHI_CACHE_GOODBYE_FINAL \<Rightarrow> remove_entry e c
         | AVAHI_CACHE_REPLACE_FINAL \<Rightarrow> remove_entry e c
         | AVAHI_CACHE_VALID \<Rightarrow> later AVAHI_CACHE_EXPIRY1 85
         | AVAHI_CACHE_POOF \<Rightarrow> later AVAHI_CACHE_EXPIRY1 85
         | AVAHI_CACHE_EXPIRY1 \<Rightarrow> later AVAHI_CACHE_EXPIRY2 90
         | AVAHI_CACHE_EXPIRY2 \<Rightarrow> later AVAHI_CACHE_EXPIRY3 95
         | AVAHI_CACHE_EXPIRY3 \<Rightarrow> later AVAHI_CACHE_EXPIRY_FINAL 100)"

definition avahi_cache_entry_half_ttl :: "timeval \<Rightarrow> ('o, 'z) AvahiCache_scheme \<Rightarrow> nat \<Rightarrow> bool" where
  "avahi_cache_entry_half_ttl now c e =
     (let age = word_of_int (avahi_timeval_diff now (cache_timestamp (entry c e)) sdiv 1000000) :: u32
      in age \<ge> ttl (cache_record (entry c e)) div 2)"

section \<open>Updating\<close>

text \<open>The loop that drops the entries older than one second, and the search for the same record.\<close>

primrec drop_old :: "timeval \<Rightarrow> nat list \<Rightarrow> 'o AvahiCache \<Rightarrow> 'o AvahiCache option" where
  "drop_old now [] c = Some c"
| "drop_old now (e # es) c =
     do {
       let t = avahi_timeval_diff now (cache_timestamp (entry c e));
       c \<leftarrow> (if t > 1000000 then expire_in_one_second now e AVAHI_CACHE_REPLACE_FINAL c else Some c);
       drop_old now es c
     }"

primrec find_same :: "AvahiRecord \<Rightarrow> nat list \<Rightarrow> 'o AvahiCache \<Rightarrow> nat option option" where
  "find_same r [] c = Some None"
| "find_same r (e # es) c =
     do {
       eq \<leftarrow> avahi_record_equal_no_ttl (cache_record (entry c e)) r;
       if eq then Some (Some e) else find_same r es c
     }"

definition new_cache_entry :: "AvahiRecord \<Rightarrow> nat list \<Rightarrow> 'o AvahiCache \<Rightarrow> nat \<times> 'o AvahiCache" where
  "new_cache_entry r first c =
     (let e = fresh (set (cache_entries c));
          c = upd_entry e (\<lambda>x. x\<lparr>time_event := None, cache_record := r\<rparr>) c;
          c = c\<lparr>hashmap := fst (snd (avahi_hashmap_replace (hashmap c) (ckey c e) (e # first))),
                cache_entries := e # cache_entries c,
                n_entries := n_entries c + 1\<rparr>
      in (e, notify e AVAHI_BROWSER_NEW c))"

definition replace_record :: "AvahiRecord \<Rightarrow> nat list \<Rightarrow> nat \<Rightarrow> 'o AvahiCache \<Rightarrow> 'o AvahiCache" where
  "replace_record r first e c =
     (let c = (if first \<noteq> [] \<and> hd first = e
               then c\<lparr>hashmap := fst (snd (avahi_hashmap_replace (hashmap c) (rkey r) first))\<rparr> else c)
      in upd_entry e (cache_record_update (\<lambda>_. r)) c)"

definition refresh_entry ::
  "timeval \<Rightarrow> int \<Rightarrow> bool \<Rightarrow> AvahiAddress \<Rightarrow> nat \<Rightarrow> 'o AvahiCache \<Rightarrow> 'o AvahiCache option" where
  "refresh_entry now rnd flush a e c =
     do {
       let c = upd_entry e (\<lambda>x. x\<lparr>origin := a, cache_timestamp := now\<rparr>) c;
       c \<leftarrow> next_expiry now rnd e 80 c;
       Some (upd_entry e (\<lambda>x. x\<lparr>state := AVAHI_CACHE_VALID, cache_flush := flush\<rparr>) c)
     }"

definition avahi_cache_update ::
  "timeval \<Rightarrow> int \<Rightarrow> AvahiRecord \<Rightarrow> bool \<Rightarrow> AvahiAddress \<Rightarrow> 'o AvahiCache \<Rightarrow> 'o AvahiCache option" where
  "avahi_cache_update now rnd r flush a c =
     (if ttl r = 0 then
        do {
          e \<leftarrow> lookup_record c r;
          case e of
            Some e \<Rightarrow> expire_in_one_second now e AVAHI_CACHE_GOODBYE_FINAL c
          | None \<Rightarrow> Some c
        }
      else
        do {
          first \<leftarrow> lookup_key c (rkey r);
          c \<leftarrow> (if flush then drop_old now first c else Some c);
          e \<leftarrow> find_same r first c;
          case e of
            Some e \<Rightarrow> refresh_entry now rnd flush a e (replace_record r first e c)
          | None \<Rightarrow>
              if n_entries c \<ge> n_cache_entries_max c then Some c
              else let (e, c) = new_cache_entry r first c in refresh_entry now rnd flush a e c
        })"

section \<open>Passive observation of failure\<close>

definition start_poof_callback ::
  "timeval \<Rightarrow> AvahiAddress \<Rightarrow> nat \<Rightarrow> 'o AvahiCache \<Rightarrow> (unit option \<times> 'o AvahiCache) option" where
  "start_poof_callback now a e c =
     (case state (entry c e) of
        AVAHI_CACHE_VALID \<Rightarrow>
          Some (None, upd_entry e (\<lambda>x. x\<lparr>state := AVAHI_CACHE_POOF, poof_address := a,
            poof_timestamp := now, poof_num := 0\<rparr>) c)
      | AVAHI_CACHE_POOF \<Rightarrow>
          if avahi_timeval_diff now (poof_timestamp (entry c e)) < 1000000 then Some (None, c)
          else do {
            let c = upd_entry e (\<lambda>x. x\<lparr>poof_timestamp := now, poof_address := a, poof_num := poof_num x + 1\<rparr>) c;
            c \<leftarrow> (if poof_num (entry c e) > 3 then expire_in_one_second now e AVAHI_CACHE_POOF_FINAL c else Some c);
            Some (None, c)
          }
      | _ \<Rightarrow> Some (None, c))"

definition avahi_cache_start_poof ::
  "timeval \<Rightarrow> AvahiKey \<Rightarrow> AvahiAddress \<Rightarrow> 'o AvahiCache \<Rightarrow> 'o AvahiCache option" where
  "avahi_cache_start_poof now k a c = map_option snd (avahi_cache_walk k (start_poof_callback now a) c)"

definition avahi_cache_stop_poof ::
  "timeval \<Rightarrow> int \<Rightarrow> AvahiRecord \<Rightarrow> AvahiAddress \<Rightarrow> 'o AvahiCache \<Rightarrow> 'o AvahiCache option" where
  "avahi_cache_stop_poof now rnd r a c =
     do {
       e \<leftarrow> lookup_record c r;
       case e of
         None \<Rightarrow> Some c
       | Some e \<Rightarrow>
           if (state (entry c e) = AVAHI_CACHE_POOF \<or> state (entry c e) = AVAHI_CACHE_POOF_FINAL) \<and>
              avahi_address_cmp a (poof_address (entry c e)) = 0
           then next_expiry now rnd e 80 (upd_entry e (state_update (\<lambda>_. AVAHI_CACHE_VALID)) c)
           else Some c
     }"

end
