(* ===== verification/Cache_Index.thy ===== *)
theory Cache_Index
  imports Cache
begin

text \<open>
  The hash table of the cache indexes the list of entries: looking up a key gives the entries with an equal key, in
  the order of the list. A key in the table is that of the first of its entries, so that it is never the key of
  a record that was given up.
\<close>

section \<open>Keys and values of the hash table after an operation\<close>

context hash_contract
begin

lemma replace_pairs:
  assumes "hm_inv hash equal ok m" "ok k" "h \<in> set (entries_list (fst (snd (avahi_hashmap_replace m k v))))"
  shows "ekey (fst (snd (avahi_hashmap_replace m k v))) h = k \<and> evalue (fst (snd (avahi_hashmap_replace m k v))) h = v \<or>
    h \<in> set (entries_list m) \<and> \<not> equal k (ekey m h) \<and>
    ekey (fst (snd (avahi_hashmap_replace m k v))) h = ekey m h \<and>
    evalue (fst (snd (avahi_hashmap_replace m k v))) h = evalue m h"
proof (cases "entry_get m k")
  case None
  with entry_get_None [OF assms(1,2)] have "\<forall>e \<in> set (entries_list m). \<not> equal k (ekey m e)" by blast
  with None assms(3) hm_inv_fresh [OF assms(1)] show ?thesis
    by (auto simp: avahi_hashmap_replace_def new_entry_def Let_def)
next
  case (Some e)
  then have e: "e \<in> set (entries_list m)" "equal k (ekey m e)" using entry_get_Some [OF assms(1,2)] by blast+
  then have "h \<noteq> e \<Longrightarrow> h \<in> set (entries_list m) \<Longrightarrow> \<not> equal k (ekey m h)"
    using entries_uniq [OF assms(1,2) _ e(1) _ e(2)] by blast
  with Some assms(3) show ?thesis by (auto simp: avahi_hashmap_replace_def)
qed

lemma remove_pairs:
  assumes "hm_inv hash equal ok m" "ok k" "h \<in> set (entries_list (fst (avahi_hashmap_remove m k)))"
  shows "h \<in> set (entries_list m) \<and> \<not> equal k (ekey m h) \<and>
    ekey (fst (avahi_hashmap_remove m k)) h = ekey m h \<and> evalue (fst (avahi_hashmap_remove m k)) h = evalue m h"
proof (cases "entry_get m k")
  case None
  with assms(3) entry_get_None [OF assms(1,2)] show ?thesis by (auto simp: avahi_hashmap_remove_def)
next
  case (Some e)
  then have e: "e \<in> set (entries_list m)" "equal k (ekey m e)" using entry_get_Some [OF assms(1,2)] by blast+
  then have "h \<noteq> e \<Longrightarrow> h \<in> set (entries_list m) \<Longrightarrow> \<not> equal k (ekey m h)"
    using entries_uniq [OF assms(1,2) _ e(1) _ e(2)] by blast
  with Some assms(3) entry_free_fields [OF assms(1), of e False] show ?thesis
    by (auto simp: avahi_hashmap_remove_def)
qed

end

section \<open>The index\<close>

definition chain :: "nat list \<Rightarrow> (nat \<Rightarrow> AvahiRecord) \<Rightarrow> AvahiKey \<Rightarrow> nat list" where
  "chain es rec k = filter (\<lambda>e. key_equal_fun k (rkey (rec e))) es"

definition idx_ok :: "(AvahiKey, nat list) AvahiHashmap \<Rightarrow> nat list \<Rightarrow> (nat \<Rightarrow> AvahiRecord) \<Rightarrow> bool" where
  "idx_ok m es rec =
     (hm_inv key_hash_fun key_equal_fun avahi_key_is_valid m \<and> distinct es \<and>
      (\<forall>e \<in> set es. record_ok (rec e) \<and> \<not> avahi_key_is_pattern (rkey (rec e)) \<and> ttl (rec e) \<noteq> 0) \<and>
      (\<forall>k. avahi_key_is_valid k \<longrightarrow>
         avahi_hashmap_lookup m k = (if chain es rec k = [] then None else Some (chain es rec k))) \<and>
      (\<forall>h \<in> set (entries_list m). evalue m h \<noteq> [] \<and> ekey m h = rkey (rec (hd (evalue m h)))) \<and>
      (\<forall>e \<in> set es. \<forall>f \<in> set es. same (rec e) (rec f) \<longrightarrow> e = f))"

lemma idx_okD:
  assumes "idx_ok m es rec"
  shows "hm_inv key_hash_fun key_equal_fun avahi_key_is_valid m" "distinct es"
    "e \<in> set es \<Longrightarrow> record_ok (rec e)" "e \<in> set es \<Longrightarrow> avahi_key_is_valid (rkey (rec e))"
    "avahi_key_is_valid k \<Longrightarrow>
       avahi_hashmap_lookup m k = (if chain es rec k = [] then None else Some (chain es rec k))"
    "h \<in> set (entries_list m) \<Longrightarrow> evalue m h \<noteq> [] \<and> ekey m h = rkey (rec (hd (evalue m h)))"
    "e \<in> set es \<Longrightarrow> f \<in> set es \<Longrightarrow> same (rec e) (rec f) \<Longrightarrow> e = f"
    "e \<in> set es \<Longrightarrow> \<not> avahi_key_is_pattern (rkey (rec e))" "e \<in> set es \<Longrightarrow> ttl (rec e) \<noteq> 0"
  using assms unfolding idx_ok_def record_ok_def by blast+

lemma chain_cong:
  assumes "\<forall>e \<in> set es. avahi_key_is_valid (rkey (rec e))" "avahi_key_is_valid k" "avahi_key_is_valid k'"
    "key_equal_fun k k'"
  shows "chain es rec k = chain es rec k'"
  unfolding chain_def using assms(1) key_table.equal_cong(1) [OF assms(2,3) _ assms(4)] by (intro filter_cong) auto

lemma chain_self:
  assumes "idx_ok m es rec" "e \<in> set es"
  shows "e \<in> set (chain es rec (rkey (rec e)))"
  using assms key_table.equal_refl [OF idx_okD(4) [OF assms]] by (simp add: chain_def)

lemma value_chain:
  assumes "idx_ok m es rec" "h \<in> set (entries_list m)"
  shows "evalue m h = chain es rec (ekey m h)"
proof -
  note inv = idx_okD(1) [OF assms(1)]
  have "avahi_hashmap_lookup m (ekey m h) = Some (evalue m h)"
    using key_table.entry_get_own [OF inv assms(2)] by (simp add: avahi_hashmap_lookup_def)
  then show ?thesis using idx_okD(5) [OF assms(1) hm_invD(5) [OF inv assms(2)]] by (simp split: if_splits)
qed

lemma idx_remove:
  assumes "idx_ok m es rec" "e \<in> set es"
    and "m' = (case remove1 e (chain es rec (rkey (rec e))) of
      f # t \<Rightarrow> fst (snd (avahi_hashmap_replace m (rkey (rec f)) (f # t)))
    | [] \<Rightarrow> fst (avahi_hashmap_remove m (rkey (rec e))))"
  shows "idx_ok m' (remove1 e es) rec"
proof -
  note ok = idx_okD [OF assms(1)]
  define k where "k = rkey (rec e)"
  define t where "t = remove1 e (chain es rec k)"
  have k: "avahi_key_is_valid k" using ok(4) [OF assms(2)] by (simp add: k_def)
  have es: "\<forall>e \<in> set es. avahi_key_is_valid (rkey (rec e))" using ok(4) by blast
  have t_chain: "t = chain (remove1 e es) rec k" by (simp add: t_def chain_def filter_remove1)
  have other: "chain (remove1 e es) rec q = chain es rec q" if "\<not> key_equal_fun q k" for q
    using that by (simp add: chain_def k_def filter_remove1 remove1_idem)
  have congr: "chain (remove1 e es) rec q = t" if "avahi_key_is_valid q" "key_equal_fun q k" for q
    unfolding t_chain using es chain_cong [OF _ that(1) k that(2)] by (meson notin_set_remove1)
  obtain k' where k': "avahi_key_is_valid k'" "key_equal_fun k k'"
    and m': "m' = (if t = [] then fst (avahi_hashmap_remove m k') else fst (snd (avahi_hashmap_replace m k' t)))"
      "t \<noteq> [] \<Longrightarrow> k' = rkey (rec (hd t))"
  proof (cases t)
    case Nil
    with that [of k] k key_table.equal_refl assms(3) show ?thesis by (simp add: t_def k_def)
  next
    case (Cons f fs)
    then have "f \<in> set (chain (remove1 e es) rec k)" using t_chain by simp
    then have "f \<in> set es" "key_equal_fun k (rkey (rec f))" by (auto simp: chain_def dest: set_remove1_subset [THEN subsetD])
    moreover from this(1) have "avahi_key_is_valid (rkey (rec f))" using es by blast
    moreover have "m' = fst (snd (avahi_hashmap_replace m (rkey (rec f)) t))"
      using assms(3) unfolding k_def [symmetric] t_def [symmetric] Cons by simp
    ultimately show ?thesis by (intro that [of "rkey (rec f)"]) (simp_all only: Cons list.sel list.distinct if_False)
  qed
  have eq: "key_equal_fun q k' \<longleftrightarrow> key_equal_fun q k" if "avahi_key_is_valid q" for q
    by (rule key_table.equal_cong(2) [OF k k'(1) that k'(2), symmetric])
  have lookup: "avahi_hashmap_lookup m' q = (if chain (remove1 e es) rec q = [] then None else Some (chain (remove1 e es) rec q))"
    if q: "avahi_key_is_valid q" for q
  proof (cases "key_equal_fun q k")
    case True
    with key_table.lookup_remove [OF ok(1) k'(1) q] key_table.lookup_replace [OF ok(1) k'(1) q, of t]
      congr [OF q True] eq [OF q] m'(1) show ?thesis by simp
  next
    case False
    with key_table.lookup_remove [OF ok(1) k'(1) q] key_table.lookup_replace [OF ok(1) k'(1) q, of t]
      other [OF False] eq [OF q] m'(1) ok(5) [OF q] show ?thesis by simp
  qed
  have inv: "hm_inv key_hash_fun key_equal_fun avahi_key_is_valid m'"
    using key_table.remove_inv [OF ok(1) k'(1)] key_table.replace_op_inv [OF ok(1) k'(1)] by (simp add: m'(1))
  have live: "evalue m' h \<noteq> [] \<and> ekey m' h = rkey (rec (hd (evalue m' h)))" if "h \<in> set (entries_list m')" for h
  proof (cases "t = []")
    case True
    with that m'(1) ok(6) [of h] key_table.remove_pairs [OF ok(1) k'(1), of h] show ?thesis by simp
  next
    case False
    with that m'(1) have h: "h \<in> set (entries_list (fst (snd (avahi_hashmap_replace m k' t))))" by simp
    from key_table.replace_pairs [OF ok(1) k'(1) h] ok(6) [of h] m' False show ?thesis by auto
  qed
  show ?thesis
    unfolding idx_ok_def using inv ok(2) lookup live ok(3,7,8,9)
    by (intro conjI ballI allI impI) (auto dest: set_remove1_subset [THEN subsetD])
qed

lemma idx_new:
  assumes "idx_ok m es rec" "e \<notin> set es" "record_ok r" "\<not> avahi_key_is_pattern (rkey r)" "ttl r \<noteq> 0"
    and "\<forall>f \<in> set es. \<not> same (rec f) r"
  shows "idx_ok (fst (snd (avahi_hashmap_replace m (rkey r) (e # chain es rec (rkey r))))) (e # es) (rec(e := r))"
    (is "idx_ok ?m _ _")
proof -
  note ok = idx_okD [OF assms(1)]
  let ?k = "rkey r" and ?rec = "rec(e := r)"
  have k: "avahi_key_is_valid ?k" using assms(3) by (simp add: record_ok_def)
  have es: "\<forall>e \<in> set es. avahi_key_is_valid (rkey (rec e))" using ok(4) by blast
  have "chain es ?rec q = chain es rec q" for q
    unfolding chain_def using assms(2) by (intro filter_cong) auto
  then have ch: "chain (e # es) ?rec q = (if key_equal_fun q ?k then e # chain es rec q else chain es rec q)" for q
    by (simp add: chain_def)
  have lookup: "avahi_hashmap_lookup ?m q = (if chain (e # es) ?rec q = [] then None else Some (chain (e # es) ?rec q))"
    if q: "avahi_key_is_valid q" for q
    using key_table.lookup_replace [OF ok(1) k q, of "e # chain es rec ?k"] ok(5) [OF q] chain_cong [OF es q k]
    by (simp add: ch)
  have live: "evalue ?m h \<noteq> [] \<and> ekey ?m h = rkey (?rec (hd (evalue ?m h)))" if h: "h \<in> set (entries_list ?m)" for h
    using key_table.replace_pairs [OF ok(1) k h]
  proof
    assume "h \<in> set (entries_list m) \<and> \<not> key_equal_fun ?k (ekey m h) \<and> ekey ?m h = ekey m h \<and> evalue ?m h = evalue m h"
    moreover then have "hd (evalue m h) \<in> set es"
      using value_chain [OF assms(1), of h] ok(6) [of h] by (metis chain_def filter_is_subset hd_in_set subsetD)
    ultimately show ?thesis using ok(6) [of h] assms(2) by auto
  qed simp
  have "\<not> same r (rec f)" if "f \<in> set es" for f
    using assms(6) that record_equal_total(2) [OF assms(3) ok(3) [OF that]] by blast
  then show ?thesis
    using key_table.replace_op_inv [OF ok(1) k, of "e # chain es rec ?k"] ok(2,3,7,8,9) lookup live assms(2-6)
    unfolding idx_ok_def by (auto split: if_splits)
qed

lemma idx_replace:
  assumes "idx_ok m es rec" "e \<in> set es" "record_ok r" "ttl r \<noteq> 0" "same (rec e) r"
    and "m' = (if hd (chain es rec (rkey r)) = e then fst (snd (avahi_hashmap_replace m (rkey r) (chain es rec (rkey r)))) else m)"
  shows "idx_ok m' es (rec(e := r))"
proof -
  note ok = idx_okD [OF assms(1)]
  let ?k = "rkey r" and ?rec = "rec(e := r)"
  have re: "record_ok (rec e)" "avahi_key_is_valid (rkey (rec e))" by (rule ok(3) [OF assms(2)], rule ok(4) [OF assms(2)])
  have k: "avahi_key_is_valid ?k" using assms(3) by (simp add: record_ok_def)
  note keys = same_keys [OF re(1) assms(3,5)]
  have es: "\<forall>e \<in> set es. avahi_key_is_valid (rkey (rec e))" using ok(4) by blast
  have ch: "chain es ?rec q = chain es rec q" if "avahi_key_is_valid q" for q
    unfolding chain_def using key_table.equal_cong(2) [OF re(2) k that keys(1)] by (intro filter_cong) auto
  have mem: "e \<in> set (chain es rec ?k)"
    using chain_self [OF assms(1,2)] chain_cong [OF es re(2) k keys(1)] by simp
  have lookup: "avahi_hashmap_lookup m' q = (if chain es ?rec q = [] then None else Some (chain es ?rec q))"
    if q: "avahi_key_is_valid q" for q
    using key_table.lookup_replace [OF ok(1) k q, of "chain es rec ?k"] ok(5) [OF q] chain_cong [OF es q k] mem assms(6)
    by (auto simp: ch [OF q])
  have inv: "hm_inv key_hash_fun key_equal_fun avahi_key_is_valid m'"
    using key_table.replace_op_inv [OF ok(1) k] ok(1) by (simp add: assms(6))
  have old: "hd (evalue m h) = e \<Longrightarrow> hd (chain es rec ?k) = e \<and> key_equal_fun ?k (ekey m h)" if h: "h \<in> set (entries_list m)" for h
  proof -
    assume "hd (evalue m h) = e"
    then have e: "ekey m h = rkey (rec e)" using ok(6) [OF h] by simp
    then have "evalue m h = chain es rec ?k"
      using value_chain [OF assms(1) h] chain_cong [OF es re(2) k keys(1)] by simp
    then show "hd (chain es rec ?k) = e \<and> key_equal_fun ?k (ekey m h)"
      using \<open>hd (evalue m h) = e\<close> e keys(1) key_table.equal_sym [OF re(2) k] by simp
  qed
  have live: "evalue m' h \<noteq> [] \<and> ekey m' h = rkey (?rec (hd (evalue m' h)))" if h: "h \<in> set (entries_list m')" for h
  proof (cases "hd (chain es rec ?k) = e")
    case True
    with h key_table.replace_pairs [OF ok(1) k, of h "chain es rec ?k"] old [of h] ok(6) [of h] mem show ?thesis
      by (auto simp: assms(6))
  next
    case False
    with h old [of h] ok(6) [of h] show ?thesis by (auto simp: assms(6))
  qed
  have np: "\<not> avahi_key_is_pattern ?k" using ok(8) [OF assms(2)] keys(2,3) by (simp add: avahi_key_is_pattern_def)
  have uniq: "same (?rec a) (?rec b) \<longrightarrow> a = b" if ab: "a \<in> set es" "b \<in> set es" for a b
  proof
    assume s: "same (?rec a) (?rec b)"
    have "same (rec a) (?rec a)" "same (?rec b) (rec b)" "record_ok (?rec a)" "record_ok (?rec b)"
      using assms(3,5) re record_equal_total(2,3) ok(3) ab by auto
    then have "same (rec a) (rec b)" using s same_trans ok(3) ab by meson
    with ok(7) [OF ab] show "a = b" .
  qed
  then show ?thesis
    using inv ok(2,3,8,9) lookup live assms(3,4) np unfolding idx_ok_def by auto
qed

end
