(* ===== verification/Cache_Events.thy ===== *)
theory Cache_Events
  imports Cache_Index
begin

text \<open>
  The events of the cache in the queue of time events: every entry has exactly one, which will call \<open>elapse_func\<close>
  for it at the time the entry says, and no event refers to an entry that is gone.
\<close>

section \<open>The invariant of the events\<close>

definition entry_events :: "nat set \<Rightarrow> (nat \<Rightarrow> AvahiCacheEntry) \<Rightarrow> (nat \<times> nat \<times> timeval) set" where
  "entry_events es ent = (\<lambda>e. (the (time_event (ent e)), e, cache_expiry (ent e))) ` es"

definition events_ok :: "nat set \<Rightarrow> (nat \<Rightarrow> AvahiCacheEntry) \<Rightarrow> 'o event_callback AvahiTimeEventQueue \<Rightarrow> bool" where
  "events_ok es ent q =
     (teq_ok q \<and> (\<forall>e \<in> es. time_event (ent e) \<noteq> None) \<and> elapse_events q = entry_events es ent)"

lemma events_okD:
  assumes "events_ok es ent q"
  shows "teq_ok q" "elapse_events q = entry_events es ent"
    "e \<in> es \<Longrightarrow> \<exists>ev. time_event (ent e) = Some ev \<and> ev \<in> events q \<and> callback (event q ev) = Elapse e \<and>
      expiry (event q ev) = cache_expiry (ent e)"
    "ev \<in> events q \<Longrightarrow> callback (event q ev) = Elapse e \<Longrightarrow> e \<in> es \<and> time_event (ent e) = Some ev"
proof -
  show eq: "teq_ok q" "elapse_events q = entry_events es ent" using assms by (simp_all add: events_ok_def)
  show "\<exists>ev. time_event (ent e) = Some ev \<and> ev \<in> events q \<and> callback (event q ev) = Elapse e \<and>
      expiry (event q ev) = cache_expiry (ent e)" if "e \<in> es"
  proof -
    obtain ev where ev: "time_event (ent e) = Some ev" using assms \<open>e \<in> es\<close> by (auto simp: events_ok_def)
    then have "(ev, e, cache_expiry (ent e)) \<in> elapse_events q"
      using that unfolding eq(2) entry_events_def by (force intro: rev_image_eqI)
    with ev show ?thesis by (auto dest: elapse_eventsD)
  qed
  show "e \<in> es \<and> time_event (ent e) = Some ev" if "ev \<in> events q" "callback (event q ev) = Elapse e"
    using elapse_eventsI [OF that] assms unfolding eq(2) entry_events_def by (auto simp: events_ok_def)
qed

lemma events_ok_cong:
  assumes "\<And>e. e \<in> es \<Longrightarrow> time_event (ent' e) = time_event (ent e) \<and> cache_expiry (ent' e) = cache_expiry (ent e)"
  shows "events_ok es ent' q = events_ok es ent q"
  unfolding events_ok_def entry_events_def using assms by (auto intro!: image_cong ball_cong)

text \<open>
  The invariant while the event of one entry is behind: either the entry has no event yet, or it has one with a
  time that is out of date.
\<close>

definition pending :: "nat set \<Rightarrow> (nat \<Rightarrow> AvahiCacheEntry) \<Rightarrow> nat \<Rightarrow> 'o event_callback AvahiTimeEventQueue \<Rightarrow> bool" where
  "pending es ent e q =
     (e \<in> es \<and> teq_ok q \<and> (\<forall>f \<in> es - {e}. time_event (ent f) \<noteq> None) \<and>
      (case time_event (ent e) of
         None \<Rightarrow> elapse_events q = entry_events (es - {e}) ent
       | Some ev \<Rightarrow> \<exists>t. elapse_events q = insert (ev, e, t) (entry_events (es - {e}) ent)))"

lemma pending_cong:
  assumes "\<And>f. f \<in> es \<Longrightarrow> f \<noteq> e \<Longrightarrow> ent' f = ent f" "time_event (ent' e) = time_event (ent e)"
  shows "pending es ent' e q = pending es ent e q"
proof -
  have "entry_events (es - {e}) ent' = entry_events (es - {e}) ent"
    unfolding entry_events_def using assms(1) by (intro image_cong) auto
  moreover have "(\<forall>f \<in> es - {e}. time_event (ent' f) \<noteq> None) = (\<forall>f \<in> es - {e}. time_event (ent f) \<noteq> None)"
    using assms(1) by simp
  ultimately show ?thesis unfolding pending_def assms(2) by (simp split: option.split)
qed

lemma pending_events_ok:
  assumes "events_ok es ent q" "e \<in> es"
    and "\<And>f. f \<in> es \<Longrightarrow> f \<noteq> e \<Longrightarrow> ent' f = ent f" "time_event (ent' e) = time_event (ent e)"
  shows "pending es ent' e q"
proof -
  obtain ev where ev: "time_event (ent e) = Some ev" using assms(1,2) by (auto simp: events_ok_def)
  have "entry_events (es - {e}) ent' = entry_events (es - {e}) ent"
    unfolding entry_events_def using assms(3) by (intro image_cong) auto
  moreover have "entry_events es ent = insert (ev, e, cache_expiry (ent e)) (entry_events (es - {e}) ent)"
    unfolding entry_events_def by (subst insert_Diff [OF assms(2), symmetric], subst image_insert) (simp add: ev)
  ultimately have "elapse_events q = insert (ev, e, cache_expiry (ent e)) (entry_events (es - {e}) ent')"
    using events_okD(2) [OF assms(1)] by simp
  moreover have "\<forall>f \<in> es - {e}. time_event (ent' f) \<noteq> None" using assms(1,3) by (simp add: events_ok_def)
  ultimately show ?thesis
    using assms(2) events_okD(1) [OF assms(1)] unfolding pending_def assms(4) ev option.case by blast
qed

lemma pending_new:
  assumes "events_ok es ent q" "e \<notin> es" "\<And>f. f \<in> es \<Longrightarrow> ent' f = ent f" "time_event (ent' e) = None"
  shows "pending (insert e es) ent' e q"
proof -
  have "entry_events (insert e es - {e}) ent' = entry_events es ent"
    unfolding entry_events_def using assms(2,3) by (intro image_cong) auto
  with assms show ?thesis by (auto simp: pending_def events_ok_def)
qed

lemma update_time_event_ok:
  assumes "pending (set (cache_entries c)) (entry c) e (time_event_queue c)"
  obtains q ev where
    "update_time_event e c = Some (c\<lparr>time_event_queue := q,
       entry := (entry c)(e := (entry c e)\<lparr>time_event := Some ev\<rparr>)\<rparr>)"
    "events_ok (set (cache_entries c)) ((entry c)(e := (entry c e)\<lparr>time_event := Some ev\<rparr>)) q"
    "time_event (entry c e) \<noteq> None \<longrightarrow> time_event (entry c e) = Some ev"
proof -
  let ?q = "time_event_queue c" and ?es = "set (cache_entries c)" and ?t = "cache_expiry (entry c e)"
  have e: "e \<in> ?es" "teq_ok ?q" "\<forall>f \<in> ?es - {e}. time_event (entry c f) \<noteq> None"
    using assms by (simp_all add: pending_def)
  have fin: "events_ok ?es ((entry c)(e := (entry c e)\<lparr>time_event := Some ev\<rparr>)) q"
    if "teq_ok q" "elapse_events q = insert (ev, e, ?t) (entry_events (?es - {e}) (entry c))" for q ev
  proof -
    let ?ent = "(entry c)(e := (entry c e)\<lparr>time_event := Some ev\<rparr>)"
    have "entry_events (?es - {e}) ?ent = entry_events (?es - {e}) (entry c)"
      unfolding entry_events_def by (intro image_cong) auto
    moreover have "entry_events ?es ?ent = insert (ev, e, ?t) (entry_events (?es - {e}) ?ent)"
      using e(1) unfolding entry_events_def by (subst insert_Diff [OF e(1), symmetric], subst image_insert) simp
    ultimately show ?thesis using that e(3) by (auto simp: events_ok_def)
  qed
  show ?thesis
  proof (cases "time_event (entry c e)")
    case None
    obtain q where q: "avahi_time_event_new (fresh (events ?q)) (Some ?t) (Elapse e) ?q = Some q" "teq_ok q"
      "elapse_events q = insert (fresh (events ?q), e, ?t) (elapse_events ?q)"
      by (rule new_elapse [OF e(2) fresh_event [OF e(2)]])
    moreover have "elapse_events ?q = entry_events (?es - {e}) (entry c)" using assms None by (simp add: pending_def)
    ultimately show ?thesis
      using None by (intro that [where q = q and ev = "fresh (events ?q)"] fin) (simp_all add: update_time_event_def Let_def)
  next
    case (Some ev)
    then obtain t where t: "elapse_events ?q = insert (ev, e, t) (entry_events (?es - {e}) (entry c))"
      using assms by (auto simp: pending_def)
    then have ev: "ev \<in> events ?q" "callback (event ?q ev) = Elapse e" using elapse_eventsD(1,2) by blast+
    obtain q where q: "avahi_time_event_update ev ?t ?q = Some q" "teq_ok q"
      "elapse_events q = insert (ev, e, ?t) {x \<in> elapse_events ?q. fst x \<noteq> ev}"
      by (rule update_elapse [OF e(2) ev])
    have "{x \<in> elapse_events ?q. fst x \<noteq> ev} = entry_events (?es - {e}) (entry c)"
    proof
      show "{x \<in> elapse_events ?q. fst x \<noteq> ev} \<subseteq> entry_events (?es - {e}) (entry c)" using t by auto
      have "fst x \<noteq> ev" if x: "x \<in> entry_events (?es - {e}) (entry c)" for x
      proof
        assume "fst x = ev"
        moreover have "x \<in> elapse_events ?q" using x t by blast
        ultimately have "callback (event ?q ev) = Elapse (fst (snd x))"
          by (cases x) (auto dest: elapse_eventsD)
        with ev(2) have "fst (snd x) = e" by simp
        then show False using x by (auto simp: entry_events_def)
      qed
      then show "entry_events (?es - {e}) (entry c) \<subseteq> {x \<in> elapse_events ?q. fst x \<noteq> ev}" using t by blast
    qed
    moreover have "(entry c)(e := (entry c e)\<lparr>time_event := Some ev\<rparr>) = entry c" using Some by auto
    ultimately show ?thesis
      using q Some fin [of q ev] by (intro that [where q = q and ev = ev]) (simp_all add: update_time_event_def)
  qed
qed

end
