(* ===== verification/Cache_Ops.thy ===== *)
theory Cache_Ops
  imports Cache_Events
begin

text \<open>
  The invariant of the cache, and what each operation does to a cache in which it holds: it returns, keeps the
  invariant, and changes the entries as described.
\<close>

section \<open>The invariant\<close>

text \<open>
  While an entry is in use, its expiry lies at a percentage of its TTL that depends on its state, with two
  percent of jitter; in the other final states it was set to one second after the event that led there.
\<close>

fun stage_percent :: "AvahiCacheEntryState \<Rightarrow> nat option" where
  "stage_percent AVAHI_CACHE_VALID = Some 80"
| "stage_percent AVAHI_CACHE_POOF = Some 80"
| "stage_percent AVAHI_CACHE_EXPIRY1 = Some 85"
| "stage_percent AVAHI_CACHE_EXPIRY2 = Some 90"
| "stage_percent AVAHI_CACHE_EXPIRY3 = Some 95"
| "stage_percent AVAHI_CACHE_EXPIRY_FINAL = Some 100"
| "stage_percent _ = None"

definition ttl_usec :: "AvahiCacheEntry \<Rightarrow> int" where
  "ttl_usec x = uint (ttl (cache_record x)) * 1000000"

definition at_percent :: "AvahiCacheEntry \<Rightarrow> nat \<Rightarrow> bool" where
  "at_percent x p =
     (usecs (cache_timestamp x) * 100 + ttl_usec x * int p \<le> usecs (cache_expiry x) * 100 \<and>
      usecs (cache_expiry x) * 100 \<le> usecs (cache_timestamp x) * 100 + ttl_usec x * int (p + 2))"

definition timed :: "AvahiCacheEntry \<Rightarrow> bool" where
  "timed x =
     (tv_norm (cache_timestamp x) \<and> tv_norm (cache_expiry x) \<and>
      (case stage_percent (state x) of None \<Rightarrow> True | Some p \<Rightarrow> at_percent x p))"

definition rand_ok :: "'o AvahiCache \<Rightarrow> bool" where
  "rand_ok c = (last_rand_timestamp c = 0 \<or> 0 \<le> cache_last_rand c \<and> cache_last_rand c < 2 ^ 31)"

definition clock_ok :: "timeval \<Rightarrow> int \<Rightarrow> bool" where
  "clock_ok now rnd = (tv_norm now \<and> 10 \<le> tv_sec now \<and> 0 \<le> rnd \<and> rnd < 2 ^ 31)"

definition cache_ok :: "'o AvahiCache \<Rightarrow> bool" where
  "cache_ok c =
     (idx_ok (hashmap c) (cache_entries c) (\<lambda>e. cache_record (entry c e)) \<and>
      n_entries c = length (cache_entries c) \<and> n_entries c \<le> n_cache_entries_max c \<and>
      events_ok (set (cache_entries c)) (entry c) (time_event_queue c) \<and>
      (\<forall>e \<in> set (cache_entries c). timed (entry c e)) \<and> rand_ok c)"

lemma cache_okD:
  assumes "cache_ok c"
  shows "idx_ok (hashmap c) (cache_entries c) (\<lambda>e. cache_record (entry c e))"
    "n_entries c = length (cache_entries c)" "n_entries c \<le> n_cache_entries_max c"
    "events_ok (set (cache_entries c)) (entry c) (time_event_queue c)"
    "e \<in> set (cache_entries c) \<Longrightarrow> timed (entry c e)" "rand_ok c" "distinct (cache_entries c)"
    "e \<in> set (cache_entries c) \<Longrightarrow> record_ok (cache_record (entry c e))"
    "teq_ok (time_event_queue c)"
  using assms unfolding cache_ok_def idx_ok_def events_ok_def by blast+

text \<open>What most operations leave alone.\<close>

definition same_index :: "'o AvahiCache \<Rightarrow> 'o AvahiCache \<Rightarrow> bool" where
  "same_index c c' =
     (hashmap c' = hashmap c \<and> cache_entries c' = cache_entries c \<and> n_entries c' = n_entries c \<and>
      n_cache_entries_max c' = n_cache_entries_max c \<and> notified c' = notified c \<and>
      (\<lambda>e. cache_record (entry c' e)) = (\<lambda>e. cache_record (entry c e)))"

lemma same_index_refl [simp]: "same_index c c"
  by (simp add: same_index_def)

lemma same_index_trans: "same_index a b \<Longrightarrow> same_index b c \<Longrightarrow> same_index a c"
  by (simp add: same_index_def)

lemma cache_ok_frame:
  assumes "cache_ok c" "same_index c c'" "events_ok (set (cache_entries c)) (entry c') (time_event_queue c')"
    "\<forall>e \<in> set (cache_entries c). timed (entry c' e)" "rand_ok c'"
  shows "cache_ok c'"
  using assms unfolding cache_ok_def same_index_def by simp

section \<open>Time\<close>

lemma clock_okD: "clock_ok now rnd \<Longrightarrow> tv_norm now" "clock_ok now rnd \<Longrightarrow> 0 \<le> rnd \<and> rnd < 2 ^ 31"
  "clock_ok now rnd \<Longrightarrow> 10 \<le> tv_sec now"
  by (simp_all add: clock_ok_def)

lemma tv_norm_add: "tv_norm t \<Longrightarrow> 0 \<le> u \<Longrightarrow> tv_norm (avahi_timeval_add t u)"
  by (subst avahi_timeval_add_norm) (simp add: tv_norm_def)

lemma next_expiry_ok:
  assumes "clock_ok now rnd" "rand_ok c" "0 < p" "p \<le> 100" "tv_norm (cache_timestamp (entry c e))"
    and "pending (set (cache_entries c)) (entry c) e (time_event_queue c)"
  obtains c' t ev where "next_expiry now rnd e p c = Some c'" "same_index c c'" "posted c' = posted c"
    "entry c' = (entry c)(e := (entry c e)\<lparr>cache_expiry := t, time_event := Some ev\<rparr>)"
    "events_ok (set (cache_entries c)) (entry c') (time_event_queue c')" "rand_ok c'"
    "tv_norm t" "at_percent (entry c' e) p"
    "time_event (entry c e) \<noteq> None \<longrightarrow> time_event (entry c e) = Some ev"
proof -
  define u where "u = unat (ttl (cache_record (entry c e))) * 10000"
  define c1 where "c1 = (if tv_sec now \<ge> last_rand_timestamp c + 10
                 then c\<lparr>cache_last_rand := rnd, last_rand_timestamp := tv_sec now\<rparr> else c)"
  define t where "t = avahi_timeval_add (cache_timestamp (entry c e))
    (int (u * p) + rand_scale (u * (p + 2) - u * p) (cache_last_rand c1))"
  define c2 where "c2 = upd_entry e (\<lambda>x. x\<lparr>cache_expiry := t\<rparr>) c1"
  have c1: "entry c1 = entry c" "time_event_queue c1 = time_event_queue c" "cache_entries c1 = cache_entries c"
    "same_index c c1" "posted c1 = posted c" by (simp_all add: c1_def same_index_def)
  have r: "0 \<le> cache_last_rand c1 \<and> cache_last_rand c1 < 2 ^ 31"
    using assms(2) clock_okD [OF assms(1)] unfolding c1_def rand_ok_def by auto
  have scale: "0 \<le> rand_scale (u * (p + 2) - u * p) (cache_last_rand c1)"
    "rand_scale (u * (p + 2) - u * p) (cache_last_rand c1) \<le> int (u * 2)"
    using rand_scale_range [of "cache_last_rand c1" "u * (p + 2) - u * p"] r
    by (simp_all add: algebra_simps)
  have pend: "pending (set (cache_entries c2)) (entry c2) e (time_event_queue c2)"
    using assms(6) pending_cong [of "set (cache_entries c)" e "entry c2" "entry c" "time_event_queue c"] by (simp add: c2_def c1)
  obtain q ev where q: "update_time_event e c2 = Some (c2\<lparr>time_event_queue := q,
       entry := (entry c2)(e := (entry c2 e)\<lparr>time_event := Some ev\<rparr>)\<rparr>)"
    "events_ok (set (cache_entries c2)) ((entry c2)(e := (entry c2 e)\<lparr>time_event := Some ev\<rparr>)) q"
    "time_event (entry c2 e) \<noteq> None \<longrightarrow> time_event (entry c2 e) = Some ev"
    by (rule update_time_event_ok [OF pend])
  define c3 where "c3 = c2\<lparr>time_event_queue := q, entry := (entry c2)(e := (entry c2 e)\<lparr>time_event := Some ev\<rparr>)\<rparr>"
  have ent: "entry c3 = (entry c)(e := (entry c e)\<lparr>cache_expiry := t, time_event := Some ev\<rparr>)"
    by (simp add: c3_def c2_def c1)
  have "usecs t = usecs (cache_timestamp (entry c e)) + (int (u * p) + rand_scale (u * (p + 2) - u * p) (cache_last_rand c1))"
    by (simp add: t_def)
  moreover have "ttl_usec (entry c e) = int u * 100" by (simp add: ttl_usec_def u_def)
  moreover have "cache_timestamp (entry c3 e) = cache_timestamp (entry c e)" "ttl_usec (entry c3 e) = ttl_usec (entry c e)"
    "cache_expiry (entry c3 e) = t" by (simp_all add: ent ttl_usec_def)
  ultimately have "at_percent (entry c3 e) p"
    using scale unfolding at_percent_def by (simp add: algebra_simps)
  moreover have "tv_norm t" unfolding t_def using scale by (intro tv_norm_add assms(5)) simp
  moreover have "next_expiry now rnd e p c = Some c3"
  proof -
    have p: "\<not> \<not> (p > 0 \<and> p \<le> 100)" using assms(3,4) by simp
    have "next_expiry now rnd e p c = update_time_event e
        (upd_entry e (\<lambda>x. x\<lparr>cache_expiry := avahi_timeval_add (cache_timestamp x)
          (int (u * p) + rand_scale (u * (p + 2) - u * p) (cache_last_rand c1))\<rparr>) c1)"
      unfolding next_expiry_def if_not_P [OF p] Let_def u_def c1_def by (rule refl)
    also have "\<dots> = update_time_event e c2" by (simp add: c2_def t_def c1)
    finally show ?thesis using q(1) by (simp only: c3_def)
  qed
  moreover have "rand_ok c3"
    using r by (simp add: rand_ok_def c3_def c2_def)
  moreover have "same_index c c3" "posted c3 = posted c" using c1(4,5) by (auto simp: same_index_def c3_def c2_def c1)
  moreover have "events_ok (set (cache_entries c)) (entry c3) (time_event_queue c3)"
    using q(2) by (simp add: c3_def c2_def c1)
  moreover have "time_event (entry c e) \<noteq> None \<longrightarrow> time_event (entry c e) = Some ev"
    using q(3) by (simp add: c2_def c1)
  ultimately show ?thesis using ent by (intro that [where c' = c3 and t = t and ev = ev])
qed

lemma expire_in_one_second_ok:
  assumes "cache_ok c" "e \<in> set (cache_entries c)" "tv_norm now" "stage_percent st = None"
  obtains c' where "expire_in_one_second now e st c = Some c'" "cache_ok c'" "same_index c c'" "posted c' = posted c"
    "entry c' = (entry c)(e := (entry c e)\<lparr>state := st, cache_expiry := avahi_timeval_add now 1000000\<rparr>)"
proof -
  define c1 where "c1 = upd_entry e (\<lambda>x. x\<lparr>state := st, cache_expiry := avahi_timeval_add now 1000000\<rparr>) c"
  note ok = cache_okD [OF assms(1)]
  have "pending (set (cache_entries c1)) (entry c1) e (time_event_queue c1)"
    using pending_events_ok [OF ok(4) assms(2), of "entry c1"] by (simp add: c1_def)
  then obtain q ev where q: "update_time_event e c1 = Some (c1\<lparr>time_event_queue := q,
       entry := (entry c1)(e := (entry c1 e)\<lparr>time_event := Some ev\<rparr>)\<rparr>)"
    "events_ok (set (cache_entries c1)) ((entry c1)(e := (entry c1 e)\<lparr>time_event := Some ev\<rparr>)) q"
    "time_event (entry c1 e) \<noteq> None \<longrightarrow> time_event (entry c1 e) = Some ev"
    by (rule update_time_event_ok)
  have "time_event (entry c e) \<noteq> None" using ok(4) assms(2) by (auto simp: events_ok_def)
  then have same: "(entry c1)(e := (entry c1 e)\<lparr>time_event := Some ev\<rparr>) = entry c1"
    using q(3) by (auto simp: c1_def)
  define c2 where "c2 = c1\<lparr>time_event_queue := q\<rparr>"
  have c2: "expire_in_one_second now e st c = Some c2" "entry c2 = entry c1"
    using q(1) unfolding same by (simp_all add: expire_in_one_second_def c1_def c2_def)
  have idx: "same_index c c2" by (auto simp: same_index_def c2_def c1_def)
  have "timed (entry c2 f)" if "f \<in> set (cache_entries c)" for f
    using ok(5) [OF that] ok(5) [OF assms(2)] assms(3,4) tv_norm_add [OF assms(3), of 1000000]
    unfolding c2 by (auto simp: c1_def timed_def)
  then have "cache_ok c2"
    using q(2) ok(6) unfolding same
    by (intro cache_ok_frame [OF assms(1) idx]) (simp_all add: c2_def c1_def rand_ok_def)
  then show ?thesis using that [of c2] c2 idx by (simp add: c2_def c1_def)
qed

section \<open>Removing entries\<close>

lemma remove_entry_ok:
  assumes "cache_ok c" "e \<in> set (cache_entries c)"
  obtains c' where "remove_entry e c = Some c'" "cache_ok c'" "cache_entries c' = remove1 e (cache_entries c)"
    "entry c' = entry c" "notified c' = (cache_record (entry c e), AVAHI_BROWSER_REMOVE) # notified c"
    "posted c' = posted c" "n_cache_entries_max c' = n_cache_entries_max c"
proof -
  note ok = cache_okD [OF assms(1)]
  let ?rec = "\<lambda>e. cache_record (entry c e)" and ?es = "cache_entries c" and ?q = "time_event_queue c"
  have v: "avahi_key_is_valid (ckey c e)" by (rule idx_okD(4) [OF ok(1) assms(2)])
  define t where "t = remove1 e (chain ?es ?rec (ckey c e))"
  have self: "e \<in> set (chain ?es ?rec (ckey c e))" by (rule chain_self [OF ok(1) assms(2)])
  then have look: "(case avahi_hashmap_lookup (hashmap c) (ckey c e) of Some t \<Rightarrow> t | None \<Rightarrow> []) =
      chain ?es ?rec (ckey c e)"
    using idx_okD(5) [OF ok(1) v] by (auto split: if_splits)
  define m where "m = (case t of
            f # _ \<Rightarrow> fst (snd (avahi_hashmap_replace (hashmap c) (ckey c f) t))
          | [] \<Rightarrow> fst (avahi_hashmap_remove (hashmap c) (ckey c e)))"
  have idx: "idx_ok m (remove1 e ?es) ?rec"
    by (rule idx_remove [OF ok(1) assms(2)]) (simp add: m_def t_def split: list.split)
  obtain ev where ev: "time_event (entry c e) = Some ev" "ev \<in> events ?q" "callback (event ?q ev) = Elapse e"
    using events_okD(3) [OF ok(4) assms(2)] by blast
  obtain q where q: "avahi_time_event_free ev ?q = Some q" "teq_ok q"
    "elapse_events q = {x \<in> elapse_events ?q. fst x \<noteq> ev}" by (rule free_elapse [OF ok(9) ev(2)])
  define c' where "c' = c\<lparr>hashmap := m, cache_entries := remove1 e ?es, time_event_queue := q,
    notified := (cache_record (entry c e), AVAHI_BROWSER_REMOVE) # notified c, n_entries := n_entries c - 1\<rparr>"
  have pos: "n_entries c \<ge> 1" using ok(2) assms(2) by (cases ?es) auto
  have rem: "remove_entry e c = Some c'"
    using pos assms(2) self ev(1) q(1)
    by (simp add: remove_entry_def look llist_remove_def t_def [symmetric] m_def [symmetric] Let_def notify_def c'_def)
  have "elapse_events q = entry_events (set (remove1 e ?es)) (entry c)"
  proof -
    have "fst x \<noteq> ev \<longleftrightarrow> fst (snd x) \<noteq> e" if "x \<in> elapse_events ?q" for x
    proof (cases x)
      case (fields v f u)
      then have "callback (event ?q v) = Elapse f" using that by (auto dest: elapse_eventsD)
      moreover have "time_event (entry c f) = Some v"
        using that events_okD(4) [OF ok(4)] unfolding fields by (auto dest: elapse_eventsD)
      ultimately show ?thesis using ev(1,3) by (auto simp: fields)
    qed
    then have "elapse_events q = {x \<in> entry_events (set ?es) (entry c). fst (snd x) \<noteq> e}"
      unfolding q(3) events_okD(2) [OF ok(4), symmetric] by blast
    also have "\<dots> = entry_events (set ?es - {e}) (entry c)" unfolding entry_events_def by force
    also have "\<dots> = entry_events (set (remove1 e ?es)) (entry c)" using ok(7) by simp
    finally show ?thesis .
  qed
  then have ev_ok: "events_ok (set (remove1 e ?es)) (entry c) q"
    using ok(4) q(2) unfolding events_ok_def by (meson set_remove1_subset subsetD)
  have "cache_ok c'"
    unfolding cache_ok_def
  proof (intro conjI ballI)
    show "idx_ok (hashmap c') (cache_entries c') (\<lambda>e. cache_record (entry c' e))" using idx by (simp add: c'_def)
    show "events_ok (set (cache_entries c')) (entry c') (time_event_queue c')" using ev_ok by (simp add: c'_def)
    show "n_entries c' = length (cache_entries c')" "n_entries c' \<le> n_cache_entries_max c'"
      using ok(2,3) assms(2) by (simp_all add: c'_def length_remove1)
    show "timed (entry c' f)" if "f \<in> set (cache_entries c')" for f
      using that ok(5) by (simp add: c'_def) (meson set_remove1_subset subsetD)
    show "rand_ok c'" using ok(6) by (simp add: c'_def rand_ok_def)
  qed
  with rem show ?thesis by (intro that [of c']) (simp_all add: c'_def)
qed

lemma cache_flush_ok:
  assumes "cache_ok c"
  shows "\<exists>c'. avahi_cache_flush c = Some c' \<and> cache_ok c' \<and> cache_entries c' = [] \<and> entry c' = entry c \<and>
    notified c' = rev (map (\<lambda>e. (cache_record (entry c e), AVAHI_BROWSER_REMOVE)) (cache_entries c)) @ notified c"
  using assms
proof (induction "cache_entries c" arbitrary: c)
  case Nil
  then show ?case by (simp add: avahi_cache_flush.simps)
next
  case (Cons e es)
  then have "e \<in> set (cache_entries c)" by (metis list.set_intros(1))
  from remove_entry_ok [OF Cons.prems this] obtain c1 where c1: "remove_entry e c = Some c1" "cache_ok c1"
    "cache_entries c1 = es" "entry c1 = entry c"
    "notified c1 = (cache_record (entry c e), AVAHI_BROWSER_REMOVE) # notified c"
    using Cons.hyps(2) by (metis remove1.simps(2))
  with Cons.hyps(1) [of c1] Cons.hyps(2) [symmetric] show ?case by (auto simp: avahi_cache_flush.simps [of c])
qed

end
