(* ===== verification/Cache_Update.thy ===== *)
theory Cache_Update
  imports Cache_Ops
begin

text \<open>
  Looking up, updating and the passive observation of failure: the operations that packets cause.
\<close>

section \<open>Looking up\<close>

definition rec_chain :: "'o AvahiCache \<Rightarrow> AvahiKey \<Rightarrow> nat list" where
  "rec_chain c k = chain (cache_entries c) (\<lambda>e. cache_record (entry c e)) k"

text \<open>The entry that holds a record.\<close>

definition holder :: "'o AvahiCache \<Rightarrow> AvahiRecord \<Rightarrow> nat option" where
  "holder c r = find (\<lambda>e. same (cache_record (entry c e)) r) (cache_entries c)"

lemma same_index_holder: "same_index c c' \<Longrightarrow> holder c' = holder c" "same_index c c' \<Longrightarrow> rec_chain c' = rec_chain c"
  by (simp_all add: holder_def rec_chain_def same_index_def fun_eq_iff)

lemma holder_Some:
  assumes "holder c r = Some e"
  shows "e \<in> set (cache_entries c)" "same (cache_record (entry c e)) r"
  using assms unfolding holder_def find_Some_iff by (auto simp: in_set_conv_nth)

lemma holder_None: "holder c r = None \<longleftrightarrow> (\<forall>e \<in> set (cache_entries c). \<not> same (cache_record (entry c e)) r)"
  by (auto simp: holder_def find_None_iff)

lemma holder_iff:
  assumes "cache_ok c" "record_ok r"
  shows "holder c r = Some e \<longleftrightarrow> e \<in> set (cache_entries c) \<and> same (cache_record (entry c e)) r"
proof
  assume e: "e \<in> set (cache_entries c) \<and> same (cache_record (entry c e)) r"
  then obtain f where f: "holder c r = Some f" using holder_None [of c r] by fastforce
  note ok = cache_okD(8) [OF assms(1)]
  have fe: "f \<in> set (cache_entries c)" "e \<in> set (cache_entries c)" using holder_Some [OF f] e by simp_all
  have "same r (cache_record (entry c e))" using e record_equal_total(2) [OF ok assms(2)] by blast
  then have "same (cache_record (entry c f)) (cache_record (entry c e))"
    using same_trans [OF ok [OF fe(1)] assms(2) ok [OF fe(2)]] holder_Some(2) [OF f] by blast
  then have "f = e" using idx_okD(7) [OF cache_okD(1) [OF assms(1)] fe] by blast
  with f show "holder c r = Some e" by simp
qed (use holder_Some in blast)

lemma find_filter: "(\<And>x. x \<in> set xs \<Longrightarrow> P x \<Longrightarrow> Q x) \<Longrightarrow> find P (filter Q xs) = find P xs"
  by (induction xs) auto

lemma holder_chain:
  assumes "cache_ok c" "record_ok r"
  shows "find (\<lambda>e. same (cache_record (entry c e)) r) (rec_chain c (rkey r)) = holder c r"
  unfolding holder_def rec_chain_def chain_def
proof (rule find_filter)
  fix e assume e: "e \<in> set (cache_entries c)" "same (cache_record (entry c e)) r"
  note ok = cache_okD(8) [OF assms(1) e(1)]
  show "key_equal_fun (rkey r) (rkey (cache_record (entry c e)))"
    using same_keys(1) [OF assms(2) ok] record_equal_total(2) [OF ok assms(2)] e(2) by blast
qed

lemma rec_chain_subset: "set (rec_chain c k) \<subseteq> set (cache_entries c)"
  by (simp add: rec_chain_def chain_def)

lemma lookup_key_ok:
  assumes "cache_ok c" "avahi_key_is_valid k" "\<not> avahi_key_is_pattern k"
  shows "lookup_key c k = Some (rec_chain c k)"
  using assms idx_okD(5) [OF cache_okD(1) [OF assms(1)] assms(2)] by (simp add: lookup_key_def rec_chain_def)

lemma walk_key_find:
  assumes "\<forall>e \<in> set es. record_ok (cache_record (entry c e))" "record_ok r"
  shows "walk_key (lookup_record_callback r) es c = Some (find (\<lambda>e. same (cache_record (entry c e)) r) es, c)"
  using assms by (induction es) (auto simp: lookup_record_callback_def equal_no_ttl_same)

lemma lookup_record_ok:
  assumes "cache_ok c" "record_ok r" "\<not> avahi_key_is_pattern (rkey r)"
  shows "lookup_record c r = Some (holder c r)"
proof -
  have "avahi_key_is_valid (rkey r)" using assms(2) by (simp add: record_ok_def)
  moreover have "\<forall>e \<in> set (rec_chain c (rkey r)). record_ok (cache_record (entry c e))"
    using rec_chain_subset cache_okD(8) [OF assms(1)] by blast
  ultimately show ?thesis
    using assms by (simp add: lookup_record_def avahi_cache_walk_def lookup_key_ok walk_key_find holder_chain)
qed

lemma find_same_ok:
  assumes "\<forall>e \<in> set es. record_ok (cache_record (entry c e))" "record_ok r"
  shows "find_same r es c = Some (find (\<lambda>e. same (cache_record (entry c e)) r) es)"
  using assms by (induction es) (auto simp: equal_no_ttl_same)

section \<open>Updating\<close>

text \<open>What dropping old entries makes of an entry.\<close>

definition replaced :: "timeval \<Rightarrow> AvahiCacheEntry \<Rightarrow> AvahiCacheEntry" where
  "replaced now x =
     (if avahi_timeval_diff now (cache_timestamp x) > 1000000
      then x\<lparr>state := AVAHI_CACHE_REPLACE_FINAL, cache_expiry := avahi_timeval_add now 1000000\<rparr> else x)"

lemma drop_old_ok:
  assumes "cache_ok c" "set es \<subseteq> set (cache_entries c)" "distinct es" "tv_norm now"
  shows "\<exists>c'. drop_old now es c = Some c' \<and> cache_ok c' \<and> same_index c c' \<and> posted c' = posted c \<and>
    entry c' = (\<lambda>e. if e \<in> set es then replaced now (entry c e) else entry c e)"
  using assms
proof (induction es arbitrary: c)
  case (Cons e es)
  then have e: "e \<in> set (cache_entries c)" by simp
  obtain c1 where c1: "(if avahi_timeval_diff now (cache_timestamp (entry c e)) > 1000000
      then expire_in_one_second now e AVAHI_CACHE_REPLACE_FINAL c else Some c) = Some c1" "cache_ok c1" "same_index c c1"
    "posted c1 = posted c" "entry c1 = (entry c)(e := replaced now (entry c e))"
  proof (cases "avahi_timeval_diff now (cache_timestamp (entry c e)) > 1000000")
    case True
    have final: "stage_percent AVAHI_CACHE_REPLACE_FINAL = None" by simp
    obtain c1 where "expire_in_one_second now e AVAHI_CACHE_REPLACE_FINAL c = Some c1" "cache_ok c1" "same_index c c1"
      "posted c1 = posted c"
      "entry c1 = (entry c)(e := (entry c e)\<lparr>state := AVAHI_CACHE_REPLACE_FINAL, cache_expiry := avahi_timeval_add now 1000000\<rparr>)"
      by (rule expire_in_one_second_ok [OF Cons.prems(1) e Cons.prems(4) final])
    with True that show ?thesis by (simp add: replaced_def)
  next
    case False
    with that [of c] Cons.prems(1) show ?thesis by (simp add: replaced_def)
  qed
  then have "set es \<subseteq> set (cache_entries c1)" using Cons.prems(2) by (simp add: same_index_def)
  from Cons.IH [OF c1(2) this] Cons.prems(3,4) obtain c2 where c2: "drop_old now es c1 = Some c2" "cache_ok c2"
    "same_index c1 c2" "posted c2 = posted c1"
    "entry c2 = (\<lambda>e. if e \<in> set es then replaced now (entry c1 e) else entry c1 e)" by auto
  have "entry c2 = (\<lambda>f. if f \<in> set (e # es) then replaced now (entry c f) else entry c f)"
    using Cons.prems(3) by (auto simp: c2(5) c1(5) fun_eq_iff)
  moreover have "drop_old now (e # es) c = Some c2" using c1(1) c2(1) by (simp add: Let_def)
  ultimately show ?case
    using c1(4) c2(2,4) same_index_trans [OF c1(3) c2(3)] by auto
qed simp

text \<open>An entry whose record, origin and time are new, and whose event is behind, is refreshed.\<close>

definition fresh_entry :: "timeval \<Rightarrow> bool \<Rightarrow> AvahiAddress \<Rightarrow> AvahiRecord \<Rightarrow> AvahiCacheEntry \<Rightarrow> bool" where
  "fresh_entry now flush a r x =
     (cache_record x = r \<and> cache_timestamp x = now \<and> origin x = a \<and> state x = AVAHI_CACHE_VALID \<and>
      cache_flush x = flush \<and> at_percent x 80)"

lemma refresh_entry_ok:
  assumes "clock_ok now rnd" "rand_ok c" "pending (set (cache_entries c)) (entry c) e (time_event_queue c)"
    and "idx_ok (hashmap c) (cache_entries c) (\<lambda>e. cache_record (entry c e))"
    and "n_entries c = length (cache_entries c)" "n_entries c \<le> n_cache_entries_max c"
    and "\<forall>f \<in> set (cache_entries c) - {e}. timed (entry c f)"
  obtains c' where "refresh_entry now rnd flush a e c = Some c'" "cache_ok c'" "same_index c c'" "posted c' = posted c"
    "\<forall>f. f \<noteq> e \<longrightarrow> entry c' f = entry c f" "fresh_entry now flush a (cache_record (entry c e)) (entry c' e)"
proof -
  define c1 where "c1 = upd_entry e (\<lambda>x. x\<lparr>origin := a, cache_timestamp := now\<rparr>) c"
  have pend: "pending (set (cache_entries c1)) (entry c1) e (time_event_queue c1)"
    using assms(3) pending_cong [of "set (cache_entries c)" e "entry c1" "entry c" "time_event_queue c"]
    by (simp add: c1_def)
  have c1: "rand_ok c1" "tv_norm (cache_timestamp (entry c1 e))"
    using assms(2) clock_okD(1) [OF assms(1)] by (simp_all add: c1_def rand_ok_def)
  obtain c2 t ev where c2: "next_expiry now rnd e 80 c1 = Some c2" "same_index c1 c2" "posted c2 = posted c1"
    "entry c2 = (entry c1)(e := (entry c1 e)\<lparr>cache_expiry := t, time_event := Some ev\<rparr>)"
    "events_ok (set (cache_entries c1)) (entry c2) (time_event_queue c2)" "rand_ok c2"
    "tv_norm t" "at_percent (entry c2 e) 80"
    by (rule next_expiry_ok [OF assms(1) c1(1) _ _ c1(2) pend, of 80]) simp_all
  define c' where "c' = upd_entry e (\<lambda>x. x\<lparr>state := AVAHI_CACHE_VALID, cache_flush := flush\<rparr>) c2"
  have idx: "same_index c c'" using c2(2) by (auto simp: same_index_def c'_def c1_def fun_eq_iff)
  have other: "\<forall>f. f \<noteq> e \<longrightarrow> entry c' f = entry c f" by (simp add: c'_def c2(4) c1_def)
  have new: "entry c' e = (entry c e)\<lparr>origin := a, cache_timestamp := now, cache_expiry := t, time_event := Some ev,
      state := AVAHI_CACHE_VALID, cache_flush := flush\<rparr>"
    by (simp add: c'_def c2(4) c1_def)
  have at: "at_percent (entry c' e) 80" using c2(8) by (simp add: c'_def at_percent_def ttl_usec_def)
  have "events_ok (set (cache_entries c')) (entry c') (time_event_queue c')"
  proof -
    have "events_ok (set (cache_entries c)) (entry c') (time_event_queue c2) =
        events_ok (set (cache_entries c)) (entry c2) (time_event_queue c2)"
      by (rule events_ok_cong) (simp add: c'_def)
    then show ?thesis using c2(5) idx by (simp add: same_index_def c1_def c'_def)
  qed
  moreover have "timed (entry c' f)" if "f \<in> set (cache_entries c')" for f
  proof (cases "f = e")
    case True
    with at new c2(7) clock_okD(1) [OF assms(1)] show ?thesis by (simp add: timed_def)
  next
    case False
    with that assms(7) other idx show ?thesis by (simp add: same_index_def)
  qed
  moreover have "rand_ok c'" using c2(6) by (simp add: c'_def rand_ok_def)
  ultimately have "cache_ok c'"
    using assms(4-6) idx unfolding cache_ok_def same_index_def by simp
  moreover have "fresh_entry now flush a (cache_record (entry c e)) (entry c' e)"
    using at unfolding fresh_entry_def by (simp add: new)
  moreover have "refresh_entry now rnd flush a e c = Some c'"
    using c2(1) by (simp add: refresh_entry_def c1_def c'_def Let_def)
  ultimately show ?thesis using that [of c'] idx other c2(3) by (simp add: c'_def c1_def)
qed

lemma replace_record_fields:
  "hashmap (replace_record r first e c) =
     (if first \<noteq> [] \<and> hd first = e then fst (snd (avahi_hashmap_replace (hashmap c) (rkey r) first)) else hashmap c)"
  "entry (replace_record r first e c) = (entry c)(e := (entry c e)\<lparr>cache_record := r\<rparr>)"
  "cache_entries (replace_record r first e c) = cache_entries c" "n_entries (replace_record r first e c) = n_entries c"
  "n_cache_entries_max (replace_record r first e c) = n_cache_entries_max c"
  "notified (replace_record r first e c) = notified c" "posted (replace_record r first e c) = posted c"
  "time_event_queue (replace_record r first e c) = time_event_queue c" "rand_ok (replace_record r first e c) = rand_ok c"
  by (simp_all add: replace_record_def Let_def rand_ok_def)

lemma replace_record_ok:
  assumes "cache_ok c" "e \<in> set (cache_entries c)" "record_ok r" "ttl r \<noteq> 0" "same (cache_record (entry c e)) r"
  shows "idx_ok (hashmap (replace_record r (rec_chain c (rkey r)) e c)) (cache_entries c)
    (\<lambda>f. cache_record (entry (replace_record r (rec_chain c (rkey r)) e c) f))"
proof -
  note ok = cache_okD(1) [OF assms(1)]
  have "avahi_key_is_valid (rkey r)" "rkey r = rkey r" using assms(3) by (simp_all add: record_ok_def)
  have "same r (cache_record (entry c e))"
    using record_equal_total(2) [OF cache_okD(8) [OF assms(1,2)] assms(3)] assms(5) by blast
  then have "e \<in> set (rec_chain c (rkey r))"
    using same_keys(1) [OF assms(3) cache_okD(8) [OF assms(1,2)]] assms(2) by (simp add: rec_chain_def chain_def)
  then have ne: "rec_chain c (rkey r) \<noteq> []" by auto
  have "(\<lambda>f. cache_record (entry (replace_record r (rec_chain c (rkey r)) e c) f)) =
      (\<lambda>f. cache_record (entry c f))(e := r)"
    by (auto simp: replace_record_fields fun_eq_iff)
  then show ?thesis
    using idx_replace [OF ok assms(2-5) refl] ne by (simp add: replace_record_fields rec_chain_def)
qed

text \<open>The entries after those that a cache flush makes out of date are marked.\<close>

definition after_flush :: "timeval \<Rightarrow> bool \<Rightarrow> AvahiKey \<Rightarrow> 'o AvahiCache \<Rightarrow> nat \<Rightarrow> AvahiCacheEntry" where
  "after_flush now flush k c e =
     (if flush \<and> e \<in> set (rec_chain c k) then replaced now (entry c e) else entry c e)"

lemma goodbye_ok:
  assumes "cache_ok c" "clock_ok now rnd" "record_ok r" "\<not> avahi_key_is_pattern (rkey r)" "ttl r = 0"
  shows "\<exists>c'. avahi_cache_update now rnd r flush a c = Some c' \<and> cache_ok c' \<and> same_index c c' \<and>
    (case holder c r of
       None \<Rightarrow> c' = c
     | Some e \<Rightarrow> entry c' = (entry c)(e := (entry c e)\<lparr>state := AVAHI_CACHE_GOODBYE_FINAL,
         cache_expiry := avahi_timeval_add now 1000000\<rparr>))"
proof (cases "holder c r")
  case None
  with assms show ?thesis by (simp add: avahi_cache_update_def lookup_record_ok)
next
  case (Some e)
  have final: "stage_percent AVAHI_CACHE_GOODBYE_FINAL = None" by simp
  obtain c' where "expire_in_one_second now e AVAHI_CACHE_GOODBYE_FINAL c = Some c'" "cache_ok c'" "same_index c c'"
    "entry c' = (entry c)(e := (entry c e)\<lparr>state := AVAHI_CACHE_GOODBYE_FINAL, cache_expiry := avahi_timeval_add now 1000000\<rparr>)"
    by (rule expire_in_one_second_ok [OF assms(1) holder_Some(1) [OF Some] clock_okD(1) [OF assms(2)] final])
  with Some assms show ?thesis by (simp add: avahi_cache_update_def lookup_record_ok)
qed

text \<open>An update of a cache in which the old entries have been marked.\<close>

lemma update_same_ok:
  assumes "cache_ok c" "clock_ok now rnd" "record_ok r" "ttl r \<noteq> 0" "holder c r = Some e"
  obtains c' where "refresh_entry now rnd flush a e (replace_record r (rec_chain c (rkey r)) e c) = Some c'" "cache_ok c'"
    "cache_entries c' = cache_entries c" "notified c' = notified c"
    "\<forall>f. f \<noteq> e \<longrightarrow> entry c' f = entry c f" "fresh_entry now flush a r (entry c' e)"
proof -
  note e = holder_Some [OF assms(5)] and ok = cache_okD [OF assms(1)]
  define c1 where "c1 = replace_record r (rec_chain c (rkey r)) e c"
  have "pending (set (cache_entries c1)) (entry c1) e (time_event_queue c1)"
    using pending_events_ok [OF ok(4) e(1), of "entry c1"] by (simp add: c1_def replace_record_fields)
  moreover have "idx_ok (hashmap c1) (cache_entries c1) (\<lambda>e. cache_record (entry c1 e))"
    using replace_record_ok [OF assms(1) e(1) assms(3,4) e(2)] unfolding c1_def by (simp add: replace_record_fields)
  moreover have "\<forall>f \<in> set (cache_entries c1) - {e}. timed (entry c1 f)"
    using ok(5) by (simp add: c1_def replace_record_fields)
  moreover have "rand_ok c1" "n_entries c1 = length (cache_entries c1)" "n_entries c1 \<le> n_cache_entries_max c1"
    using ok(2,3,6) by (simp_all add: c1_def replace_record_fields)
  ultimately obtain c' where "refresh_entry now rnd flush a e c1 = Some c'" "cache_ok c'" "same_index c1 c'"
    "\<forall>f. f \<noteq> e \<longrightarrow> entry c' f = entry c1 f" "fresh_entry now flush a (cache_record (entry c1 e)) (entry c' e)"
    by (elim refresh_entry_ok [OF assms(2)]) blast+
  then show ?thesis
    by (intro that [of c']) (simp_all add: c1_def replace_record_fields same_index_def)
qed

lemma update_new_ok:
  assumes "cache_ok c" "clock_ok now rnd" "record_ok r" "\<not> avahi_key_is_pattern (rkey r)" "ttl r \<noteq> 0"
    "holder c r = None" "n_entries c < n_cache_entries_max c"
    and "new_cache_entry r (rec_chain c (rkey r)) c = (e, c1)"
  obtains c' where "refresh_entry now rnd flush a e c1 = Some c'" "cache_ok c'" "e \<notin> set (cache_entries c)"
    "cache_entries c' = e # cache_entries c" "notified c' = (r, AVAHI_BROWSER_NEW) # notified c"
    "\<forall>f. f \<noteq> e \<longrightarrow> entry c' f = entry c f" "fresh_entry now flush a r (entry c' e)"
proof -
  note ok = cache_okD [OF assms(1)]
  have e: "e \<notin> set (cache_entries c)"
    using assms(8) fresh_not_in [of "set (cache_entries c)"] by (auto simp: new_cache_entry_def Let_def)
  have c1: "hashmap c1 = fst (snd (avahi_hashmap_replace (hashmap c) (rkey r) (e # rec_chain c (rkey r))))"
    "cache_entries c1 = e # cache_entries c" "entry c1 = (entry c)(e := (entry c e)\<lparr>time_event := None, cache_record := r\<rparr>)"
    "n_entries c1 = n_entries c + 1" "notified c1 = (r, AVAHI_BROWSER_NEW) # notified c" "rand_ok c1 = rand_ok c"
    "time_event_queue c1 = time_event_queue c" "n_cache_entries_max c1 = n_cache_entries_max c"
    using assms(8) by (auto simp: new_cache_entry_def Let_def notify_def rand_ok_def)
  have rec: "(\<lambda>f. cache_record (entry c1 f)) = (\<lambda>f. cache_record (entry c f))(e := r)" by (auto simp: c1 fun_eq_iff)
  have "pending (set (cache_entries c1)) (entry c1) e (time_event_queue c1)"
    unfolding c1(2,7) list.set by (rule pending_new [OF ok(4) e]) (use e in \<open>auto simp: c1\<close>)
  moreover have "idx_ok (hashmap c1) (cache_entries c1) (\<lambda>e. cache_record (entry c1 e))"
    unfolding rec c1(1,2) rec_chain_def using assms(6)
    by (intro idx_new [OF ok(1) e assms(3-5)]) (simp add: holder_None)
  moreover have "\<forall>f \<in> set (cache_entries c1) - {e}. timed (entry c1 f)" using ok(5) by (simp add: c1)
  moreover have "rand_ok c1" "n_entries c1 = length (cache_entries c1)" "n_entries c1 \<le> n_cache_entries_max c1"
    using ok(2,3,6) assms(7) by (simp_all add: c1)
  ultimately obtain c' where "refresh_entry now rnd flush a e c1 = Some c'" "cache_ok c'" "same_index c1 c'"
    "\<forall>f. f \<noteq> e \<longrightarrow> entry c' f = entry c1 f" "fresh_entry now flush a (cache_record (entry c1 e)) (entry c' e)"
    by (elim refresh_entry_ok [OF assms(2)]) blast+
  with e show ?thesis by (intro that [of c']) (simp_all add: c1 same_index_def)
qed

lemma update_ok:
  assumes "cache_ok c" "clock_ok now rnd" "record_ok r" "\<not> avahi_key_is_pattern (rkey r)" "ttl r \<noteq> 0"
  shows "\<exists>c'. avahi_cache_update now rnd r flush a c = Some c' \<and> cache_ok c' \<and>
    (case holder c r of
       Some e \<Rightarrow>
         cache_entries c' = cache_entries c \<and> notified c' = notified c \<and> fresh_entry now flush a r (entry c' e) \<and>
         (\<forall>f. f \<noteq> e \<longrightarrow> entry c' f = after_flush now flush (rkey r) c f)
     | None \<Rightarrow>
         if n_entries c \<ge> n_cache_entries_max c then
           cache_entries c' = cache_entries c \<and> notified c' = notified c \<and>
           entry c' = after_flush now flush (rkey r) c
         else \<exists>e. e \<notin> set (cache_entries c) \<and> cache_entries c' = e # cache_entries c \<and>
           notified c' = (r, AVAHI_BROWSER_NEW) # notified c \<and> fresh_entry now flush a r (entry c' e) \<and>
           (\<forall>f. f \<noteq> e \<longrightarrow> entry c' f = after_flush now flush (rkey r) c f))"
proof -
  let ?k = "rkey r" and ?first = "rec_chain c (rkey r)"
  have k: "avahi_key_is_valid ?k" using assms(3) by (simp add: record_ok_def)
  have d: "set ?first \<subseteq> set (cache_entries c)" "distinct ?first"
    using rec_chain_subset cache_okD(7) [OF assms(1)] by (simp_all add: rec_chain_def chain_def)
  obtain c1 where c1: "(if flush then drop_old now ?first c else Some c) = Some c1" "cache_ok c1" "same_index c c1"
    "entry c1 = after_flush now flush ?k c"
  proof (cases flush)
    case True
    with that drop_old_ok [OF assms(1) d clock_okD(1) [OF assms(2)]] show ?thesis
      by (auto simp: after_flush_def fun_eq_iff)
  next
    case False
    with that [of c] assms(1) show ?thesis by (simp add: after_flush_def fun_eq_iff)
  qed
  note idx = same_index_holder [OF c1(3)]
  have recs: "\<forall>e \<in> set ?first. record_ok (cache_record (entry c1 e))"
    using d(1) cache_okD(8) [OF c1(2)] c1(3) by (auto simp: same_index_def)
  have "find_same r ?first c1 = Some (holder c r)"
    using find_same_ok [OF recs assms(3)] holder_chain [OF c1(2) assms(3)] by (simp add: idx)
  then have upd: "avahi_cache_update now rnd r flush a c =
     (case holder c r of
        Some e \<Rightarrow> refresh_entry now rnd flush a e (replace_record r ?first e c1)
      | None \<Rightarrow>
          if n_entries c1 \<ge> n_cache_entries_max c1 then Some c1
          else let (e, c) = new_cache_entry r ?first c1 in refresh_entry now rnd flush a e c)"
    using assms(5) lookup_key_ok [OF assms(1) k assms(4)] c1(1) by (simp add: avahi_cache_update_def)
  have same: "cache_entries c1 = cache_entries c" "notified c1 = notified c" "n_entries c1 = n_entries c"
    "n_cache_entries_max c1 = n_cache_entries_max c" using c1(3) by (simp_all add: same_index_def)
  show ?thesis
  proof (cases "holder c r")
    case (Some e)
    then have "holder c1 r = Some e" by (simp add: idx)
    from update_same_ok [OF c1(2) assms(2,3,5) this, of flush a] obtain c' where
      "refresh_entry now rnd flush a e (replace_record r (rec_chain c1 ?k) e c1) = Some c'" "cache_ok c'"
      "cache_entries c' = cache_entries c1" "notified c' = notified c1"
      "\<forall>f. f \<noteq> e \<longrightarrow> entry c' f = entry c1 f" "fresh_entry now flush a r (entry c' e)" .
    with Some upd show ?thesis by (simp add: idx same c1(4))
  next
    case None
    show ?thesis
    proof (cases "n_entries c \<ge> n_cache_entries_max c")
      case True
      with None upd c1 show ?thesis by (simp add: same)
    next
      case False
      obtain e c2 where new: "new_cache_entry r (rec_chain c1 ?k) c1 = (e, c2)" by fastforce
      have "holder c1 r = None" "n_entries c1 < n_cache_entries_max c1" using None False by (simp_all add: idx same)
      from update_new_ok [OF c1(2) assms(2-5) this new, of flush a] obtain c' where
        "refresh_entry now rnd flush a e c2 = Some c'" "cache_ok c'" "e \<notin> set (cache_entries c1)"
        "cache_entries c' = e # cache_entries c1" "notified c' = (r, AVAHI_BROWSER_NEW) # notified c1"
        "\<forall>f. f \<noteq> e \<longrightarrow> entry c' f = entry c1 f" "fresh_entry now flush a r (entry c' e)" .
      with None False upd new show ?thesis by (auto simp: idx same c1(4))
    qed
  qed
qed

end
