(* ===== verification/Cache_Expiry.thy ===== *)
theory Cache_Expiry
  imports Cache_Update
begin

text \<open>
  Time in the cache: the passive observation of failure, the expiry of entries, and the calls of the event loop.
\<close>

section \<open>Passive observation of failure\<close>

text \<open>What a query that may go unanswered makes of an entry.\<close>

definition poof_step :: "timeval \<Rightarrow> AvahiAddress \<Rightarrow> AvahiCacheEntry \<Rightarrow> AvahiCacheEntry" where
  "poof_step now a x =
     (if state x = AVAHI_CACHE_VALID then
        x\<lparr>state := AVAHI_CACHE_POOF, poof_address := a, poof_timestamp := now, poof_num := 0\<rparr>
      else if state x = AVAHI_CACHE_POOF \<and> avahi_timeval_diff now (poof_timestamp x) \<ge> 1000000 then
        (let y = x\<lparr>poof_timestamp := now, poof_address := a, poof_num := poof_num x + 1\<rparr> in
         if poof_num x \<ge> 3 then y\<lparr>state := AVAHI_CACHE_POOF_FINAL, cache_expiry := avahi_timeval_add now 1000000\<rparr> else y)
      else x)"

text \<open>Changing fields of an entry that neither the index nor the events depend on.\<close>

lemma timed_cong:
  assumes "cache_record y = cache_record x" "cache_timestamp y = cache_timestamp x" "cache_expiry y = cache_expiry x"
    "stage_percent (state y) = stage_percent (state x)"
  shows "timed y = timed x"
  using assms by (simp add: timed_def at_percent_def ttl_usec_def split: option.split)

lemma upd_entry_ok:
  assumes "cache_ok c" "cache_record (f (entry c e)) = cache_record (entry c e)"
    "time_event (f (entry c e)) = time_event (entry c e)" "cache_expiry (f (entry c e)) = cache_expiry (entry c e)"
    "cache_timestamp (f (entry c e)) = cache_timestamp (entry c e)"
    "stage_percent (state (f (entry c e))) = stage_percent (state (entry c e))"
  shows "cache_ok (upd_entry e f c)" "same_index c (upd_entry e f c)"
proof -
  note ok = cache_okD [OF assms(1)]
  show idx: "same_index c (upd_entry e f c)" using assms(2) by (auto simp: same_index_def fun_eq_iff)
  have "events_ok (set (cache_entries c)) (entry (upd_entry e f c)) (time_event_queue c) =
      events_ok (set (cache_entries c)) (entry c) (time_event_queue c)"
    by (rule events_ok_cong) (simp add: assms)
  moreover have "\<forall>g \<in> set (cache_entries c). timed (entry (upd_entry e f c) g)"
    using ok(5) timed_cong [OF assms(2,5,4,6)] by auto
  ultimately show "cache_ok (upd_entry e f c)"
    using ok(4,6) by (intro cache_ok_frame [OF assms(1) idx]) (simp_all add: rand_ok_def)
qed

lemma start_poof_callback_ok:
  assumes "cache_ok c" "e \<in> set (cache_entries c)" "tv_norm now"
  shows "\<exists>c'. start_poof_callback now a e c = Some (None, c') \<and> cache_ok c' \<and> same_index c c' \<and>
    entry c' = (entry c)(e := poof_step now a (entry c e))"
proof (cases "state (entry c e) = AVAHI_CACHE_POOF \<and> avahi_timeval_diff now (poof_timestamp (entry c e)) \<ge> 1000000")
  case True
  define c1 where "c1 = upd_entry e (\<lambda>x. x\<lparr>poof_timestamp := now, poof_address := a, poof_num := poof_num x + 1\<rparr>) c"
  have c1: "cache_ok c1" "same_index c c1"
    using upd_entry_ok [OF assms(1), of "\<lambda>x. x\<lparr>poof_timestamp := now, poof_address := a, poof_num := poof_num x + 1\<rparr>" e]
    by (simp_all add: c1_def)
  show ?thesis
  proof (cases "poof_num (entry c e) \<ge> 3")
    case final: True
    have e1: "e \<in> set (cache_entries c1)" and st: "stage_percent AVAHI_CACHE_POOF_FINAL = None"
      using assms(2) by (simp_all add: c1_def)
    obtain c2 where c2: "expire_in_one_second now e AVAHI_CACHE_POOF_FINAL c1 = Some c2" "cache_ok c2" "same_index c1 c2"
      "entry c2 = (entry c1)(e := (entry c1 e)\<lparr>state := AVAHI_CACHE_POOF_FINAL, cache_expiry := avahi_timeval_add now 1000000\<rparr>)"
      by (rule expire_in_one_second_ok [OF c1(1) e1 assms(3) st])
    have "start_poof_callback now a e c = Some (None, c2)"
      using True final c2(1) by (simp add: start_poof_callback_def c1_def Let_def)
    moreover have "entry c2 = (entry c)(e := poof_step now a (entry c e))"
      using True final by (simp add: c2(4) c1_def poof_step_def Let_def)
    ultimately show ?thesis using c2(2) same_index_trans [OF c1(2) c2(3)] by blast
  next
    case False
    have "start_poof_callback now a e c = Some (None, c1)"
      using True False by (simp add: start_poof_callback_def c1_def Let_def)
    moreover have "entry c1 = (entry c)(e := poof_step now a (entry c e))"
      using True False by (simp add: c1_def poof_step_def Let_def)
    ultimately show ?thesis using c1 by blast
  qed
next
  case False
  show ?thesis
  proof (cases "state (entry c e) = AVAHI_CACHE_VALID")
    case True
    define c1 where "c1 = upd_entry e (\<lambda>x. x\<lparr>state := AVAHI_CACHE_POOF, poof_address := a,
            poof_timestamp := now, poof_num := 0\<rparr>) c"
    have "cache_ok c1" "same_index c c1"
      using upd_entry_ok [OF assms(1), of "\<lambda>x. x\<lparr>state := AVAHI_CACHE_POOF, poof_address := a,
            poof_timestamp := now, poof_num := 0\<rparr>" e] True
      by (simp_all add: c1_def)
    moreover have "start_poof_callback now a e c = Some (None, c1)"
      using True by (simp add: start_poof_callback_def c1_def)
    moreover have "entry c1 = (entry c)(e := poof_step now a (entry c e))" using True by (simp add: c1_def poof_step_def)
    ultimately show ?thesis by blast
  next
    case valid: False
    have "start_poof_callback now a e c = Some (None, c)" "poof_step now a (entry c e) = entry c e"
      using False valid by (auto simp: start_poof_callback_def poof_step_def split: AvahiCacheEntryState.split)
    with assms(1) show ?thesis by (auto simp: fun_eq_iff)
  qed
qed

text \<open>The entries that a key or pattern selects.\<close>

definition matching :: "'o AvahiCache \<Rightarrow> AvahiKey \<Rightarrow> nat list" where
  "matching c k =
     (if avahi_key_is_pattern k then filter (\<lambda>e. avahi_key_pattern_match k (ckey c e) = Some True) (cache_entries c)
      else rec_chain c k)"

text \<open>
  A walk with a callback that always returns NULL, keeps the invariant and changes its entry only, changes the
  selected entries.
\<close>

definition entry_callback ::
  "(nat \<Rightarrow> 'o AvahiCache \<Rightarrow> ('r option \<times> 'o AvahiCache) option) \<Rightarrow> (AvahiCacheEntry \<Rightarrow> AvahiCacheEntry) \<Rightarrow> bool" where
  "entry_callback cb g =
     (\<forall>c e. cache_ok c \<and> e \<in> set (cache_entries c) \<longrightarrow>
       (\<exists>c'. cb e c = Some (None, c') \<and> cache_ok c' \<and> same_index c c' \<and> entry c' = (entry c)(e := g (entry c e))))"

lemma walk_key_ok:
  assumes "entry_callback cb g" "cache_ok c" "set es \<subseteq> set (cache_entries c)" "distinct es"
  shows "\<exists>c'. walk_key cb es c = Some (None, c') \<and> cache_ok c' \<and> same_index c c' \<and>
    entry c' = (\<lambda>e. if e \<in> set es then g (entry c e) else entry c e)"
  using assms(2-4)
proof (induction es arbitrary: c)
  case (Cons e es)
  obtain c1 where c1: "cb e c = Some (None, c1)" "cache_ok c1" "same_index c c1" "entry c1 = (entry c)(e := g (entry c e))"
    using assms(1) Cons.prems(1,2) unfolding entry_callback_def by (metis list.set_intros(1) subsetD)
  have "set es \<subseteq> set (cache_entries c1)" using Cons.prems(2) c1(3) by (simp add: same_index_def)
  from Cons.IH [OF c1(2) this] Cons.prems(3) obtain c2 where c2: "walk_key cb es c1 = Some (None, c2)" "cache_ok c2"
    "same_index c1 c2" "entry c2 = (\<lambda>e. if e \<in> set es then g (entry c1 e) else entry c1 e)" by auto
  have "entry c2 = (\<lambda>f. if f \<in> set (e # es) then g (entry c f) else entry c f)"
    using Cons.prems(3) by (auto simp: c2(4) c1(4) fun_eq_iff)
  with c1(1) c2(1,2) same_index_trans [OF c1(3) c2(3)] show ?case by auto
qed simp

lemma walk_all_filter:
  assumes "entry_callback cb g" "cache_ok c" "set es \<subseteq> set (cache_entries c)"
    and "\<forall>e \<in> set (cache_entries c). avahi_key_pattern_match k (ckey c e) \<noteq> None"
  shows "walk_all cb k es c = walk_key cb (filter (\<lambda>e. avahi_key_pattern_match k (ckey c e) = Some True) es) c"
  using assms(2-4)
proof (induction es arbitrary: c)
  case (Cons e es)
  then obtain b where b: "avahi_key_pattern_match k (ckey c e) = Some b" by auto
  show ?case
  proof (cases b)
    case False
    with b Cons show ?thesis by simp
  next
    case True
    obtain c1 where c1: "cb e c = Some (None, c1)" "cache_ok c1" "same_index c c1"
      using assms(1) Cons.prems(1,2) unfolding entry_callback_def by (metis list.set_intros(1) subsetD)
    have same: "ckey c1 f = ckey c f" "cache_entries c1 = cache_entries c" for f
      using c1(3) by (auto simp: same_index_def fun_eq_iff)
    then have "walk_all cb k es c1 = walk_key cb (filter (\<lambda>e. avahi_key_pattern_match k (ckey c1 e) = Some True) es) c1"
      using Cons.prems(2,3) by (intro Cons.IH [OF c1(2)]) (auto simp: same)
    with True b c1(1) show ?thesis by (simp add: same)
  qed
qed simp

lemma match_total:
  assumes "cache_ok c" "avahi_key_is_valid k" "e \<in> set (cache_entries c)"
  shows "avahi_key_pattern_match k (ckey c e) \<noteq> None"
proof -
  note idx = cache_okD(1) [OF assms(1)]
  have "avahi_key_is_valid (ckey c e)" "\<not> avahi_key_is_pattern (ckey c e)"
    using idx_okD(4) [OF idx assms(3)] idx_okD(8) [OF idx assms(3)] .
  moreover obtain cp ck where "canon_name (key_name k) = Some cp" "canon_name (key_name (ckey c e)) = Some ck"
    using key_canon assms(2) calculation(1) by blast
  ultimately show ?thesis using avahi_key_pattern_match_canon by simp
qed

lemma walk_ok:
  assumes "entry_callback cb g" "cache_ok c" "avahi_key_is_valid k"
  shows "\<exists>c'. avahi_cache_walk k cb c = Some (None, c') \<and> cache_ok c' \<and> same_index c c' \<and>
    entry c' = (\<lambda>e. if e \<in> set (matching c k) then g (entry c e) else entry c e)"
proof -
  have m: "set (matching c k) \<subseteq> set (cache_entries c)" "distinct (matching c k)"
    using cache_okD(7) [OF assms(2)] by (auto simp: matching_def rec_chain_def chain_def)
  have "avahi_cache_walk k cb c = walk_key cb (matching c k) c"
    using walk_all_filter [OF assms(1,2) subset_refl, of k] match_total [OF assms(2,3)] lookup_key_ok [OF assms(2,3)]
    by (simp add: avahi_cache_walk_def matching_def)
  with walk_key_ok [OF assms(1,2) m] show ?thesis by simp
qed

lemma start_poof_ok:
  assumes "cache_ok c" "avahi_key_is_valid k" "tv_norm now"
  shows "\<exists>c'. avahi_cache_start_poof now k a c = Some c' \<and> cache_ok c' \<and> same_index c c' \<and>
    entry c' = (\<lambda>e. if e \<in> set (matching c k) then poof_step now a (entry c e) else entry c e)"
proof -
  have "entry_callback (start_poof_callback now a :: nat \<Rightarrow> 'a AvahiCache \<Rightarrow> _) (poof_step now a)"
    using start_poof_callback_ok [OF _ _ assms(3)] by (auto simp: entry_callback_def)
  from walk_ok [OF this assms(1,2)] show ?thesis by (auto simp: avahi_cache_start_poof_def)
qed

lemma stop_poof_ok:
  assumes "cache_ok c" "clock_ok now rnd" "record_ok r" "\<not> avahi_key_is_pattern (rkey r)"
  shows "\<exists>c'. avahi_cache_stop_poof now rnd r a c = Some c' \<and> cache_ok c' \<and> same_index c c' \<and>
    (\<forall>e. if holder c r = Some e \<and> state (entry c e) \<in> {AVAHI_CACHE_POOF, AVAHI_CACHE_POOF_FINAL} \<and>
             avahi_address_cmp a (poof_address (entry c e)) = 0
         then \<exists>t. entry c' e = (entry c e)\<lparr>state := AVAHI_CACHE_VALID, cache_expiry := t\<rparr>
         else entry c' e = entry c e)"
proof (cases "\<exists>e. holder c r = Some e \<and> state (entry c e) \<in> {AVAHI_CACHE_POOF, AVAHI_CACHE_POOF_FINAL} \<and>
    avahi_address_cmp a (poof_address (entry c e)) = 0")
  case False
  then have "avahi_cache_stop_poof now rnd r a c = Some c"
    using assms by (auto simp: avahi_cache_stop_poof_def lookup_record_ok split: option.split)
  with False assms(1) show ?thesis by auto
next
  case True
  then obtain e where e: "holder c r = Some e" "state (entry c e) \<in> {AVAHI_CACHE_POOF, AVAHI_CACHE_POOF_FINAL}"
    "avahi_address_cmp a (poof_address (entry c e)) = 0" by blast
  note ok = cache_okD [OF assms(1)] and mem = holder_Some(1) [OF e(1)]
  define c1 where "c1 = upd_entry e (state_update (\<lambda>_. AVAHI_CACHE_VALID)) c"
  have pend: "pending (set (cache_entries c1)) (entry c1) e (time_event_queue c1)"
    using pending_events_ok [OF ok(4) mem, of "entry c1"] by (simp add: c1_def)
  have c1: "rand_ok c1" "tv_norm (cache_timestamp (entry c1 e))" "same_index c c1"
    using ok(6) ok(5) [OF mem] by (auto simp: c1_def rand_ok_def timed_def same_index_def)
  obtain c2 t ev where c2: "next_expiry now rnd e 80 c1 = Some c2" "same_index c1 c2"
    "entry c2 = (entry c1)(e := (entry c1 e)\<lparr>cache_expiry := t, time_event := Some ev\<rparr>)"
    "events_ok (set (cache_entries c1)) (entry c2) (time_event_queue c2)" "rand_ok c2"
    "tv_norm t" "at_percent (entry c2 e) 80" "time_event (entry c1 e) \<noteq> None \<longrightarrow> time_event (entry c1 e) = Some ev"
    by (rule next_expiry_ok [OF assms(2) c1(1) _ _ c1(2) pend, of 80]) simp_all
  have "time_event (entry c e) = Some ev" using c2(8) ok(4) mem by (auto simp: c1_def events_ok_def)
  then have new: "entry c2 = (entry c)(e := (entry c e)\<lparr>state := AVAHI_CACHE_VALID, cache_expiry := t\<rparr>)"
    by (cases "entry c e") (simp add: c2(3) c1_def)
  have "timed (entry c2 f)" if "f \<in> set (cache_entries c)" for f
    using ok(5) [OF that] c2(6,7) by (auto simp: new timed_def)
  then have "cache_ok c2"
    using c2(4,5) by (intro cache_ok_frame [OF assms(1) same_index_trans [OF c1(3) c2(2)]]) (simp_all add: c1_def)
  moreover have "avahi_cache_stop_poof now rnd r a c = Some c2"
    using assms e c2(1) by (auto simp: avahi_cache_stop_poof_def lookup_record_ok c1_def)
  ultimately show ?thesis
    using e same_index_trans [OF c1(3) c2(2)] by (intro exI [of _ c2]) (auto simp: new)
qed

end
