(* ===== verification/Cache_Clock.thy ===== *)
theory Cache_Clock
  imports Cache_Expiry
begin

text \<open>
  The cache and the event loop: what happens to an entry when its event elapses, and the expiration of the queue of
  time events with the cache as one of its clients. Then the properties of the cache.
\<close>

section \<open>The event of an entry\<close>

text \<open>What other code may do to the queue: its own events change, those of the cache do not.\<close>

definition harmless :: "('o event_callback AvahiTimeEventQueue \<Rightarrow> ('r \<times> 'o event_callback AvahiTimeEventQueue) option) \<Rightarrow> bool" where
  "harmless f =
     (\<forall>q. teq_ok q \<longrightarrow> (\<exists>r q'. f q = Some (r, q') \<and> teq_ok q' \<and> elapse_events q' = elapse_events q))"

fun next_stage :: "AvahiCacheEntryState \<Rightarrow> (AvahiCacheEntryState \<times> nat) option" where
  "next_stage AVAHI_CACHE_VALID = Some (AVAHI_CACHE_EXPIRY1, 85)"
| "next_stage AVAHI_CACHE_POOF = Some (AVAHI_CACHE_EXPIRY1, 85)"
| "next_stage AVAHI_CACHE_EXPIRY1 = Some (AVAHI_CACHE_EXPIRY2, 90)"
| "next_stage AVAHI_CACHE_EXPIRY2 = Some (AVAHI_CACHE_EXPIRY3, 95)"
| "next_stage AVAHI_CACHE_EXPIRY3 = Some (AVAHI_CACHE_EXPIRY_FINAL, 100)"
| "next_stage _ = None"

lemma next_stageD:
  assumes "next_stage s = Some (s', p)"
  shows "stage_percent s' = Some p" "0 < p" "p \<le> 100"
  using assms by (cases s; simp)+

lemma final_stage: "next_stage s = None \<Longrightarrow> stage_percent s = None \<or> s = AVAHI_CACHE_EXPIRY_FINAL"
  by (cases s) simp_all

lemma elapse_func_stage:
  "elapse_func shall_refresh post_query now rnd e c =
     (case next_stage (state (entry c e)) of
        None \<Rightarrow> remove_entry e c
      | Some (st, p) \<Rightarrow>
          do {
            let c = upd_entry e (state_update (\<lambda>_. st)) c;
            (refresh, q) \<leftarrow> shall_refresh (ckey c e) (time_event_queue c);
            let c = c\<lparr>time_event_queue := q\<rparr>;
            c \<leftarrow> (if refresh then do {
                    q \<leftarrow> post_query (ckey c e) q;
                    Some (c\<lparr>time_event_queue := q, posted := ckey c e # posted c\<rparr>)
                  } else Some c);
            next_expiry now rnd e p c
          })"
  by (cases "state (entry c e)") (simp_all add: elapse_func_def Let_def)

lemma elapse_func_ok:
  assumes "cache_ok c" "clock_ok now rnd" "e \<in> set (cache_entries c)"
    and "\<forall>k. harmless (shall_refresh k)" "\<forall>k. harmless (\<lambda>q. map_option (Pair ()) (post_query k q))"
  shows "\<exists>c'. elapse_func shall_refresh post_query now rnd e c = Some c' \<and> cache_ok c' \<and>
    n_cache_entries_max c' = n_cache_entries_max c \<and>
    (case next_stage (state (entry c e)) of
       None \<Rightarrow> cache_entries c' = remove1 e (cache_entries c) \<and> entry c' = entry c \<and>
         notified c' = (cache_record (entry c e), AVAHI_BROWSER_REMOVE) # notified c
     | Some (st, p) \<Rightarrow> same_index c c' \<and>
         (\<exists>t. entry c' = (entry c)(e := (entry c e)\<lparr>state := st, cache_expiry := t\<rparr>) \<and> at_percent (entry c' e) p))"
proof (cases "next_stage (state (entry c e))")
  case None
  obtain c' where "remove_entry e c = Some c'" "cache_ok c'" "cache_entries c' = remove1 e (cache_entries c)"
    "entry c' = entry c" "notified c' = (cache_record (entry c e), AVAHI_BROWSER_REMOVE) # notified c"
    "n_cache_entries_max c' = n_cache_entries_max c" by (rule remove_entry_ok [OF assms(1,3)])
  with None show ?thesis by (simp add: elapse_func_stage)
next
  case (Some sp)
  then obtain st p where sp: "next_stage (state (entry c e)) = Some (st, p)" by (cases sp) auto
  note ok = cache_okD [OF assms(1)] and st = next_stageD [OF sp]
  define c1 where "c1 = upd_entry e (state_update (\<lambda>_. st)) c"
  obtain b q1 where q1: "shall_refresh (ckey c1 e) (time_event_queue c1) = Some (b, q1)" "teq_ok q1"
    "elapse_events q1 = elapse_events (time_event_queue c)"
    using spec [OF assms(4), of "ckey c1 e"] ok(9) by (auto simp: harmless_def c1_def)
  obtain q2 where q2: "post_query (ckey c1 e) q1 = Some q2" "teq_ok q2"
    "elapse_events q2 = elapse_events (time_event_queue c)"
    using spec [OF assms(5), of "ckey c1 e"] q1(2,3) by (auto simp: harmless_def)
  define c2 where "c2 = (if b then c1\<lparr>time_event_queue := q2, posted := ckey c1 e # posted c1\<rparr> else c1\<lparr>time_event_queue := q1\<rparr>)"
  have c2: "entry c2 = entry c1" "cache_entries c2 = cache_entries c" "rand_ok c2 = rand_ok c" "teq_ok (time_event_queue c2)"
    "elapse_events (time_event_queue c2) = elapse_events (time_event_queue c)" "same_index c c2"
    using q1 q2 by (auto simp: c2_def c1_def rand_ok_def same_index_def fun_eq_iff)
  have "events_ok (set (cache_entries c)) (entry c) (time_event_queue c2)"
    using ok(4) c2(4,5) by (simp add: events_ok_def)
  then have pend: "pending (set (cache_entries c2)) (entry c2) e (time_event_queue c2)"
    using pending_events_ok [OF _ assms(3), of "entry c" "time_event_queue c2" "entry c2"] by (simp add: c2(1,2) c1_def)
  have ts: "tv_norm (cache_timestamp (entry c2 e))" using ok(5) [OF assms(3)] by (simp add: c2(1) c1_def timed_def)
  obtain c3 t ev where c3: "next_expiry now rnd e p c2 = Some c3" "same_index c2 c3"
    "entry c3 = (entry c2)(e := (entry c2 e)\<lparr>cache_expiry := t, time_event := Some ev\<rparr>)"
    "events_ok (set (cache_entries c2)) (entry c3) (time_event_queue c3)" "rand_ok c3"
    "tv_norm t" "at_percent (entry c3 e) p" "time_event (entry c2 e) \<noteq> None \<longrightarrow> time_event (entry c2 e) = Some ev"
    using next_expiry_ok [OF assms(2) _ st(2,3) ts pend] ok(6) c2(3) by metis
  have "time_event (entry c e) = Some ev" using c3(8) ok(4) assms(3) by (auto simp: c2(1) c1_def events_ok_def)
  then have new: "entry c3 = (entry c)(e := (entry c e)\<lparr>state := st, cache_expiry := t\<rparr>)"
    by (cases "entry c e") (simp add: c3(3) c2(1) c1_def)
  note idx = same_index_trans [OF c2(6) c3(2)]
  have "timed (entry c3 f)" if "f \<in> set (cache_entries c)" for f
    using ok(5) [OF that] c3(6,7) st(1) by (auto simp: new timed_def)
  then have "cache_ok c3" using c3(4,5) c2(2) by (intro cache_ok_frame [OF assms(1) idx]) simp_all
  moreover have "elapse_func shall_refresh post_query now rnd e c = Some c3"
    using c3(1) q1(1) q2(1) unfolding elapse_func_stage sp
    by (cases b) (simp_all add: c1_def c2_def Let_def)
  ultimately show ?thesis using sp idx new c3(7) by (auto simp: same_index_def)
qed

section \<open>Expiration\<close>

text \<open>
  \<open>expiration_event\<close> of the queue of time events, with the cache in the state; \<open>other\<close> is what the callbacks of
  other parts of the server do.
\<close>

definition cache_expiration ::
  "(AvahiKey \<Rightarrow> 'o event_callback AvahiTimeEventQueue \<Rightarrow> (bool \<times> 'o event_callback AvahiTimeEventQueue) option) \<Rightarrow>
   (AvahiKey \<Rightarrow> 'o event_callback AvahiTimeEventQueue \<Rightarrow> 'o event_callback AvahiTimeEventQueue option) \<Rightarrow>
   ('o \<Rightarrow> nat \<Rightarrow> 'o event_callback AvahiTimeEventQueue \<Rightarrow> 'o event_callback AvahiTimeEventQueue option) \<Rightarrow>
   timeval \<Rightarrow> int \<Rightarrow> 'o AvahiCache \<Rightarrow> 'o AvahiCache option" where
  "cache_expiration shall_refresh post_query other now rnd c =
     do {
       (due, q) \<leftarrow> expiration_start now (time_event_queue c);
       let c = c\<lparr>time_event_queue := q\<rparr>;
       c \<leftarrow> (case due of
              None \<Rightarrow> Some c
            | Some ev \<Rightarrow>
                (case callback (event q ev) of
                   Elapse e \<Rightarrow> elapse_func shall_refresh post_query now rnd e c
                 | Other x \<Rightarrow> do { q \<leftarrow> other x ev q; Some (c\<lparr>time_event_queue := q\<rparr>) }));
       Some (c\<lparr>time_event_queue := update_timeout (time_event_queue c)\<rparr>)
     }"

lemma cache_ok_queue:
  assumes "cache_ok c" "teq_ok q" "elapse_events q = elapse_events (time_event_queue c)"
  shows "cache_ok (c\<lparr>time_event_queue := q\<rparr>)"
  using assms cache_okD(5,6) [OF assms(1)] cache_okD(4) [OF assms(1)]
  by (intro cache_ok_frame [OF assms(1)]) (simp_all add: same_index_def events_ok_def rand_ok_def)

lemma cache_ok_timeout:
  assumes "cache_ok c"
  shows "cache_ok (c\<lparr>time_event_queue := update_timeout (time_event_queue c)\<rparr>)"
  using assms update_timeout_ok [OF teq_pq [OF cache_okD(9) [OF assms]]] by (intro cache_ok_queue) simp_all

text \<open>The three cases of an expiration.\<close>

lemma expiration_cases:
  assumes "cache_ok c"
  obtains (idle) "expiration_start now (time_event_queue c) = Some (None, time_event_queue c)"
      "\<And>ev. root (prioq (time_event_queue c)) = Some ev \<Longrightarrow>
         avahi_timeval_compare now (expiry (event (time_event_queue c) ev)) < 0"
  | (entry) ev e q where "expiration_start now (time_event_queue c) = Some (Some ev, q)"
      "callback (event q ev) = Elapse e" "e \<in> set (cache_entries c)" "cache_ok (c\<lparr>time_event_queue := q\<rparr>)"
      "avahi_timeval_compare now (cache_expiry (entry c e)) \<ge> 0" "events q = events (time_event_queue c)"
      "\<And>v. callback (event q v) = callback (event (time_event_queue c) v)"
  | (other) ev x q where "expiration_start now (time_event_queue c) = Some (Some ev, q)"
      "callback (event q ev) = Other x" "cache_ok (c\<lparr>time_event_queue := q\<rparr>)"
      "ev \<in> events (time_event_queue c)" "callback (event (time_event_queue c) ev) = Other x"
proof -
  let ?q = "time_event_queue c"
  note ok = cache_okD [OF assms]
  show ?thesis
  proof (cases "\<exists>ev. root (prioq ?q) = Some ev \<and> avahi_timeval_compare now (expiry (event ?q ev)) \<ge> 0")
    case False
    then have "expiration_start now ?q = Some (None, ?q)"
      by (auto simp: expiration_start_def time_event_queue_root_def split: option.split)
    with False idle show ?thesis by (meson not_less)
  next
    case True
    then obtain ev where ev: "root (prioq ?q) = Some ev" "avahi_timeval_compare now (expiry (event ?q ev)) \<ge> 0" by blast
    obtain q where q: "expiration_start now ?q = Some (Some ev, q)" "teq_ok q" "events q = events ?q"
      "event q = (event ?q)(ev := (event ?q ev)\<lparr>last_run := now\<rparr>)" "ev \<in> events ?q"
      using expiration_due [OF ok(9) ev] by metis
    have cb: "callback (event q ev) = callback (event ?q ev)" by (simp add: q(4))
    have "elapse_events q = elapse_events ?q" by (rule elapse_events_cong) (simp_all add: q(3,4))
    with assms q(2) have c: "cache_ok (c\<lparr>time_event_queue := q\<rparr>)" by (rule cache_ok_queue)
    show ?thesis
    proof (cases "callback (event ?q ev)")
      case (Elapse e)
      then have e: "e \<in> set (cache_entries c)" "time_event (entry c e) = Some ev" using events_okD(4) [OF ok(4) q(5)] by simp_all
      then have "expiry (event ?q ev) = cache_expiry (entry c e)" using events_okD(3) [OF ok(4) e(1)] by simp
      moreover have "callback (event q v) = callback (event ?q v)" for v by (simp add: q(4))
      ultimately show ?thesis using entry [OF q(1) _ e(1) c] Elapse cb ev(2) q(3) by simp
    next
      case (Other x)
      with other [OF q(1) _ c q(5)] cb show ?thesis by simp
    qed
  qed
qed

lemma expiration_ok:
  assumes "cache_ok c" "clock_ok now rnd"
    and "\<forall>k. harmless (shall_refresh k)" "\<forall>k. harmless (\<lambda>q. map_option (Pair ()) (post_query k q))"
    and "\<forall>x ev. harmless (\<lambda>q. map_option (Pair ()) (other x ev q))"
  shows "\<exists>c'. cache_expiration shall_refresh post_query other now rnd c = Some c' \<and> cache_ok c' \<and>
    (same_index c c' \<and> entry c' = entry c \<or>
     (\<exists>e \<in> set (cache_entries c). usecs (cache_expiry (entry c e)) \<le> usecs now \<and>
       (case next_stage (state (entry c e)) of
          None \<Rightarrow> cache_entries c' = remove1 e (cache_entries c) \<and> entry c' = entry c \<and>
            notified c' = (cache_record (entry c e), AVAHI_BROWSER_REMOVE) # notified c
        | Some (st, p) \<Rightarrow> same_index c c' \<and>
            (\<exists>t. entry c' = (entry c)(e := (entry c e)\<lparr>state := st, cache_expiry := t\<rparr>) \<and> at_percent (entry c' e) p))))"
proof (cases rule: expiration_cases [OF assms(1), of now, case_names idle entry other])
  case idle
  then show ?thesis
    using cache_ok_timeout [OF assms(1)] by (auto simp: cache_expiration_def same_index_def)
next
  case (entry ev e q)
  define c1 where "c1 = c\<lparr>time_event_queue := q\<rparr>"
  have c1: "AvahiCache.entry c1 = AvahiCache.entry c" "cache_entries c1 = cache_entries c" "notified c1 = notified c"
    "same_index c c1" by (simp_all add: c1_def same_index_def)
  have "e \<in> set (cache_entries c1)" using entry(3) by (simp add: c1)
  from elapse_func_ok [OF entry(4) [folded c1_def] assms(2) this assms(3,4)] obtain c2 where
    c2: "elapse_func shall_refresh post_query now rnd e c1 = Some c2" "cache_ok c2"
    "case next_stage (state (AvahiCache.entry c1 e)) of
       None \<Rightarrow> cache_entries c2 = remove1 e (cache_entries c1) \<and> AvahiCache.entry c2 = AvahiCache.entry c1 \<and>
         notified c2 = (cache_record (AvahiCache.entry c1 e), AVAHI_BROWSER_REMOVE) # notified c1
     | Some (st, p) \<Rightarrow> same_index c1 c2 \<and>
         (\<exists>t. AvahiCache.entry c2 = (AvahiCache.entry c1)(e := (AvahiCache.entry c1 e)\<lparr>state := st, cache_expiry := t\<rparr>) \<and>
           at_percent (AvahiCache.entry c2 e) p)" by blast
  define c3 where "c3 = c2\<lparr>time_event_queue := update_timeout (time_event_queue c2)\<rparr>"
  have run: "cache_expiration shall_refresh post_query other now rnd c = Some c3"
    using entry(1,2) c2(1) by (simp add: cache_expiration_def c1_def c3_def)
  have "tv_norm (cache_expiry (AvahiCache.entry c e))" using cache_okD(5) [OF assms(1) entry(3)] by (simp add: timed_def)
  then have due: "usecs (cache_expiry (AvahiCache.entry c e)) \<le> usecs now"
    using entry(5) clock_okD(1) [OF assms(2)] by (simp add: avahi_timeval_compare_norm split: if_splits)
  have c3: "AvahiCache.entry c3 = AvahiCache.entry c2" "cache_entries c3 = cache_entries c2" "notified c3 = notified c2"
    "same_index c2 c3" by (simp_all add: c3_def same_index_def)
  have "cache_ok c3" unfolding c3_def by (rule cache_ok_timeout [OF c2(2)])
  then show ?thesis
  proof (intro exI [of _ c3] conjI disjI2 bexI [OF _ entry(3)] run due)
    show "case next_stage (state (AvahiCache.entry c e)) of
        None \<Rightarrow> cache_entries c3 = remove1 e (cache_entries c) \<and> AvahiCache.entry c3 = AvahiCache.entry c \<and>
          notified c3 = (cache_record (AvahiCache.entry c e), AVAHI_BROWSER_REMOVE) # notified c
      | Some (st, p) \<Rightarrow> same_index c c3 \<and>
          (\<exists>t. AvahiCache.entry c3 = (AvahiCache.entry c)(e := (AvahiCache.entry c e)\<lparr>state := st, cache_expiry := t\<rparr>) \<and>
            at_percent (AvahiCache.entry c3 e) p)"
      using c2(3) same_index_trans [OF c1(4) same_index_trans [OF _ c3(4)]] unfolding c3(1-3) c1(1-3)
      by (auto split: option.splits)
  qed
next
  case (other ev x q)
  define c1 where "c1 = c\<lparr>time_event_queue := q\<rparr>"
  note ok1 = other(3) [folded c1_def]
  from assms(5) [rule_format, of x ev] cache_okD(9) [OF ok1] obtain q2 where
    q2: "other x ev (time_event_queue c1) = Some q2" "teq_ok q2" "elapse_events q2 = elapse_events (time_event_queue c1)"
    by (auto simp: harmless_def)
  define c2 where "c2 = c1\<lparr>time_event_queue := q2\<rparr>"
  have "cache_ok c2" unfolding c2_def by (rule cache_ok_queue [OF ok1 q2(2,3)])
  then have "cache_ok (c2\<lparr>time_event_queue := update_timeout (time_event_queue c2)\<rparr>)" by (rule cache_ok_timeout)
  with other(1,2) q2(1) show ?thesis
    by (auto simp: cache_expiration_def c2_def c1_def same_index_def)
qed

section \<open>Every entry expires\<close>

text \<open>The events that an entry still waits for.\<close>

fun stages :: "AvahiCacheEntryState \<Rightarrow> nat" where
  "stages AVAHI_CACHE_VALID = 5"
| "stages AVAHI_CACHE_POOF = 5"
| "stages AVAHI_CACHE_EXPIRY1 = 4"
| "stages AVAHI_CACHE_EXPIRY2 = 3"
| "stages AVAHI_CACHE_EXPIRY3 = 2"
| "stages _ = 1"

lemma stages_next: "next_stage s = Some (s', p) \<Longrightarrow> stages s = Suc (stages s')" "next_stage s = None \<Longrightarrow> stages s = 1"
  by (cases s; auto)+

text \<open>The time of the entry has passed, and its TTL with all of the jitter.\<close>

definition overdue :: "timeval \<Rightarrow> AvahiCacheEntry \<Rightarrow> bool" where
  "overdue now x =
     (usecs (cache_expiry x) \<le> usecs now \<and> usecs (cache_timestamp x) * 100 + ttl_usec x * 102 \<le> usecs now * 100)"

definition only_elapse :: "'o event_callback AvahiTimeEventQueue \<Rightarrow> bool" where
  "only_elapse q = (\<forall>ev \<in> events q. \<exists>e. callback (event q ev) = Elapse e)"

lemma free_only:
  assumes "teq_ok q" "ev \<in> events q" "avahi_time_event_free ev q = Some q'" "only_elapse q"
  shows "only_elapse q'"
  by (rule event_free_ok [OF assms(1,2)]) (use assms(3,4) in \<open>simp add: only_elapse_def\<close>)

lemma update_only:
  assumes "teq_ok q" "ev \<in> events q" "avahi_time_event_update ev t q = Some q'" "only_elapse q"
  shows "only_elapse q'"
  by (rule event_update_ok [OF assms(1,2), of t]) (use assms(3,4) in \<open>simp add: only_elapse_def\<close>)

lemma remove_entry_queue:
  "remove_entry e c = Some c' \<Longrightarrow> time_event (entry c e) = Some ev \<Longrightarrow>
   avahi_time_event_free ev (time_event_queue c) = Some (time_event_queue c')"
  by (auto simp: remove_entry_def Let_def notify_def split: bind_splits if_splits)

lemma next_expiry_queue:
  "next_expiry now rnd e p c = Some c' \<Longrightarrow> time_event (entry c e) = Some ev \<Longrightarrow>
   \<exists>t. avahi_time_event_update ev t (time_event_queue c) = Some (time_event_queue c')"
  by (auto simp: next_expiry_def update_time_event_def Let_def split: bind_splits if_splits)

text \<open>The expiration when the queue has events of the cache only, and the querier leaves it alone.\<close>

definition quiet_expiration :: "(AvahiKey \<Rightarrow> bool) \<Rightarrow> timeval \<Rightarrow> int \<Rightarrow> 'o AvahiCache \<Rightarrow> 'o AvahiCache option" where
  "quiet_expiration subscribed now rnd c =
     cache_expiration (\<lambda>k q. Some (subscribed k, q)) (\<lambda>k q. Some q) (\<lambda>x ev q. Some q) now rnd c"

primrec expire_all :: "nat \<Rightarrow> (AvahiKey \<Rightarrow> bool) \<Rightarrow> timeval \<Rightarrow> int \<Rightarrow> 'o AvahiCache \<Rightarrow> 'o AvahiCache option" where
  "expire_all 0 subscribed now rnd c = Some c"
| "expire_all (Suc n) subscribed now rnd c =
     do { c \<leftarrow> quiet_expiration subscribed now rnd c; expire_all n subscribed now rnd c }"

lemma quiet_expiration_ok:
  assumes "cache_ok c" "clock_ok now rnd" "only_elapse (time_event_queue c)" "cache_entries c \<noteq> []"
    and "\<forall>e \<in> set (cache_entries c). overdue now (entry c e)"
  obtains c' e where "quiet_expiration subscribed now rnd c = Some c'" "cache_ok c'" "only_elapse (time_event_queue c')"
    "e \<in> set (cache_entries c)" "\<forall>e \<in> set (cache_entries c'). overdue now (entry c' e)"
    "case next_stage (state (entry c e)) of
       None \<Rightarrow> cache_entries c' = remove1 e (cache_entries c) \<and> entry c' = entry c \<and>
         notified c' = (cache_record (entry c e), AVAHI_BROWSER_REMOVE) # notified c
     | Some (st, p) \<Rightarrow> same_index c c' \<and> (\<exists>t. entry c' = (entry c)(e := (entry c e)\<lparr>state := st, cache_expiry := t\<rparr>))"
proof (cases rule: expiration_cases [OF assms(1), of now, case_names idle due other])
  case idle
  let ?q = "time_event_queue c"
  note ok = cache_okD [OF assms(1)]
  obtain e where e: "e \<in> set (cache_entries c)" using assms(4) by fastforce
  then have "events ?q \<noteq> {}" using events_okD(3) [OF ok(4) e] by auto
  then obtain ev where ev: "root (prioq ?q) = Some ev" "ev \<in> events ?q"
    using event_order.pq.first_exists [OF teq_pq [OF ok(9)]] unfolding events_def by blast
  obtain f where f: "callback (event ?q ev) = Elapse f" using assms(3) ev(2) by (auto simp: only_elapse_def)
  have "f \<in> set (cache_entries c)" "expiry (event ?q ev) = cache_expiry (entry c f)"
    using events_okD(4) [OF ok(4) ev(2) f] events_okD(3) [OF ok(4), of f] by auto
  moreover then have "usecs (cache_expiry (entry c f)) \<le> usecs now" "tv_norm (cache_expiry (entry c f))"
    using assms(5) ok(5) by (auto simp: overdue_def timed_def)
  ultimately have "avahi_timeval_compare now (expiry (event ?q ev)) \<ge> 0"
    using clock_okD(1) [OF assms(2)] by (simp add: avahi_timeval_compare_norm)
  with idle(2) [OF ev(1)] show ?thesis by simp
next
  case (other ev x q)
  with assms(3) show ?thesis by (auto simp: only_elapse_def)
next
  case (due ev e q)
  define c1 where "c1 = c\<lparr>time_event_queue := q\<rparr>"
  have c1: "entry c1 = entry c" "cache_entries c1 = cache_entries c" "notified c1 = notified c" "same_index c c1"
    "time_event_queue c1 = q" by (simp_all add: c1_def same_index_def)
  have q: "only_elapse q" using assms(3) due(6,7) by (simp add: only_elapse_def)
  have quiet: "\<forall>k :: AvahiKey. harmless (\<lambda>q :: 'a event_callback AvahiTimeEventQueue. Some (subscribed k, q))"
    "\<forall>k :: AvahiKey. harmless (\<lambda>q :: 'a event_callback AvahiTimeEventQueue. map_option (Pair ()) (Some q))"
    by (simp_all add: harmless_def)
  have e: "e \<in> set (cache_entries c1)" using due(3) by (simp add: c1)
  obtain c2 where c2: "elapse_func (\<lambda>k q. Some (subscribed k, q)) (\<lambda>k q. Some q) now rnd e c1 = Some c2"
    "cache_ok c2" "case next_stage (state (entry c1 e)) of
       None \<Rightarrow> cache_entries c2 = remove1 e (cache_entries c1) \<and> entry c2 = entry c1 \<and>
         notified c2 = (cache_record (entry c1 e), AVAHI_BROWSER_REMOVE) # notified c1
     | Some (st, p) \<Rightarrow> same_index c1 c2 \<and>
         (\<exists>t. entry c2 = (entry c1)(e := (entry c1 e)\<lparr>state := st, cache_expiry := t\<rparr>) \<and> at_percent (entry c2 e) p)"
    using elapse_func_ok [OF due(4) [folded c1_def] assms(2) e quiet] by blast
  obtain ev' where ev': "time_event (entry c1 e) = Some ev'" "ev' \<in> events q"
    using events_okD(3) [OF cache_okD(4) [OF due(4)], of e] due(3) by (auto simp: c1)
  have t: "teq_ok q" using cache_okD(9) [OF due(4)] by simp
  have only: "only_elapse (time_event_queue c2)"
  proof (cases "next_stage (state (entry c1 e))")
    case None
    then have "remove_entry e c1 = Some c2" using c2(1) by (simp add: elapse_func_stage)
    from remove_entry_queue [OF this ev'(1)] show ?thesis using free_only [OF t ev'(2) _ q] by (simp add: c1)
  next
    case (Some sp)
    then obtain st p where sp: "next_stage (state (entry c1 e)) = Some (st, p)" by (cases sp) auto
    obtain c3 where c3: "next_expiry now rnd e p c3 = Some c2" "time_event (entry c3 e) = Some ev'"
      "time_event_queue c3 = q"
      using c2(1) ev'(1) c1(5) unfolding elapse_func_stage sp by (cases "subscribed (ckey c1 e)") (auto simp: Let_def)
    from next_expiry_queue [OF c3(1,2)] show ?thesis using update_only [OF t ev'(2) _ q] by (auto simp: c3(3))
  qed
  define c' where "c' = c2\<lparr>time_event_queue := update_timeout (time_event_queue c2)\<rparr>"
  have c': "entry c' = entry c2" "cache_entries c' = cache_entries c2" "notified c' = notified c2" "same_index c2 c'"
    by (simp_all add: c'_def same_index_def)
  have "overdue now (entry c' f)" if f: "f \<in> set (cache_entries c')" for f
  proof (cases "next_stage (state (entry c1 e))")
    case None
    with c2(3) f assms(5) show ?thesis by (simp add: c1 c') (meson set_remove1_subset subsetD)
  next
    case (Some sp)
    then obtain st p t where sp: "next_stage (state (entry c1 e)) = Some (st, p)" "same_index c1 c2"
      "entry c2 = (entry c1)(e := (entry c1 e)\<lparr>state := st, cache_expiry := t\<rparr>)" "at_percent (entry c2 e) p"
      using c2(3) by (cases sp) auto
    have "ttl_usec (entry c e) * int (p + 2) \<le> ttl_usec (entry c e) * 102"
      using next_stageD(3) [OF sp(1)] by (intro mult_left_mono) (simp_all add: ttl_usec_def)
    moreover have "usecs t * 100 \<le> usecs (cache_timestamp (entry c e)) * 100 + ttl_usec (entry c e) * int (p + 2)"
      using sp(4) unfolding sp(3) c1(1) at_percent_def by (simp add: ttl_usec_def)
    moreover have od: "overdue now (entry c e)" using assms(5) due(3) by blast
    ultimately have "usecs t \<le> usecs now" unfolding overdue_def by linarith
    with od have "overdue now (entry c' e)" unfolding c' sp(3) c1(1) by (simp add: overdue_def ttl_usec_def)
    moreover have "f \<in> set (cache_entries c)" using f sp(2) by (simp add: c' c1 same_index_def)
    ultimately show ?thesis using assms(5) by (cases "f = e") (simp_all add: c' sp(3) c1)
  qed
  moreover have "only_elapse (time_event_queue c')" using only by (simp add: c'_def only_elapse_def)
  moreover have "quiet_expiration subscribed now rnd c = Some c'"
    using due(1,2) c2(1) by (simp add: quiet_expiration_def cache_expiration_def c1_def c'_def)
  moreover have "cache_ok c'" unfolding c'_def by (rule cache_ok_timeout [OF c2(2)])
  moreover have "case next_stage (state (entry c e)) of
       None \<Rightarrow> cache_entries c' = remove1 e (cache_entries c) \<and> entry c' = entry c \<and>
         notified c' = (cache_record (entry c e), AVAHI_BROWSER_REMOVE) # notified c
     | Some (st, p) \<Rightarrow> same_index c c' \<and> (\<exists>t. entry c' = (entry c)(e := (entry c e)\<lparr>state := st, cache_expiry := t\<rparr>))"
    using c2(3) same_index_trans [OF c1(4) same_index_trans [OF _ c'(4)]] unfolding c'(1-3) c1(1-3)
    by (auto split: option.splits)
  ultimately show ?thesis using due(3) that by blast
qed

text \<open>Each expiration brings one entry one stage further, so that after as many as there are stages all are gone.\<close>

lemma expire_all_ok:
  assumes "cache_ok c" "clock_ok now rnd" "only_elapse (time_event_queue c)"
    "\<forall>e \<in> set (cache_entries c). overdue now (entry c e)"
    "sum_list (map (\<lambda>e. stages (state (entry c e))) (cache_entries c)) = n"
  shows "\<exists>c' es. expire_all n subscribed now rnd c = Some c' \<and> cache_ok c' \<and> cache_entries c' = [] \<and>
    mset es = mset (cache_entries c) \<and>
    notified c' = map (\<lambda>e. (cache_record (entry c e), AVAHI_BROWSER_REMOVE)) es @ notified c"
  using assms(1,3-5)
proof (induction n arbitrary: c)
  case 0
  have "stages s \<noteq> 0" for s by (cases s) auto
  with 0 have "cache_entries c = []" by (metis (no_types, lifting) imageI list.set_map list.set_intros(1) neq_Nil_conv sum_list_eq_0_iff)
  with 0 show ?case by auto
next
  case (Suc n)
  then have "cache_entries c \<noteq> []" by auto
  from quiet_expiration_ok [OF Suc.prems(1) assms(2) Suc.prems(2) this Suc.prems(3)] obtain c1 e where
    c1: "quiet_expiration subscribed now rnd c = Some c1" "cache_ok c1" "only_elapse (time_event_queue c1)"
    "e \<in> set (cache_entries c)" "\<forall>e \<in> set (cache_entries c1). overdue now (entry c1 e)"
    "case next_stage (state (entry c e)) of
       None \<Rightarrow> cache_entries c1 = remove1 e (cache_entries c) \<and> entry c1 = entry c \<and>
         notified c1 = (cache_record (entry c e), AVAHI_BROWSER_REMOVE) # notified c
     | Some (st, p) \<Rightarrow> same_index c c1 \<and> (\<exists>t. entry c1 = (entry c)(e := (entry c e)\<lparr>state := st, cache_expiry := t\<rparr>))" .
  let ?sum = "\<lambda>c es. sum_list (map (\<lambda>e. stages (state (entry c e))) es)"
  have perm: "?sum d (cache_entries c) = stages (state (entry d e)) + ?sum d (remove1 e (cache_entries c))" for d
    by (rule sum_list_map_remove1) (rule c1(4))
  have d: "distinct (cache_entries c)" by (rule cache_okD(7) [OF Suc.prems(1)])
  show ?case
  proof (cases "next_stage (state (entry c e))")
    case None
    then have "?sum c1 (cache_entries c1) = n" using c1(6) perm [of c] Suc.prems(4) stages_next(2) by simp
    from Suc.IH [OF c1(2,3,5) this] obtain c' es where "expire_all n subscribed now rnd c1 = Some c'" "cache_ok c'"
      "cache_entries c' = []" "mset es = mset (cache_entries c1)"
      "notified c' = map (\<lambda>e. (cache_record (entry c1 e), AVAHI_BROWSER_REMOVE)) es @ notified c1" by blast
    with None c1(1,4,6) show ?thesis by (intro exI [of _ c'] exI [of _ "es @ [e]"]) simp
  next
    case (Some sp)
    then obtain st p t where sp: "next_stage (state (entry c e)) = Some (st, p)" "same_index c c1"
      "entry c1 = (entry c)(e := (entry c e)\<lparr>state := st, cache_expiry := t\<rparr>)" using c1(6) by (cases sp) auto
    have "?sum c1 (remove1 e (cache_entries c)) = ?sum c (remove1 e (cache_entries c))"
      using d by (intro arg_cong [of _ _ sum_list] map_cong) (auto simp: sp(3))
    moreover have "stages (state (entry c1 e)) = stages st" by (simp add: sp(3))
    moreover have "cache_entries c1 = cache_entries c" using sp(2) by (simp add: same_index_def)
    ultimately have "?sum c1 (cache_entries c1) = n"
      using perm [of c] perm [of c1] Suc.prems(4) stages_next(1) [OF sp(1)] by (metis add.commute add_Suc_right nat.inject)
    from Suc.IH [OF c1(2,3,5) this] obtain c' es where "expire_all n subscribed now rnd c1 = Some c'" "cache_ok c'"
      "cache_entries c' = []" "mset es = mset (cache_entries c1)"
      "notified c' = map (\<lambda>e. (cache_record (entry c1 e), AVAHI_BROWSER_REMOVE)) es @ notified c1" by blast
    with c1(1) sp(2) show ?thesis by (intro exI [of _ c'] exI [of _ es]) (auto simp: same_index_def fun_eq_iff)
  qed
qed

end
