(* ===== verification/Cache_Properties.thy ===== *)
theory Cache_Properties
  imports Cache_Clock
begin

text \<open>
  The properties of the cache: the states it can reach, what an update does, when entries are removed, and the
  passive observation of failure.
\<close>

section \<open>Reachable states\<close>

lemma hashmap_new_lookup: "avahi_hashmap_lookup (avahi_hashmap_new h eq kf vf) k = None"
  by (simp add: avahi_hashmap_lookup_def entry_get_def avahi_hashmap_new_def)

lemma cache_new_ok:
  assumes "teq_ok q" "elapse_events q = {}"
  shows "cache_ok (avahi_cache_new q n junk junk_rand)"
proof -
  have "idx_ok (avahi_hashmap_new key_hash_fun key_equal_fun False False) [] rec" for rec
    using hm_inv_new by (simp add: idx_ok_def chain_def hashmap_new_lookup) (simp add: avahi_hashmap_new_def)
  with assms show ?thesis
    by (simp add: cache_ok_def avahi_cache_new_def events_ok_def entry_events_def rand_ok_def)
qed

text \<open>
  What may happen to a cache: the operations that packets and the event loop cause, and changes of the queue that
  do not concern it.
\<close>

inductive cache_reachable ::
  "(AvahiKey \<Rightarrow> 'o event_callback AvahiTimeEventQueue \<Rightarrow> (bool \<times> 'o event_callback AvahiTimeEventQueue) option) \<Rightarrow>
   (AvahiKey \<Rightarrow> 'o event_callback AvahiTimeEventQueue \<Rightarrow> 'o event_callback AvahiTimeEventQueue option) \<Rightarrow>
   ('o \<Rightarrow> nat \<Rightarrow> 'o event_callback AvahiTimeEventQueue \<Rightarrow> 'o event_callback AvahiTimeEventQueue option) \<Rightarrow>
   'o AvahiCache \<Rightarrow> bool" for shall_refresh post_query other where
  start: "teq_ok q \<Longrightarrow> elapse_events q = {} \<Longrightarrow>
    cache_reachable shall_refresh post_query other (avahi_cache_new q n junk junk_rand)"
| update: "cache_reachable shall_refresh post_query other c \<Longrightarrow> clock_ok now rnd \<Longrightarrow> record_ok r \<Longrightarrow>
    \<not> avahi_key_is_pattern (rkey r) \<Longrightarrow> avahi_cache_update now rnd r flush a c = Some c' \<Longrightarrow>
    cache_reachable shall_refresh post_query other c'"
| start_poof: "cache_reachable shall_refresh post_query other c \<Longrightarrow> tv_norm now \<Longrightarrow> avahi_key_is_valid k \<Longrightarrow>
    avahi_cache_start_poof now k a c = Some c' \<Longrightarrow> cache_reachable shall_refresh post_query other c'"
| stop_poof: "cache_reachable shall_refresh post_query other c \<Longrightarrow> clock_ok now rnd \<Longrightarrow> record_ok r \<Longrightarrow>
    \<not> avahi_key_is_pattern (rkey r) \<Longrightarrow> avahi_cache_stop_poof now rnd r a c = Some c' \<Longrightarrow>
    cache_reachable shall_refresh post_query other c'"
| elapse: "cache_reachable shall_refresh post_query other c \<Longrightarrow> clock_ok now rnd \<Longrightarrow>
    cache_expiration shall_refresh post_query other now rnd c = Some c' \<Longrightarrow>
    cache_reachable shall_refresh post_query other c'"
| flush: "cache_reachable shall_refresh post_query other c \<Longrightarrow> avahi_cache_flush c = Some c' \<Longrightarrow>
    cache_reachable shall_refresh post_query other c'"
| elsewhere: "cache_reachable shall_refresh post_query other c \<Longrightarrow> teq_ok q \<Longrightarrow>
    elapse_events q = elapse_events (time_event_queue c) \<Longrightarrow>
    cache_reachable shall_refresh post_query other (c\<lparr>time_event_queue := q\<rparr>)"

lemma update_keeps_ok:
  assumes "cache_ok c" "clock_ok now rnd" "record_ok r" "\<not> avahi_key_is_pattern (rkey r)"
  shows "\<exists>c'. avahi_cache_update now rnd r flush a c = Some c' \<and> cache_ok c'"
  using goodbye_ok [OF assms, of flush a] update_ok [OF assms, of flush a] by (cases "ttl r = 0") blast+

lemma reachable_ok:
  assumes "cache_reachable shall_refresh post_query other c"
    and "\<forall>k. harmless (shall_refresh k)" "\<forall>k. harmless (\<lambda>q. map_option (Pair ()) (post_query k q))"
    and "\<forall>x ev. harmless (\<lambda>q. map_option (Pair ()) (other x ev q))"
  shows "cache_ok c"
  using assms(1)
proof (induction rule: cache_reachable.induct)
  case (start q n junk junk_rand)
  then show ?case by (rule cache_new_ok)
next
  case (update c now rnd r flush a c')
  then show ?case using update_keeps_ok by (metis option.inject)
next
  case (start_poof c now k a c')
  then show ?case using start_poof_ok by (metis option.inject)
next
  case (stop_poof c now rnd r a c')
  then show ?case using stop_poof_ok [of c now rnd r a] by auto
next
  case (elapse c now rnd c')
  then show ?case using expiration_ok [OF elapse.IH elapse.hyps(2) assms(2-4)] by auto
next
  case (flush c c')
  then show ?case using cache_flush_ok by (metis option.inject)
next
  case (elsewhere c q)
  then show ?case by (intro cache_ok_queue)
qed

lemma one_event:
  assumes "cache_ok c" "e \<in> set (cache_entries c)"
  shows "\<exists>!ev. ev \<in> events (time_event_queue c) \<and> callback (event (time_event_queue c) ev) = Elapse e"
    "\<exists>t. timeout (time_event_queue c) = Some t \<and> avahi_timeval_compare t (cache_expiry (entry c e)) \<le> 0"
proof -
  let ?q = "time_event_queue c"
  note ok = cache_okD [OF assms(1)]
  obtain ev where ev: "time_event (entry c e) = Some ev" "ev \<in> events ?q" "callback (event ?q ev) = Elapse e"
    "expiry (event ?q ev) = cache_expiry (entry c e)" using events_okD(3) [OF ok(4) assms(2)] by blast
  show "\<exists>!ev. ev \<in> events ?q \<and> callback (event ?q ev) = Elapse e"
  proof (rule ex1I [of _ ev])
    show "v = ev" if "v \<in> events ?q \<and> callback (event ?q v) = Elapse e" for v
      using that ev(1) events_okD(4) [OF ok(4), of v e] by simp
  qed (simp add: ev)
  obtain r where r: "root (prioq ?q) = Some r"
    using event_order.pq.first_exists [OF teq_pq [OF ok(9)]] ev(2) unfolding events_def by blast
  then have "timeout ?q = Some (expiry (event ?q r))" using ok(9) by (simp add: teq_ok_def)
  with first_expiry [OF teq_pq [OF ok(9)] r ev(2)] ev(4)
  show "\<exists>t. timeout ?q = Some t \<and> avahi_timeval_compare t (cache_expiry (entry c e)) \<le> 0" by simp
qed

section \<open>An example\<close>

definition example_now :: timeval where
  "example_now = \<lparr>tv_sec = 100, tv_usec = 0\<rparr>"

definition example_address :: AvahiAddress where
  "example_address = \<lparr>proto = AVAHI_PROTO_INET, adata = [CHR 0x0A, CHR 0x00, CHR 0x00, CHR 0x01]\<rparr>"

definition example_cache :: "unit AvahiCache" where
  "example_cache = avahi_cache_new (avahi_time_event_queue_new undefined) 10 undefined 0"

lemma example_queue:
  "teq_ok (avahi_time_event_queue_new undefined)" "events (avahi_time_event_queue_new undefined) = {}"
  using pq_ok_new(1)
  by (simp_all add: teq_ok_def events_def avahi_time_event_queue_new_def avahi_prio_queue_new_def)

lemma example_cache_ok: "cache_ok example_cache" "cache_reachable s p x example_cache" "clock_ok example_now 5"
proof -
  have "elapse_events (avahi_time_event_queue_new undefined) = {}" by (simp add: elapse_events_def example_queue)
  then show "cache_ok example_cache" "cache_reachable s p x example_cache"
    unfolding example_cache_def
    using cache_new_ok cache_reachable.start [of "avahi_time_event_queue_new undefined" s p x 10 undefined 0]
      example_queue(1) by blast+
qed (simp add: clock_ok_def example_now_def tv_norm_def)

lemma example_record: "record_ok example_a" "\<not> avahi_key_is_pattern (rkey example_a)" "ttl example_a \<noteq> 0"
  "avahi_key_is_valid (rkey example_a)"
  using example_a_ok by (simp_all add: record_ok_def example_a_def avahi_key_is_pattern_def)

lemma next_expiry_new_queue:
  "next_expiry now rnd e p c = Some c' \<Longrightarrow> time_event (entry c e) = None \<Longrightarrow>
   \<exists>t. avahi_time_event_new (fresh (events (time_event_queue c))) (Some t) (Elapse e) (time_event_queue c) =
     Some (time_event_queue c')"
  by (auto simp: next_expiry_def update_time_event_def Let_def split: bind_splits if_splits)

text \<open>The cache after one record has arrived.\<close>

lemma example_update:
  obtains c e where "avahi_cache_update example_now 5 example_a False example_address example_cache = Some c"
    "cache_ok c" "cache_entries c = [e]" "notified c = [(example_a, AVAHI_BROWSER_NEW)]"
    "fresh_entry example_now False example_address example_a (entry c e)" "only_elapse (time_event_queue c)"
proof -
  have empty: "cache_entries example_cache = []" "n_entries example_cache = 0" "n_cache_entries_max example_cache = 10"
    "notified example_cache = []" "hashmap example_cache = avahi_hashmap_new key_hash_fun key_equal_fun False False"
    "time_event_queue example_cache = avahi_time_event_queue_new undefined"
    by (simp_all add: example_cache_def avahi_cache_new_def)
  have "holder example_cache example_a = None" by (simp add: holder_def empty)
  with update_ok [OF example_cache_ok(1,3) example_record(1-3), of False example_address] obtain c e where
    c: "avahi_cache_update example_now 5 example_a False example_address example_cache = Some c" "cache_ok c"
    "cache_entries c = [e]" "notified c = [(example_a, AVAHI_BROWSER_NEW)]"
    "fresh_entry example_now False example_address example_a (entry c e)"
    by (auto simp: empty)
  obtain f c1 where new: "new_cache_entry example_a [] example_cache = (f, c1)" by fastforce
  have c1: "time_event (entry c1 f) = None" "time_event_queue c1 = avahi_time_event_queue_new undefined"
    using new by (auto simp: new_cache_entry_def Let_def notify_def empty)
  have "refresh_entry example_now 5 False example_address f c1 = Some c"
    using c(1) example_record(2,3)
    by (simp add: avahi_cache_update_def lookup_key_def empty hashmap_new_lookup new)
  then obtain c2 c3 where "next_expiry example_now 5 f 80 c2 = Some c3" "time_event (entry c2 f) = None"
    "time_event_queue c2 = avahi_time_event_queue_new undefined" "time_event_queue c = time_event_queue c3"
    using c1 by (auto simp: refresh_entry_def Let_def split: bind_splits)
  with next_expiry_new_queue obtain t ev where
    t: "avahi_time_event_new ev (Some t) (Elapse f) (avahi_time_event_queue_new undefined) = Some (time_event_queue c)"
    by metis
  let ?q = "avahi_time_event_queue_new undefined :: unit event_callback AvahiTimeEventQueue"
  have new: "ev \<notin> events ?q" by (simp add: example_queue(2))
  obtain q where "avahi_time_event_new ev (Some t) (Elapse f) ?q = Some q" "events q = insert ev (events ?q)"
    "callback (event q ev) = Elapse f"
    by (rule event_new_ok [OF example_queue(1) new, of "Some t" "Elapse f"]) (use that in simp)
  with t have "only_elapse (time_event_queue c)" by (simp add: only_elapse_def example_queue(2))
  with c that show ?thesis by blast
qed

lemma quiet_harmless:
  "\<forall>k. harmless (\<lambda>q. Some (b, q))" "\<forall>k. harmless (\<lambda>q. map_option (Pair ()) (Some q))"
  "\<forall>x ev. harmless (\<lambda>q. map_option (Pair ()) (Some q))"
  by (simp_all add: harmless_def)

section \<open>Properties\<close>

text \<open>C1. Whatever packets arrive and whenever the event loop runs, the cache stays in order, provided that the
  other users of the queue of time events leave its events alone: no operation fails an assertion; the number of
  entries is kept and within the limit; no record is held twice; the hash table gives for every key the
  entries with an equal key; every entry has exactly one event, that will call \<open>elapse_func\<close> for it, and no event
  refers to an entry that was removed; and the timeout of the event loop is armed in time for every entry.\<close>

theorem cache_invariant:
  assumes "cache_reachable shall_refresh post_query other c"
    and "\<forall>k. harmless (shall_refresh k)" "\<forall>k. harmless (\<lambda>q. map_option (Pair ()) (post_query k q))"
    and "\<forall>x ev. harmless (\<lambda>q. map_option (Pair ()) (other x ev q))"
    and "clock_ok now rnd" "record_ok r" "\<not> avahi_key_is_pattern (rkey r)" "avahi_key_is_valid k"
  shows "avahi_cache_update now rnd r flush a c \<noteq> None \<and> avahi_cache_start_poof now k a c \<noteq> None \<and>
    avahi_cache_stop_poof now rnd r a c \<noteq> None \<and>
    cache_expiration shall_refresh post_query other now rnd c \<noteq> None \<and> avahi_cache_free c \<noteq> None \<and>
    n_entries c = length (cache_entries c) \<and> distinct (cache_entries c) \<and> n_entries c \<le> n_cache_entries_max c \<and>
    (\<forall>e \<in> set (cache_entries c). \<forall>f \<in> set (cache_entries c).
       same (cache_record (entry c e)) (cache_record (entry c f)) \<longrightarrow> e = f) \<and>
    (\<not> avahi_key_is_pattern k \<longrightarrow>
       lookup_key c k = Some (filter (\<lambda>e. key_equal_fun k (ckey c e)) (cache_entries c))) \<and>
    (\<forall>e \<in> set (cache_entries c).
       (\<exists>!ev. ev \<in> events (time_event_queue c) \<and> callback (event (time_event_queue c) ev) = Elapse e) \<and>
       (\<exists>t. timeout (time_event_queue c) = Some t \<and> avahi_timeval_compare t (cache_expiry (entry c e)) \<le> 0)) \<and>
    (\<forall>ev \<in> events (time_event_queue c). \<forall>e. callback (event (time_event_queue c) ev) = Elapse e \<longrightarrow>
       e \<in> set (cache_entries c))"
proof -
  note ok = reachable_ok [OF assms(1-4)]
  have tv: "tv_norm now" by (rule clock_okD(1) [OF assms(5)])
  have "avahi_cache_update now rnd r flush a c \<noteq> None" using update_keeps_ok [OF ok assms(5-7)] by auto
  moreover have "avahi_cache_start_poof now k a c \<noteq> None" using start_poof_ok [OF ok assms(8) tv] by auto
  moreover have "avahi_cache_stop_poof now rnd r a c \<noteq> None" using stop_poof_ok [OF ok assms(5-7)] by auto
  moreover have "cache_expiration shall_refresh post_query other now rnd c \<noteq> None"
    using expiration_ok [OF ok assms(5,2-4)] by auto
  moreover have "avahi_cache_free c \<noteq> None"
    using cache_flush_ok [OF ok] by (auto simp: avahi_cache_free_def dest: cache_okD(2))
  moreover have "\<not> avahi_key_is_pattern k \<longrightarrow>
       lookup_key c k = Some (filter (\<lambda>e. key_equal_fun k (ckey c e)) (cache_entries c))"
    using lookup_key_ok [OF ok assms(8)] by (simp add: rec_chain_def chain_def)
  ultimately show ?thesis
    using cache_okD(2,3,7) [OF ok] idx_okD(7) [OF cache_okD(1) [OF ok]] one_event [OF ok]
      events_okD(4) [OF cache_okD(4) [OF ok]]
    by (intro conjI ballI allI impI) blast+
qed

theorem cache_invariant_witness:
  "avahi_cache_update example_now 5 example_a False example_address example_cache \<noteq> None \<and>
   cache_expiration (\<lambda>k q. Some (True, q)) (\<lambda>k q. Some q) (\<lambda>x ev q. Some q) example_now 5 example_cache \<noteq> None"
  using cache_invariant [where flush = False and a = example_address,
      OF example_cache_ok(2) quiet_harmless(1) [of True] quiet_harmless(2,3) example_cache_ok(3) example_record(1,2,4)] by blast

text \<open>C13. What a record that arrives does to the cache. With a TTL of zero the entry that holds it, if there is one, will
  be removed in one second, and nothing else changes. Otherwise the entry is refreshed, or created at the front
  and announced when there is room: it holds this very record, is valid, and will be looked at after 80 to 82
  percent of its TTL. With the cache flush bit, the other entries of the same key that are older than one second
  will be removed in one second, and all other entries stay as they are.\<close>

theorem cache_update_result:
  assumes "cache_ok c" "clock_ok now rnd" "record_ok r" "\<not> avahi_key_is_pattern (rkey r)"
  shows "\<exists>c'. avahi_cache_update now rnd r flush a c = Some c' \<and> cache_ok c' \<and>
    (if ttl r = 0 then
       cache_entries c' = cache_entries c \<and> notified c' = notified c \<and>
       (case holder c r of
          None \<Rightarrow> entry c' = entry c
        | Some e \<Rightarrow> entry c' = (entry c)(e := (entry c e)\<lparr>state := AVAHI_CACHE_GOODBYE_FINAL,
            cache_expiry := avahi_timeval_add now 1000000\<rparr>))
     else
       (case holder c r of
          Some e \<Rightarrow>
            cache_entries c' = cache_entries c \<and> notified c' = notified c \<and> fresh_entry now flush a r (entry c' e) \<and>
            (\<forall>f. f \<noteq> e \<longrightarrow> entry c' f = after_flush now flush (rkey r) c f)
        | None \<Rightarrow>
            if n_entries c \<ge> n_cache_entries_max c then
              cache_entries c' = cache_entries c \<and> notified c' = notified c \<and>
              entry c' = after_flush now flush (rkey r) c
            else \<exists>e. e \<notin> set (cache_entries c) \<and> cache_entries c' = e # cache_entries c \<and>
              notified c' = (r, AVAHI_BROWSER_NEW) # notified c \<and> fresh_entry now flush a r (entry c' e) \<and>
              (\<forall>f. f \<noteq> e \<longrightarrow> entry c' f = after_flush now flush (rkey r) c f)))"
proof (cases "ttl r = 0")
  case True
  from goodbye_ok [OF assms True, of flush a] obtain c' where
    "avahi_cache_update now rnd r flush a c = Some c'" "cache_ok c'" "same_index c c'"
    "case holder c r of None \<Rightarrow> c' = c
     | Some e \<Rightarrow> entry c' = (entry c)(e := (entry c e)\<lparr>state := AVAHI_CACHE_GOODBYE_FINAL,
         cache_expiry := avahi_timeval_add now 1000000\<rparr>)" by blast
  with True show ?thesis by (intro exI [of _ c']) (auto simp: same_index_def split: option.splits)
next
  case False
  then show ?thesis unfolding if_not_P [OF False] by (rule update_ok [OF assms])
qed

theorem cache_update_result_witness:
  "\<exists>c' e. avahi_cache_update example_now 5 example_a False example_address example_cache = Some c' \<and>
     cache_entries c' = [e] \<and> notified c' = [(example_a, AVAHI_BROWSER_NEW)]"
  using cache_update_result [OF example_cache_ok(1,3) example_record(1,2), of False example_address] example_record(3)
  by (auto simp: holder_def example_cache_def avahi_cache_new_def)

text \<open>C16. Every entry expires: when nothing refreshes the entries and no other events are in the queue, then at a time
  when their TTLs with all jitter have passed, the expirations that the entries still wait for (five for a
  valid one) remove all of them and announce each removal exactly once, whether or not somebody is subscribed.\<close>

theorem cache_expires:
  assumes "cache_ok c" "clock_ok now rnd" "only_elapse (time_event_queue c)"
    "\<forall>e \<in> set (cache_entries c). overdue now (entry c e)"
  shows "\<exists>c' es. expire_all (sum_list (map (\<lambda>e. stages (state (entry c e))) (cache_entries c))) subscribed now rnd c = Some c' \<and>
    cache_entries c' = [] \<and> mset es = mset (cache_entries c) \<and>
    notified c' = map (\<lambda>e. (cache_record (entry c e), AVAHI_BROWSER_REMOVE)) es @ notified c"
  using expire_all_ok [OF assms refl] by blast

theorem cache_expires_witness:
  "\<exists>c c'. avahi_cache_update example_now 5 example_a False example_address example_cache = Some c \<and>
     expire_all 5 (\<lambda>k. True) \<lparr>tv_sec = 223, tv_usec = 0\<rparr> 7 c = Some c' \<and> cache_entries c' = [] \<and>
     notified c' = [(example_a, AVAHI_BROWSER_REMOVE), (example_a, AVAHI_BROWSER_NEW)]"
proof (rule example_update)
  fix c e
  assume c: "avahi_cache_update example_now 5 example_a False example_address example_cache = Some c" "cache_ok c"
    "cache_entries c = [e]" "notified c = [(example_a, AVAHI_BROWSER_NEW)]"
    "fresh_entry example_now False example_address example_a (entry c e)" "only_elapse (time_event_queue c)"
  have e: "cache_record (entry c e) = example_a" "state (entry c e) = AVAHI_CACHE_VALID"
    "cache_timestamp (entry c e) = example_now" "at_percent (entry c e) 80" using c(5) by (simp_all add: fresh_entry_def)
  then have "overdue \<lparr>tv_sec = 223, tv_usec = 0\<rparr> (entry c e)"
    by (simp add: overdue_def at_percent_def ttl_usec_def usecs_def example_now_def example_a_def)
  with cache_expires [OF c(2) _ c(6), of "\<lparr>tv_sec = 223, tv_usec = 0\<rparr>" 7 "\<lambda>k. True"] c(1,3,4) e
  show ?thesis by (auto simp: clock_ok_def tv_norm_def)
qed

section \<open>Passive observation of failure\<close>

text \<open>Queries for a key at the given times, none of which is answered.\<close>

primrec unanswered :: "timeval list \<Rightarrow> AvahiKey \<Rightarrow> AvahiAddress \<Rightarrow> 'o AvahiCache \<Rightarrow> 'o AvahiCache option" where
  "unanswered [] k a c = Some c"
| "unanswered (t # ts) k a c = do { c \<leftarrow> avahi_cache_start_poof t k a c; unanswered ts k a c }"

lemma matching_same_index: "same_index c c' \<Longrightarrow> matching c' k = matching c k"
  by (simp add: matching_def rec_chain_def same_index_def fun_eq_iff)

lemma unanswered_ok:
  assumes "cache_ok c" "avahi_key_is_valid k" "\<forall>t \<in> set ts. tv_norm t"
  shows "\<exists>c'. unanswered ts k a c = Some c' \<and> cache_ok c' \<and> same_index c c' \<and>
    entry c' = (\<lambda>e. if e \<in> set (matching c k) then fold (\<lambda>t. poof_step t a) ts (entry c e) else entry c e)"
  using assms(1,3)
proof (induction ts arbitrary: c)
  case (Cons t ts)
  from start_poof_ok [OF Cons.prems(1) assms(2), of t a] Cons.prems(2) obtain c1 where
    c1: "avahi_cache_start_poof t k a c = Some c1" "cache_ok c1" "same_index c c1"
    "entry c1 = (\<lambda>e. if e \<in> set (matching c k) then poof_step t a (entry c e) else entry c e)" by auto
  from Cons.IH [OF c1(2)] Cons.prems(2) obtain c2 where c2: "unanswered ts k a c1 = Some c2" "cache_ok c2" "same_index c1 c2"
    "entry c2 = (\<lambda>e. if e \<in> set (matching c1 k) then fold (\<lambda>t. poof_step t a) ts (entry c1 e) else entry c1 e)" by auto
  with c1 show ?case
    using same_index_trans [OF c1(3) c2(3)] by (auto simp: matching_same_index [OF c1(3)] fun_eq_iff)
qed (simp add: fun_eq_iff)

lemma poof_steps:
  assumes "state x = AVAHI_CACHE_VALID" "successively (\<lambda>s t. avahi_timeval_diff t s \<ge> 1000000) ts"
  shows "let y = fold (\<lambda>t. poof_step t a) ts x in
    (ts = [] \<longrightarrow> y = x) \<and>
    (0 < length ts \<and> length ts < 5 \<longrightarrow> state y = AVAHI_CACHE_POOF \<and> cache_expiry y = cache_expiry x \<and>
       poof_num y = int (length ts) - 1 \<and> poof_timestamp y = last ts) \<and>
    (5 \<le> length ts \<longrightarrow> state y = AVAHI_CACHE_POOF_FINAL \<and> cache_expiry y = avahi_timeval_add (ts ! 4) 1000000)"
  using assms(2)
proof (induction ts rule: rev_induct)
  case (snoc t ts)
  define y where "y = fold (\<lambda>t. poof_step t a) ts x"
  have step: "fold (\<lambda>t. poof_step t a) (ts @ [t]) x = poof_step t a y" by (simp add: y_def)
  have ih: "(ts = [] \<longrightarrow> y = x) \<and>
    (0 < length ts \<and> length ts < 5 \<longrightarrow> state y = AVAHI_CACHE_POOF \<and> cache_expiry y = cache_expiry x \<and>
       poof_num y = int (length ts) - 1 \<and> poof_timestamp y = last ts) \<and>
    (5 \<le> length ts \<longrightarrow> state y = AVAHI_CACHE_POOF_FINAL \<and> cache_expiry y = avahi_timeval_add (ts ! 4) 1000000)"
    using snoc by (simp add: successively_append_iff Let_def y_def)
  have gap: "ts \<noteq> [] \<Longrightarrow> avahi_timeval_diff t (last ts) \<ge> 1000000"
    using snoc.prems by (simp add: successively_append_iff)
  consider "ts = []" | "ts \<noteq> []" "length ts < 4" | "length ts = 4" | "5 \<le> length ts" by fastforce
  then show ?case
  proof cases
    case 1
    then show ?thesis unfolding step using assms(1) ih by (simp add: poof_step_def)
  next
    case 2
    then show ?thesis unfolding step using ih gap by (simp add: poof_step_def Let_def)
  next
    case 3
    then have "ts \<noteq> []" by auto
    with 3 show ?thesis unfolding step using ih gap by (simp add: poof_step_def Let_def nth_append)
  next
    case 4
    then show ?thesis unfolding step using ih by (simp add: poof_step_def Let_def nth_append)
  qed
qed simp

text \<open>C24. Queries for a key that go unanswered, each at least a second after the one before, lead a valid entry of the key
  to its end, but not before the fifth: until then it stays on trial with its expiry as it was, and after the
  fifth it will be removed in one second. Entries of other keys, and those that are neither valid nor
  on trial, are not affected.\<close>

theorem poof_five_queries:
  assumes "cache_ok c" "avahi_key_is_valid k" "\<forall>t \<in> set ts. tv_norm t"
    and "successively (\<lambda>s t. avahi_timeval_diff t s \<ge> 1000000) ts"
  shows "\<exists>c'. unanswered ts k a c = Some c' \<and> cache_ok c' \<and> cache_entries c' = cache_entries c \<and>
    (\<forall>e. e \<notin> set (matching c k) \<longrightarrow> entry c' e = entry c e) \<and>
    (\<forall>e \<in> set (matching c k). state (entry c e) \<notin> {AVAHI_CACHE_VALID, AVAHI_CACHE_POOF} \<longrightarrow> entry c' e = entry c e) \<and>
    (\<forall>e \<in> set (matching c k). state (entry c e) = AVAHI_CACHE_VALID \<longrightarrow>
       (if length ts < 5 then
          cache_expiry (entry c' e) = cache_expiry (entry c e) \<and>
          state (entry c' e) = (if ts = [] then AVAHI_CACHE_VALID else AVAHI_CACHE_POOF)
        else
          cache_expiry (entry c' e) = avahi_timeval_add (ts ! 4) 1000000 \<and>
          state (entry c' e) = AVAHI_CACHE_POOF_FINAL))"
proof -
  obtain c' where c': "unanswered ts k a c = Some c'" "cache_ok c'" "same_index c c'"
    "entry c' = (\<lambda>e. if e \<in> set (matching c k) then fold (\<lambda>t. poof_step t a) ts (entry c e) else entry c e)"
    using unanswered_ok [OF assms(1-3)] by blast
  have other: "fold (\<lambda>t. poof_step t a) ts x = x" if "state x \<notin> {AVAHI_CACHE_VALID, AVAHI_CACHE_POOF}" for x
    using that by (induction ts) (simp_all add: poof_step_def)
  have valid: "if length ts < 5 then
        cache_expiry (entry c' e) = cache_expiry (entry c e) \<and>
        state (entry c' e) = (if ts = [] then AVAHI_CACHE_VALID else AVAHI_CACHE_POOF)
      else cache_expiry (entry c' e) = avahi_timeval_add (ts ! 4) 1000000 \<and> state (entry c' e) = AVAHI_CACHE_POOF_FINAL"
    if "e \<in> set (matching c k)" "state (entry c e) = AVAHI_CACHE_VALID" for e
    using poof_steps [OF that(2) assms(4), of a] that by (cases "ts = []") (auto simp: c'(4) Let_def)
  show ?thesis
  proof (intro exI [of _ c'] conjI allI ballI impI)
    show "entry c' e = entry c e" if "e \<notin> set (matching c k)" for e using that by (simp add: c'(4))
    show "entry c' e = entry c e"
      if "e \<in> set (matching c k)" "state (entry c e) \<notin> {AVAHI_CACHE_VALID, AVAHI_CACHE_POOF}" for e
      using other [OF that(2)] that(1) by (simp add: c'(4))
  qed (use c'(1-3) valid in \<open>simp_all add: same_index_def\<close>)
qed


theorem poof_five_queries_witness:
  "\<exists>c c' e. avahi_cache_update example_now 5 example_a False example_address example_cache = Some c \<and>
     unanswered (map (\<lambda>s. \<lparr>tv_sec = s, tv_usec = 0\<rparr>) [101, 103, 105, 107, 109]) (rkey example_a) example_address c = Some c' \<and>
     cache_entries c' = [e] \<and> state (entry c' e) = AVAHI_CACHE_POOF_FINAL"
proof (rule example_update)
  fix c e
  assume c: "avahi_cache_update example_now 5 example_a False example_address example_cache = Some c" "cache_ok c"
    "cache_entries c = [e]" "fresh_entry example_now False example_address example_a (entry c e)"
  then have e: "cache_record (entry c e) = example_a" "state (entry c e) = AVAHI_CACHE_VALID" by (simp_all add: fresh_entry_def)
  then have "e \<in> set (matching c (rkey example_a))"
    using example_record(2) key_table.equal_refl [OF example_record(4)]
    by (simp add: matching_def rec_chain_def chain_def c(3))
  with poof_five_queries [OF c(2) example_record(4),
      of "map (\<lambda>s. \<lparr>tv_sec = s, tv_usec = 0\<rparr>) [101, 103, 105, 107, 109]" example_address] c(1,3) e
  show ?thesis by (auto simp: tv_norm_def avahi_timeval_diff_usecs usecs_def)
qed
end
