(* ===== verification/Cache_Causes.thy ===== *)
theory Cache_Causes
  imports Cache_Properties "HOL-Library.Sublist"
begin

text \<open>
  Why the cache removes an entry: every removal is traced back to what has happened to the cache, to the record or
  the goodbye that arrived last, to a cache flush, or to queries that were not answered.
\<close>

section \<open>What has happened\<close>

text \<open>A record that has arrived, with its cache flush bit, and a query that was seen; the history has the latest event first.\<close>

datatype cache_event = Arrived timeval AvahiRecord bool | Unanswered timeval AvahiKey

text \<open>When, with which TTL and cache flush bit a record was heard last.\<close>

fun last_heard :: "AvahiRecord \<Rightarrow> cache_event list \<Rightarrow> (timeval \<times> AvahiRecord \<times> bool) option" where
  "last_heard r [] = None"
| "last_heard r (Arrived t r' f # tr) = (if same r r' then Some (t, r', f) else last_heard r tr)"
| "last_heard r (Unanswered t k # tr) = last_heard r tr"

definition asked_for :: "AvahiKey \<Rightarrow> AvahiRecord \<Rightarrow> bool" where
  "asked_for k r =
     (if avahi_key_is_pattern k then avahi_key_pattern_match k (rkey r) = Some True else key_equal_fun k (rkey r))"

text \<open>The times of the queries for a record since it was heard last.\<close>

fun failures :: "AvahiRecord \<Rightarrow> cache_event list \<Rightarrow> timeval list" where
  "failures r [] = []"
| "failures r (Arrived t r' f # tr) = (if same r r' then [] else failures r tr)"
| "failures r (Unanswered t k # tr) = (if asked_for k r then t # failures r tr else failures r tr)"

text \<open>The operations of \<^const>\<open>cache_reachable\<close>, with the history.\<close>

inductive cache_history ::
  "(AvahiKey \<Rightarrow> 'o event_callback AvahiTimeEventQueue \<Rightarrow> (bool \<times> 'o event_callback AvahiTimeEventQueue) option) \<Rightarrow>
   (AvahiKey \<Rightarrow> 'o event_callback AvahiTimeEventQueue \<Rightarrow> 'o event_callback AvahiTimeEventQueue option) \<Rightarrow>
   ('o \<Rightarrow> nat \<Rightarrow> 'o event_callback AvahiTimeEventQueue \<Rightarrow> 'o event_callback AvahiTimeEventQueue option) \<Rightarrow>
   cache_event list \<Rightarrow> 'o AvahiCache \<Rightarrow> bool" for shall_refresh post_query other where
  start: "teq_ok q \<Longrightarrow> elapse_events q = {} \<Longrightarrow>
    cache_history shall_refresh post_query other [] (avahi_cache_new q n junk junk_rand)"
| update: "cache_history shall_refresh post_query other tr c \<Longrightarrow> clock_ok now rnd \<Longrightarrow> record_ok r \<Longrightarrow>
    \<not> avahi_key_is_pattern (rkey r) \<Longrightarrow> avahi_cache_update now rnd r flush a c = Some c' \<Longrightarrow>
    cache_history shall_refresh post_query other (Arrived now r flush # tr) c'"
| start_poof: "cache_history shall_refresh post_query other tr c \<Longrightarrow> tv_norm now \<Longrightarrow> avahi_key_is_valid k \<Longrightarrow>
    avahi_cache_start_poof now k a c = Some c' \<Longrightarrow>
    cache_history shall_refresh post_query other (Unanswered now k # tr) c'"
| stop_poof: "cache_history shall_refresh post_query other tr c \<Longrightarrow> clock_ok now rnd \<Longrightarrow> record_ok r \<Longrightarrow>
    \<not> avahi_key_is_pattern (rkey r) \<Longrightarrow> avahi_cache_stop_poof now rnd r a c = Some c' \<Longrightarrow>
    cache_history shall_refresh post_query other tr c'"
| elapse: "cache_history shall_refresh post_query other tr c \<Longrightarrow> clock_ok now rnd \<Longrightarrow>
    cache_expiration shall_refresh post_query other now rnd c = Some c' \<Longrightarrow>
    cache_history shall_refresh post_query other tr c'"
| flush: "cache_history shall_refresh post_query other tr c \<Longrightarrow> avahi_cache_flush c = Some c' \<Longrightarrow>
    cache_history shall_refresh post_query other tr c'"
| elsewhere: "cache_history shall_refresh post_query other tr c \<Longrightarrow> teq_ok q \<Longrightarrow>
    elapse_events q = elapse_events (time_event_queue c) \<Longrightarrow>
    cache_history shall_refresh post_query other tr (c\<lparr>time_event_queue := q\<rparr>)"

lemma history_reachable:
  "cache_history shall_refresh post_query other tr c \<Longrightarrow> cache_reachable shall_refresh post_query other c"
  by (induction rule: cache_history.induct) (blast intro: cache_reachable.intros)+

section \<open>The cause of a state\<close>

definition current :: "cache_event list \<Rightarrow> AvahiCacheEntry \<Rightarrow> bool" where
  "current tr x = (\<exists>f. last_heard (cache_record x) tr = Some (cache_timestamp x, cache_record x, f))"

definition said_goodbye :: "cache_event list \<Rightarrow> AvahiCacheEntry \<Rightarrow> bool" where
  "said_goodbye tr x =
     (\<exists>t r f. last_heard (cache_record x) tr = Some (t, r, f) \<and> ttl r = 0 \<and> cache_expiry x = avahi_timeval_add t 1000000)"

definition flushed_away :: "cache_event list \<Rightarrow> AvahiCacheEntry \<Rightarrow> bool" where
  "flushed_away tr x =
     (\<exists>t r. Arrived t r True \<in> set tr \<and> ttl r \<noteq> 0 \<and> key_equal_fun (rkey r) (rkey (cache_record x)) \<and>
        \<not> same (cache_record x) r \<and> avahi_timeval_diff t (cache_timestamp x) > 1000000 \<and>
        cache_expiry x = avahi_timeval_add t 1000000)"

text \<open>At least \<open>n\<close> queries since the record was heard, each a second after the one before, were not answered.\<close>

definition silent :: "nat \<Rightarrow> timeval list \<Rightarrow> cache_event list \<Rightarrow> AvahiRecord \<Rightarrow> bool" where
  "silent n ts tr r =
     (subseq ts (failures r tr) \<and> n \<le> length ts \<and> successively (\<lambda>s t. avahi_timeval_diff s t \<ge> 1000000) ts)"

definition explained :: "cache_event list \<Rightarrow> AvahiCacheEntry \<Rightarrow> bool" where
  "explained tr x =
     (case state x of
        AVAHI_CACHE_GOODBYE_FINAL \<Rightarrow> said_goodbye tr x
      | AVAHI_CACHE_REPLACE_FINAL \<Rightarrow> flushed_away tr x
      | AVAHI_CACHE_POOF \<Rightarrow> current tr x \<and> 0 \<le> poof_num x \<and>
          (\<exists>ts. silent (nat (poof_num x) + 1) ts tr (cache_record x) \<and> hd ts = poof_timestamp x)
      | AVAHI_CACHE_POOF_FINAL \<Rightarrow> current tr x \<and>
          (\<exists>ts. silent 5 ts tr (cache_record x) \<and> cache_expiry x = avahi_timeval_add (hd ts) 1000000)
      | _ \<Rightarrow> current tr x)"

text \<open>Events that are not about an entry leave its cause as it is.\<close>

definition unheard :: "AvahiRecord \<Rightarrow> cache_event \<Rightarrow> bool" where
  "unheard r ev = (\<forall>t r' f. ev = Arrived t r' f \<longrightarrow> \<not> same r r')"

lemma unheard_heard: "unheard r ev \<Longrightarrow> last_heard r (ev # tr) = last_heard r tr"
  by (cases ev) (simp_all add: unheard_def)

lemma unheard_failures: "unheard r ev \<Longrightarrow> subseq (failures r tr) (failures r (ev # tr))"
  by (cases ev) (auto simp: unheard_def)

lemma silent_unheard: "silent n ts tr r \<Longrightarrow> unheard r ev \<Longrightarrow> silent n ts (ev # tr) r"
  unfolding silent_def using unheard_failures subseq_order.trans by blast

lemma current_unheard: "current tr x \<Longrightarrow> unheard (cache_record x) ev \<Longrightarrow> current (ev # tr) x"
  by (simp add: current_def unheard_heard)

lemma explained_unheard:
  assumes "explained tr x" "unheard (cache_record x) ev"
  shows "explained (ev # tr) x"
proof -
  have "said_goodbye tr x \<Longrightarrow> said_goodbye (ev # tr) x" using assms(2) by (simp add: said_goodbye_def unheard_heard)
  moreover have "flushed_away tr x \<Longrightarrow> flushed_away (ev # tr) x" by (auto simp: flushed_away_def)
  ultimately show ?thesis
    using assms current_unheard silent_unheard unfolding explained_def
    by (cases "state x") (simp_all, blast+)
qed

lemma unheard_unanswered [simp]: "unheard r (Unanswered t k)"
  by (simp add: unheard_def)

lemma explained_fresh:
  assumes "fresh_entry now flush a r x" "record_ok r"
  shows "explained (Arrived now r flush # tr) x"
proof -
  have "same r r" using record_equal_total(3) [OF assms(2,2)] .
  with assms(1) show ?thesis by (simp add: fresh_entry_def explained_def current_def)
qed

lemma explained_replaced:
  assumes "explained tr x" "\<not> same (cache_record x) r" "key_equal_fun (rkey r) (rkey (cache_record x))" "ttl r \<noteq> 0"
  shows "explained (Arrived now r True # tr) (replaced now x)"
proof (cases "avahi_timeval_diff now (cache_timestamp x) > 1000000")
  case True
  with assms(2-4) show ?thesis by (auto simp: replaced_def explained_def flushed_away_def)
next
  case False
  with explained_unheard [OF assms(1), of "Arrived now r True"] assms(2) show ?thesis
    by (simp add: replaced_def unheard_def)
qed

lemma explained_goodbye:
  assumes "same (cache_record x) r" "ttl r = 0"
  shows "explained (Arrived now r flush # tr)
    (x\<lparr>state := AVAHI_CACHE_GOODBYE_FINAL, cache_expiry := avahi_timeval_add now 1000000\<rparr>)"
  using assms by (simp add: explained_def said_goodbye_def)

lemma current_cong:
  "cache_record y = cache_record x \<Longrightarrow> cache_timestamp y = cache_timestamp x \<Longrightarrow> current tr y = current tr x"
  by (simp add: current_def)

lemma explained_current:
  assumes "explained tr x" "next_stage (state x) \<noteq> None \<or> state x = AVAHI_CACHE_POOF_FINAL"
  shows "current tr x"
  using assms by (cases "state x") (simp_all add: explained_def)

lemma explained_stage:
  assumes "explained tr x" "next_stage (state x) = Some (st, p)"
  shows "explained tr (x\<lparr>state := st, cache_expiry := t\<rparr>)"
proof -
  have "current tr (x\<lparr>state := st, cache_expiry := t\<rparr>)"
    using explained_current [OF assms(1)] assms(2) by (simp add: current_def)
  with assms(2) show ?thesis by (cases "state x") (auto simp: explained_def)
qed

lemma explained_stop:
  assumes "explained tr x" "state x \<in> {AVAHI_CACHE_POOF, AVAHI_CACHE_POOF_FINAL}"
  shows "explained tr (x\<lparr>state := AVAHI_CACHE_VALID, cache_expiry := t\<rparr>)"
  using explained_current [OF assms(1)] assms(2) by (auto simp: explained_def current_def)

lemma explained_poof:
  assumes "explained tr x" "asked_for k (cache_record x)"
  shows "explained (Unanswered now k # tr) (poof_step now a x)"
proof -
  let ?tr = "Unanswered now k # tr"
  have cur: "current ?tr y" if "current tr x" "cache_record y = cache_record x" "cache_timestamp y = cache_timestamp x" for y
    using that by (simp add: current_def)
  consider (first) "state x = AVAHI_CACHE_VALID"
    | (next_one) "state x = AVAHI_CACHE_POOF" "avahi_timeval_diff now (poof_timestamp x) \<ge> 1000000"
    | (other) "poof_step now a x = x"
    using that unfolding poof_step_def
    by (cases "state x = AVAHI_CACHE_VALID"; cases "state x = AVAHI_CACHE_POOF \<and> 1000000 \<le> avahi_timeval_diff now (poof_timestamp x)") simp_all
  then show ?thesis
  proof cases
    case first
    have "silent 1 [now] ?tr (cache_record x)" by (simp add: silent_def assms(2))
    with first cur explained_current [OF assms(1)] show ?thesis
      by (auto simp: poof_step_def explained_def intro!: exI [of _ "[now]"])
  next
    case next_one
    then obtain ts where ts: "current tr x" "0 \<le> poof_num x" "silent (nat (poof_num x) + 1) ts tr (cache_record x)"
      "hd ts = poof_timestamp x" using assms(1) by (auto simp: explained_def)
    then have more: "silent (nat (poof_num x) + 2) (now # ts) ?tr (cache_record x)"
      using next_one(2) by (cases ts) (auto simp: silent_def assms(2))
    show ?thesis
    proof (cases "poof_num x \<ge> 3")
      case True
      then have "3 \<le> nat (poof_num x)" by linarith
      with more have "silent 5 (now # ts) ?tr (cache_record x)" by (auto simp: silent_def)
      with True next_one ts(1) cur show ?thesis
        by (auto simp: poof_step_def explained_def Let_def intro!: exI [of _ "now # ts"])
    next
      case False
      have "nat (poof_num x + 1) + 1 = nat (poof_num x) + 2" using ts(2) by simp
      with False next_one ts(1,2) cur more show ?thesis
        by (auto simp: poof_step_def explained_def Let_def intro!: exI [of _ "now # ts"])
    qed
  next
    case other
    with explained_unheard [OF assms(1)] show ?thesis by simp
  qed
qed

section \<open>Every entry has a cause\<close>

lemma explained_update:
  assumes "cache_ok c" "clock_ok now rnd" "record_ok r" "\<not> avahi_key_is_pattern (rkey r)"
    and "avahi_cache_update now rnd r flush a c = Some c'" "\<forall>e \<in> set (cache_entries c). explained tr (entry c e)"
    and "e \<in> set (cache_entries c')"
  shows "explained (Arrived now r flush # tr) (entry c' e)"
proof -
  let ?ev = "Arrived now r flush"
  have other: "\<not> same (cache_record (entry c f)) r" if "f \<in> set (cache_entries c)" "holder c r \<noteq> Some f" for f
    using holder_iff [OF assms(1,3), of f] that by blast
  have stays: "explained (?ev # tr) (entry c f)" if "f \<in> set (cache_entries c)" "holder c r \<noteq> Some f" for f
    using assms(6) that other [OF that] by (intro explained_unheard) (simp_all add: unheard_def)
  show ?thesis
  proof (cases "ttl r = 0")
    case True
    from goodbye_ok [OF assms(1-4) True, of flush a] assms(5) have c': "same_index c c'"
      "case holder c r of None \<Rightarrow> c' = c
       | Some e \<Rightarrow> entry c' = (entry c)(e := (entry c e)\<lparr>state := AVAHI_CACHE_GOODBYE_FINAL,
           cache_expiry := avahi_timeval_add now 1000000\<rparr>)" by auto
    then have e: "e \<in> set (cache_entries c)" using assms(7) by (simp add: same_index_def)
    show ?thesis
    proof (cases "holder c r = Some e")
      case holds: True
      then have "same (cache_record (entry c e)) r" by (rule holder_Some(2))
      from explained_goodbye [OF this True] c'(2) holds show ?thesis by simp
    next
      case False
      then have "entry c' e = entry c e" using c'(2) by (auto split: option.splits)
      with stays [OF e False] show ?thesis by simp
    qed
  next
    case False
    have kept: "explained (?ev # tr) (after_flush now flush (rkey r) c f)"
      if "f \<in> set (cache_entries c)" "holder c r \<noteq> Some f" for f
    proof (cases "flush \<and> f \<in> set (rec_chain c (rkey r))")
      case True
      then have "key_equal_fun (rkey r) (ckey c f)" by (simp add: rec_chain_def chain_def)
      with explained_replaced [OF _ other [OF that] _ False] assms(6) that(1) True show ?thesis
        by (simp add: after_flush_def)
    next
      case False
      with stays [OF that] show ?thesis by (auto simp: after_flush_def)
    qed
    from update_ok [OF assms(1-4) False, of flush a] assms(5) have upd:
      "case holder c r of
         Some e \<Rightarrow>
           cache_entries c' = cache_entries c \<and> notified c' = notified c \<and> fresh_entry now flush a r (entry c' e) \<and>
           (\<forall>f. f \<noteq> e \<longrightarrow> entry c' f = after_flush now flush (rkey r) c f)
       | None \<Rightarrow>
           if n_entries c \<ge> n_cache_entries_max c then
             cache_entries c' = cache_entries c \<and> notified c' = notified c \<and>
             entry c' = after_flush now flush (rkey r) c
           else \<exists>e. e \<notin> set (cache_entries c) \<and> cache_entries c' = e # cache_entries c \<and>
             notified c' = (r, AVAHI_BROWSER_NEW) # notified c \<and> fresh_entry now flush a r (entry c' e) \<and>
             (\<forall>f. f \<noteq> e \<longrightarrow> entry c' f = after_flush now flush (rkey r) c f)" by auto
    have "fresh_entry now flush a r (entry c' e) \<or>
      e \<in> set (cache_entries c) \<and> holder c r \<noteq> Some e \<and> entry c' e = after_flush now flush (rkey r) c e"
    proof (cases "holder c r")
      case None
      with upd assms(7) show ?thesis
        by (cases "n_entries c \<ge> n_cache_entries_max c") (simp_all, metis set_ConsD)
    next
      case (Some h)
      with upd assms(7) show ?thesis by (cases "e = h") auto
    qed
    then show ?thesis
    proof
      assume "fresh_entry now flush a r (entry c' e)"
      then show ?thesis by (rule explained_fresh [OF _ assms(3)])
    next
      assume "e \<in> set (cache_entries c) \<and> holder c r \<noteq> Some e \<and> entry c' e = after_flush now flush (rkey r) c e"
      then show ?thesis using kept [of e] by simp
    qed
  qed
qed

lemma matching_asked: "e \<in> set (matching c k) \<Longrightarrow> asked_for k (cache_record (entry c e))"
  by (auto simp: matching_def asked_for_def rec_chain_def chain_def split: if_splits)

lemma history_explained:
  assumes "cache_history shall_refresh post_query other tr c"
    and "\<forall>k. harmless (shall_refresh k)" "\<forall>k. harmless (\<lambda>q. map_option (Pair ()) (post_query k q))"
    and "\<forall>x ev. harmless (\<lambda>q. map_option (Pair ()) (other x ev q))"
  shows "\<forall>e \<in> set (cache_entries c). explained tr (entry c e)"
  using assms(1)
proof (induction rule: cache_history.induct)
  case (start q n junk junk_rand)
  then show ?case by (simp add: avahi_cache_new_def)
next
  case (update tr c now rnd r flush a c')
  then show ?case
    using explained_update [OF reachable_ok [OF history_reachable [OF update.hyps(1)] assms(2-4)] update.hyps(2-5) update.IH] by blast
next
  case (start_poof tr c now k a c')
  then have "cache_ok c" using reachable_ok [OF history_reachable assms(2-4)] by blast
  from start_poof_ok [OF this start_poof.hyps(3,2), of a] start_poof.hyps(4) have c': "same_index c c'"
    "entry c' = (\<lambda>e. if e \<in> set (matching c k) then poof_step now a (entry c e) else entry c e)" by auto
  show ?case
  proof
    fix e assume "e \<in> set (cache_entries c')"
    then have e: "explained tr (entry c e)" using start_poof.IH c'(1) by (simp add: same_index_def)
    with explained_poof [OF e matching_asked] explained_unheard [OF e] show "explained (Unanswered now k # tr) (entry c' e)"
      by (simp add: c'(2))
  qed
next
  case (stop_poof tr c now rnd r a c')
  then have "cache_ok c" using reachable_ok [OF history_reachable assms(2-4)] by blast
  from stop_poof_ok [OF this stop_poof.hyps(2-4), of a] stop_poof.hyps(5) have c': "same_index c c'"
    "\<And>e. if holder c r = Some e \<and> state (entry c e) \<in> {AVAHI_CACHE_POOF, AVAHI_CACHE_POOF_FINAL} \<and>
             avahi_address_cmp a (poof_address (entry c e)) = 0
         then \<exists>t. entry c' e = (entry c e)\<lparr>state := AVAHI_CACHE_VALID, cache_expiry := t\<rparr>
         else entry c' e = entry c e" by auto
  show ?case
  proof
    fix e assume "e \<in> set (cache_entries c')"
    then have e: "explained tr (entry c e)" using stop_poof.IH c'(1) by (simp add: same_index_def)
    then show "explained tr (entry c' e)" using explained_stop [OF e] c'(2) [of e] by (auto split: if_splits)
  qed
next
  case (elapse tr c now rnd c')
  then have "cache_ok c" using reachable_ok [OF history_reachable assms(2-4)] by blast
  from expiration_ok [OF this elapse.hyps(2) assms(2-4)] elapse.hyps(3) have cases: "same_index c c' \<and> entry c' = entry c \<or>
     (\<exists>e \<in> set (cache_entries c). usecs (cache_expiry (entry c e)) \<le> usecs now \<and>
       (case next_stage (state (entry c e)) of
          None \<Rightarrow> cache_entries c' = remove1 e (cache_entries c) \<and> entry c' = entry c \<and>
            notified c' = (cache_record (entry c e), AVAHI_BROWSER_REMOVE) # notified c
        | Some (st, p) \<Rightarrow> same_index c c' \<and>
            (\<exists>t. entry c' = (entry c)(e := (entry c e)\<lparr>state := st, cache_expiry := t\<rparr>) \<and> at_percent (entry c' e) p)))" by auto
  show ?case
  proof
    fix f assume f: "f \<in> set (cache_entries c')"
    from cases have "f \<in> set (cache_entries c) \<and> (entry c' f = entry c f \<or>
      (\<exists>st p t. next_stage (state (entry c f)) = Some (st, p) \<and> entry c' f = (entry c f)\<lparr>state := st, cache_expiry := t\<rparr>))"
    proof (elim disjE bexE conjE)
      fix e assume e: "case next_stage (state (entry c e)) of
          None \<Rightarrow> cache_entries c' = remove1 e (cache_entries c) \<and> entry c' = entry c \<and>
            notified c' = (cache_record (entry c e), AVAHI_BROWSER_REMOVE) # notified c
        | Some (st, p) \<Rightarrow> same_index c c' \<and>
            (\<exists>t. entry c' = (entry c)(e := (entry c e)\<lparr>state := st, cache_expiry := t\<rparr>) \<and> at_percent (entry c' e) p)"
      then show ?thesis
      proof (cases "next_stage (state (entry c e))")
        case None
        with e f show ?thesis using set_remove1_subset [of e "cache_entries c"] by auto
      next
        case (Some sp)
        with e f show ?thesis by (cases sp; cases "f = e") (auto simp: same_index_def)
      qed
    qed (use f in \<open>simp add: same_index_def\<close>)
    with elapse.IH explained_stage show "explained tr (entry c' f)" by fastforce
  qed
next
  case (flush tr c c')
  then have "cache_ok c" using reachable_ok [OF history_reachable assms(2-4)] by blast
  from cache_flush_ok [OF this] flush.hyps(2) show ?case by auto
qed simp

lemma cause_of_final:
  assumes "explained tr x" "timed x" "next_stage (state x) = None"
  shows "current tr x \<and> at_percent x 100 \<or> said_goodbye tr x \<or> flushed_away tr x \<or>
    (\<exists>ts. silent 5 ts tr (cache_record x) \<and> cache_expiry x = avahi_timeval_add (hd ts) 1000000)"
  using assms by (cases "state x") (simp_all add: explained_def timed_def)

lemma cause_written_out:
  assumes "current tr x \<and> at_percent x 100 \<or> said_goodbye tr x \<or> flushed_away tr x \<or>
    (\<exists>ts. silent 5 ts tr (cache_record x) \<and> cache_expiry x = avahi_timeval_add (hd ts) 1000000)"
  shows "(\<exists>t f. last_heard (cache_record x) tr = Some (t, cache_record x, f) \<and>
           usecs t + uint (ttl (cache_record x)) * 1000000 \<le> usecs (cache_expiry x) \<and>
           usecs (cache_expiry x) * 100 \<le> usecs t * 100 + uint (ttl (cache_record x)) * 1000000 * 102) \<or>
        (\<exists>t r' f. last_heard (cache_record x) tr = Some (t, r', f) \<and> ttl r' = 0 \<and> cache_expiry x = avahi_timeval_add t 1000000) \<or>
        (\<exists>t r'. Arrived t r' True \<in> set tr \<and> ttl r' \<noteq> 0 \<and> key_equal_fun (rkey r') (rkey (cache_record x)) \<and>
           \<not> same (cache_record x) r' \<and> avahi_timeval_diff t (cache_timestamp x) > 1000000 \<and>
           cache_expiry x = avahi_timeval_add t 1000000) \<or>
        (\<exists>ts. subseq ts (failures (cache_record x) tr) \<and> 5 \<le> length ts \<and>
           successively (\<lambda>s t. avahi_timeval_diff s t \<ge> 1000000) ts \<and> cache_expiry x = avahi_timeval_add (hd ts) 1000000)"
  using assms
proof (elim disjE)
  assume "current tr x \<and> at_percent x 100"
  then show ?thesis by (intro disjI1) (auto simp: current_def at_percent_def ttl_usec_def)
qed (unfold said_goodbye_def flushed_away_def silent_def, blast+)

section \<open>Removals\<close>

text \<open>C20. An expiration removes at most one entry, and only for a cause that its history shows and when its time has come:
  the whole TTL has passed since the record was heard last, with at most two percent on top; or what was heard last
  of the record is a goodbye, one second ago; or another record of the same key arrived with the cache flush
  bit one second ago, more than a second after this one; or at least five queries for it since it was heard
  last, each at least a second after the one before, were not answered, the last of them one second ago. An entry that
  stays keeps its record, and a removal is announced.\<close>

theorem cache_removal_safe:
  assumes "cache_history shall_refresh post_query other tr c" "clock_ok now rnd"
    and "\<forall>k. harmless (shall_refresh k)" "\<forall>k. harmless (\<lambda>q. map_option (Pair ()) (post_query k q))"
    and "\<forall>x ev. harmless (\<lambda>q. map_option (Pair ()) (other x ev q))"
  shows "\<exists>c'. cache_expiration shall_refresh post_query other now rnd c = Some c' \<and> cache_ok c' \<and>
    (\<forall>e \<in> set (cache_entries c). cache_record (entry c' e) = cache_record (entry c e)) \<and>
    (cache_entries c' = cache_entries c \<and> notified c' = notified c \<or>
     (\<exists>e \<in> set (cache_entries c). let r = cache_record (entry c e); x = cache_expiry (entry c e) in
       cache_entries c' = remove1 e (cache_entries c) \<and> notified c' = (r, AVAHI_BROWSER_REMOVE) # notified c \<and>
       usecs x \<le> usecs now \<and>
       ((\<exists>t f. last_heard r tr = Some (t, r, f) \<and> usecs t + uint (ttl r) * 1000000 \<le> usecs x \<and>
           usecs x * 100 \<le> usecs t * 100 + uint (ttl r) * 1000000 * 102) \<or>
        (\<exists>t r' f. last_heard r tr = Some (t, r', f) \<and> ttl r' = 0 \<and> x = avahi_timeval_add t 1000000) \<or>
        (\<exists>t r'. Arrived t r' True \<in> set tr \<and> ttl r' \<noteq> 0 \<and> key_equal_fun (rkey r') (rkey r) \<and> \<not> same r r' \<and>
           avahi_timeval_diff t (cache_timestamp (entry c e)) > 1000000 \<and> x = avahi_timeval_add t 1000000) \<or>
        (\<exists>ts. subseq ts (failures r tr) \<and> 5 \<le> length ts \<and> successively (\<lambda>s t. avahi_timeval_diff s t \<ge> 1000000) ts \<and>
           x = avahi_timeval_add (hd ts) 1000000))))"
proof -
  note ok = reachable_ok [OF history_reachable [OF assms(1)] assms(3-5)]
  from expiration_ok [OF ok assms(2-5)] obtain c' where c': "cache_expiration shall_refresh post_query other now rnd c = Some c'"
    "cache_ok c'"
    and cases: "same_index c c' \<and> entry c' = entry c \<or>
     (\<exists>e \<in> set (cache_entries c). usecs (cache_expiry (entry c e)) \<le> usecs now \<and>
       (case next_stage (state (entry c e)) of
          None \<Rightarrow> cache_entries c' = remove1 e (cache_entries c) \<and> entry c' = entry c \<and>
            notified c' = (cache_record (entry c e), AVAHI_BROWSER_REMOVE) # notified c
        | Some (st, p) \<Rightarrow> same_index c c' \<and>
            (\<exists>t. entry c' = (entry c)(e := (entry c e)\<lparr>state := st, cache_expiry := t\<rparr>) \<and> at_percent (entry c' e) p)))"
    by blast
  consider (same) "same_index c c'"
    | (gone) e where "e \<in> set (cache_entries c)" "usecs (cache_expiry (entry c e)) \<le> usecs now"
        "next_stage (state (entry c e)) = None" "cache_entries c' = remove1 e (cache_entries c)" "entry c' = entry c"
        "notified c' = (cache_record (entry c e), AVAHI_BROWSER_REMOVE) # notified c"
  proof (cases "same_index c c'")
    case False
    with cases obtain e where e: "e \<in> set (cache_entries c)" "usecs (cache_expiry (entry c e)) \<le> usecs now"
      "case next_stage (state (entry c e)) of
          None \<Rightarrow> cache_entries c' = remove1 e (cache_entries c) \<and> entry c' = entry c \<and>
            notified c' = (cache_record (entry c e), AVAHI_BROWSER_REMOVE) # notified c
        | Some (st, p) \<Rightarrow> same_index c c' \<and>
            (\<exists>t. entry c' = (entry c)(e := (entry c e)\<lparr>state := st, cache_expiry := t\<rparr>) \<and> at_percent (entry c' e) p)"
      by blast
    moreover from e(3) False have "next_stage (state (entry c e)) = None" by (auto split: option.splits)
    ultimately show ?thesis using that(2) [of e] by simp
  qed (rule that(1))
  then show ?thesis
  proof cases
    case same
    then have "cache_record (entry c' e) = cache_record (entry c e)" for e by (simp add: same_index_def fun_eq_iff)
    with c' same show ?thesis by (intro exI [of _ c']) (simp add: same_index_def)
  next
    case (gone e)
    let ?x = "entry c e"
    have why: "current tr ?x \<and> at_percent ?x 100 \<or> said_goodbye tr ?x \<or> flushed_away tr ?x \<or>
      (\<exists>ts. silent 5 ts tr (cache_record ?x) \<and> cache_expiry ?x = avahi_timeval_add (hd ts) 1000000)"
      using cause_of_final [OF bspec [OF history_explained [OF assms(1,3-5)] gone(1)] cache_okD(5) [OF ok gone(1)] gone(3)] .
    show ?thesis
      unfolding Let_def
      by (rule exI [of _ c'], rule conjI [OF c'(1)], rule conjI [OF c'(2)], rule conjI, use gone(5) in simp, rule disjI2,
        rule bexI [OF _ gone(1)], rule conjI [OF gone(4)], rule conjI [OF gone(6)], rule conjI [OF gone(2)],
        rule cause_written_out [OF why])
  qed
qed

text \<open>The example: a record arrives, and is said to be gone one second later.\<close>

theorem cache_removal_safe_witness:
  "\<exists>c c1 c'. cache_history (\<lambda>k q. Some (True, q)) (\<lambda>k q. Some q) (\<lambda>x ev q. Some q)
       [Arrived \<lparr>tv_sec = 101, tv_usec = 0\<rparr> (example_a\<lparr>ttl := 0\<rparr>) False, Arrived example_now example_a False] c1 \<and>
     avahi_cache_update example_now 5 example_a False example_address example_cache = Some c \<and>
     avahi_cache_update \<lparr>tv_sec = 101, tv_usec = 0\<rparr> 5 (example_a\<lparr>ttl := 0\<rparr>) False example_address c = Some c1 \<and>
     cache_expiration (\<lambda>k q. Some (True, q)) (\<lambda>k q. Some q) (\<lambda>x ev q. Some q) \<lparr>tv_sec = 102, tv_usec = 0\<rparr> 5 c1 = Some c' \<and>
     (cache_entries c' = cache_entries c \<or> cache_entries c' = [])"
proof (rule example_update)
  let ?s = "\<lambda>(k :: AvahiKey) (q :: unit event_callback AvahiTimeEventQueue). Some (True, q)"
    and ?p = "\<lambda>(k :: AvahiKey) (q :: unit event_callback AvahiTimeEventQueue). Some q"
    and ?o = "\<lambda>(x :: unit) (ev :: nat) (q :: unit event_callback AvahiTimeEventQueue). Some q"
  let ?t = "\<lparr>tv_sec = 101, tv_usec = 0\<rparr>" and ?u = "\<lparr>tv_sec = 102, tv_usec = 0\<rparr>" and ?r = "example_a\<lparr>ttl := 0\<rparr>"
  fix c e
  assume c: "avahi_cache_update example_now 5 example_a False example_address example_cache = Some c" "cache_ok c"
    "cache_entries c = [e]"
  have clock: "clock_ok ?t 5" "clock_ok ?u 5" by (simp_all add: clock_ok_def tv_norm_def)
  have r: "record_ok ?r" "\<not> avahi_key_is_pattern (rkey ?r)" "ttl ?r = 0"
    using example_record(1,2) by (simp_all add: record_ok_def)
  obtain c1 where c1: "avahi_cache_update ?t 5 ?r False example_address c = Some c1" "same_index c c1"
    using goodbye_ok [OF c(2) clock(1) r, of False example_address] by blast
  have "elapse_events (avahi_time_event_queue_new undefined) = {}" by (simp add: elapse_events_def example_queue)
  then have "cache_history ?s ?p ?o [] example_cache"
    unfolding example_cache_def by (intro cache_history.start example_queue(1))
  from cache_history.update [OF cache_history.update [OF this example_cache_ok(3) example_record(1,2) c(1)] clock(1) r(1,2) c1(1)]
  have h: "cache_history ?s ?p ?o [Arrived ?t ?r False, Arrived example_now example_a False] c1" .
  obtain c' where "cache_expiration ?s ?p ?o ?u 5 c1 = Some c'"
    "cache_entries c' = cache_entries c1 \<or> (\<exists>e \<in> set (cache_entries c1). cache_entries c' = remove1 e (cache_entries c1))"
    using cache_removal_safe [OF h clock(2) quiet_harmless(1) [of True] quiet_harmless(2,3)] unfolding Let_def by blast
  with h c c1 show ?thesis by (intro exI [of _ c] exI [of _ c1] exI [of _ c']) (auto simp: same_index_def)
qed

end
