(* ===== verification/Query_Sched.thy ===== *)
theory Query_Sched
  imports Cache DNS
begin

text \<open>
  \<^verbatim>\<open>avahi-core/query-sched.c\<close>: the queries that wait to be sent on an interface, and those that have been sent or
  seen a short time ago. Jobs are addresses with the contents of \<open>struct AvahiQueryJob\<close> as a function of the
  address; the linked lists are sequences. Each job has an event in the queue of time events, \<open>Elapse\<close> of its
  address; the events of all others are \<open>Other\<close>. The packets that \<open>avahi_interface_send_packet\<close> was called with
  are a log, the latest first. An operation takes place at the time \<open>now\<close>, and \<open>rnd\<close> is what \<open>rand\<close> would return.
  \<^const>\<open>None\<close> is a failed assertion.
\<close>

section \<open>State\<close>

abbreviation (input) AVAHI_QUERY_HISTORY_MSEC :: nat where "AVAHI_QUERY_HISTORY_MSEC \<equiv> 100"
abbreviation (input) AVAHI_QUERY_DEFER_MSEC :: nat where "AVAHI_QUERY_DEFER_MSEC \<equiv> 100"

record AvahiQueryJob =
  qid :: u32
  n_posted :: int
  qevent :: "nat option"
  qdone :: bool
  qdelivery :: timeval
  qkey :: AvahiKey

text \<open>
  \<open>statics\<close> are the static variables of \<open>avahi_elapse_time\<close>, \<open>mtu\<close> is that of the hardware of the interface.
\<close>

record 'o AvahiQueryScheduler =
  next_id :: u32
  jobs :: "nat list"
  history :: "nat list"
  known_answers :: "AvahiRecord list"
  job :: "nat \<Rightarrow> AvahiQueryJob"
  queue :: "'o event_callback AvahiTimeEventQueue"
  statics :: elapse_static
  mtu :: nat
  sent :: "AvahiDnsPacket list"

abbreviation upd_qjob :: "nat \<Rightarrow> (AvahiQueryJob \<Rightarrow> AvahiQueryJob) \<Rightarrow> 'o AvahiQueryScheduler \<Rightarrow> 'o AvahiQueryScheduler" where
  "upd_qjob j f s \<equiv> s\<lparr>job := (job s)(j := f (job s j))\<rparr>"

section \<open>Jobs\<close>

text \<open>The field \<open>delivery\<close> of a new job is not initialised.\<close>

definition query_job_new :: "AvahiKey \<Rightarrow> bool \<Rightarrow> 'o AvahiQueryScheduler \<Rightarrow> nat \<times> 'o AvahiQueryScheduler" where
  "query_job_new k dn s =
     (let j = fresh (set (jobs s) \<union> set (history s));
          s = upd_qjob j (\<lambda>x. x\<lparr>qkey := k, qevent := None, n_posted := 1, qid := next_id s, qdone := dn\<rparr>)
                (s\<lparr>next_id := next_id s + 1\<rparr>)
      in (j, if dn then s\<lparr>history := j # history s\<rparr> else s\<lparr>jobs := j # jobs s\<rparr>))"

definition query_job_free :: "nat \<Rightarrow> 'o AvahiQueryScheduler \<Rightarrow> 'o AvahiQueryScheduler option" where
  "query_job_free j s =
     do {
       s \<leftarrow> (case qevent (job s j) of
               Some ev \<Rightarrow> do { q \<leftarrow> avahi_time_event_free ev (queue s); Some (s\<lparr>queue := q\<rparr>) }
             | None \<Rightarrow> Some s);
       if qdone (job s j) then do { l \<leftarrow> llist_remove j (history s); Some (s\<lparr>history := l\<rparr>) }
       else do { l \<leftarrow> llist_remove j (jobs s); Some (s\<lparr>jobs := l\<rparr>) }
     }"

definition query_job_set_elapse_time ::
  "timeval \<Rightarrow> int \<Rightarrow> nat \<Rightarrow> nat \<Rightarrow> nat \<Rightarrow> 'o AvahiQueryScheduler \<Rightarrow> 'o AvahiQueryScheduler option" where
  "query_job_set_elapse_time now rnd j msec jitter s =
     (let (tv, st) = avahi_elapse_time now (tv_sec now) rnd msec jitter (statics s);
          s = s\<lparr>statics := st\<rparr>
      in case qevent (job s j) of
           Some ev \<Rightarrow> do { q \<leftarrow> avahi_time_event_update ev tv (queue s); Some (s\<lparr>queue := q\<rparr>) }
         | None \<Rightarrow> do {
             let ev = fresh (events (queue s));
             q \<leftarrow> avahi_time_event_new ev (Some tv) (Elapse j) (queue s);
             Some (upd_qjob j (\<lambda>x. x\<lparr>qevent := Some ev\<rparr>) (s\<lparr>queue := q\<rparr>))
           })"

definition query_job_mark_done :: "timeval \<Rightarrow> int \<Rightarrow> nat \<Rightarrow> 'o AvahiQueryScheduler \<Rightarrow> 'o AvahiQueryScheduler option" where
  "query_job_mark_done now rnd j s =
     (if qdone (job s j) then None
      else do {
        l \<leftarrow> llist_remove j (jobs s);
        let s = upd_qjob j (\<lambda>x. x\<lparr>qdone := True\<rparr>) (s\<lparr>jobs := l, history := j # history s\<rparr>);
        s \<leftarrow> query_job_set_elapse_time now rnd j AVAHI_QUERY_HISTORY_MSEC 0 s;
        Some (upd_qjob j (\<lambda>x. x\<lparr>qdelivery := now\<rparr>) s)
      })"

text \<open>The queue belongs to the server, the hardware to the interface.\<close>

definition avahi_query_scheduler_new ::
  "'o event_callback AvahiTimeEventQueue \<Rightarrow> elapse_static \<Rightarrow> nat \<Rightarrow> (nat \<Rightarrow> AvahiQueryJob) \<Rightarrow> 'o AvahiQueryScheduler" where
  "avahi_query_scheduler_new q st m junk =
     \<lparr>next_id = 0, jobs = [], history = [], known_answers = [], job = junk, queue = q, statics = st, mtu = m, sent = []\<rparr>"

partial_function (option) free_scheduled :: "'o AvahiQueryScheduler \<Rightarrow> 'o AvahiQueryScheduler option" where
  "free_scheduled s =
     (case jobs s of [] \<Rightarrow> Some s | j # _ \<Rightarrow> do { s \<leftarrow> query_job_free j s; free_scheduled s })"

partial_function (option) free_history :: "'o AvahiQueryScheduler \<Rightarrow> 'o AvahiQueryScheduler option" where
  "free_history s =
     (case history s of [] \<Rightarrow> Some s | j # _ \<Rightarrow> do { s \<leftarrow> query_job_free j s; free_history s })"

definition avahi_query_scheduler_clear :: "'o AvahiQueryScheduler \<Rightarrow> 'o AvahiQueryScheduler option" where
  "avahi_query_scheduler_clear s = do { s \<leftarrow> free_scheduled s; free_history s }"

text \<open>The result is what the server and the interface keep.\<close>

definition avahi_query_scheduler_free :: "'o AvahiQueryScheduler \<Rightarrow> 'o AvahiQueryScheduler option" where
  "avahi_query_scheduler_free s = (if known_answers s \<noteq> [] then None else avahi_query_scheduler_clear s)"

section \<open>Sending\<close>

text \<open>The cache with the userdata of the walk: the list of known answers of the scheduler.\<close>

record 'o query_cache = "'o AvahiCache" +
  found :: "AvahiRecord list"

definition known_answer_walk_callback ::
  "timeval \<Rightarrow> nat \<Rightarrow> 'o query_cache \<Rightarrow> (unit option \<times> 'o query_cache) option" where
  "known_answer_walk_callback now e c =
     (if avahi_cache_entry_half_ttl now c e then Some (None, c)
      else Some (None, c\<lparr>found := cache_record (entry c e) # found c\<rparr>))"

definition packet_add_query_job ::
  "'c AvahiCache \<Rightarrow> timeval \<Rightarrow> int \<Rightarrow> AvahiDnsPacket \<Rightarrow> nat \<Rightarrow> 'o AvahiQueryScheduler \<Rightarrow>
   (bool \<times> AvahiDnsPacket \<times> 'o AvahiQueryScheduler) option" where
  "packet_add_query_job cache now rnd p j s =
     do {
       (a, p) \<leftarrow> avahi_dns_packet_append_key (qkey (job s j)) False p;
       if a = None then Some (False, p, s)
       else do {
         (_, c) \<leftarrow> avahi_cache_walk (qkey (job s j)) (known_answer_walk_callback now)
                   (AvahiCache.extend cache (query_cache.fields (known_answers s)));
         s \<leftarrow> query_job_mark_done now rnd j (s\<lparr>known_answers := found c\<rparr>);
         Some (True, p, s)
       }
     }"

definition send_packet :: "AvahiDnsPacket \<Rightarrow> 'o AvahiQueryScheduler \<Rightarrow> 'o AvahiQueryScheduler" where
  "send_packet p s = s\<lparr>sent := p # sent s\<rparr>"

text \<open>
  The inner loop of \<open>append_known_answers_and_send\<close>: whether the record is too large, the packet and the number of
  records in it. \<open>junk\<close> is the content of fresh memory.
\<close>

partial_function (option) append_known_answer ::
  "memory \<Rightarrow> AvahiRecord \<Rightarrow> AvahiDnsPacket \<Rightarrow> nat \<Rightarrow> 'o AvahiQueryScheduler \<Rightarrow>
   (bool \<times> AvahiDnsPacket \<times> nat \<times> 'o AvahiQueryScheduler) option" where
  "append_known_answer junk r p n s =
     do {
       (a, p) \<leftarrow> avahi_dns_packet_append_record r False 0 p;
       if a \<noteq> None then Some (False, p, n, s)
       else if avahi_dns_packet_is_empty p then Some (True, p, n, s)
       else do {
         flags \<leftarrow> avahi_dns_packet_get_field p AVAHI_DNS_FIELD_FLAGS;
         p \<leftarrow> avahi_dns_packet_set_field p AVAHI_DNS_FIELD_FLAGS (flags OR AVAHI_DNS_FLAG_TC);
         p \<leftarrow> avahi_dns_packet_set_field p AVAHI_DNS_FIELD_ANCOUNT (of_nat n);
         let s = send_packet p s;
         p \<leftarrow> avahi_dns_packet_new_query junk (mtu s);
         append_known_answer junk r p 0 s
       }
     }"

partial_function (option) known_answers_loop ::
  "memory \<Rightarrow> AvahiDnsPacket \<Rightarrow> nat \<Rightarrow> 'o AvahiQueryScheduler \<Rightarrow>
   (AvahiDnsPacket \<times> nat \<times> 'o AvahiQueryScheduler) option" where
  "known_answers_loop junk p n s =
     (case known_answers s of
        [] \<Rightarrow> Some (p, n, s)
      | ka # kas \<Rightarrow>
          do {
            (too_large, p, n, s) \<leftarrow> append_known_answer junk ka p n s;
            known_answers_loop junk p (if too_large then n else n + 1) (s\<lparr>known_answers := kas\<rparr>)
          })"

definition append_known_answers_and_send ::
  "memory \<Rightarrow> AvahiDnsPacket \<Rightarrow> 'o AvahiQueryScheduler \<Rightarrow> 'o AvahiQueryScheduler option" where
  "append_known_answers_and_send junk p s =
     do {
       (p, n, s) \<leftarrow> known_answers_loop junk p 0 s;
       p \<leftarrow> avahi_dns_packet_set_field p AVAHI_DNS_FIELD_ANCOUNT (of_nat n);
       Some (send_packet p s)
     }"

text \<open>The loop that fills the packet with more queries; the result is the number of queries in it.\<close>

partial_function (option) fill_packet ::
  "'c AvahiCache \<Rightarrow> timeval \<Rightarrow> int \<Rightarrow> AvahiDnsPacket \<Rightarrow> nat \<Rightarrow> 'o AvahiQueryScheduler \<Rightarrow>
   (nat \<times> AvahiDnsPacket \<times> 'o AvahiQueryScheduler) option" where
  "fill_packet cache now rnd p n s =
     (case jobs s of
        [] \<Rightarrow> Some (n, p, s)
      | j # _ \<Rightarrow>
          do {
            (b, p, s) \<leftarrow> packet_add_query_job cache now rnd p j s;
            if b then fill_packet cache now rnd p (n + 1) s else Some (n, p, s)
          })"

definition query_elapse_callback ::
  "'c AvahiCache \<Rightarrow> memory \<Rightarrow> timeval \<Rightarrow> int \<Rightarrow> nat \<Rightarrow> 'o AvahiQueryScheduler \<Rightarrow> 'o AvahiQueryScheduler option" where
  "query_elapse_callback cache junk now rnd j s =
     (if qdone (job s j) then query_job_free j s
      else if known_answers s \<noteq> [] then None
      else do {
        p \<leftarrow> avahi_dns_packet_new_query junk (mtu s);
        (b, p, s) \<leftarrow> packet_add_query_job cache now rnd p j s;
        if \<not> b then None
        else do {
          (n, p, s) \<leftarrow> fill_packet cache now rnd p 1 s;
          p \<leftarrow> avahi_dns_packet_set_field p AVAHI_DNS_FIELD_QDCOUNT (of_nat n);
          append_known_answers_and_send junk p s
        }
      })"

section \<open>Posting\<close>

fun find_scheduled_query :: "'o AvahiQueryScheduler \<Rightarrow> AvahiKey \<Rightarrow> nat list \<Rightarrow> nat option option" where
  "find_scheduled_query s k [] = Some None"
| "find_scheduled_query s k (j # js) =
     (if qdone (job s j) then None
      else do {
        eq \<leftarrow> avahi_key_equal (qkey (job s j)) k;
        if eq then Some (Some j) else find_scheduled_query s k js
      })"

fun find_history_query ::
  "timeval \<Rightarrow> AvahiKey \<Rightarrow> nat list \<Rightarrow> 'o AvahiQueryScheduler \<Rightarrow> (nat option \<times> 'o AvahiQueryScheduler) option" where
  "find_history_query now k [] s = Some (None, s)"
| "find_history_query now k (j # js) s =
     (if \<not> qdone (job s j) then None
      else do {
        eq \<leftarrow> avahi_key_equal (qkey (job s j)) k;
        if eq then
          (if avahi_age now (qdelivery (job s j)) > int AVAHI_QUERY_HISTORY_MSEC * 1000
           then do { s \<leftarrow> query_job_free j s; Some (None, s) }
           else Some (Some j, s))
        else find_history_query now k js s
      })"

text \<open>The part of \<open>avahi_query_scheduler_post\<close> behind the search of the history. The result is the job.\<close>

definition schedule_query ::
  "timeval \<Rightarrow> int \<Rightarrow> AvahiKey \<Rightarrow> bool \<Rightarrow> 'o AvahiQueryScheduler \<Rightarrow> (nat \<times> 'o AvahiQueryScheduler) option" where
  "schedule_query now rnd k immediately s =
     do {
       let (tv, st) = avahi_elapse_time now (tv_sec now) rnd (if immediately then 0 else AVAHI_QUERY_DEFER_MSEC) 0 (statics s);
       let s = s\<lparr>statics := st\<rparr>;
       f \<leftarrow> find_scheduled_query s k (jobs s);
       case f of
         Some j \<Rightarrow> do {
           s \<leftarrow> (if avahi_timeval_compare tv (qdelivery (job s j)) < 0 then do {
                   let s = upd_qjob j (\<lambda>x. x\<lparr>qdelivery := tv\<rparr>) s;
                   ev \<leftarrow> qevent (job s j);
                   q \<leftarrow> avahi_time_event_update ev (qdelivery (job s j)) (queue s);
                   Some (s\<lparr>queue := q\<rparr>)
                 } else Some s);
           Some (j, upd_qjob j (\<lambda>x. x\<lparr>n_posted := n_posted x + 1\<rparr>) s)
         }
       | None \<Rightarrow> do {
           let (j, s) = query_job_new k False s;
           let s = upd_qjob j (\<lambda>x. x\<lparr>qdelivery := tv\<rparr>) s;
           let ev = fresh (events (queue s));
           q \<leftarrow> avahi_time_event_new ev (Some (qdelivery (job s j))) (Elapse j) (queue s);
           Some (j, upd_qjob j (\<lambda>x. x\<lparr>qevent := Some ev\<rparr>) (s\<lparr>queue := q\<rparr>))
         }
     }"

text \<open>The result is the identifier that is stored in \<open>*ret_id\<close>, or \<^const>\<open>None\<close> for the return value 0.\<close>

definition avahi_query_scheduler_post ::
  "timeval \<Rightarrow> int \<Rightarrow> AvahiKey \<Rightarrow> bool \<Rightarrow> 'o AvahiQueryScheduler \<Rightarrow> (u32 option \<times> 'o AvahiQueryScheduler) option" where
  "avahi_query_scheduler_post now rnd k immediately s =
     do {
       (h, s) \<leftarrow> find_history_query now k (history s) s;
       if h \<noteq> None then Some (None, s)
       else do {
         (j, s) \<leftarrow> schedule_query now rnd k immediately s;
         Some (Some (qid (job s j)), s)
       }
     }"

definition avahi_query_scheduler_incoming ::
  "timeval \<Rightarrow> int \<Rightarrow> AvahiKey \<Rightarrow> 'o AvahiQueryScheduler \<Rightarrow> 'o AvahiQueryScheduler option" where
  "avahi_query_scheduler_incoming now rnd k s =
     do {
       f \<leftarrow> find_scheduled_query s k (jobs s);
       case f of
         Some j \<Rightarrow> query_job_mark_done now rnd j s
       | None \<Rightarrow> do {
           (h, s) \<leftarrow> find_history_query now k (history s) s;
           let (j, s) = (case h of Some j \<Rightarrow> (j, s) | None \<Rightarrow> query_job_new k True s);
           query_job_set_elapse_time now rnd j AVAHI_QUERY_HISTORY_MSEC 0 (upd_qjob j (\<lambda>x. x\<lparr>qdelivery := now\<rparr>) s)
         }
     }"

fun withdraw_loop :: "u32 \<Rightarrow> nat list \<Rightarrow> 'o AvahiQueryScheduler \<Rightarrow> (bool \<times> 'o AvahiQueryScheduler) option" where
  "withdraw_loop i [] s = Some (False, s)"
| "withdraw_loop i (j # js) s =
     (if qdone (job s j) then None
      else if qid (job s j) = i then
        (if n_posted (job s j) < 1 then None
         else
           let s = upd_qjob j (\<lambda>x. x\<lparr>n_posted := n_posted x - 1\<rparr>) s in
           if n_posted (job s j) \<le> 0 then do { s \<leftarrow> query_job_free j s; Some (True, s) }
           else withdraw_loop i js s)
      else withdraw_loop i js s)"

definition avahi_query_scheduler_withdraw_by_id ::
  "u32 \<Rightarrow> 'o AvahiQueryScheduler \<Rightarrow> (bool \<times> 'o AvahiQueryScheduler) option" where
  "avahi_query_scheduler_withdraw_by_id i s = withdraw_loop i (jobs s) s"

text \<open>The expiration of the queue of time events, with the scheduler in the state.\<close>

definition query_expiration ::
  "('o \<Rightarrow> nat \<Rightarrow> 'o event_callback AvahiTimeEventQueue \<Rightarrow> 'o event_callback AvahiTimeEventQueue option) \<Rightarrow>
   'c AvahiCache \<Rightarrow> memory \<Rightarrow> timeval \<Rightarrow> int \<Rightarrow> 'o AvahiQueryScheduler \<Rightarrow> 'o AvahiQueryScheduler option" where
  "query_expiration other cache junk now rnd s =
     do {
       (due, q) \<leftarrow> expiration_start now (queue s);
       let s = s\<lparr>queue := q\<rparr>;
       s \<leftarrow> (case due of
               None \<Rightarrow> Some s
             | Some ev \<Rightarrow>
                 (case callback (event q ev) of
                    Elapse j \<Rightarrow> query_elapse_callback cache junk now rnd j s
                  | Other x \<Rightarrow> do { q \<leftarrow> other x ev q; Some (s\<lparr>queue := q\<rparr>) }));
       Some (s\<lparr>queue := update_timeout (queue s)\<rparr>)
     }"

end
