(* ===== verification/DNS_Content.thy ===== *)
theory DNS_Content
  imports DNS_Packets
begin

text \<open>
  What a packet holds: the questions and the records that are read from it one after the other. What is read stays
  the same when more is appended and when fields of the header are set, so that the content of a packet that
  has been put together step by step is the list of what was appended.
\<close>

section \<open>Reading does not depend on what follows\<close>

text \<open>The bytes behind the header of the first packet are the first ones of the second.\<close>

definition agrees :: "AvahiDnsPacket \<Rightarrow> AvahiDnsPacket \<Rightarrow> bool" where
  "agrees p q =
     (psize p \<le> psize q \<and> rindex q = rindex p \<and> (\<forall>i. 12 \<le> i \<and> i < psize p \<longrightarrow> pdata q i = pdata p i))"

lemma agrees_at: "agrees p q \<Longrightarrow> agrees (p\<lparr>rindex := i\<rparr>) (q\<lparr>rindex := i\<rparr>)"
  by (simp add: agrees_def)

text \<open>
  \<open>settled n op\<close>: what \<open>op\<close> reads, with \<open>n\<close> bytes ahead, it also reads from a packet with more behind.
\<close>

definition settled :: "nat \<Rightarrow> 'a packet_op \<Rightarrow> bool" where
  "settled n op = (\<forall>p q a p'. op p = Some (Some a, p') \<longrightarrow> agrees p q \<longrightarrow> 12 \<le> rindex p \<longrightarrow> rindex p + n \<le> psize p \<longrightarrow>
     (\<exists>i. p' = p\<lparr>rindex := i\<rparr> \<and> rindex p \<le> i \<and> i \<le> psize p \<and> op q = Some (Some a, q\<lparr>rindex := i\<rparr>)))"

lemma settledI:
  assumes "\<And>p q a p'. op p = Some (Some a, p') \<Longrightarrow> agrees p q \<Longrightarrow> 12 \<le> rindex p \<Longrightarrow> rindex p + n \<le> psize p \<Longrightarrow>
    \<exists>i. p' = p\<lparr>rindex := i\<rparr> \<and> rindex p \<le> i \<and> i \<le> psize p \<and> op q = Some (Some a, q\<lparr>rindex := i\<rparr>)"
  shows "settled n op"
  using assms unfolding settled_def by blast

lemma settledE:
  assumes "settled n op" "op p = Some (Some a, p')" "agrees p q" "12 \<le> rindex p" "rindex p + n \<le> psize p"
  obtains i where "p' = p\<lparr>rindex := i\<rparr>" "rindex p \<le> i" "i \<le> psize p" "op q = Some (Some a, q\<lparr>rindex := i\<rparr>)"
  using assms unfolding settled_def by blast

lemma settled_weaken: "settled n op \<Longrightarrow> n \<le> m \<Longrightarrow> settled m op"
  unfolding settled_def by (meson add_left_mono le_trans)

lemma settled_ret: "settled n (\<lambda>p. Some (Some a, p))"
proof (rule settledI)
  fix p q b p'
  assume "Some (Some a, p) = Some (Some b, p')" "agrees p q" "rindex p + n \<le> psize p"
  then show "\<exists>i. p' = p\<lparr>rindex := i\<rparr> \<and> rindex p \<le> i \<and> i \<le> psize p \<and> Some (Some a, q) = Some (Some b, q\<lparr>rindex := i\<rparr>)"
    by (intro exI [of _ "rindex p"]) (simp add: agrees_def)
qed

lemma settled_fail: "settled n (\<lambda>p. Some (None, p))" "settled n (\<lambda>p. None)"
  by (simp_all add: settled_def)

lemma settled_bind:
  assumes "settled n op" "\<And>a. settled 0 (g a)"
  shows "settled n (\<lambda>p. op_bind (op p) g)"
proof (rule settledI)
  fix p q b p'
  assume b: "op_bind (op p) g = Some (Some b, p')" and q: "agrees p q" "12 \<le> rindex p" "rindex p + n \<le> psize p"
  then obtain a p1 where a: "op p = Some (Some a, p1)" "g a p1 = Some (Some b, p')" by (auto simp: op_bind_Some)
  obtain i where i: "p1 = p\<lparr>rindex := i\<rparr>" "rindex p \<le> i" "i \<le> psize p" "op q = Some (Some a, q\<lparr>rindex := i\<rparr>)"
    using assms(1) a(1) q by (rule settledE)
  have "agrees p1 (q\<lparr>rindex := i\<rparr>)" unfolding i(1) by (rule agrees_at [OF q(1)])
  moreover have "12 \<le> rindex p1" "rindex p1 + 0 \<le> psize p1" using i(1-3) q(2) by simp_all
  ultimately obtain j where "p' = p1\<lparr>rindex := j\<rparr>" "rindex p1 \<le> j" "j \<le> psize p1"
    "g a (q\<lparr>rindex := i\<rparr>) = Some (Some b, q\<lparr>rindex := i, rindex := j\<rparr>)"
    using settledE [OF assms(2) a(2)] by metis
  with i show "\<exists>i. p' = p\<lparr>rindex := i\<rparr> \<and> rindex p \<le> i \<and> i \<le> psize p \<and> op_bind (op q) g = Some (Some b, q\<lparr>rindex := i\<rparr>)"
    by (intro exI [of _ j]) (simp add: op_bind_def)
qed

lemma read_bytes_agrees:
  "agrees p q \<Longrightarrow> 12 \<le> off \<Longrightarrow> off + n \<le> psize p \<Longrightarrow> read_bytes (pdata q) off n = read_bytes (pdata p) off n"
  by (intro read_bytes_cong) (simp add: agrees_def)

lemma settled_advance:
  assumes "\<And>p. op p = (if rindex p + n > psize p then Some (None, p)
      else Some (Some (f (pdata p) (rindex p)), p\<lparr>rindex := rindex p + n\<rparr>))"
    and "\<And>m m' off. (\<And>j. off \<le> j \<Longrightarrow> j < off + n \<Longrightarrow> m' j = m j) \<Longrightarrow> f m' off = f m off"
  shows "settled k op"
proof (rule settledI)
  fix p q a p'
  assume op: "op p = Some (Some a, p')" and q: "agrees p q" "12 \<le> rindex p"
  then have "rindex p + n \<le> psize p" "a = f (pdata p) (rindex p)" "p' = p\<lparr>rindex := rindex p + n\<rparr>"
    by (auto simp: assms(1) split: if_splits)
  moreover from this have "f (pdata q) (rindex p) = f (pdata p) (rindex p)"
    using q by (intro assms(2)) (auto simp: agrees_def)
  ultimately show "\<exists>i. p' = p\<lparr>rindex := i\<rparr> \<and> rindex p \<le> i \<and> i \<le> psize p \<and> op q = Some (Some a, q\<lparr>rindex := i\<rparr>)"
    using q by (intro exI [of _ "rindex p + n"]) (auto simp: assms(1) agrees_def)
qed

lemma settled_uint16: "settled k avahi_dns_packet_consume_uint16"
  by (rule settled_advance [where f = get16 and n = 2])
    (simp_all add: avahi_dns_packet_consume_uint16_def, simp add: get16_def)

lemma settled_uint32: "settled k avahi_dns_packet_consume_uint32"
  by (rule settled_advance [where f = get32 and n = 4])
    (simp_all add: avahi_dns_packet_consume_uint32_def, simp add: get32_def)

lemma settled_bytes: "0 < n \<Longrightarrow> settled k (avahi_dns_packet_consume_bytes n)"
  by (rule settled_advance [where f = "\<lambda>m off. read_bytes m off n" and n = n])
    (simp_all add: avahi_dns_packet_consume_bytes_def, intro read_bytes_cong, simp)

lemma settled_skip: "settled k (avahi_dns_packet_skip n)"
  by (rule settled_advance [where f = "\<lambda>_ _. ()" and n = n]) (simp_all add: avahi_dns_packet_skip_def)

lemma settled_string:
  assumes "0 < l"
  shows "settled n (avahi_dns_packet_consume_string l)"
proof (rule settledI)
  fix p q a p'
  assume op: "avahi_dns_packet_consume_string l p = Some (Some a, p')" and q: "agrees p q" "12 \<le> rindex p"
  let ?k = "ucode (pdata p (rindex p))" and ?l = "\<lambda>k. (if l > k + 1 then k + 1 else l) - 1"
  have p: "rindex p < psize p" "rindex p + 1 + ?k \<le> psize p" "p' = p\<lparr>rindex := rindex p + (1 + ?k)\<rparr>"
    "a = read_bytes (pdata p) (rindex p + 1) (?l ?k)"
    using op assms by (auto simp: avahi_dns_packet_consume_string_def Let_def split: if_splits)
  moreover have "pdata q (rindex p) = pdata p (rindex p)" "rindex q = rindex p" "psize p \<le> psize q"
    using q p(1) by (simp_all add: agrees_def)
  moreover have "read_bytes (pdata q) (rindex p + 1) (?l ?k) = read_bytes (pdata p) (rindex p + 1) (?l ?k)"
    using q p(2) by (intro read_bytes_agrees) (auto simp: agrees_def)
  ultimately show "\<exists>i. p' = p\<lparr>rindex := i\<rparr> \<and> rindex p \<le> i \<and> i \<le> psize p \<and>
      avahi_dns_packet_consume_string l q = Some (Some a, q\<lparr>rindex := i\<rparr>)"
    using assms by (intro exI [of _ "rindex p + (1 + ?k)"]) (simp add: avahi_dns_packet_consume_string_def Let_def)
qed

text \<open>Names: the bytes of the stored labels are behind the header, even where pointers lead.\<close>

lemma consume_labels_loop_settled:
  assumes "consume_labels_loop i p idx l ret compressed first out = Some (Some r)" "agrees p q" "12 \<le> idx"
  shows "consume_labels_loop i q idx l ret compressed first out = Some (Some r)"
  using assms(1,3)
proof (induction i arbitrary: idx l ret compressed first out)
  case (Suc i)
  let ?n = "ucode (pdata p idx)"
  have idx: "idx + 1 \<le> psize p" using Suc.prems(1) by (simp add: not_less split: if_splits)
  have n: "pdata q idx = pdata p idx" "idx + 1 \<le> psize q" "psize p \<le> psize q"
    using assms(2) idx Suc.prems(2) by (simp_all add: agrees_def)
  consider (last) "?n = 0" | (label) "0 < ?n" "?n \<le> 63" | (ptr) "63 < ?n" "?n AND 0xC0 = 0xC0"
    using Suc.prems(1) idx by (fastforce simp: Let_def split: if_splits)
  then show ?case
  proof cases
    case last
    with Suc.prems(1) idx n show ?thesis by (simp split: if_splits)
  next
    case label
    then have fits: "idx + 1 + ?n \<le> psize p" using Suc.prems(1) idx by (auto simp: Let_def split: if_splits)
    have "read_bytes (pdata q) (idx + 1) ?n = read_bytes (pdata p) (idx + 1) ?n"
      using assms(2) fits Suc.prems(2) by (intro read_bytes_agrees) auto
    with label fits Suc.prems idx n show ?thesis
      by (auto simp: Let_def Suc.IH split: if_splits option.splits prod.splits bool.splits)
  next
    case ptr
    then have fits: "idx + 2 \<le> psize p" using Suc.prems(1) idx by (auto simp: Let_def split: if_splits)
    then have "pdata q (idx + 1) = pdata p (idx + 1)" using assms(2) Suc.prems(2) by (simp add: agrees_def)
    with ptr fits Suc.prems idx n show ?thesis by (auto simp: Let_def Suc.IH split: if_splits)
  qed
qed simp

lemma settled_name:
  assumes "0 < l"
  shows "settled n (avahi_dns_packet_consume_name l)"
proof (rule settledI)
  fix p q a p'
  assume op: "avahi_dns_packet_consume_name l p = Some (Some a, p')" and q: "agrees p q" "12 \<le> rindex p"
  then obtain k where k: "consume_labels p (rindex p) l = Some (Some (a, k))" "p' = p\<lparr>rindex := rindex p + k\<rparr>"
    by (auto simp: avahi_dns_packet_consume_name_def split: option.splits)
  obtain ls j where "wire_name (pdata p) (psize p) (rindex p) ls j k"
    using consume_labels_stored [OF assms] k(1) by blast
  then have "rindex p + k \<le> psize p" using wire_name_in by blast
  moreover have "consume_labels q (rindex p) l = Some (Some (a, k))"
    using k(1) consume_labels_loop_settled [OF _ q] assms by (simp add: consume_labels_def)
  ultimately show "\<exists>i. p' = p\<lparr>rindex := i\<rparr> \<and> rindex p \<le> i \<and> i \<le> psize p \<and>
      avahi_dns_packet_consume_name l q = Some (Some a, q\<lparr>rindex := i\<rparr>)"
    using k(2) q(1) by (intro exI [of _ "rindex p + k"]) (simp add: avahi_dns_packet_consume_name_def agrees_def)
qed

lemma settled_at_rptr:
  assumes "\<And>bs. settled n (\<lambda>p. g bs p)"
  shows "settled n (\<lambda>p. case at_rptr n p of None \<Rightarrow> None | Some bs \<Rightarrow> g bs p)"
proof (rule settledI)
  fix p q :: AvahiDnsPacket and a p'
  let ?bs = "read_bytes (pdata p) (rindex p) n"
  assume op: "(case at_rptr n p of None \<Rightarrow> None | Some bs \<Rightarrow> g bs p) = Some (Some a, p')"
    and q: "agrees p q" "12 \<le> rindex p" "rindex p + n \<le> psize p"
  then have at: "at_rptr n p = Some ?bs" by (simp add: at_rptr_def avahi_dns_packet_get_rptr_def)
  have "at_rptr n q = Some ?bs"
    using q read_bytes_agrees [OF q] by (simp add: at_rptr_def avahi_dns_packet_get_rptr_def agrees_def)
  moreover have "g ?bs p = Some (Some a, p')" using op at by simp
  then obtain i where "p' = p\<lparr>rindex := i\<rparr>" "rindex p \<le> i" "i \<le> psize p" "g ?bs q = Some (Some a, q\<lparr>rindex := i\<rparr>)"
    by (rule settledE [OF assms _ q])
  ultimately show "\<exists>i. p' = p\<lparr>rindex := i\<rparr> \<and> rindex p \<le> i \<and> i \<le> psize p \<and>
      (case at_rptr n q of None \<Rightarrow> None | Some bs \<Rightarrow> g bs q) = Some (Some a, q\<lparr>rindex := i\<rparr>)"
    by auto
qed

lemma settled_option: "(\<And>a. x = Some a \<Longrightarrow> settled n (g a)) \<Longrightarrow> settled n (\<lambda>p. case x of None \<Rightarrow> Some (None, p) | Some a \<Rightarrow> g a p)"
  by (cases x) (simp_all add: settled_fail)

lemma settled_result:
  assumes "\<And>a. settled n (g a)"
  shows "settled n (\<lambda>p. case x of None \<Rightarrow> None | Some None \<Rightarrow> Some (None, p) | Some (Some a) \<Rightarrow> g a p)"
proof (cases x)
  case (Some y)
  with assms show ?thesis by (cases y) (simp_all add: settled_fail)
qed (simp add: settled_fail)

lemma settled_valid:
  "settled n (\<lambda>p. case v of None \<Rightarrow> None | Some False \<Rightarrow> Some (None, p) | Some True \<Rightarrow> Some (Some a, p))"
proof (cases v)
  case (Some b)
  then show ?thesis by (cases b) (simp_all add: settled_fail settled_ret)
qed (simp add: settled_fail)

lemma name_max_pos: "0 < AVAHI_DOMAIN_NAME_MAX"
  by (simp add: AVAHI_DOMAIN_NAME_MAX_def)

lemma settled_parse_kind: "settled n (parse_rdata_kind kind n)"
proof -
  note bind = settled_bind settled_ret settled_name [OF name_max_pos] settled_string [OF name_max_pos]
    settled_uint16 settled_skip settled_bytes
  show ?thesis
  proof (cases kind)
    case K_TXT
    have "settled n (\<lambda>p. case at_rptr n p of None \<Rightarrow> None | Some bs \<Rightarrow>
        (case avahi_string_list_parse bs of None \<Rightarrow> Some (None, p)
         | Some l \<Rightarrow> op_bind (avahi_dns_packet_skip n p) (\<lambda>_ p. Some (Some (RD_TXT l), p))))"
      by (intro settled_at_rptr settled_option bind)
    then show ?thesis unfolding K_TXT parse_rdata_kind_def [abs_def] rr_kind.case
      by (cases "0 < n") (simp_all add: settled_ret)
  next
    case K_GENERIC
    have "settled n (\<lambda>p. case at_rptr n p of None \<Rightarrow> None
        | Some bs \<Rightarrow> op_bind (avahi_dns_packet_skip n p) (\<lambda>_ p. Some (Some (RD_GENERIC bs), p)))"
      by (intro settled_at_rptr bind)
    then show ?thesis unfolding K_GENERIC parse_rdata_kind_def [abs_def] rr_kind.case
      by (cases "0 < n") (simp_all add: settled_ret)
  qed (simp_all only: parse_rdata_kind_def [abs_def] rr_kind.case, (intro bind; simp)+)
qed

lemma settled_parse_rdata: "settled n (parse_rdata r n)"
proof (rule settledI)
  fix p q a p'
  assume op: "parse_rdata r n p = Some (Some a, p')" and q: "agrees p q" "12 \<le> rindex p" "rindex p + n \<le> psize p"
  obtain d where d: "parse_rdata_kind (rr_kind (key_type (rkey r))) n p = Some (Some d, p')"
    "rindex p' - rindex p = n" "a = r\<lparr>rdata := d\<rparr>"
    using op by (auto simp: parse_rdata_def op_bind_Some split: if_splits)
  obtain i where "p' = p\<lparr>rindex := i\<rparr>" "rindex p \<le> i" "i \<le> psize p"
    "parse_rdata_kind (rr_kind (key_type (rkey r))) n q = Some (Some d, q\<lparr>rindex := i\<rparr>)"
    by (rule settledE [OF settled_parse_kind d(1) q])
  with d q(1) show "\<exists>i. p' = p\<lparr>rindex := i\<rparr> \<and> rindex p \<le> i \<and> i \<le> psize p \<and> parse_rdata r n q = Some (Some a, q\<lparr>rindex := i\<rparr>)"
    by (intro exI [of _ i]) (simp add: parse_rdata_def op_bind_def agrees_def)
qed

lemma settled_guard:
  assumes "settled n op"
  shows "settled 0 (\<lambda>p. if rindex p + n > psize p then Some (None, p) else op p)"
proof (rule settledI)
  fix p q a p'
  assume op: "(if rindex p + n > psize p then Some (None, p) else op p) = Some (Some a, p')"
    and q: "agrees p q" "12 \<le> rindex p"
  then have "op p = Some (Some a, p')" "rindex p + n \<le> psize p" by (auto split: if_splits)
  with assms q obtain i where "p' = p\<lparr>rindex := i\<rparr>" "rindex p \<le> i" "i \<le> psize p" "op q = Some (Some a, q\<lparr>rindex := i\<rparr>)"
    by (metis settledE)
  with \<open>rindex p + n \<le> psize p\<close> q(1)
  show "\<exists>i. p' = p\<lparr>rindex := i\<rparr> \<and> rindex p \<le> i \<and> i \<le> psize p \<and>
      (if rindex q + n > psize q then Some (None, q) else op q) = Some (Some a, q\<lparr>rindex := i\<rparr>)"
    by (intro exI [of _ i]) (simp add: agrees_def)
qed

lemma settled_record: "settled 0 avahi_dns_packet_consume_record"
proof -
  have end_of: "settled n (\<lambda>p. op_bind (parse_rdata r n p) (\<lambda>r p. case avahi_record_is_valid r of None \<Rightarrow> None
      | Some False \<Rightarrow> Some (None, p) | Some True \<Rightarrow> Some (Some (r, flush), p)))" for n r flush
    by (intro settled_bind settled_parse_rdata settled_valid)
  have tail: "settled 0 (\<lambda>p. if rindex p + n > psize p then Some (None, p)
      else (case avahi_record_new_full name c type t of None \<Rightarrow> None | Some None \<Rightarrow> Some (None, p)
        | Some (Some r) \<Rightarrow> op_bind (parse_rdata r n p) (\<lambda>r p. case avahi_record_is_valid r of None \<Rightarrow> None
            | Some False \<Rightarrow> Some (None, p) | Some True \<Rightarrow> Some (Some (r, flush), p))))" for n name c type t flush
    by (intro settled_guard settled_result end_of)
  show ?thesis
    unfolding avahi_dns_packet_consume_record_def [abs_def] Let_def
    by (intro settled_bind settled_name settled_uint16 settled_uint32 tail name_max_pos)
qed

lemma settled_key: "settled 0 avahi_dns_packet_consume_key"
proof -
  have tail: "settled 0 (\<lambda>p. case avahi_key_new name c type of None \<Rightarrow> None | Some None \<Rightarrow> Some (None, p)
      | Some (Some k) \<Rightarrow> if \<not> avahi_key_is_valid k then Some (None, p) else Some (Some (k, u), p))" for name c type u
  proof (rule settled_result)
    show "settled 0 (\<lambda>p. if \<not> avahi_key_is_valid k then Some (None, p) else Some (Some (k, u), p))" for k
      by (cases "avahi_key_is_valid k") (simp_all add: settled_fail settled_ret)
  qed
  show ?thesis
    unfolding avahi_dns_packet_consume_key_def [abs_def] Let_def
    by (intro settled_bind settled_name settled_uint16 tail) simp
qed

section \<open>The content of a packet\<close>

primrec consume_many :: "'a packet_op \<Rightarrow> nat \<Rightarrow> 'a list packet_op" where
  "consume_many op 0 p = Some (Some [], p)"
| "consume_many op (Suc n) p =
     op_bind (op p) (\<lambda>a p. op_bind (consume_many op n p) (\<lambda>as p. Some (Some (a # as), p)))"

lemma settled_many: "settled 0 op \<Longrightarrow> settled 0 (consume_many op n)"
proof (induction n)
  case 0
  show ?case by (simp add: settled_ret [of 0 "[]"])
next
  case (Suc n)
  then show ?case by (simp add: settled_bind settled_ret)
qed

lemma consume_many_snoc:
  "consume_many op n p = Some (Some as, p1) \<Longrightarrow> op p1 = Some (Some a, p2) \<Longrightarrow>
   consume_many op (Suc n) p = Some (Some (as @ [a]), p2)"
proof (induction n arbitrary: p as)
  case (Suc n)
  from Suc.prems(1) obtain b q bs where b: "op p = Some (Some b, q)" "consume_many op n q = Some (Some bs, p1)"
    "as = b # bs" by (auto simp: op_bind_Some)
  from Suc.IH [OF b(2) Suc.prems(2)] b show ?case by (simp add: op_bind_def)
qed (simp add: op_bind_def)

text \<open>
  \<open>holds p ks rs\<close>: behind the header are the questions \<open>ks\<close> with their unicast response bits, the records \<open>rs\<close> with
  their cache flush bits, and nothing else.
\<close>

definition holds :: "AvahiDnsPacket \<Rightarrow> (AvahiKey \<times> bool) list \<Rightarrow> (AvahiRecord \<times> bool) list \<Rightarrow> bool" where
  "holds p ks rs =
     (packet_ok p \<and> 12 + length ks + length rs \<le> psize p \<and>
      (\<exists>i. 12 \<le> i \<and> i \<le> psize p \<and>
         consume_many avahi_dns_packet_consume_key (length ks) (p\<lparr>rindex := 12\<rparr>) = Some (Some ks, p\<lparr>rindex := i\<rparr>) \<and>
         consume_many avahi_dns_packet_consume_record (length rs) (p\<lparr>rindex := i\<rparr>) =
           Some (Some rs, p\<lparr>rindex := psize p\<rparr>)))"

lemma holdsE:
  assumes "holds p ks rs"
  obtains i where "12 \<le> i" "i \<le> psize p"
    "consume_many avahi_dns_packet_consume_key (length ks) (p\<lparr>rindex := 12\<rparr>) = Some (Some ks, p\<lparr>rindex := i\<rparr>)"
    "consume_many avahi_dns_packet_consume_record (length rs) (p\<lparr>rindex := i\<rparr>) = Some (Some rs, p\<lparr>rindex := psize p\<rparr>)"
  using assms unfolding holds_def by blast

lemma holds_ok: "holds p ks rs \<Longrightarrow> packet_ok p" "holds p ks rs \<Longrightarrow> 12 + length ks + length rs \<le> psize p"
  by (simp_all add: holds_def)

lemma holds_new: "packet_ok p \<Longrightarrow> psize p = 12 \<Longrightarrow> holds p [] []"
  unfolding holds_def by (intro conjI exI [of _ 12]) simp_all

text \<open>What has been read is read from a packet with more behind as well.\<close>

lemma many_later:
  assumes "settled 0 op" "consume_many op n (p\<lparr>rindex := i\<rparr>) = Some (Some as, p\<lparr>rindex := j\<rparr>)"
    and "agrees (p\<lparr>rindex := i\<rparr>) (q\<lparr>rindex := i\<rparr>)" "12 \<le> i" "i \<le> psize p"
  shows "consume_many op n (q\<lparr>rindex := i\<rparr>) = Some (Some as, q\<lparr>rindex := j\<rparr>)"
proof -
  obtain k where "p\<lparr>rindex := j\<rparr> = p\<lparr>rindex := i, rindex := k\<rparr>"
    "consume_many op n (q\<lparr>rindex := i\<rparr>) = Some (Some as, q\<lparr>rindex := i, rindex := k\<rparr>)"
    by (rule settledE [OF settled_many [OF assms(1)] assms(2,3)]) (use assms(4,5) in simp_all)
  moreover from this(1) have "k = j" using arg_cong [of _ _ rindex] by fastforce
  ultimately show ?thesis by simp
qed

lemma holds_agrees:
  assumes "holds p ks rs" "packet_ok q" "psize q = psize p" "\<And>i. 12 \<le> i \<Longrightarrow> i < psize p \<Longrightarrow> pdata q i = pdata p i"
  shows "holds q ks rs"
proof -
  obtain i where i: "12 \<le> i" "i \<le> psize p"
    "consume_many avahi_dns_packet_consume_key (length ks) (p\<lparr>rindex := 12\<rparr>) = Some (Some ks, p\<lparr>rindex := i\<rparr>)"
    "consume_many avahi_dns_packet_consume_record (length rs) (p\<lparr>rindex := i\<rparr>) = Some (Some rs, p\<lparr>rindex := psize p\<rparr>)"
    using assms(1) by (rule holdsE)
  have ag: "agrees (p\<lparr>rindex := j\<rparr>) (q\<lparr>rindex := j\<rparr>)" for j using assms(3,4) by (simp add: agrees_def)
  note many_later [OF settled_key i(3) ag] many_later [OF settled_record i(4) ag i(1,2)]
  with i assms(1-3) show ?thesis unfolding holds_def by auto
qed

lemma holds_set_field:
  assumes "holds p ks rs" "idx < 6"
  obtains p' where "avahi_dns_packet_set_field p idx v = Some p'" "holds p' ks rs" "psize p' = psize p"
    "max_size p' = max_size p" "\<And>j. j < 6 \<Longrightarrow> avahi_dns_packet_get_field p' j = (if j = idx then Some v else avahi_dns_packet_get_field p j)"
proof -
  obtain p' where p': "avahi_dns_packet_set_field p idx v = Some p'" "psize p' = psize p" "max_size p' = max_size p"
    "packet_ok p \<Longrightarrow> packet_ok p'"
    "\<And>j. j < 6 \<Longrightarrow> avahi_dns_packet_get_field p' j = (if j = idx then Some v else avahi_dns_packet_get_field p j)"
    by (rule set_field [OF assms(2), of p v]) (rule that)
  have "pdata p' i = pdata p i" if "12 \<le> i" for i
    using p'(1) that assms(2) by (auto simp: avahi_dns_packet_set_field_def write_bytes_above)
  with holds_agrees [OF assms(1)] p' that assms(1) show ?thesis by (simp add: holds_ok)
qed

section \<open>Appending\<close>

lemma consume_at_end: "psize p \<le> rindex p \<Longrightarrow> avahi_dns_packet_consume_name l p \<in> {None, Some (None, p)}"
  by (simp add: avahi_dns_packet_consume_name_def consume_labels_def numeral_eq_Suc)

lemma consume_record_grows:
  assumes "avahi_dns_packet_consume_record (p\<lparr>rindex := i\<rparr>) = Some (Some a, q)"
  shows "i < psize p"
proof (rule ccontr)
  assume "\<not> i < psize p"
  then have "avahi_dns_packet_consume_name AVAHI_DOMAIN_NAME_MAX (p\<lparr>rindex := i\<rparr>) \<in> {None, Some (None, p\<lparr>rindex := i\<rparr>)}"
    by (intro consume_at_end) simp
  with assms show False by (auto simp: avahi_dns_packet_consume_record_def op_bind_def)
qed

lemma consume_key_grows:
  assumes "avahi_dns_packet_consume_key (p\<lparr>rindex := i\<rparr>) = Some (Some a, q)"
  shows "i < psize p"
proof (rule ccontr)
  assume "\<not> i < psize p"
  then have "avahi_dns_packet_consume_name 256 (p\<lparr>rindex := i\<rparr>) \<in> {None, Some (None, p\<lparr>rindex := i\<rparr>)}"
    by (intro consume_at_end) simp
  with assms show False by (auto simp: avahi_dns_packet_consume_key_def op_bind_def)
qed

lemma extends_agrees: "extends p q \<Longrightarrow> agrees (p\<lparr>rindex := i\<rparr>) (q\<lparr>rindex := i\<rparr>)"
  by (simp add: extends_def agrees_def)

text \<open>What can be sent and will be read: names in normal form, data that fits its type, and no TTL that stands for the default.\<close>

definition sendable :: "AvahiRecord \<Rightarrow> bool" where
  "sendable r = ((\<exists>ls. normal_name (key_name (rkey r)) ls) \<and> record_ok r \<and> rdata_wire_ok r \<and>
     clazz (rkey r) AND AVAHI_DNS_CACHE_FLUSH = 0 \<and> ttl r \<noteq> -1)"

definition askable :: "AvahiKey \<Rightarrow> bool" where
  "askable k = ((\<exists>ls. normal_name (key_name k) ls) \<and> clazz k AND AVAHI_DNS_UNICAST_RESPONSE = 0 \<and>
     length (key_name k) < 256)"

text \<open>The number of bytes that are always enough.\<close>

definition record_space :: "AvahiRecord \<Rightarrow> nat" where
  "record_space r = wire_len (the (name_labels (key_name (rkey r)))) + 10 + rdata_len (rdata r)"

definition key_space :: "AvahiKey \<Rightarrow> nat" where
  "key_space k = wire_len (the (name_labels (key_name k))) + 4"

lemma append_record_holds:
  assumes "holds p ks rs" "sendable r"
  obtains (fits) p' where "avahi_dns_packet_append_record r flush 0 p = Some (Some (psize p), p')"
      "holds p' ks (rs @ [(r, flush)])" "extends p p'" "psize p < psize p'"
  | (full) p' where "avahi_dns_packet_append_record r flush 0 p = Some (None, p')" "holds p' ks rs" "extends p p'"
      "psize p' = psize p" "max_size p < psize p + record_space r"
proof -
  obtain ls where r: "normal_name (key_name (rkey r)) ls" "record_ok r" "rdata_wire_ok r"
    "clazz (rkey r) AND AVAHI_DNS_CACHE_FLUSH = 0" "ttl r \<noteq> -1" using assms(2) by (auto simp: sendable_def)
  have space: "record_space r = wire_len ls + 10 + rdata_len (rdata r)"
    using name_ok_the [OF r(1)] by (simp add: record_space_def)
  have "\<exists>res p'. avahi_dns_packet_append_record r flush 0 p = Some (res, p') \<and>
    packet_ok p' \<and> extends p p' \<and> (res = None \<longrightarrow> psize p' = psize p) \<and>
    (psize p + wire_len ls + 10 + rdata_len (rdata r) \<le> max_size p \<longrightarrow> res \<noteq> None) \<and>
    (res \<noteq> None \<longrightarrow> res = Some (psize p) \<and>
       avahi_dns_packet_consume_record (p'\<lparr>rindex := psize p\<rparr>) =
         Some (Some (r\<lparr>ttl := ttl r\<rparr>, flush), p'\<lparr>rindex := psize p'\<rparr>))"
    by (rule append_record_facts [OF holds_ok(1) [OF assms(1)] r(1-4) _ r(5)]) simp
  then obtain res p' where p': "avahi_dns_packet_append_record r flush 0 p = Some (res, p')" "packet_ok p'"
    "extends p p'" "res = None \<longrightarrow> psize p' = psize p"
    "psize p + wire_len ls + 10 + rdata_len (rdata r) \<le> max_size p \<longrightarrow> res \<noteq> None"
    "res \<noteq> None \<longrightarrow> res = Some (psize p) \<and> avahi_dns_packet_consume_record (p'\<lparr>rindex := psize p\<rparr>) =
         Some (Some (r, flush), p'\<lparr>rindex := psize p'\<rparr>)" by auto
  show ?thesis
  proof (cases res)
    case None
    with p'(4) have sz: "psize p' = psize p" by simp
    have "holds p' ks rs" by (rule holds_agrees [OF assms(1) p'(2) sz]) (use p'(3) in \<open>simp add: extends_def\<close>)
    moreover have "max_size p < psize p + record_space r" using p'(5) None space by auto
    ultimately show ?thesis using full p'(1,3) sz None by blast
  next
    case (Some t)
    then have t: "res = Some (psize p)" and rd: "avahi_dns_packet_consume_record (p'\<lparr>rindex := psize p\<rparr>) =
         Some (Some (r, flush), p'\<lparr>rindex := psize p'\<rparr>)" using p'(6) by auto
    obtain i where i: "12 \<le> i" "i \<le> psize p"
      "consume_many avahi_dns_packet_consume_key (length ks) (p\<lparr>rindex := 12\<rparr>) = Some (Some ks, p\<lparr>rindex := i\<rparr>)"
      "consume_many avahi_dns_packet_consume_record (length rs) (p\<lparr>rindex := i\<rparr>) = Some (Some rs, p\<lparr>rindex := psize p\<rparr>)"
      using assms(1) by (rule holdsE)
    note ag = extends_agrees [OF p'(3)] and sz = holds_ok(2) [OF assms(1)]
    note keys = many_later [OF settled_key i(3) ag] and recs = many_later [OF settled_record i(4) ag i(1,2)]
    have g: "psize p < psize p'" by (rule consume_record_grows [OF rd])
    have "holds p' ks (rs @ [(r, flush)])"
      unfolding holds_def
    proof (intro conjI exI [of _ i])
      show "12 + length ks + length (rs @ [(r, flush)]) \<le> psize p'" using sz g by simp
      show "consume_many avahi_dns_packet_consume_key (length ks) (p'\<lparr>rindex := 12\<rparr>) = Some (Some ks, p'\<lparr>rindex := i\<rparr>)"
        using keys sz by simp
      show "consume_many avahi_dns_packet_consume_record (length (rs @ [(r, flush)])) (p'\<lparr>rindex := i\<rparr>) =
          Some (Some (rs @ [(r, flush)]), p'\<lparr>rindex := psize p'\<rparr>)"
        using consume_many_snoc [OF recs rd] by simp
    qed (use p'(2) i g in simp_all)
    then show ?thesis using fits p'(1,3) t g by blast
  qed
qed

lemma append_key_holds:
  assumes "holds p ks []" "askable k"
  obtains (fits) p' where "avahi_dns_packet_append_key k unicast p = Some (Some (psize p), p')"
      "holds p' (ks @ [(k, unicast)]) []" "extends p p'" "psize p < psize p'"
  | (full) p' where "avahi_dns_packet_append_key k unicast p = Some (None, p')" "holds p' ks []" "extends p p'"
      "psize p' = psize p" "max_size p < psize p + key_space k"
proof -
  obtain ls where k: "normal_name (key_name k) ls" "clazz k AND AVAHI_DNS_UNICAST_RESPONSE = 0" "length (key_name k) < 256"
    using assms(2) by (auto simp: askable_def)
  have space: "key_space k = wire_len ls + 4" using name_ok_the [OF k(1)] by (simp add: key_space_def)
  obtain res p' where p': "avahi_dns_packet_append_key k unicast p = Some (res, p')" "packet_ok p'"
    "extends p p'" "res = None \<longrightarrow> psize p' = psize p" "psize p + wire_len ls + 4 \<le> max_size p \<longrightarrow> res \<noteq> None"
    "res \<noteq> None \<longrightarrow> res = Some (psize p) \<and> avahi_dns_packet_consume_key (p'\<lparr>rindex := psize p\<rparr>) =
         Some (Some (k, unicast), p'\<lparr>rindex := psize p'\<rparr>)"
    using append_key_facts [OF holds_ok(1) [OF assms(1)] k(1,2), of unicast] k(3) by auto
  show ?thesis
  proof (cases res)
    case None
    with p'(4) have sz: "psize p' = psize p" by simp
    have "holds p' ks []" by (rule holds_agrees [OF assms(1) p'(2) sz]) (use p'(3) in \<open>simp add: extends_def\<close>)
    moreover have "max_size p < psize p + key_space k" using p'(5) None space by auto
    ultimately show ?thesis using full p'(1,3) sz None by blast
  next
    case (Some t)
    then have t: "res = Some (psize p)" and rd: "avahi_dns_packet_consume_key (p'\<lparr>rindex := psize p\<rparr>) =
         Some (Some (k, unicast), p'\<lparr>rindex := psize p'\<rparr>)" using p'(6) by auto
    obtain i where i: "12 \<le> i" "i \<le> psize p"
      "consume_many avahi_dns_packet_consume_key (length ks) (p\<lparr>rindex := 12\<rparr>) = Some (Some ks, p\<lparr>rindex := i\<rparr>)"
      "Some (Some [], p\<lparr>rindex := i\<rparr>) = Some (Some [], p\<lparr>rindex := psize p\<rparr>)"
      by (rule holdsE [OF assms(1)]) (use that in simp)
    have "i = psize p" using arg_cong [OF i(4), of "\<lambda>x. rindex (snd (the x))"] by simp
    note ag = extends_agrees [OF p'(3)] and sz = holds_ok(2) [OF assms(1)]
    have g: "psize p < psize p'" by (rule consume_key_grows [OF rd])
    have "consume_many avahi_dns_packet_consume_key (length ks) (p'\<lparr>rindex := 12\<rparr>) = Some (Some ks, p'\<lparr>rindex := psize p\<rparr>)"
      using many_later [OF settled_key i(3) ag] sz \<open>i = psize p\<close> by simp
    note keys = consume_many_snoc [OF this rd]
    have "holds p' (ks @ [(k, unicast)]) []"
      unfolding holds_def by (intro conjI exI [of _ "psize p'"]) (use p'(2) g sz keys in simp_all)
    then show ?thesis using fits p'(1,3) t g by blast
  qed
qed

section \<open>What a receiver finds\<close>

text \<open>The questions and answers of a packet, as many as its header says, read one after the other.\<close>

definition packet_content ::
  "AvahiDnsPacket \<Rightarrow> ((AvahiKey \<times> bool) list \<times> (AvahiRecord \<times> bool) list) option" where
  "packet_content p =
     do {
       qd \<leftarrow> avahi_dns_packet_get_field p AVAHI_DNS_FIELD_QDCOUNT;
       an \<leftarrow> avahi_dns_packet_get_field p AVAHI_DNS_FIELD_ANCOUNT;
       (ks, p) \<leftarrow> consume_many avahi_dns_packet_consume_key (unat qd) (p\<lparr>rindex := AVAHI_DNS_PACKET_HEADER_SIZE\<rparr>);
       ks \<leftarrow> ks;
       (rs, p) \<leftarrow> consume_many avahi_dns_packet_consume_record (unat an) p;
       rs \<leftarrow> rs;
       if rindex p = psize p then Some (ks, rs) else None
     }"

lemma packet_content_counts:
  assumes "holds p ks rs" "length ks < 2 ^ 16" "length rs < 2 ^ 16"
    and "avahi_dns_packet_get_field p AVAHI_DNS_FIELD_QDCOUNT = Some (of_nat (length ks))"
    and "avahi_dns_packet_get_field p AVAHI_DNS_FIELD_ANCOUNT = Some (of_nat (length rs))"
  shows "packet_content p = Some (ks, rs)"
proof -
  obtain i where i: "consume_many avahi_dns_packet_consume_key (length ks) (p\<lparr>rindex := 12\<rparr>) = Some (Some ks, p\<lparr>rindex := i\<rparr>)"
    "consume_many avahi_dns_packet_consume_record (length rs) (p\<lparr>rindex := i\<rparr>) = Some (Some rs, p\<lparr>rindex := psize p\<rparr>)"
    using assms(1) by (rule holdsE)
  have "unat (of_nat (length ks) :: u16) = length ks" "unat (of_nat (length rs) :: u16) = length rs"
    using assms(2,3) by (auto intro!: of_nat_inverse [OF refl])
  with i assms(4,5) show ?thesis by (simp add: packet_content_def)
qed

lemma packet_content_holds:
  assumes "holds p ks rs" "psize p < 2 ^ 16"
    and "avahi_dns_packet_get_field p AVAHI_DNS_FIELD_QDCOUNT = Some (of_nat (length ks))"
    and "avahi_dns_packet_get_field p AVAHI_DNS_FIELD_ANCOUNT = Some (of_nat (length rs))"
  shows "packet_content p = Some (ks, rs)"
  using holds_ok(2) [OF assms(1)] assms(2) by (intro packet_content_counts [OF assms(1) _ _ assms(3,4)]) simp_all

text \<open>The number of bytes that a packet for an MTU may have.\<close>

definition packet_limit :: "nat \<Rightarrow> nat" where
  "packet_limit m = max_size (avahi_dns_packet_new (\<lambda>_. CHR 0x00) m)"

lemma new_packet:
  "psize (avahi_dns_packet_new junk m) = 12" "max_size (avahi_dns_packet_new junk m) = packet_limit m"
  "idx < 6 \<Longrightarrow> avahi_dns_packet_get_field (avahi_dns_packet_new junk m) idx = Some 0"
proof -
  show "psize (avahi_dns_packet_new junk m) = 12" "max_size (avahi_dns_packet_new junk m) = packet_limit m"
    by (simp_all add: avahi_dns_packet_new_def packet_limit_def Let_def)
  assume "idx < 6"
  then show "avahi_dns_packet_get_field (avahi_dns_packet_new junk m) idx = Some 0"
    by (simp add: avahi_dns_packet_get_field_def avahi_dns_packet_new_def Let_def get16_def write_bytes_def)
qed

lemma packet_limit: "packet_limit m = (if m = 0 then 65813 else max 12 (m - 48))"
  by (auto simp: packet_limit_def avahi_dns_packet_new_def Let_def)

lemma set_flags_new:
  fixes v :: u16
  obtains p where "avahi_dns_packet_set_field (avahi_dns_packet_new junk m) AVAHI_DNS_FIELD_FLAGS v = Some p"
    "holds p [] []" "psize p = 12" "max_size p = packet_limit m" "avahi_dns_packet_get_field p AVAHI_DNS_FIELD_FLAGS = Some v"
    "avahi_dns_packet_get_field p AVAHI_DNS_FIELD_QDCOUNT = Some 0" "avahi_dns_packet_get_field p AVAHI_DNS_FIELD_ANCOUNT = Some 0"
proof -
  let ?n = "avahi_dns_packet_new junk m"
  have "holds ?n [] []" by (rule holds_new [OF packet_ok_new new_packet(1)])
  from holds_set_field [OF this, of 1 v] obtain p where
    p: "avahi_dns_packet_set_field ?n 1 v = Some p" "holds p [] []" "psize p = psize ?n" "max_size p = max_size ?n"
    "\<And>j. j < 6 \<Longrightarrow> avahi_dns_packet_get_field p j = (if j = 1 then Some v else avahi_dns_packet_get_field ?n j)"
    by auto
  show ?thesis using that [OF p(1,2)] p(3,4) p(5) [of 1] p(5) [of 2] p(5) [of 3] new_packet by simp
qed

lemma new_query_ok:
  obtains p where "avahi_dns_packet_new_query junk m = Some p" "holds p [] []" "psize p = 12" "max_size p = packet_limit m"
    "avahi_dns_packet_get_field p AVAHI_DNS_FIELD_FLAGS = Some 0" "avahi_dns_packet_get_field p AVAHI_DNS_FIELD_QDCOUNT = Some 0"
    "avahi_dns_packet_get_field p AVAHI_DNS_FIELD_ANCOUNT = Some 0"
proof -
  have "AVAHI_DNS_FLAGS False 0 False False False False False False 0 = 0" by (simp add: AVAHI_DNS_FLAGS_def)
  with set_flags_new [of junk m 0] that show ?thesis unfolding avahi_dns_packet_new_query_def by metis
qed

lemma new_response_ok:
  obtains p where "avahi_dns_packet_new_response junk m True = Some p" "holds p [] []" "psize p = 12" "max_size p = packet_limit m"
    "avahi_dns_packet_get_field p AVAHI_DNS_FIELD_FLAGS = Some (AVAHI_DNS_FLAG_QR OR AVAHI_DNS_FLAG_AA)"
    "avahi_dns_packet_get_field p AVAHI_DNS_FIELD_QDCOUNT = Some 0" "avahi_dns_packet_get_field p AVAHI_DNS_FIELD_ANCOUNT = Some 0"
proof -
  have "AVAHI_DNS_FLAGS True 0 True False False False False False 0 = AVAHI_DNS_FLAG_QR OR AVAHI_DNS_FLAG_AA"
    by (simp add: AVAHI_DNS_FLAGS_def)
  with set_flags_new [of junk m "AVAHI_DNS_FLAG_QR OR AVAHI_DNS_FLAG_AA"] that show ?thesis
    unfolding avahi_dns_packet_new_response_def by metis
qed

text \<open>Appending does not touch the header.\<close>

lemma holds_fields:
  assumes "holds p ks rs" "extends p p'" "idx < 6"
  shows "avahi_dns_packet_get_field p' idx = avahi_dns_packet_get_field p idx"
  using get_field_extends [OF assms(2) _ assms(3)] holds_ok(2) [OF assms(1)] by simp

text \<open>A key that can be asked always fits into a packet of ordinary size.\<close>

lemma key_space_bound: "askable k \<Longrightarrow> key_space k \<le> 261"
proof -
  assume k: "askable k"
  then obtain ls where ls: "normal_name (key_name k) ls" "length (key_name k) < 256" by (auto simp: askable_def)
  have "join_labels ls = key_name k" using normal_nameD [OF ls(1)] by simp
  with wire_len_join [of ls] ls(2) name_ok_the [OF ls(1)] show ?thesis by (simp add: key_space_def)
qed

end
