(* ===== verification/Query_Jobs.thy ===== *)
theory Query_Jobs
  imports Query_Sched Cache_Expiry DNS_Content
begin

text \<open>
  The jobs of the query scheduler: its invariant, and the queries as a map from what is asked to whether it waits
  or was asked a short time ago, and when.
\<close>

section \<open>The invariant\<close>

abbreviation qjobs :: "'o AvahiQueryScheduler \<Rightarrow> nat list" where
  "qjobs s \<equiv> jobs s @ history s"

abbreviation asks :: "'o AvahiQueryScheduler \<Rightarrow> nat \<Rightarrow> question" where
  "asks s j \<equiv> question (qkey (job s j))"

text \<open>When the event of a job is due.\<close>

definition qdue :: "AvahiQueryJob \<Rightarrow> timeval" where
  "qdue x = (if qdone x then avahi_timeval_add (qdelivery x) 100000 else qdelivery x)"

text \<open>
  Jobs are on the list that their flag says; what a job asks no other job asks; every job has exactly one event, which
  is due when the job is.
\<close>

definition qs_ok :: "'o AvahiQueryScheduler \<Rightarrow> bool" where
  "qs_ok s =
     (distinct (qjobs s) \<and> inj_on (asks s) (set (qjobs s)) \<and>
      (\<forall>j \<in> set (jobs s). \<not> qdone (job s j) \<and> 1 \<le> n_posted (job s j)) \<and> (\<forall>j \<in> set (history s). qdone (job s j)) \<and>
      (\<forall>j \<in> set (qjobs s). askable (qkey (job s j)) \<and> tv_norm (qdelivery (job s j))) \<and>
      timers_ok (set (qjobs s)) (\<lambda>j. qevent (job s j)) (\<lambda>j. qdue (job s j)) (queue s))"

lemma askable_valid: "askable k \<Longrightarrow> avahi_key_is_valid k"
  unfolding askable_def avahi_key_is_valid_def by (auto intro: normal_name_valid)

lemma qs_okD:
  assumes "qs_ok s"
  shows "distinct (qjobs s)" "inj_on (asks s) (set (qjobs s))"
    "j \<in> set (jobs s) \<Longrightarrow> \<not> qdone (job s j)" "j \<in> set (jobs s) \<Longrightarrow> 1 \<le> n_posted (job s j)"
    "j \<in> set (history s) \<Longrightarrow> qdone (job s j)"
    "j \<in> set (qjobs s) \<Longrightarrow> askable (qkey (job s j))" "j \<in> set (qjobs s) \<Longrightarrow> tv_norm (qdelivery (job s j))"
    "timers_ok (set (qjobs s)) (\<lambda>j. qevent (job s j)) (\<lambda>j. qdue (job s j)) (queue s)" "teq_ok (queue s)"
    "j \<in> set (qjobs s) \<Longrightarrow> avahi_key_is_valid (qkey (job s j))"
  using assms timers_ok_teq askable_valid unfolding qs_ok_def by blast+

section \<open>The queries as a map\<close>

text \<open>For a question, whether it was asked (a short time ago) or is to be asked, and the time.\<close>

definition queries :: "'o AvahiQueryScheduler \<Rightarrow> question \<Rightarrow> (bool \<times> timeval) option" where
  "queries s = map_of (map (\<lambda>j. (asks s j, qdone (job s j), qdelivery (job s j))) (qjobs s))"

lemma queries_job:
  assumes "inj_on (asks s) (set (qjobs s))" "j \<in> set (qjobs s)"
  shows "queries s (asks s j) = Some (qdone (job s j), qdelivery (job s j))"
proof -
  have "map_of (map (\<lambda>j. (asks s j, qdone (job s j), qdelivery (job s j))) js) (asks s j) =
      Some (qdone (job s j), qdelivery (job s j))" if "inj_on (asks s) (set js)" "j \<in> set js" for js
    using that by (induction js) (auto simp: inj_on_def)
  with assms show ?thesis unfolding queries_def by blast
qed

lemma queries_none: "queries s q = None \<longleftrightarrow> q \<notin> asks s ` set (qjobs s)"
  by (force simp: queries_def map_of_eq_None_iff)

text \<open>A map is the queries of a scheduler if it agrees on every job and has nothing else.\<close>

lemma queries_eqI:
  assumes "inj_on (asks s) (set (qjobs s))"
    and "\<And>j. j \<in> set (qjobs s) \<Longrightarrow> m (asks s j) = Some (qdone (job s j), qdelivery (job s j))"
    and "\<And>q. q \<notin> asks s ` set (qjobs s) \<Longrightarrow> m q = None"
  shows "queries s = m"
proof
  fix q
  show "queries s q = m q"
  proof (cases "q \<in> asks s ` set (qjobs s)")
    case True
    with assms(2) queries_job [OF assms(1)] show ?thesis by auto
  next
    case False
    with assms(3) queries_none [of s q] show ?thesis by simp
  qed
qed

section \<open>Freeing\<close>

lemma query_job_free_ok:
  assumes "qs_ok s" "j \<in> set (qjobs s)"
  obtains q where
    "query_job_free j s = Some (s\<lparr>queue := q, jobs := remove1 j (jobs s), history := remove1 j (history s)\<rparr>)"
    "qs_ok (s\<lparr>queue := q, jobs := remove1 j (jobs s), history := remove1 j (history s)\<rparr>)"
    "queries (s\<lparr>queue := q, jobs := remove1 j (jobs s), history := remove1 j (history s)\<rparr>) = (queries s)(asks s j := None)"
proof -
  note ok = qs_okD [OF assms(1)]
  obtain ev where ev: "qevent (job s j) = Some ev" using timers_event [OF ok(8) assms(2)] by blast
  obtain q where q: "avahi_time_event_free ev (queue s) = Some q"
    "timers_ok (set (qjobs s) - {j}) (\<lambda>j. qevent (job s j)) (\<lambda>j. qdue (job s j)) q"
    by (rule timers_free [OF ok(8) assms(2), OF ev])
  let ?s = "s\<lparr>queue := q, jobs := remove1 j (jobs s), history := remove1 j (history s)\<rparr>"
  have d: "distinct (jobs s)" "distinct (history s)" "set (jobs s) \<inter> set (history s) = {}" using ok(1) by auto
  have set: "set (remove1 j (jobs s)) = set (jobs s) - {j}" "set (remove1 j (history s)) = set (history s) - {j}"
    "set (qjobs ?s) = set (qjobs s) - {j}" using d by auto
  have free: "query_job_free j s = Some ?s"
  proof (cases "j \<in> set (jobs s)")
    case True
    then have "j \<notin> set (history s)" "\<not> qdone (job s j)" using d ok(3) by auto
    with True ev q(1) show ?thesis by (simp add: query_job_free_def llist_remove_def remove1_idem)
  next
    case False
    with assms(2) have "j \<in> set (history s)" "qdone (job s j)" using ok(5) by auto
    with False ev q(1) show ?thesis by (simp add: query_job_free_def llist_remove_def remove1_idem)
  qed
  have inj: "inj_on (asks ?s) (set (qjobs ?s))" unfolding set(3) using ok(2) by (auto simp: inj_on_def)
  have "qs_ok ?s"
    unfolding qs_ok_def
  proof (intro conjI)
    show "distinct (qjobs ?s)" using d by (auto simp: set)
    show "timers_ok (set (qjobs ?s)) (\<lambda>j. qevent (job ?s j)) (\<lambda>j. qdue (job ?s j)) (queue ?s)"
      unfolding set(3) using q(2) by simp
    show "\<forall>j \<in> set (qjobs ?s). askable (qkey (job ?s j)) \<and> tv_norm (qdelivery (job ?s j))"
      unfolding set(3) using ok(6,7) by simp
  qed (use inj ok(3-5) set(1,2) in auto)
  moreover have "queries ?s = (queries s)(asks s j := None)"
  proof (rule queries_eqI [OF inj])
    fix i assume "i \<in> set (qjobs ?s)"
    then have i: "i \<in> set (qjobs s)" "i \<noteq> j" unfolding set(3) by auto
    then have "asks s i \<noteq> asks s j" using ok(2) assms(2) by (auto simp: inj_on_def)
    with queries_job [OF ok(2) i(1)] show "((queries s)(asks s j := None)) (asks ?s i) = Some (qdone (job ?s i), qdelivery (job ?s i))"
      by simp
  next
    fix a assume "a \<notin> asks ?s ` set (qjobs ?s)"
    then show "((queries s)(asks s j := None)) a = None" unfolding set(3) using queries_none [of s a] by auto
  qed
  ultimately show ?thesis using that free by blast
qed

section \<open>Putting and changing one job\<close>

lemma query_put:
  assumes ok: "qs_ok s" and d: "distinct (qjobs s')" "set (qjobs s') = insert j (set (qjobs s))"
    and job: "job s' = (job s)(j := x)"
    and other: "\<And>i. i \<in> set (qjobs s) \<Longrightarrow> i \<noteq> j \<Longrightarrow> asks s i \<noteq> question (qkey x)"
    and same: "j \<in> set (qjobs s) \<Longrightarrow> asks s j = question (qkey x)"
    and x: "askable (qkey x)" "tv_norm (qdelivery x)" "\<not> qdone x \<Longrightarrow> 1 \<le> n_posted x"
    and lists: "set (jobs s') = (if qdone x then set (jobs s) - {j} else insert j (set (jobs s)))"
      "set (history s') = (if qdone x then insert j (set (history s)) else set (history s) - {j})"
    and timers: "timers_ok (insert j (set (qjobs s))) ((\<lambda>i. qevent (job s i))(j := qevent x))
      ((\<lambda>i. qdue (job s i))(j := qdue x)) (queue s')"
  shows "qs_ok s' \<and> queries s' = (queries s)(question (qkey x) \<mapsto> (qdone x, qdelivery x))"
proof
  note sok = qs_okD [OF ok]
  have inj: "inj_on (asks s') (set (qjobs s'))"
    unfolding d(2)
  proof (rule inj_onI)
    fix a b assume ab: "a \<in> insert j (set (qjobs s))" "b \<in> insert j (set (qjobs s))" "asks s' a = asks s' b"
    then show "a = b"
      using other [of a] other [of b] inj_onD [OF sok(2), of a b] by (cases "a = j"; cases "b = j") (auto simp: job)
  qed
  have tm: "timers_ok (set (qjobs s')) (\<lambda>i. qevent (job s' i)) (\<lambda>i. qdue (job s' i)) (queue s')"
    unfolding d(2) by (rule timers_ok_cong [OF timers]) (simp add: job)
  show "qs_ok s'"
    unfolding qs_ok_def
  proof (intro conjI)
    show "\<forall>i \<in> set (jobs s'). \<not> qdone (job s' i) \<and> 1 \<le> n_posted (job s' i)"
      using sok(3,4) x(3) by (auto simp: lists job)
    show "\<forall>i \<in> set (history s'). qdone (job s' i)" using sok(5) by (auto simp: lists job)
    show "\<forall>i \<in> set (qjobs s'). askable (qkey (job s' i)) \<and> tv_norm (qdelivery (job s' i))"
      unfolding d(2) using sok(6,7) x(1,2) by (simp add: job)
  qed (use d(1) inj tm in blast)+
  show "queries s' = (queries s)(question (qkey x) \<mapsto> (qdone x, qdelivery x))"
  proof (rule queries_eqI [OF inj])
    fix i assume "i \<in> set (qjobs s')"
    then consider "i = j" | "i \<in> set (qjobs s)" "i \<noteq> j" unfolding d(2) by blast
    then show "((queries s)(question (qkey x) \<mapsto> (qdone x, qdelivery x))) (asks s' i) = Some (qdone (job s' i), qdelivery (job s' i))"
      using other [of i] queries_job [OF sok(2), of i] by cases (simp_all add: job)
  next
    fix a assume "a \<notin> asks s' ` set (qjobs s')"
    then have a: "a \<noteq> question (qkey x)" "\<And>i. i \<in> set (qjobs s) \<Longrightarrow> i \<noteq> j \<Longrightarrow> a \<noteq> asks s i"
      unfolding d(2) by (auto simp: job)
    with same have "a \<notin> asks s ` set (qjobs s)" by blast
    with a(1) show "((queries s)(question (qkey x) \<mapsto> (qdone x, qdelivery x))) a = None" by (simp add: queries_none)
  qed
qed

lemma query_job_mark_done_ok:
  assumes "qs_ok s" "j \<in> set (jobs s)" "tv_norm now"
  obtains q where
    "query_job_mark_done now rnd j s = Some (s\<lparr>queue := q, jobs := remove1 j (jobs s), history := j # history s,
       job := (job s)(j := (job s j)\<lparr>qdone := True, qdelivery := now\<rparr>)\<rparr>)"
    "qs_ok (s\<lparr>queue := q, jobs := remove1 j (jobs s), history := j # history s,
       job := (job s)(j := (job s j)\<lparr>qdone := True, qdelivery := now\<rparr>)\<rparr>)"
    "queries (s\<lparr>queue := q, jobs := remove1 j (jobs s), history := j # history s,
       job := (job s)(j := (job s j)\<lparr>qdone := True, qdelivery := now\<rparr>)\<rparr>) = (queries s)(asks s j \<mapsto> (True, now))"
proof -
  note ok = qs_okD [OF assms(1)]
  have j: "j \<in> set (qjobs s)" "j \<notin> set (history s)" using assms(2) ok(1) by auto
  obtain ev where ev: "qevent (job s j) = Some ev" using timers_event [OF ok(8) j(1)] by blast
  obtain q where q: "avahi_time_event_update ev (avahi_timeval_add now 100000) (queue s) = Some q"
    "timers_ok (set (qjobs s)) (\<lambda>j. qevent (job s j)) ((\<lambda>j. qdue (job s j))(j := avahi_timeval_add now 100000)) q"
    by (rule timers_update [OF ok(8) j(1), OF ev])
  let ?x = "(job s j)\<lparr>qdone := True, qdelivery := now\<rparr>"
  let ?s = "s\<lparr>queue := q, jobs := remove1 j (jobs s), history := j # history s, job := (job s)(j := ?x)\<rparr>"
  have "query_job_mark_done now rnd j s = Some ?s"
    using assms(2) ok(3) ev q(1)
    by (simp add: query_job_mark_done_def query_job_set_elapse_time_def elapse_time_plain llist_remove_def)
  moreover have tm: "timers_ok (set (qjobs s)) ((\<lambda>i. qevent (job s i))(j := qevent ?x)) ((\<lambda>i. qdue (job s i))(j := qdue ?x)) q"
    by (rule timers_ok_cong [OF q(2)]) (simp add: qdue_def)
  have "qs_ok ?s \<and> queries ?s = (queries s)(question (qkey ?x) \<mapsto> (qdone ?x, qdelivery ?x))"
  proof (rule query_put [OF assms(1), where j = j and x = ?x])
    show "asks s i \<noteq> question (qkey ?x)" if "i \<in> set (qjobs s)" "i \<noteq> j" for i
      using ok(2) j(1) that by (auto simp: inj_on_def)
    show "timers_ok (insert j (set (qjobs s))) ((\<lambda>i. qevent (job s i))(j := qevent ?x)) ((\<lambda>i. qdue (job s i))(j := qdue ?x)) (queue ?s)"
      using tm unfolding insert_absorb [OF j(1)] by simp
  qed (use ok(1,6) j assms(2,3) in auto)
  ultimately show ?thesis using that by simp
qed

section \<open>Looking for a job\<close>

lemma find_scheduled_query_ok:
  assumes "qs_ok s" "askable k"
  obtains (absent) "find_scheduled_query s k (jobs s) = Some None" "\<forall>j \<in> set (jobs s). asks s j \<noteq> question k"
  | (found) j where "find_scheduled_query s k (jobs s) = Some (Some j)" "j \<in> set (jobs s)" "asks s j = question k"
proof -
  have "find_scheduled_query s k js = Some None \<and> (\<forall>j \<in> set js. asks s j \<noteq> question k) \<or>
    (\<exists>j \<in> set js. find_scheduled_query s k js = Some (Some j) \<and> asks s j = question k)"
    if "set js \<subseteq> set (jobs s)" for js
    using that
  proof (induction js)
    case (Cons j js)
    then have "avahi_key_equal (qkey (job s j)) k = Some (asks s j = question k)" "\<not> qdone (job s j)"
      using qs_okD(3,10) [OF assms(1)] key_equal_question askable_valid [OF assms(2)] by auto
    with Cons show ?case by auto
  qed simp
  with absent found show ?thesis by blast
qed

lemma find_history_query_ok:
  assumes "qs_ok s" "askable k"
  obtains (absent) "find_history_query now k (history s) s = Some (None, s)" "\<forall>j \<in> set (history s). asks s j \<noteq> question k"
  | (outdated) j where "find_history_query now k (history s) s = map_option (Pair None) (query_job_free j s)"
      "j \<in> set (history s)" "asks s j = question k" "avahi_age now (qdelivery (job s j)) > 100000"
  | (found) j where "find_history_query now k (history s) s = Some (Some j, s)" "j \<in> set (history s)"
      "asks s j = question k" "avahi_age now (qdelivery (job s j)) \<le> 100000"
proof -
  have "find_history_query now k js s = Some (None, s) \<and> (\<forall>j \<in> set js. asks s j \<noteq> question k) \<or>
    (\<exists>j \<in> set js. asks s j = question k \<and>
      (if avahi_age now (qdelivery (job s j)) > 100000
       then find_history_query now k js s = map_option (Pair None) (query_job_free j s)
       else find_history_query now k js s = Some (Some j, s)))"
    if "set js \<subseteq> set (history s)" for js
    using that
  proof (induction js)
    case (Cons j js)
    have eq: "avahi_key_equal (qkey (job s j)) k = Some (asks s j = question k)" "qdone (job s j)"
      using qs_okD(5,10) [OF assms(1), of j] key_equal_question askable_valid [OF assms(2)] Cons.prems by auto
    show ?case
    proof (cases "asks s j = question k")
      case True
      with eq show ?thesis by (intro disjI2 bexI [of _ j]) (cases "query_job_free j s"; simp)+
    next
      case False
      with eq Cons show ?thesis by auto
    qed
  qed simp
  with absent outdated found show ?thesis by (metis not_le subset_refl)
qed

section \<open>New jobs\<close>

text \<open>A job that was just created, and its event; \<open>d\<close> is the time that the caller stores in it.\<close>

lemma query_job_start:
  fixes s :: "'o AvahiQueryScheduler"
  assumes "qs_ok s" "askable k" "question k \<notin> asks s ` set (qjobs s)" "tv_norm d"
    and "query_job_new k dn s = (j, s1)" "t = (if dn then avahi_timeval_add d 100000 else d)"
    and "ev = fresh (events (queue s))"
  obtains q where "avahi_time_event_new ev (Some t) (Elapse j) (queue s) = Some q" "queue s1 = queue s"
    "jobs s1 = (if dn then jobs s else j # jobs s)" "history s1 = (if dn then j # history s else history s)"
    "known_answers s1 = known_answers s" "sent s1 = sent s" "mtu s1 = mtu s" "statics s1 = statics s"
    "\<And>x. x = (job s1 j)\<lparr>qdelivery := d, qevent := Some ev\<rparr> \<Longrightarrow>
       qs_ok (s1\<lparr>queue := q, job := (job s1)(j := x)\<rparr>) \<and>
       queries (s1\<lparr>queue := q, job := (job s1)(j := x)\<rparr>) = (queries s)(question k \<mapsto> (dn, d))"
    "qevent (job s1 j) = None" "qdone (job s1 j) = dn" "qkey (job s1 j) = k"
proof -
  note ok = qs_okD [OF assms(1)]
  have j: "j \<notin> set (qjobs s)"
    using assms(5) fresh_not_in [of "set (qjobs s)"] by (auto simp: query_job_new_def Let_def)
  have s1: "queue s1 = queue s" "jobs s1 = (if dn then jobs s else j # jobs s)"
    "history s1 = (if dn then j # history s else history s)" "known_answers s1 = known_answers s" "sent s1 = sent s"
    "mtu s1 = mtu s" "statics s1 = statics s" "qevent (job s1 j) = None" "qdone (job s1 j) = dn" "qkey (job s1 j) = k"
    "n_posted (job s1 j) = 1" "\<And>x. (job s1)(j := x) = (job s)(j := x)"
    using assms(5) by (auto simp: query_job_new_def Let_def split: if_splits)
  obtain q where q: "avahi_time_event_new ev (Some t) (Elapse j) (queue s) = Some q"
    "timers_ok (insert j (set (qjobs s))) ((\<lambda>i. qevent (job s i))(j := Some ev)) ((\<lambda>i. qdue (job s i))(j := t)) q"
    by (rule timers_new [OF ok(8) j assms(7)])
  have "qs_ok (s1\<lparr>queue := q, job := (job s1)(j := x)\<rparr>) \<and>
      queries (s1\<lparr>queue := q, job := (job s1)(j := x)\<rparr>) = (queries s)(question (qkey x) \<mapsto> (qdone x, qdelivery x))"
    if x: "x = (job s1 j)\<lparr>qdelivery := d, qevent := Some ev\<rparr>" for x
  proof (rule query_put [OF assms(1), where j = j and x = x])
    show "asks s i \<noteq> question (qkey x)" if "i \<in> set (qjobs s)" for i
    proof -
      have "asks s i \<noteq> question k" using assms(3) imageI [OF that, of "asks s"] by metis
      then show ?thesis by (simp add: x s1)
    qed
    have "qdue x = t" "qevent x = Some ev" by (simp_all add: x qdue_def s1 assms(6))
    with q(2) show "timers_ok (insert j (set (qjobs s))) ((\<lambda>i. qevent (job s i))(j := qevent x)) ((\<lambda>i. qdue (job s i))(j := qdue x))
      (queue (s1\<lparr>queue := q, job := (job s1)(j := x)\<rparr>))" by simp
  qed (use j assms(2,4) ok(1) in \<open>auto simp: x s1\<close>)
  then show ?thesis using that [OF q(1) s1(1-7) _ s1(8-10)] s1(9,10) by simp
qed

section \<open>Posting\<close>

text \<open>What posting a key makes of the queries, where \<open>t\<close> is the time at which it would go out.\<close>

definition query_time :: "timeval \<Rightarrow> bool \<Rightarrow> timeval" where
  "query_time now immediately = (if immediately then now else avahi_timeval_add now 100000)"

definition post_spec :: "timeval \<Rightarrow> bool \<Rightarrow> question \<Rightarrow> (question \<Rightarrow> (bool \<times> timeval) option) \<Rightarrow>
    (question \<Rightarrow> (bool \<times> timeval) option) option" where
  "post_spec now immediately q m =
     (let t = query_time now immediately in
      case m q of
        None \<Rightarrow> Some (m(q \<mapsto> (False, t)))
      | Some (False, d) \<Rightarrow> Some (m(q \<mapsto> (False, if avahi_timeval_compare t d < 0 then t else d)))
      | Some (True, d) \<Rightarrow> if avahi_age now d \<le> 100000 then None else Some (m(q \<mapsto> (False, t))))"

text \<open>What no operation on the jobs changes.\<close>

definition same_rest :: "'o AvahiQueryScheduler \<Rightarrow> 'o AvahiQueryScheduler \<Rightarrow> bool" where
  "same_rest s s' =
     (known_answers s' = known_answers s \<and> sent s' = sent s \<and> mtu s' = mtu s \<and> statics s' = statics s)"

lemma same_rest_refl [simp]: "same_rest s s"
  by (simp add: same_rest_def)

lemma same_rest_trans: "same_rest s t \<Longrightarrow> same_rest t u \<Longrightarrow> same_rest s u"
  by (simp add: same_rest_def)

lemma query_time_norm: "tv_norm now \<Longrightarrow> tv_norm (query_time now i)"
  by (simp add: query_time_def avahi_timeval_add_norm) (simp add: tv_norm_def avahi_timeval_add_norm)

lemma schedule_query_ok:
  fixes s :: "'o AvahiQueryScheduler"
  assumes "qs_ok s" "askable k" "tv_norm now" "\<forall>j \<in> set (history s). asks s j \<noteq> question k"
  shows "\<exists>j s'. schedule_query now rnd k imm s = Some (j, s') \<and> qs_ok s' \<and> same_rest s s' \<and>
    j \<in> set (jobs s') \<and> asks s' j = question k \<and> Some (queries s') = post_spec now imm (question k) (queries s)"
proof -
  note ok = qs_okD [OF assms(1)]
  let ?t = "query_time now imm"
  have el: "avahi_elapse_time now (tv_sec now) rnd (if imm then 0 else 100) 0 (statics s) = (?t, statics s)"
    by (simp add: elapse_time_plain query_time_def)
  show ?thesis
  proof (rule find_scheduled_query_ok [OF assms(1,2)])
    assume f: "find_scheduled_query s k (jobs s) = Some None" "\<forall>j \<in> set (jobs s). asks s j \<noteq> question k"
    with assms(4) have new: "question k \<notin> asks s ` set (qjobs s)" by auto
    obtain j s1 where s1: "query_job_new k False s = (j, s1)" by fastforce
    obtain q where q: "avahi_time_event_new (fresh (events (queue s))) (Some ?t) (Elapse j) (queue s) = Some q" "queue s1 = queue s"
      "jobs s1 = (if False then jobs s else j # jobs s)" "history s1 = (if False then j # history s else history s)"
      "known_answers s1 = known_answers s" "sent s1 = sent s" "mtu s1 = mtu s" "statics s1 = statics s"
      "\<And>x. x = (job s1 j)\<lparr>qdelivery := ?t, qevent := Some (fresh (events (queue s)))\<rparr> \<Longrightarrow>
       qs_ok (s1\<lparr>queue := q, job := (job s1)(j := x)\<rparr>) \<and>
       queries (s1\<lparr>queue := q, job := (job s1)(j := x)\<rparr>) = (queries s)(question k \<mapsto> (False, ?t))"
      "qevent (job s1 j) = None" "qdone (job s1 j) = False" "qkey (job s1 j) = k"
      by (rule query_job_start [OF assms(1,2) new query_time_norm [OF assms(3), of imm] s1 _ refl, of ?t]) (simp, rule that)
    let ?s = "s1\<lparr>queue := q, job := (job s1)(j := (job s1 j)\<lparr>qdelivery := ?t, qevent := Some (fresh (events (queue s)))\<rparr>)\<rparr>"
    have "schedule_query now rnd k imm s = Some (j, ?s)"
      using f(1) q(1,2) s1 by (simp add: schedule_query_def el)
    moreover have "queries s (question k) = None" using new by (simp add: queries_none)
    ultimately show ?thesis using q(3-8) q(9) [OF refl] q(12)
      by (intro exI [of _ j] exI [of _ ?s]) (simp add: same_rest_def post_spec_def Let_def)
  next
    fix j assume f: "find_scheduled_query s k (jobs s) = Some (Some j)" "j \<in> set (jobs s)" "asks s j = question k"
    then have j: "j \<in> set (qjobs s)" "\<not> qdone (job s j)" using ok(3) by auto
    obtain ev where ev: "qevent (job s j) = Some ev" using timers_event [OF ok(8) j(1)] by blast
    define d where "d = (if avahi_timeval_compare ?t (qdelivery (job s j)) < 0 then ?t else qdelivery (job s j))"
    obtain q where q: "(if avahi_timeval_compare ?t (qdelivery (job s j)) < 0 then avahi_time_event_update ev ?t (queue s)
        else Some (queue s)) = Some q"
      "timers_ok (set (qjobs s)) (\<lambda>j. qevent (job s j)) ((\<lambda>j. qdue (job s j))(j := d)) q"
    proof (cases "avahi_timeval_compare ?t (qdelivery (job s j)) < 0")
      case True
      with timers_update [OF ok(8) j(1), OF ev, of ?t] that show ?thesis by (auto simp: d_def)
    next
      case False
      have "timers_ok (set (qjobs s)) (\<lambda>j. qevent (job s j)) ((\<lambda>j. qdue (job s j))(j := d)) (queue s)"
        by (rule timers_ok_cong [OF ok(8)]) (use False j in \<open>simp add: d_def qdue_def\<close>)
      with False that show ?thesis by simp
    qed
    let ?x = "(job s j)\<lparr>qdelivery := d, n_posted := n_posted (job s j) + 1\<rparr>"
    let ?s = "s\<lparr>queue := q, job := (job s)(j := ?x)\<rparr>"
    have "schedule_query now rnd k imm s = Some (j, ?s)"
      using f(1) ev q(1)
      by (cases "avahi_timeval_compare ?t (qdelivery (job s j)) < 0") (simp_all add: schedule_query_def el d_def)
    moreover have tm: "timers_ok (set (qjobs s)) ((\<lambda>i. qevent (job s i))(j := qevent ?x)) ((\<lambda>i. qdue (job s i))(j := qdue ?x)) q"
      by (rule timers_ok_cong [OF q(2)]) (simp add: qdue_def j(2))
    have "qs_ok ?s \<and> queries ?s = (queries s)(question (qkey ?x) \<mapsto> (qdone ?x, qdelivery ?x))"
    proof (rule query_put [OF assms(1), where j = j and x = ?x])
      show "asks s i \<noteq> question (qkey ?x)" if "i \<in> set (qjobs s)" "i \<noteq> j" for i
        using ok(2) j(1) that by (auto simp: inj_on_def)
      show "timers_ok (insert j (set (qjobs s))) ((\<lambda>i. qevent (job s i))(j := qevent ?x)) ((\<lambda>i. qdue (job s i))(j := qdue ?x)) (queue ?s)"
        using tm unfolding insert_absorb [OF j(1)] by simp
      show "1 \<le> n_posted ?x" using ok(4) [OF f(2)] by simp
      show "tv_norm (qdelivery ?x)" using ok(7) [OF j(1)] query_time_norm [OF assms(3), of imm] by (simp add: d_def)
      show "askable (qkey ?x)" using ok(6) [OF j(1)] by simp
    qed (use ok(1) j f(2) in auto)
    moreover have "queries s (question k) = Some (False, qdelivery (job s j))"
      using queries_job [OF ok(2) j(1)] f(3) j(2) by simp
    ultimately show ?thesis using f(2,3) j(2)
      by (intro exI [of _ j] exI [of _ ?s]) (simp add: same_rest_def post_spec_def Let_def d_def)
  qed
qed

lemma query_post_ok:
  fixes s :: "'o AvahiQueryScheduler"
  assumes "qs_ok s" "askable k" "tv_norm now"
  shows "\<exists>res s'. avahi_query_scheduler_post now rnd k imm s = Some (res, s') \<and> qs_ok s' \<and> same_rest s s' \<and>
    (case post_spec now imm (question k) (queries s) of
       None \<Rightarrow> res = None \<and> s' = s
     | Some m \<Rightarrow> queries s' = m \<and> (\<exists>j \<in> set (jobs s'). asks s' j = question k \<and> res = Some (qid (job s' j))))"
proof (rule find_history_query_ok [OF assms(1,2), of now])
  assume f: "find_history_query now k (history s) s = Some (None, s)" "\<forall>j \<in> set (history s). asks s j \<noteq> question k"
  obtain i s' where s': "schedule_query now rnd k imm s = Some (i, s')" "qs_ok s'" "same_rest s s'" "i \<in> set (jobs s')"
    "asks s' i = question k" "Some (queries s') = post_spec now imm (question k) (queries s)"
    using schedule_query_ok [OF assms f(2), of rnd imm] by blast
  have "avahi_query_scheduler_post now rnd k imm s = Some (Some (qid (job s' i)), s')"
    using f(1) s'(1) by (simp add: avahi_query_scheduler_post_def)
  with s'(2-5) show ?thesis unfolding s'(6) [symmetric] option.case by blast
next
  fix j assume f: "find_history_query now k (history s) s = map_option (Pair None) (query_job_free j s)"
    "j \<in> set (history s)" "asks s j = question k" "avahi_age now (qdelivery (job s j)) > 100000"
  note ok = qs_okD [OF assms(1)]
  have j: "j \<in> set (qjobs s)" "qdone (job s j)" using f(2) ok(5) by auto
  obtain q where q: "query_job_free j s = Some (s\<lparr>queue := q, jobs := remove1 j (jobs s), history := remove1 j (history s)\<rparr>)"
    "qs_ok (s\<lparr>queue := q, jobs := remove1 j (jobs s), history := remove1 j (history s)\<rparr>)"
    "queries (s\<lparr>queue := q, jobs := remove1 j (jobs s), history := remove1 j (history s)\<rparr>) = (queries s)(asks s j := None)"
    by (rule query_job_free_ok [OF assms(1) j(1)])
  let ?s = "s\<lparr>queue := q, jobs := remove1 j (jobs s), history := remove1 j (history s)\<rparr>"
  have "\<forall>i \<in> set (history ?s). asks ?s i \<noteq> question k"
  proof
    fix i assume "i \<in> set (history ?s)"
    then have i: "i \<in> set (history s)" "i \<noteq> j" using ok(1) by auto
    with inj_onD [OF ok(2), of i j] f(2,3) show "asks ?s i \<noteq> question k" by auto
  qed
  from schedule_query_ok [OF q(2) assms(2,3) this, of rnd imm] obtain i s' where
    s': "schedule_query now rnd k imm ?s = Some (i, s')" "qs_ok s'" "same_rest ?s s'" "i \<in> set (jobs s')"
    "asks s' i = question k" "Some (queries s') = post_spec now imm (question k) (queries ?s)" by blast
  have "queries s (question k) = Some (True, qdelivery (job s j))"
    using queries_job [OF ok(2) j(1)] f(3) j(2) by simp
  then have spec: "post_spec now imm (question k) (queries s) = Some (queries s')"
    using f(3,4) unfolding s'(6) q(3) by (simp add: post_spec_def Let_def)
  moreover have "avahi_query_scheduler_post now rnd k imm s = Some (Some (qid (job s' i)), s')"
    using f(1) q(1) s'(1) by (simp add: avahi_query_scheduler_post_def)
  moreover have "same_rest s s'" using s'(3) by (simp add: same_rest_def)
  ultimately show ?thesis using s'(2,4,5) unfolding spec option.case by blast
next
  fix j assume f: "find_history_query now k (history s) s = Some (Some j, s)" "j \<in> set (history s)"
    "asks s j = question k" "avahi_age now (qdelivery (job s j)) \<le> 100000"
  note ok = qs_okD [OF assms(1)]
  have "queries s (question k) = Some (True, qdelivery (job s j))"
    using queries_job [OF ok(2), of j] f(2,3) ok(5) by simp
  with f assms(1) show ?thesis by (simp add: avahi_query_scheduler_post_def post_spec_def Let_def)
qed

section \<open>Queries of others\<close>

text \<open>Whatever was known of a question, after a query of another host it was asked just now.\<close>

lemma query_seen:
  fixes s :: "'o AvahiQueryScheduler"
  assumes "qs_ok s" "askable k" "tv_norm now" "j \<in> set (history s)" "asks s j = question k"
  shows "\<exists>s'. query_job_set_elapse_time now rnd j 100 0 (upd_qjob j (\<lambda>x. x\<lparr>qdelivery := now\<rparr>) s) = Some s' \<and>
    qs_ok s' \<and> same_rest s s' \<and> queries s' = (queries s)(question k \<mapsto> (True, now))"
proof -
  note ok = qs_okD [OF assms(1)]
  have j: "j \<in> set (qjobs s)" "qdone (job s j)" "j \<notin> set (jobs s)" using assms(4) ok(1,5) by auto
  obtain ev where ev: "qevent (job s j) = Some ev" using timers_event [OF ok(8) j(1)] by blast
  obtain q where q: "avahi_time_event_update ev (avahi_timeval_add now 100000) (queue s) = Some q"
    "timers_ok (set (qjobs s)) (\<lambda>j. qevent (job s j)) ((\<lambda>j. qdue (job s j))(j := avahi_timeval_add now 100000)) q"
    by (rule timers_update [OF ok(8) j(1), OF ev])
  let ?x = "(job s j)\<lparr>qdelivery := now\<rparr>"
  let ?s = "s\<lparr>queue := q, job := (job s)(j := ?x)\<rparr>"
  have tm: "timers_ok (set (qjobs s)) ((\<lambda>i. qevent (job s i))(j := qevent ?x)) ((\<lambda>i. qdue (job s i))(j := qdue ?x)) q"
    by (rule timers_ok_cong [OF q(2)]) (simp add: qdue_def j(2))
  have "qs_ok ?s \<and> queries ?s = (queries s)(question (qkey ?x) \<mapsto> (qdone ?x, qdelivery ?x))"
  proof (rule query_put [OF assms(1), where j = j and x = ?x])
    show "asks s i \<noteq> question (qkey ?x)" if "i \<in> set (qjobs s)" "i \<noteq> j" for i
      using ok(2) j(1) that by (auto simp: inj_on_def)
    show "timers_ok (insert j (set (qjobs s))) ((\<lambda>i. qevent (job s i))(j := qevent ?x)) ((\<lambda>i. qdue (job s i))(j := qdue ?x)) (queue ?s)"
      using tm unfolding insert_absorb [OF j(1)] by simp
  qed (use ok(1,6) j assms(3,4) in auto)
  moreover have "query_job_set_elapse_time now rnd j 100 0 (upd_qjob j (\<lambda>x. x\<lparr>qdelivery := now\<rparr>) s) = Some ?s"
    using ev q(1) by (simp add: query_job_set_elapse_time_def elapse_time_plain)
  ultimately show ?thesis using assms(5) j(2) by (intro exI [of _ ?s]) (simp add: same_rest_def)
qed

lemma query_seen_new:
  fixes s :: "'o AvahiQueryScheduler"
  assumes "qs_ok s" "askable k" "tv_norm now" "question k \<notin> asks s ` set (qjobs s)" "query_job_new k True s = (j, s1)"
  shows "\<exists>s'. query_job_set_elapse_time now rnd j 100 0 (upd_qjob j (\<lambda>x. x\<lparr>qdelivery := now\<rparr>) s1) = Some s' \<and>
    qs_ok s' \<and> same_rest s s' \<and> queries s' = (queries s)(question k \<mapsto> (True, now))"
proof -
  let ?ev = "fresh (events (queue s))"
  obtain q where q: "avahi_time_event_new ?ev (Some (avahi_timeval_add now 100000)) (Elapse j) (queue s) = Some q" "queue s1 = queue s"
    "known_answers s1 = known_answers s" "sent s1 = sent s" "mtu s1 = mtu s" "statics s1 = statics s"
    "\<And>x. x = (job s1 j)\<lparr>qdelivery := now, qevent := Some ?ev\<rparr> \<Longrightarrow>
       qs_ok (s1\<lparr>queue := q, job := (job s1)(j := x)\<rparr>) \<and>
       queries (s1\<lparr>queue := q, job := (job s1)(j := x)\<rparr>) = (queries s)(question k \<mapsto> (True, now))"
    "qevent (job s1 j) = None"
    by (rule query_job_start [OF assms(1,2,4,3,5) _ refl, of "avahi_timeval_add now 100000"]) (simp, rule that)
  let ?s = "s1\<lparr>queue := q, job := (job s1)(j := (job s1 j)\<lparr>qdelivery := now, qevent := Some ?ev\<rparr>)\<rparr>"
  have "query_job_set_elapse_time now rnd j 100 0 (upd_qjob j (\<lambda>x. x\<lparr>qdelivery := now\<rparr>) s1) = Some ?s"
    using q(1,2,8) by (simp add: query_job_set_elapse_time_def elapse_time_plain)
  with q(7) [OF refl] q(3-6) show ?thesis by (intro exI [of _ ?s]) (simp add: same_rest_def)
qed

lemma query_incoming_ok:
  fixes s :: "'o AvahiQueryScheduler"
  assumes "qs_ok s" "askable k" "tv_norm now"
  shows "\<exists>s'. avahi_query_scheduler_incoming now rnd k s = Some s' \<and> qs_ok s' \<and> same_rest s s' \<and>
    queries s' = (queries s)(question k \<mapsto> (True, now))"
proof (rule find_scheduled_query_ok [OF assms(1,2)])
  fix j assume f: "find_scheduled_query s k (jobs s) = Some (Some j)" "j \<in> set (jobs s)" "asks s j = question k"
  obtain q where q: "query_job_mark_done now rnd j s = Some (s\<lparr>queue := q, jobs := remove1 j (jobs s), history := j # history s,
       job := (job s)(j := (job s j)\<lparr>qdone := True, qdelivery := now\<rparr>)\<rparr>)"
    "qs_ok (s\<lparr>queue := q, jobs := remove1 j (jobs s), history := j # history s,
       job := (job s)(j := (job s j)\<lparr>qdone := True, qdelivery := now\<rparr>)\<rparr>)"
    "queries (s\<lparr>queue := q, jobs := remove1 j (jobs s), history := j # history s,
       job := (job s)(j := (job s j)\<lparr>qdone := True, qdelivery := now\<rparr>)\<rparr>) = (queries s)(asks s j \<mapsto> (True, now))"
    by (rule query_job_mark_done_ok [OF assms(1) f(2) assms(3)])
  show ?thesis
    by (rule exI, intro conjI, simp add: avahi_query_scheduler_incoming_def f(1), rule q(1), rule q(2),
      simp add: same_rest_def, simp only: q(3) f(3))
next
  assume f: "find_scheduled_query s k (jobs s) = Some None" "\<forall>j \<in> set (jobs s). asks s j \<noteq> question k"
  note ok = qs_okD [OF assms(1)]
  show ?thesis
  proof (rule find_history_query_ok [OF assms(1,2), of now])
    fix j assume h: "find_history_query now k (history s) s = Some (Some j, s)" "j \<in> set (history s)" "asks s j = question k"
    with query_seen [OF assms h(2,3), of rnd] f(1) show ?thesis by (simp add: avahi_query_scheduler_incoming_def)
  next
    assume h: "find_history_query now k (history s) s = Some (None, s)" "\<forall>j \<in> set (history s). asks s j \<noteq> question k"
    obtain j s1 where n: "query_job_new k True s = (j, s1)" by fastforce
    have "question k \<notin> asks s ` set (qjobs s)" using f(2) h(2) by auto
    from query_seen_new [OF assms this n, of rnd] f(1) h(1) n show ?thesis by (simp add: avahi_query_scheduler_incoming_def)
  next
    fix i assume h: "find_history_query now k (history s) s = map_option (Pair None) (query_job_free i s)"
      "i \<in> set (history s)" "asks s i = question k"
    have i: "i \<in> set (qjobs s)" using h(2) by simp
    obtain q where q: "query_job_free i s = Some (s\<lparr>queue := q, jobs := remove1 i (jobs s), history := remove1 i (history s)\<rparr>)"
      "qs_ok (s\<lparr>queue := q, jobs := remove1 i (jobs s), history := remove1 i (history s)\<rparr>)"
      "queries (s\<lparr>queue := q, jobs := remove1 i (jobs s), history := remove1 i (history s)\<rparr>) = (queries s)(asks s i := None)"
      by (rule query_job_free_ok [OF assms(1) i])
    let ?s = "s\<lparr>queue := q, jobs := remove1 i (jobs s), history := remove1 i (history s)\<rparr>"
    obtain j s1 where n: "query_job_new k True ?s = (j, s1)" by fastforce
    have "queries ?s (question k) = None" using q(3) h(3) by simp
    then have "question k \<notin> asks ?s ` set (qjobs ?s)" by (simp add: queries_none del: set_append)
    from query_seen_new [OF q(2) assms(2,3) this n, of rnd] obtain s' where
      s': "query_job_set_elapse_time now rnd j 100 0 (upd_qjob j (\<lambda>x. x\<lparr>qdelivery := now\<rparr>) s1) = Some s'"
      "qs_ok s'" "same_rest ?s s'" "queries s' = (queries ?s)(question k \<mapsto> (True, now))" by blast
    have "avahi_query_scheduler_incoming now rnd k s = Some s'"
      using f(1) h(1) q(1) n s'(1) by (simp add: avahi_query_scheduler_incoming_def)
    moreover have "queries s' = (queries s)(question k \<mapsto> (True, now))" unfolding s'(4) q(3) h(3) by simp
    moreover have "same_rest s s'" using s'(3) by (simp add: same_rest_def)
    ultimately show ?thesis using s'(2) by blast
  qed
qed

section \<open>Withdrawing\<close>

lemma withdraw_loop_other:
  "\<forall>j \<in> set js. \<not> qdone (job s j) \<and> qid (job s j) \<noteq> i \<Longrightarrow> withdraw_loop i js s = Some (False, s)"
  by (induction js) auto

lemma withdraw_loop_at:
  assumes "distinct js" "inj_on (\<lambda>j. qid (job s j)) (set js)" "j \<in> set js" "qid (job s j) = i"
    and "\<forall>j \<in> set js. \<not> qdone (job s j) \<and> 1 \<le> n_posted (job s j)"
    and s': "s' = upd_qjob j (\<lambda>x. x\<lparr>n_posted := n_posted x - 1\<rparr>) s"
  shows "withdraw_loop i js s =
    (if n_posted (job s j) = 1 then map_option (Pair True) (query_job_free j s') else Some (False, s'))"
  using assms(1-5)
proof (induction js)
  case (Cons h js)
  show ?case
  proof (cases "h = j")
    case True
    have rest: "withdraw_loop i js s' = Some (False, s')"
    proof (rule withdraw_loop_other, rule ballI)
      fix g assume g: "g \<in> set js"
      with Cons.prems(1) True have "g \<noteq> j" by auto
      with inj_onD [OF Cons.prems(2), of g j] g True Cons.prems(4,5)
      show "\<not> qdone (job s' g) \<and> qid (job s' g) \<noteq> i" by (auto simp: s')
    qed
    from Cons.prems(5) True have n: "1 \<le> n_posted (job s j)" "\<not> qdone (job s j)" by auto
    then have "withdraw_loop i (h # js) s = (if n_posted (job s j) \<le> 1
        then do { t \<leftarrow> query_job_free j s'; Some (True, t) } else withdraw_loop i js s')"
      using True Cons.prems(4) by (simp add: s' Let_def)
    with n rest show ?thesis by (cases "query_job_free j s'") auto
  next
    case False
    with inj_onD [OF Cons.prems(2), of h j] Cons.prems(3,4) have "qid (job s h) \<noteq> i" by auto
    with Cons.IH Cons.prems False show ?thesis by (simp add: inj_on_def)
  qed
qed simp

text \<open>The number of posters of a job.\<close>

lemma posters_ok:
  assumes "qs_ok s" "j \<in> set (jobs s)" "1 \<le> n" 
  shows "qs_ok (s\<lparr>job := (job s)(j := (job s j)\<lparr>n_posted := n\<rparr>)\<rparr>)"
    "queries (s\<lparr>job := (job s)(j := (job s j)\<lparr>n_posted := n\<rparr>)\<rparr>) = queries s"
proof -
  let ?x = "(job s j)\<lparr>n_posted := n\<rparr>"
  let ?s = "s\<lparr>job := (job s)(j := ?x)\<rparr>"
  note ok = qs_okD [OF assms(1)]
  have j: "j \<in> set (qjobs s)" "\<not> qdone (job s j)" using assms(2) ok(3) by auto
  have tm: "timers_ok (set (qjobs s)) ((\<lambda>i. qevent (job s i))(j := qevent ?x)) ((\<lambda>i. qdue (job s i))(j := qdue ?x)) (queue s)"
    by (rule timers_ok_cong [OF ok(8)]) (simp add: qdue_def)
  have p: "qs_ok ?s \<and> queries ?s = (queries s)(question (qkey ?x) \<mapsto> (qdone ?x, qdelivery ?x))"
  proof (rule query_put [OF assms(1), where j = j and x = ?x])
    show "asks s i \<noteq> question (qkey ?x)" if "i \<in> set (qjobs s)" "i \<noteq> j" for i
      using ok(2) j(1) that by (auto simp: inj_on_def)
    show "timers_ok (insert j (set (qjobs s))) ((\<lambda>i. qevent (job s i))(j := qevent ?x)) ((\<lambda>i. qdue (job s i))(j := qdue ?x)) (queue ?s)"
      using tm unfolding insert_absorb [OF j(1)] by simp
    show "askable (qkey ?x)" "tv_norm (qdelivery ?x)" using ok(6,7) [OF j(1)] by simp_all
  qed (use ok(1) j assms(2,3) in auto)
  then show "qs_ok ?s" by blast
  have "(queries s)(question (qkey ?x) \<mapsto> (qdone ?x, qdelivery ?x)) = queries s"
    using queries_job [OF ok(2) j(1)] by (simp add: fun_upd_idem)
  with p show "queries ?s = queries s" by metis
qed

text \<open>The contents of addresses that are not in use do not matter.\<close>

lemma qs_ok_cong:
  assumes "qs_ok s" "jobs s' = jobs s" "history s' = history s" "queue s' = queue s"
    and "\<forall>j \<in> set (qjobs s). job s' j = job s j"
  shows "qs_ok s'" "queries s' = queries s"
proof -
  note ok = qs_okD [OF assms(1)]
  have eq: "job s' j = job s j" if "j \<in> set (qjobs s)" for j using assms(5) that by blast
  have "timers_ok (set (qjobs s)) (\<lambda>j. qevent (job s' j)) (\<lambda>j. qdue (job s' j)) (queue s)"
    by (rule timers_ok_cong [OF ok(8)]) (simp add: eq)
  moreover have "inj_on (asks s') (set (qjobs s))" using ok(2) eq by (simp add: inj_on_def)
  ultimately show "qs_ok s'" using ok(1,3-7) eq unfolding qs_ok_def assms(2-4) by simp
  show "queries s' = queries s"
    unfolding queries_def assms(2,3) by (intro arg_cong [of _ _ map_of] map_cong refl) (simp add: eq)
qed

lemma query_job_free_last:
  fixes s :: "'o AvahiQueryScheduler"
  assumes "qs_ok s" "j \<in> set (jobs s)"
  shows "\<exists>s'. query_job_free j (upd_qjob j (\<lambda>x. x\<lparr>n_posted := n_posted x - 1\<rparr>) s) = Some s' \<and> qs_ok s' \<and>
    queries s' = (queries s)(asks s j := None) \<and> same_rest s s' \<and> jobs s' = remove1 j (jobs s) \<and> history s' = history s"
proof -
  note ok = qs_okD [OF assms(1)]
  have d: "\<forall>j \<in> set (jobs s). \<not> qdone (job s j)" using ok(3) by blast
  let ?s = "upd_qjob j (\<lambda>x. x\<lparr>n_posted := n_posted x - 1\<rparr>) s"
  have jq: "j \<in> set (qjobs s)" "j \<notin> set (history s)" using assms(2) ok(1) by auto
  obtain q where q: "query_job_free j s = Some (s\<lparr>queue := q, jobs := remove1 j (jobs s), history := remove1 j (history s)\<rparr>)"
    "qs_ok (s\<lparr>queue := q, jobs := remove1 j (jobs s), history := remove1 j (history s)\<rparr>)"
    "queries (s\<lparr>queue := q, jobs := remove1 j (jobs s), history := remove1 j (history s)\<rparr>) = (queries s)(asks s j := None)"
    by (rule query_job_free_ok [OF assms(1) jq(1)])
  let ?s1 = "s\<lparr>queue := q, jobs := remove1 j (jobs s), history := remove1 j (history s)\<rparr>"
  let ?s' = "?s1\<lparr>job := job ?s\<rparr>"
  obtain ev where ev: "qevent (job s j) = Some ev" using timers_event [OF ok(8) jq(1)] by blast
  obtain x where x: "avahi_time_event_free ev (queue s) = Some x"
    "s\<lparr>queue := x, jobs := remove1 j (jobs s)\<rparr> = s\<lparr>queue := q, jobs := remove1 j (jobs s)\<rparr>"
    using q(1) ev d assms(2) jq(2) by (auto simp: query_job_free_def llist_remove_def remove1_idem split: bind_splits)
  have "x = q" using arg_cong [OF x(2), of queue] by simp
  with x(1) have free: "query_job_free j ?s = Some ?s'"
    using ev d assms(2) jq(2) by (simp add: query_job_free_def llist_remove_def remove1_idem)
  have "j \<notin> set (qjobs ?s1)" using ok(1) by auto
  then have "\<forall>i \<in> set (qjobs ?s1). job ?s' i = job ?s1 i" by auto
  then have s': "qs_ok ?s'" "queries ?s' = (queries s)(asks s j := None)"
    using qs_ok_cong [OF q(2), of ?s'] q(3) by simp_all
  have "same_rest s ?s'" "jobs ?s' = remove1 j (jobs s)" "history ?s' = history s"
    using jq(2) by (simp_all add: same_rest_def remove1_idem)
  with free s' show ?thesis by blast
qed

lemma query_withdraw_ok:
  assumes "qs_ok s" "inj_on (\<lambda>j. qid (job s j)) (set (jobs s))"
  obtains (unknown) "\<forall>j \<in> set (jobs s). qid (job s j) \<noteq> i" "avahi_query_scheduler_withdraw_by_id i s = Some (False, s)"
  | (shared) j where "j \<in> set (jobs s)" "qid (job s j) = i" "1 < n_posted (job s j)"
      "avahi_query_scheduler_withdraw_by_id i s = Some (False, upd_qjob j (\<lambda>x. x\<lparr>n_posted := n_posted x - 1\<rparr>) s)"
      "qs_ok (upd_qjob j (\<lambda>x. x\<lparr>n_posted := n_posted x - 1\<rparr>) s)"
      "queries (upd_qjob j (\<lambda>x. x\<lparr>n_posted := n_posted x - 1\<rparr>) s) = queries s"
  | (last) j s' where "j \<in> set (jobs s)" "qid (job s j) = i" "n_posted (job s j) = 1"
      "avahi_query_scheduler_withdraw_by_id i s = Some (True, s')" "qs_ok s'" "queries s' = (queries s)(asks s j := None)"
      "same_rest s s'" "jobs s' = remove1 j (jobs s)" "history s' = history s"
proof (cases "\<exists>j \<in> set (jobs s). qid (job s j) = i")
  case False
  with qs_okD(3) [OF assms(1)] withdraw_loop_other [of "jobs s" s i] unknown show ?thesis
    by (auto simp: avahi_query_scheduler_withdraw_by_id_def)
next
  case True
  note ok = qs_okD [OF assms(1)]
  then obtain j where j: "j \<in> set (jobs s)" "qid (job s j) = i" using True by blast
  have d: "distinct (jobs s)" "\<forall>j \<in> set (jobs s). \<not> qdone (job s j) \<and> 1 \<le> n_posted (job s j)" using ok(1,3,4) by auto
  note loop = withdraw_loop_at [OF d(1) assms(2) j d(2) refl]
  show ?thesis
  proof (cases "n_posted (job s j) = 1")
    case False
    with ok(4) [OF j(1)] have n: "1 < n_posted (job s j)" by simp
    with loop posters_ok [OF assms(1) j(1), of "n_posted (job s j) - 1"] False j shared [of j] show ?thesis
      by (simp add: avahi_query_scheduler_withdraw_by_id_def Let_def)
  next
    case one: True
    from query_job_free_last [OF assms(1) j(1)] obtain s' where
      s': "query_job_free j (upd_qjob j (\<lambda>x. x\<lparr>n_posted := n_posted x - 1\<rparr>) s) = Some s'" "qs_ok s'"
      "queries s' = (queries s)(asks s j := None)" "same_rest s s'" "jobs s' = remove1 j (jobs s)" "history s' = history s" by blast
    have "avahi_query_scheduler_withdraw_by_id i s = Some (True, s')"
      unfolding avahi_query_scheduler_withdraw_by_id_def loop using one s'(1) by simp
    with last j one s'(2-6) show ?thesis by blast
  qed
qed

text \<open>Identifiers repeat after \<open>2 ^ 32\<close> queries; withdrawing is safe even then.\<close>

lemma withdraw_loop_safe:
  fixes s :: "'o AvahiQueryScheduler"
  assumes "qs_ok s" "set js \<subseteq> set (jobs s)"
  shows "\<exists>b s'. withdraw_loop i js s = Some (b, s') \<and> qs_ok s' \<and> same_rest s s'"
  using assms
proof (induction js arbitrary: s)
  case (Cons j js)
  note ok = qs_okD [OF Cons.prems(1)]
  have j: "j \<in> set (jobs s)" "\<not> qdone (job s j)" "1 \<le> n_posted (job s j)" using Cons.prems(2) ok(3,4) by auto
  let ?s = "upd_qjob j (\<lambda>x. x\<lparr>n_posted := n_posted x - 1\<rparr>) s"
  consider "qid (job s j) \<noteq> i" | "qid (job s j) = i" "n_posted (job s j) = 1" | "qid (job s j) = i" "1 < n_posted (job s j)"
    using j(3) by linarith
  then show ?case
  proof cases
    case 1
    with Cons j(2) show ?thesis by simp
  next
    case 2
    obtain s' where "query_job_free j ?s = Some s'" "qs_ok s'" "same_rest s s'"
      using query_job_free_last [OF Cons.prems(1) j(1)] by blast
    with 2 j(2) show ?thesis by (auto simp: Let_def)
  next
    case 3
    have "qs_ok ?s" using posters_ok(1) [OF Cons.prems(1) j(1)] 3(2) by simp
    moreover have "set js \<subseteq> set (jobs ?s)" using Cons.prems(2) by simp
    ultimately obtain b s' where "withdraw_loop i js ?s = Some (b, s')" "qs_ok s'" "same_rest ?s s'"
      using Cons.IH by blast
    with 3 j(2) show ?thesis by (auto simp: Let_def same_rest_def)
  qed
qed auto

section \<open>Clearing\<close>

lemma free_scheduled_ok:
  "qs_ok s \<Longrightarrow> \<exists>s'. free_scheduled s = Some s' \<and> qs_ok s' \<and> jobs s' = [] \<and> same_rest s s' \<and> history s' = history s"
proof (induction "jobs s" arbitrary: s)
  case Nil
  then show ?case by (subst free_scheduled.simps) simp
next
  case (Cons j js)
  note ok = qs_okD [OF Cons.prems]
  have j: "j \<in> set (qjobs s)" "j \<notin> set (history s)" using ok(1) Cons.hyps(2) [symmetric] by auto
  obtain q where q: "query_job_free j s = Some (s\<lparr>queue := q, jobs := remove1 j (jobs s), history := remove1 j (history s)\<rparr>)"
    "qs_ok (s\<lparr>queue := q, jobs := remove1 j (jobs s), history := remove1 j (history s)\<rparr>)"
    by (rule query_job_free_ok [OF Cons.prems j(1)])
  have "js = jobs (s\<lparr>queue := q, jobs := remove1 j (jobs s), history := remove1 j (history s)\<rparr>)"
    using Cons.hyps(2) [symmetric] by simp
  from Cons.hyps(1) [OF this q(2)] q(1) Cons.hyps(2) [symmetric] j(2) show ?case
    by (subst free_scheduled.simps) (auto simp: same_rest_def remove1_idem)
qed

lemma free_history_ok:
  "qs_ok s \<Longrightarrow> jobs s = [] \<Longrightarrow> \<exists>s'. free_history s = Some s' \<and> qs_ok s' \<and> jobs s' = [] \<and> history s' = [] \<and> same_rest s s'"
proof (induction "history s" arbitrary: s)
  case Nil
  then show ?case by (subst free_history.simps) simp
next
  case (Cons j js)
  have j: "j \<in> set (qjobs s)" using Cons.hyps(2) [symmetric] by auto
  obtain q where q: "query_job_free j s = Some (s\<lparr>queue := q, jobs := remove1 j (jobs s), history := remove1 j (history s)\<rparr>)"
    "qs_ok (s\<lparr>queue := q, jobs := remove1 j (jobs s), history := remove1 j (history s)\<rparr>)"
    by (rule query_job_free_ok [OF Cons.prems(1) j])
  have "js = history (s\<lparr>queue := q, jobs := remove1 j (jobs s), history := remove1 j (history s)\<rparr>)"
    using Cons.hyps(2) [symmetric] by simp
  from Cons.hyps(1) [OF this q(2)] q(1) Cons.hyps(2) [symmetric] Cons.prems(2) show ?case
    by (subst free_history.simps) (auto simp: same_rest_def)
qed

lemma query_clear_ok:
  assumes "qs_ok s"
  shows "\<exists>s'. avahi_query_scheduler_clear s = Some s' \<and> qs_ok s' \<and> qjobs s' = [] \<and> same_rest s s' \<and>
    elapse_events (queue s') = {}"
proof -
  obtain s1 where s1: "free_scheduled s = Some s1" "qs_ok s1" "jobs s1 = []" "same_rest s s1"
    using free_scheduled_ok [OF assms] by blast
  obtain s2 where s2: "free_history s1 = Some s2" "qs_ok s2" "jobs s2 = []" "history s2 = []" "same_rest s1 s2"
    using free_history_ok [OF s1(2,3)] by blast
  have "elapse_events (queue s2) = {}" using qs_okD(8) [OF s2(2)] s2(3,4) by (simp add: timers_ok_def)
  with s1 s2 same_rest_trans [OF s1(4) s2(5)] show ?thesis by (simp add: avahi_query_scheduler_clear_def)
qed

end
