(* ===== verification/Query_Send.thy ===== *)
theory Query_Send
  imports Query_Jobs
begin

text \<open>
  What the query scheduler sends when a job is due: which packets, with which questions and known answers.
\<close>

section \<open>Known answers\<close>

text \<open>The cache as the walk sees it, with the list of known answers that its callback extends.\<close>

abbreviation with_found :: "'c AvahiCache \<Rightarrow> AvahiRecord list \<Rightarrow> 'c query_cache" where
  "with_found c l \<equiv> AvahiCache.extend c (query_cache.fields l)"

lemma with_found_fields [simp]:
  "hashmap (with_found c l) = hashmap c" "cache_entries (with_found c l) = cache_entries c" "entry (with_found c l) = entry c"
  "found (with_found c l) = l" "(with_found c l)\<lparr>found := l'\<rparr> = with_found c l'"
  by (simp_all add: AvahiCache.defs query_cache.defs)

lemma half_ttl_found [simp]: "avahi_cache_entry_half_ttl now (with_found c l) e = avahi_cache_entry_half_ttl now c e"
  by (simp add: avahi_cache_entry_half_ttl_def)

text \<open>The records of the cache that match a key and are still in the first half of their lifetime.\<close>

definition young_answers :: "timeval \<Rightarrow> 'c AvahiCache \<Rightarrow> AvahiKey \<Rightarrow> AvahiRecord list" where
  "young_answers now c k =
     map (\<lambda>e. cache_record (entry c e)) (filter (\<lambda>e. \<not> avahi_cache_entry_half_ttl now c e) (matching c k))"

lemma walk_key_known:
  "walk_key (known_answer_walk_callback now) es (with_found c l) =
     Some (None, with_found c
       (rev (map (\<lambda>e. cache_record (entry c e)) (filter (\<lambda>e. \<not> avahi_cache_entry_half_ttl now c e) es)) @ l))"
  by (induction es arbitrary: l) (simp_all add: known_answer_walk_callback_def)

lemma walk_all_known:
  assumes "\<forall>e \<in> set es. avahi_key_pattern_match k (ckey c e) \<noteq> None"
  shows "walk_all (known_answer_walk_callback now) k es (with_found c l) =
    walk_key (known_answer_walk_callback now) (filter (\<lambda>e. avahi_key_pattern_match k (ckey c e) = Some True) es) (with_found c l)"
  using assms by (induction es arbitrary: l) (auto simp: known_answer_walk_callback_def)

lemma walk_known:
  assumes "cache_ok c" "avahi_key_is_valid k"
  shows "avahi_cache_walk k (known_answer_walk_callback now) (with_found c l) =
    Some (None, with_found c (rev (young_answers now c k) @ l))"
proof (cases "avahi_key_is_pattern k")
  case True
  have "\<forall>e \<in> set (cache_entries c). avahi_key_pattern_match k (ckey c e) \<noteq> None"
    using match_total [OF assms] by auto
  with True walk_all_known [OF this, of now l] show ?thesis
    by (simp add: avahi_cache_walk_def walk_key_known young_answers_def matching_def)
next
  case False
  have "lookup_key (with_found c l) k = lookup_key c k" by (simp add: lookup_key_def)
  with False lookup_key_ok [OF assms False] show ?thesis
    by (simp add: avahi_cache_walk_def walk_key_known young_answers_def matching_def)
qed

section \<open>Questions\<close>

lemma packet_add_query_job_ok:
  fixes s :: "'o AvahiQueryScheduler"
  assumes "qs_ok s" "j \<in> set (jobs s)" "cache_ok c" "tv_norm now" "holds p ks []"
  obtains (added) p' s' where "packet_add_query_job c now rnd p j s = Some (True, p', s')"
      "holds p' (ks @ [(qkey (job s j), False)]) []" "extends p p'"
      "qs_ok s'" "jobs s' = remove1 j (jobs s)" "history s' = j # history s"
      "queries s' = (queries s)(asks s j \<mapsto> (True, now))" "\<forall>i. qkey (job s' i) = qkey (job s i)"
      "known_answers s' = rev (young_answers now c (qkey (job s j))) @ known_answers s" "sent s' = sent s"
      "mtu s' = mtu s" "statics s' = statics s"
  | (full) p' where "packet_add_query_job c now rnd p j s = Some (False, p', s)" "holds p' ks []" "extends p p'"
      "max_size p < psize p + key_space (qkey (job s j))"
proof -
  note ok = qs_okD [OF assms(1)]
  have j: "j \<in> set (qjobs s)" using assms(2) by simp
  note k = ok(6) [OF j]
  show ?thesis
  proof (rule append_key_holds [OF assms(5) k, of False])
    fix p' assume p': "avahi_dns_packet_append_key (qkey (job s j)) False p = Some (None, p')" "holds p' ks []" "extends p p'"
      "max_size p < psize p + key_space (qkey (job s j))"
    then show ?thesis by (intro full) (simp_all add: packet_add_query_job_def)
  next
    fix p' assume p': "avahi_dns_packet_append_key (qkey (job s j)) False p = Some (Some (psize p), p')"
      "holds p' (ks @ [(qkey (job s j), False)]) []" "extends p p'"
    let ?l = "rev (young_answers now c (qkey (job s j))) @ known_answers s"
    let ?s = "s\<lparr>known_answers := ?l\<rparr>"
    have ok1: "qs_ok ?s" by (rule qs_ok_cong(1) [OF assms(1)]) simp_all
    have q1: "queries ?s = queries s" by (rule qs_ok_cong(2) [OF assms(1)]) simp_all
    have j1: "j \<in> set (jobs ?s)" using assms(2) by simp
    obtain q where q: "query_job_mark_done now rnd j ?s = Some (?s\<lparr>queue := q, jobs := remove1 j (jobs ?s), history := j # history ?s,
       job := (job ?s)(j := (job ?s j)\<lparr>qdone := True, qdelivery := now\<rparr>)\<rparr>)"
      "qs_ok (?s\<lparr>queue := q, jobs := remove1 j (jobs ?s), history := j # history ?s,
       job := (job ?s)(j := (job ?s j)\<lparr>qdone := True, qdelivery := now\<rparr>)\<rparr>)"
      "queries (?s\<lparr>queue := q, jobs := remove1 j (jobs ?s), history := j # history ?s,
       job := (job ?s)(j := (job ?s j)\<lparr>qdone := True, qdelivery := now\<rparr>)\<rparr>) = (queries ?s)(asks ?s j \<mapsto> (True, now))"
      by (rule query_job_mark_done_ok [OF ok1 j1 assms(4)])
    have run: "packet_add_query_job c now rnd p j s = map_option (\<lambda>s. (True, p', s)) (query_job_mark_done now rnd j ?s)"
      using p'(1) walk_known [OF assms(3) ok(10) [OF j], of now "known_answers s"]
      by (cases "query_job_mark_done now rnd j ?s") (simp_all add: packet_add_query_job_def)
    obtain s2 where s2: "s2 = ?s\<lparr>queue := q, jobs := remove1 j (jobs ?s), history := j # history ?s,
       job := (job ?s)(j := (job ?s j)\<lparr>qdone := True, qdelivery := now\<rparr>)\<rparr>" by blast
    have "packet_add_query_job c now rnd p j s = Some (True, p', s2)" unfolding run q(1) s2 by simp
    moreover have "jobs s2 = remove1 j (jobs s)" "history s2 = j # history s" "known_answers s2 = ?l" "sent s2 = sent s"
      "mtu s2 = mtu s" "statics s2 = statics s" "\<forall>i. qkey (job s2 i) = qkey (job s i)"
      by (simp_all add: s2)
    moreover have "queries s2 = (queries s)(asks s j \<mapsto> (True, now))" unfolding s2 q(3) q1 by simp
    moreover have "qs_ok s2" unfolding s2 by (rule q(2))
    ultimately show ?thesis using added p'(2,3) by blast
  qed
qed

text \<open>The known answers for some keys, in the order in which they are sent.\<close>

definition answers_for :: "timeval \<Rightarrow> 'c AvahiCache \<Rightarrow> AvahiKey list \<Rightarrow> AvahiRecord list" where
  "answers_for now c ks = concat (map (\<lambda>k. rev (young_answers now c k)) (rev ks))"

lemma answers_for_simps [simp]:
  "answers_for now c [] = []" "answers_for now c (k # ks) = answers_for now c ks @ rev (young_answers now c k)"
  by (simp_all add: answers_for_def)

text \<open>The queries after some of them have been asked.\<close>

definition asked :: "timeval \<Rightarrow> question set \<Rightarrow> (question \<Rightarrow> (bool \<times> timeval) option) \<Rightarrow> question \<Rightarrow> (bool \<times> timeval) option" where
  "asked now qs m = (\<lambda>q. if q \<in> qs then Some (True, now) else m q)"

lemma asked_simps [simp]:
  "asked now {} m = m" "asked now qs (m(q \<mapsto> (True, now))) = asked now (insert q qs) m"
  by (auto simp: asked_def fun_eq_iff)

lemma fill_packet_ok:
  fixes s :: "'o AvahiQueryScheduler"
  assumes "qs_ok s" "cache_ok c" "tv_norm now" "holds p ks []"
  shows "\<exists>js rest p' s'. fill_packet c now rnd p n s = Some (n + length js, p', s') \<and> jobs s = js @ rest \<and>
    holds p' (ks @ map (\<lambda>j. (qkey (job s j), False)) js) [] \<and> extends p p' \<and>
    qs_ok s' \<and> jobs s' = rest \<and> history s' = rev js @ history s \<and> (\<forall>i. qkey (job s' i) = qkey (job s i)) \<and>
    known_answers s' = answers_for now c (map (\<lambda>j. qkey (job s j)) js) @ known_answers s \<and>
    queries s' = asked now (asks s ` set js) (queries s) \<and> sent s' = sent s \<and> mtu s' = mtu s \<and> statics s' = statics s \<and>
    (rest \<noteq> [] \<longrightarrow> max_size p < psize p' + key_space (qkey (job s (hd rest))))"
  using assms(1,4)
proof (induction "jobs s" arbitrary: s p ks n)
  case Nil
  then show ?case
    by (intro exI [of _ "[]"] exI [of _ p] exI [of _ s]) (subst fill_packet.simps, simp)
next
  case (Cons j js0)
  have j: "j \<in> set (jobs s)" using Cons.hyps(2) [symmetric] by simp
  show ?case
  proof (rule packet_add_query_job_ok [OF Cons.prems(1) j assms(2,3) Cons.prems(2), of rnd])
    fix p' assume p': "packet_add_query_job c now rnd p j s = Some (False, p', s)" "holds p' ks []" "extends p p'"
      "max_size p < psize p + key_space (qkey (job s j))"
    have "psize p \<le> psize p'" using p'(3) by (rule extendsD)
    with p' Cons.prems(1) Cons.hyps(2) [symmetric] show ?thesis
      by (intro exI [of _ "[]"] exI [of _ "jobs s"] exI [of _ p'] exI [of _ s]) (subst fill_packet.simps, simp)
  next
    fix p1 s1 assume s1: "packet_add_query_job c now rnd p j s = Some (True, p1, s1)"
      "holds p1 (ks @ [(qkey (job s j), False)]) []" "extends p p1" "qs_ok s1" "jobs s1 = remove1 j (jobs s)"
      "history s1 = j # history s" "queries s1 = (queries s)(asks s j \<mapsto> (True, now))" "\<forall>i. qkey (job s1 i) = qkey (job s i)"
      "known_answers s1 = rev (young_answers now c (qkey (job s j))) @ known_answers s" "sent s1 = sent s" "mtu s1 = mtu s"
      "statics s1 = statics s"
    have js0: "js0 = jobs s1" using s1(5) Cons.hyps(2) [symmetric] by simp
    obtain js rest p' s' where r: "fill_packet c now rnd p1 (n + 1) s1 = Some (n + 1 + length js, p', s')" "js0 = js @ rest"
      "holds p' ((ks @ [(qkey (job s j), False)]) @ map (\<lambda>j. (qkey (job s1 j), False)) js) []" "extends p1 p'" "qs_ok s'" "jobs s' = rest"
      "history s' = rev js @ history s1" "\<forall>i. qkey (job s' i) = qkey (job s1 i)"
      "known_answers s' = answers_for now c (map (\<lambda>j. qkey (job s1 j)) js) @ known_answers s1"
      "queries s' = asked now (asks s1 ` set js) (queries s1)" "sent s' = sent s1" "mtu s' = mtu s1" "statics s' = statics s1"
      "rest \<noteq> [] \<longrightarrow> max_size p1 < psize p' + key_space (qkey (job s1 (hd rest)))"
      using Cons.hyps(1) [OF js0 s1(4,2), of "n + 1"] unfolding js0 by metis
    have "fill_packet c now rnd p n s = Some (n + length (j # js), p', s')"
      using s1(1) r(1) Cons.hyps(2) [symmetric] by (subst fill_packet.simps) simp
    moreover have "extends p p'" using s1(3) r(4) by (rule extends_trans)
    ultimately show ?thesis
      using r s1(6-12) Cons.hyps(2) [symmetric] extendsD(2) [OF s1(3)]
      by (intro exI [of _ "j # js"] exI [of _ rest] exI [of _ p'] exI [of _ s']) simp
  qed
qed

section \<open>Packets of answers\<close>

text \<open>A list of known answers without some that are too large for a packet of their own.\<close>

inductive all_but_too_large :: "nat \<Rightarrow> AvahiRecord list \<Rightarrow> AvahiRecord list \<Rightarrow> bool" for limit where
  none: "all_but_too_large limit [] []"
| keep: "all_but_too_large limit rs as \<Longrightarrow> all_but_too_large limit (r # rs) (r # as)"
| leave: "all_but_too_large limit rs as \<Longrightarrow> limit < 12 + record_space r \<Longrightarrow> all_but_too_large limit (r # rs) as"

text \<open>A packet with these questions and answers, as its header says, and the flag for more to come.\<close>

definition query_packet :: "nat \<Rightarrow> AvahiDnsPacket \<Rightarrow> AvahiKey list \<Rightarrow> AvahiRecord list \<Rightarrow> bool \<Rightarrow> bool" where
  "query_packet limit p ks rs tc =
     (packet_content p = Some (map (\<lambda>k. (k, False)) ks, map (\<lambda>r. (r, False)) rs) \<and> psize p \<le> limit \<and>
      avahi_dns_packet_get_field p AVAHI_DNS_FIELD_FLAGS = Some (if tc then AVAHI_DNS_FLAG_TC else 0))"

fun query_packets :: "nat \<Rightarrow> AvahiDnsPacket list \<Rightarrow> AvahiKey list \<Rightarrow> AvahiRecord list \<Rightarrow> bool" where
  "query_packets limit [] ks rs = False"
| "query_packets limit [p] ks rs = query_packet limit p ks rs False"
| "query_packets limit (p # ps) ks rs =
     (\<exists>as bs. rs = as @ bs \<and> query_packet limit p ks as True \<and> query_packets limit ps [] bs)"

lemma query_packets_Cons:
  "query_packet limit p ks as True \<Longrightarrow> query_packets limit ps [] bs \<Longrightarrow> query_packets limit (p # ps) ks (as @ bs)"
  by (cases ps) auto

lemma query_packets_first:
  assumes "query_packets limit ps ks rs"
  obtains p as tc where "ps = p # tl ps" "query_packet limit p ks as tc" "\<exists>bs. rs = as @ bs"
  using assms by (cases "(limit, ps, ks, rs)" rule: query_packets.cases) auto

text \<open>A packet that is being filled.\<close>

definition filling :: "nat \<Rightarrow> AvahiDnsPacket \<Rightarrow> AvahiKey list \<Rightarrow> AvahiRecord list \<Rightarrow> bool" where
  "filling limit p ks rs =
     (holds p (map (\<lambda>k. (k, False)) ks) (map (\<lambda>r. (r, False)) rs) \<and> max_size p = limit \<and>
      avahi_dns_packet_get_field p AVAHI_DNS_FIELD_FLAGS = Some 0 \<and>
      avahi_dns_packet_get_field p AVAHI_DNS_FIELD_QDCOUNT = Some (of_nat (length ks)))"

lemma filling_finished:
  assumes "filling limit p ks rs" "limit < 2 ^ 16"
  obtains p' where "avahi_dns_packet_set_field p AVAHI_DNS_FIELD_ANCOUNT (of_nat (length rs)) = Some p'"
    "query_packet limit p' ks rs False"
proof -
  let ?ks = "map (\<lambda>k. (k, False)) ks" and ?rs = "map (\<lambda>r. (r, False)) rs"
  have h: "holds p ?ks ?rs" using assms(1) by (simp add: filling_def)
  obtain p' where p': "avahi_dns_packet_set_field p AVAHI_DNS_FIELD_ANCOUNT (of_nat (length rs)) = Some p'"
    "holds p' ?ks ?rs" "psize p' = psize p" "max_size p' = max_size p"
    "\<And>j. j < 6 \<Longrightarrow> avahi_dns_packet_get_field p' j = (if j = AVAHI_DNS_FIELD_ANCOUNT then Some (of_nat (length rs)) else avahi_dns_packet_get_field p j)"
    by (rule holds_set_field [OF h, of 3 "of_nat (length rs)"]) (simp, rule that)
  have sz: "psize p' \<le> limit" using holds_ok(1) [OF p'(2)] p'(4) assms(1) by (simp add: packet_ok_def filling_def)
  have "packet_content p' = Some (?ks, ?rs)"
    by (rule packet_content_holds [OF p'(2)]) (use sz assms p'(5) in \<open>simp_all add: filling_def\<close>)
  with that [OF p'(1)] sz p'(5) assms(1) show ?thesis by (simp add: query_packet_def filling_def)
qed

lemma filling_truncated:
  assumes "filling limit p ks rs" "limit < 2 ^ 16"
  obtains p1 p2 where "avahi_dns_packet_get_field p AVAHI_DNS_FIELD_FLAGS = Some 0"
    "avahi_dns_packet_set_field p AVAHI_DNS_FIELD_FLAGS (0 OR AVAHI_DNS_FLAG_TC) = Some p1"
    "avahi_dns_packet_set_field p1 AVAHI_DNS_FIELD_ANCOUNT (of_nat (length rs)) = Some p2" "query_packet limit p2 ks rs True"
proof -
  let ?ks = "map (\<lambda>k. (k, False)) ks" and ?rs = "map (\<lambda>r. (r, False)) rs"
  have h: "holds p ?ks ?rs" using assms(1) by (simp add: filling_def)
  obtain p1 where p1: "avahi_dns_packet_set_field p AVAHI_DNS_FIELD_FLAGS (0 OR AVAHI_DNS_FLAG_TC) = Some p1"
    "holds p1 ?ks ?rs" "psize p1 = psize p" "max_size p1 = max_size p"
    "\<And>j. j < 6 \<Longrightarrow> avahi_dns_packet_get_field p1 j = (if j = AVAHI_DNS_FIELD_FLAGS then Some (0 OR AVAHI_DNS_FLAG_TC) else avahi_dns_packet_get_field p j)"
    by (rule holds_set_field [OF h, of 1 "0 OR AVAHI_DNS_FLAG_TC"]) (simp, rule that)
  obtain p2 where p2: "avahi_dns_packet_set_field p1 AVAHI_DNS_FIELD_ANCOUNT (of_nat (length rs)) = Some p2"
    "holds p2 ?ks ?rs" "psize p2 = psize p1" "max_size p2 = max_size p1"
    "\<And>j. j < 6 \<Longrightarrow> avahi_dns_packet_get_field p2 j = (if j = AVAHI_DNS_FIELD_ANCOUNT then Some (of_nat (length rs)) else avahi_dns_packet_get_field p1 j)"
    by (rule holds_set_field [OF p1(2), of 3 "of_nat (length rs)"]) (simp, rule that)
  have sz: "psize p2 \<le> limit" using holds_ok(1) [OF p2(2)] p2(4) p1(4) assms(1) by (simp add: packet_ok_def filling_def)
  have "packet_content p2 = Some (?ks, ?rs)"
    by (rule packet_content_holds [OF p2(2)]) (use sz assms p2(5) p1(5) in \<open>simp_all add: filling_def\<close>)
  with that [OF _ p1(1) p2(1)] sz p1(5) p2(5) assms(1) show ?thesis by (simp add: query_packet_def filling_def)
qed

lemma filling_append:
  assumes "filling limit p ks rs" "sendable r"
  obtains (fits) p' where "avahi_dns_packet_append_record r False 0 p = Some (Some (psize p), p')"
      "filling limit p' ks (rs @ [r])"
  | (full) p' where "avahi_dns_packet_append_record r False 0 p = Some (None, p')" "filling limit p' ks rs"
      "psize p' = psize p" "limit < psize p + record_space r"
proof -
  have h: "holds p (map (\<lambda>k. (k, False)) ks) (map (\<lambda>r. (r, False)) rs)" using assms(1) by (simp add: filling_def)
  show ?thesis
  proof (rule append_record_holds [OF h assms(2), of False])
    fix p' assume p': "avahi_dns_packet_append_record r False 0 p = Some (Some (psize p), p')"
      "holds p' (map (\<lambda>k. (k, False)) ks) (map (\<lambda>r. (r, False)) rs @ [(r, False)])" "extends p p'"
    have "filling limit p' ks (rs @ [r])"
      using p'(2) holds_fields [OF h p'(3), of 1] holds_fields [OF h p'(3), of 2] assms(1) extendsD(2) [OF p'(3)]
      by (simp add: filling_def)
    with p'(1) show ?thesis by (rule fits)
  next
    fix p' assume p': "avahi_dns_packet_append_record r False 0 p = Some (None, p')"
      "holds p' (map (\<lambda>k. (k, False)) ks) (map (\<lambda>r. (r, False)) rs)" "extends p p'" "psize p' = psize p"
      "max_size p < psize p + record_space r"
    have "filling limit p' ks rs" "limit < psize p + record_space r"
      using p'(2,5) holds_fields [OF h p'(3), of 1] holds_fields [OF h p'(3), of 2] assms(1) extendsD(2) [OF p'(3)]
      by (simp_all add: filling_def)
    with p'(1,4) show ?thesis using full by blast
  qed
qed

lemma filling_new:
  obtains p where "avahi_dns_packet_new_query junk m = Some p" "filling (packet_limit m) p [] []" "psize p = 12"
  by (rule new_query_ok [of junk m]) (use that in \<open>simp add: filling_def\<close>)

lemma append_known_answer_fits:
  "avahi_dns_packet_append_record r False 0 p = Some (Some a, p') \<Longrightarrow>
   append_known_answer junk r p n s = Some (False, p', n, s)"
  by (subst append_known_answer.simps) simp

lemma append_known_answer_too_large:
  "avahi_dns_packet_append_record r False 0 p = Some (None, p') \<Longrightarrow> avahi_dns_packet_is_empty p' \<Longrightarrow>
   append_known_answer junk r p n s = Some (True, p', n, s)"
  by (subst append_known_answer.simps) simp

lemma append_known_answer_ok:
  fixes s :: "'o AvahiQueryScheduler"
  assumes "filling (packet_limit (mtu s)) p ks rs" "packet_limit (mtu s) < 2 ^ 16" "sendable r"
  obtains (fits) p' where "append_known_answer junk r p (length rs) s = Some (False, p', length rs, s)"
      "filling (packet_limit (mtu s)) p' ks (rs @ [r])"
  | (too_large) p' where "append_known_answer junk r p (length rs) s = Some (True, p', length rs, s)"
      "filling (packet_limit (mtu s)) p' ks rs" "packet_limit (mtu s) < 12 + record_space r"
  | (next_packet) p1 p' where "append_known_answer junk r p (length rs) s = Some (False, p', 0, send_packet p1 s)"
      "query_packet (packet_limit (mtu s)) p1 ks rs True" "filling (packet_limit (mtu s)) p' [] [r]"
  | (skip) p1 p' where "append_known_answer junk r p (length rs) s = Some (True, p', 0, send_packet p1 s)"
      "query_packet (packet_limit (mtu s)) p1 ks rs True" "filling (packet_limit (mtu s)) p' [] []"
      "packet_limit (mtu s) < 12 + record_space r"
proof (rule filling_append [OF assms(1,3)])
  fix p' assume "avahi_dns_packet_append_record r False 0 p = Some (Some (psize p), p')"
    "filling (packet_limit (mtu s)) p' ks (rs @ [r])"
  with append_known_answer_fits show ?thesis by (intro fits) simp_all
next
  fix p' assume p': "avahi_dns_packet_append_record r False 0 p = Some (None, p')" "filling (packet_limit (mtu s)) p' ks rs"
    "psize p' = psize p" "packet_limit (mtu s) < psize p + record_space r"
  show ?thesis
  proof (cases "avahi_dns_packet_is_empty p'")
    case True
    have "packet_limit (mtu s) < 12 + record_space r"
      using True p'(3,4) by (simp add: avahi_dns_packet_is_empty_def)
    with append_known_answer_too_large [OF p'(1) True] p'(2) show ?thesis by (rule too_large)
  next
    case False
    obtain q p1 where q: "avahi_dns_packet_get_field p' AVAHI_DNS_FIELD_FLAGS = Some 0"
      "avahi_dns_packet_set_field p' AVAHI_DNS_FIELD_FLAGS (0 OR AVAHI_DNS_FLAG_TC) = Some q"
      "avahi_dns_packet_set_field q AVAHI_DNS_FIELD_ANCOUNT (of_nat (length rs)) = Some p1"
      "query_packet (packet_limit (mtu s)) p1 ks rs True"
      by (rule filling_truncated [OF p'(2) assms(2)])
    obtain p2 where p2: "avahi_dns_packet_new_query junk (mtu s) = Some p2" "filling (packet_limit (mtu s)) p2 [] []" "psize p2 = 12"
      by (rule filling_new)
    have run: "append_known_answer junk r p (length rs) s = append_known_answer junk r p2 0 (send_packet p1 s)"
      using False p'(1) q(1-3) p2(1) by (subst append_known_answer.simps) (simp add: send_packet_def Let_def)
    show ?thesis
    proof (rule filling_append [OF p2(2) assms(3)])
      fix p3 assume "avahi_dns_packet_append_record r False 0 p2 = Some (Some (psize p2), p3)"
        "filling (packet_limit (mtu s)) p3 [] ([] @ [r])"
      with append_known_answer_fits q(4) run show ?thesis by (intro next_packet [of p3 p1]) simp_all
    next
      fix p3 assume p3: "avahi_dns_packet_append_record r False 0 p2 = Some (None, p3)" "filling (packet_limit (mtu s)) p3 [] []"
        "psize p3 = psize p2" "packet_limit (mtu s) < psize p2 + record_space r"
      have "avahi_dns_packet_is_empty p3" using p3(3) p2(3) by (simp add: avahi_dns_packet_is_empty_def)
      then have "append_known_answer junk r p2 0 (send_packet p1 s) = Some (True, p3, 0, send_packet p1 s)"
        by (rule append_known_answer_too_large [OF p3(1)])
      with skip [of p3 p1] q(4) p3(2,4) p2(3) run show ?thesis by simp
    qed
  qed
qed

text \<open>All known answers, from a packet that holds some already.\<close>

lemma known_answers_sent:
  fixes s :: "'o AvahiQueryScheduler"
  assumes "filling (packet_limit (mtu s)) p ks rs" "packet_limit (mtu s) < 2 ^ 16" "\<forall>r \<in> set (known_answers s). sendable r"
  shows "\<exists>ps as. (do {
       (p, n, s) \<leftarrow> known_answers_loop junk p (length rs) s;
       p \<leftarrow> avahi_dns_packet_set_field p AVAHI_DNS_FIELD_ANCOUNT (of_nat n);
       Some (send_packet p s)
     }) = Some (s\<lparr>known_answers := [], sent := rev ps @ sent s\<rparr>) \<and>
     query_packets (packet_limit (mtu s)) ps ks (rs @ as) \<and>
     all_but_too_large (packet_limit (mtu s)) (known_answers s) as"
  using assms
proof (induction "known_answers s" arbitrary: s p ks rs)
  case Nil
  obtain p' where p': "avahi_dns_packet_set_field p AVAHI_DNS_FIELD_ANCOUNT (of_nat (length rs)) = Some p'"
    "query_packet (packet_limit (mtu s)) p' ks rs False" by (rule filling_finished [OF Nil.prems(1,2)])
  have "known_answers_loop junk p (length rs) s = Some (p, length rs, s)"
    using Nil.hyps [symmetric] by (subst known_answers_loop.simps) simp
  with p' Nil.hyps [symmetric] show ?case
    by (intro exI [of _ "[p']"] exI [of _ "[]"]) (simp add: send_packet_def all_but_too_large.none)
next
  case (Cons r kas)
  let ?M = "packet_limit (mtu s)" and ?s = "s\<lparr>known_answers := kas\<rparr>"
  have known: "known_answers s = r # kas" using Cons.hyps(2) by simp
  have r: "sendable r" "\<forall>r \<in> set kas. sendable r" using Cons.prems(3) known by simp_all
  let ?finish = "\<lambda>l. do {
       (p, n, s) \<leftarrow> l;
       p \<leftarrow> avahi_dns_packet_set_field p AVAHI_DNS_FIELD_ANCOUNT (of_nat n);
       Some (send_packet p s)
     }"
  have step: "known_answers_loop junk p (length rs) s =
      known_answers_loop junk p' (if b then n else n + 1) (t\<lparr>known_answers := kas\<rparr>)"
    if "append_known_answer junk r p (length rs) s = Some (b, p', n, t)" for b p' n t
    using that known by (subst known_answers_loop.simps) simp
  show ?case
  proof (rule append_known_answer_ok [OF Cons.prems(1,2) r(1), of junk])
    fix p' assume a: "append_known_answer junk r p (length rs) s = Some (False, p', length rs, s)" "filling ?M p' ks (rs @ [r])"
    obtain ps as where "?finish (known_answers_loop junk p' (length (rs @ [r])) ?s) = Some (?s\<lparr>known_answers := [], sent := rev ps @ sent ?s\<rparr>)"
      "query_packets ?M ps ks ((rs @ [r]) @ as)" "all_but_too_large ?M kas as"
      using Cons.hyps(1) [of ?s p' ks "rs @ [r]"] a(2) Cons.prems(2) r(2) by auto
    with step [OF a(1)] show ?thesis unfolding known
      by (intro exI [of _ ps] exI [of _ "r # as"]) (simp add: all_but_too_large.keep)
  next
    fix p' assume a: "append_known_answer junk r p (length rs) s = Some (True, p', length rs, s)" "filling ?M p' ks rs"
      "?M < 12 + record_space r"
    obtain ps as where "?finish (known_answers_loop junk p' (length rs) ?s) = Some (?s\<lparr>known_answers := [], sent := rev ps @ sent ?s\<rparr>)"
      "query_packets ?M ps ks (rs @ as)" "all_but_too_large ?M kas as"
      using Cons.hyps(1) [of ?s p' ks rs] a(2) Cons.prems(2) r(2) by auto
    with step [OF a(1)] a(3) show ?thesis unfolding known
      by (intro exI [of _ ps] exI [of _ as]) (simp add: all_but_too_large.leave)
  next
    fix p1 p' assume a: "append_known_answer junk r p (length rs) s = Some (False, p', 0, send_packet p1 s)"
      "query_packet ?M p1 ks rs True" "filling ?M p' [] [r]"
    let ?t = "(send_packet p1 s)\<lparr>known_answers := kas\<rparr>"
    obtain ps as where "?finish (known_answers_loop junk p' (length [r]) ?t) = Some (?t\<lparr>known_answers := [], sent := rev ps @ sent ?t\<rparr>)"
      "query_packets ?M ps [] ([r] @ as)" "all_but_too_large ?M kas as"
      using Cons.hyps(1) [of ?t p' "[]" "[r]"] a(3) Cons.prems(2) r(2) by (auto simp: send_packet_def)
    with step [OF a(1)] query_packets_Cons [OF a(2), of ps "r # as"] show ?thesis unfolding known
      by (intro exI [of _ "p1 # ps"] exI [of _ "r # as"]) (simp add: all_but_too_large.keep send_packet_def)
  next
    fix p1 p' assume a: "append_known_answer junk r p (length rs) s = Some (True, p', 0, send_packet p1 s)"
      "query_packet ?M p1 ks rs True" "filling ?M p' [] []" "?M < 12 + record_space r"
    let ?t = "(send_packet p1 s)\<lparr>known_answers := kas\<rparr>"
    obtain ps as where "?finish (known_answers_loop junk p' (length ([] :: AvahiRecord list)) ?t) = Some (?t\<lparr>known_answers := [], sent := rev ps @ sent ?t\<rparr>)"
      "query_packets ?M ps [] ([] @ as)" "all_but_too_large ?M kas as"
      using Cons.hyps(1) [of ?t p' "[]" "[]"] a(3) Cons.prems(2) r(2) by (auto simp: send_packet_def)
    with step [OF a(1)] query_packets_Cons [OF a(2), of ps as] a(4) show ?thesis unfolding known
      by (intro exI [of _ "p1 # ps"] exI [of _ as]) (simp add: all_but_too_large.leave send_packet_def)
  qed
qed

section \<open>A job that is due\<close>

text \<open>An interface whose packets have space for every question, and whose packets are shorter than their counters.\<close>

definition mtu_ok :: "'o AvahiQueryScheduler \<Rightarrow> bool" where
  "mtu_ok s = (273 \<le> packet_limit (mtu s) \<and> packet_limit (mtu s) < 2 ^ 16)"

definition sendable_cache :: "'c AvahiCache \<Rightarrow> bool" where
  "sendable_cache c = (cache_ok c \<and> (\<forall>e \<in> set (cache_entries c). sendable (cache_record (entry c e))))"

lemma answers_in_cache:
  assumes "r \<in> set (answers_for now c ks)"
  obtains e where "e \<in> set (cache_entries c)" "r = cache_record (entry c e)"
proof -
  have m: "set (matching c k) \<subseteq> set (cache_entries c)" for k
    using rec_chain_subset by (auto simp: matching_def)
  obtain k where "r \<in> set (young_answers now c k)" using assms by (auto simp: answers_for_def)
  with m [of k] that show ?thesis by (auto simp: young_answers_def)
qed

lemma answers_sendable: "sendable_cache c \<Longrightarrow> r \<in> set (answers_for now c ks) \<Longrightarrow> sendable r"
  by (erule answers_in_cache) (simp add: sendable_cache_def)

lemma query_elapse_done:
  assumes "qs_ok s" "j \<in> set (history s)"
  shows "\<exists>s'. query_elapse_callback c junk now rnd j s = Some s' \<and> qs_ok s' \<and> same_rest s s' \<and>
    queries s' = (queries s)(asks s j := None)"
proof -
  have j: "j \<in> set (qjobs s)" "qdone (job s j)" using assms qs_okD(5) by auto
  obtain q where q: "query_job_free j s = Some (s\<lparr>queue := q, jobs := remove1 j (jobs s), history := remove1 j (history s)\<rparr>)"
    "qs_ok (s\<lparr>queue := q, jobs := remove1 j (jobs s), history := remove1 j (history s)\<rparr>)"
    "queries (s\<lparr>queue := q, jobs := remove1 j (jobs s), history := remove1 j (history s)\<rparr>) = (queries s)(asks s j := None)"
    by (rule query_job_free_ok [OF assms(1) j(1)])
  show ?thesis
    by (rule exI, intro conjI, simp add: query_elapse_callback_def j(2), rule q(1), rule q(2), simp add: same_rest_def, rule q(3))
qed

text \<open>The questions of one packet: of the job that is due, and of as many other jobs as there is space for.\<close>

lemma query_questions:
  fixes s :: "'o AvahiQueryScheduler"
  assumes "qs_ok s" "j \<in> set (jobs s)" "known_answers s = []" "cache_ok c" "tv_norm now" "mtu_ok s"
  shows "\<exists>js rest p s'. (do {
       p \<leftarrow> avahi_dns_packet_new_query junk (mtu s);
       (b, p, s) \<leftarrow> packet_add_query_job c now rnd p j s;
       if \<not> b then None
       else do {
         (n, p, s) \<leftarrow> fill_packet c now rnd p 1 s;
         p \<leftarrow> avahi_dns_packet_set_field p AVAHI_DNS_FIELD_QDCOUNT (of_nat n);
         Some (p, s)
       }
     }) = Some (p, s') \<and> remove1 j (jobs s) = js @ rest \<and>
     filling (packet_limit (mtu s)) p (map (\<lambda>j. qkey (job s j)) (j # js)) [] \<and>
     qs_ok s' \<and> jobs s' = rest \<and> (\<forall>i. qkey (job s' i) = qkey (job s i)) \<and>
     known_answers s' = answers_for now c (map (\<lambda>j. qkey (job s j)) (j # js)) \<and>
     queries s' = asked now (asks s ` set (j # js)) (queries s) \<and>
     sent s' = sent s \<and> mtu s' = mtu s \<and> statics s' = statics s"
proof -
  obtain p0 where p0: "avahi_dns_packet_new_query junk (mtu s) = Some p0" "holds p0 [] []" "psize p0 = 12"
    "max_size p0 = packet_limit (mtu s)" "avahi_dns_packet_get_field p0 AVAHI_DNS_FIELD_FLAGS = Some 0"
    by (rule new_query_ok [of junk "mtu s"]) (rule that)
  show ?thesis
  proof (rule packet_add_query_job_ok [OF assms(1,2,4,5) p0(2), of rnd])
    fix p' assume "max_size p0 < psize p0 + key_space (qkey (job s j))"
    moreover have "key_space (qkey (job s j)) \<le> 261" using key_space_bound qs_okD(6) [OF assms(1), of j] assms(2) by simp
    ultimately show ?thesis using p0(3,4) assms(6) by (simp add: mtu_ok_def)
  next
    fix p1 s1 assume s1: "packet_add_query_job c now rnd p0 j s = Some (True, p1, s1)"
      "holds p1 ([] @ [(qkey (job s j), False)]) []" "extends p0 p1" "qs_ok s1" "jobs s1 = remove1 j (jobs s)"
      "history s1 = j # history s" "queries s1 = (queries s)(asks s j \<mapsto> (True, now))" "\<forall>i. qkey (job s1 i) = qkey (job s i)"
      "known_answers s1 = rev (young_answers now c (qkey (job s j))) @ known_answers s" "sent s1 = sent s" "mtu s1 = mtu s"
      "statics s1 = statics s"
    obtain js rest p2 s2 where s2: "fill_packet c now rnd p1 1 s1 = Some (1 + length js, p2, s2)" "jobs s1 = js @ rest"
      "holds p2 (([] @ [(qkey (job s j), False)]) @ map (\<lambda>j. (qkey (job s1 j), False)) js) []" "extends p1 p2" "qs_ok s2" "jobs s2 = rest"
      "\<forall>i. qkey (job s2 i) = qkey (job s1 i)"
      "known_answers s2 = answers_for now c (map (\<lambda>j. qkey (job s1 j)) js) @ known_answers s1"
      "queries s2 = asked now (asks s1 ` set js) (queries s1)" "sent s2 = sent s1" "mtu s2 = mtu s1" "statics s2 = statics s1"
      using fill_packet_ok [OF s1(4) assms(4,5) s1(2), of rnd 1] by blast
    note ext = extends_trans [OF s1(3) s2(4)]
    obtain p3 where p3: "avahi_dns_packet_set_field p2 AVAHI_DNS_FIELD_QDCOUNT (of_nat (1 + length js)) = Some p3"
      "holds p3 (([] @ [(qkey (job s j), False)]) @ map (\<lambda>j. (qkey (job s1 j), False)) js) []" "psize p3 = psize p2" "max_size p3 = max_size p2"
      "\<And>i. i < 6 \<Longrightarrow> avahi_dns_packet_get_field p3 i =
        (if i = AVAHI_DNS_FIELD_QDCOUNT then Some (of_nat (1 + length js)) else avahi_dns_packet_get_field p2 i)"
      by (rule holds_set_field [OF s2(3), of 2 "of_nat (1 + length js)"]) (simp, rule that)
    have "filling (packet_limit (mtu s)) p3 (map (\<lambda>j. qkey (job s j)) (j # js)) []"
      using p3(2,4) p3(5) [of 1] p3(5) [of 2] p0(4,5) s1(8) extendsD(2) [OF ext] holds_fields [OF p0(2) ext, of 1]
      by (simp add: filling_def comp_def)
    then show ?thesis
      using p0(1) s1 s2 p3(1) assms(3) by (intro exI [of _ js] exI [of _ rest] exI [of _ p3] exI [of _ s2]) simp
  qed
qed

lemma query_elapse_due:
  fixes s :: "'o AvahiQueryScheduler"
  assumes "qs_ok s" "j \<in> set (jobs s)" "known_answers s = []" "sendable_cache c" "tv_norm now" "mtu_ok s"
  shows "\<exists>js rest ps as s'. query_elapse_callback c junk now rnd j s = Some s' \<and> qs_ok s' \<and>
     remove1 j (jobs s) = js @ rest \<and> jobs s' = rest \<and>
     queries s' = asked now (asks s ` set (j # js)) (queries s) \<and>
     known_answers s' = [] \<and> mtu s' = mtu s \<and> statics s' = statics s \<and> sent s' = rev ps @ sent s \<and>
     query_packets (packet_limit (mtu s)) ps (map (\<lambda>j. qkey (job s j)) (j # js)) as \<and>
     all_but_too_large (packet_limit (mtu s)) (answers_for now c (map (\<lambda>j. qkey (job s j)) (j # js))) as"
proof -
  have c: "cache_ok c" using assms(4) by (simp add: sendable_cache_def)
  have nd: "\<not> qdone (job s j)" using qs_okD(3) [OF assms(1,2)] .
  obtain js rest p s1 where s1: "(do {
       p \<leftarrow> avahi_dns_packet_new_query junk (mtu s);
       (b, p, s) \<leftarrow> packet_add_query_job c now rnd p j s;
       if \<not> b then None
       else do {
         (n, p, s) \<leftarrow> fill_packet c now rnd p 1 s;
         p \<leftarrow> avahi_dns_packet_set_field p AVAHI_DNS_FIELD_QDCOUNT (of_nat n);
         Some (p, s)
       }
     }) = Some (p, s1)" "remove1 j (jobs s) = js @ rest"
     "filling (packet_limit (mtu s)) p (map (\<lambda>j. qkey (job s j)) (j # js)) []"
     "qs_ok s1" "jobs s1 = rest" "\<forall>i. qkey (job s1 i) = qkey (job s i)"
     "known_answers s1 = answers_for now c (map (\<lambda>j. qkey (job s j)) (j # js))"
     "queries s1 = asked now (asks s ` set (j # js)) (queries s)"
     "sent s1 = sent s" "mtu s1 = mtu s" "statics s1 = statics s"
    using query_questions [OF assms(1-3) c assms(5,6), of junk rnd] by blast
  have lim: "packet_limit (mtu s1) < 2 ^ 16" using assms(6) s1(10) by (simp add: mtu_ok_def)
  have snd: "\<forall>r \<in> set (known_answers s1). sendable r" unfolding s1(7) using answers_sendable [OF assms(4)] by blast
  have "filling (packet_limit (mtu s1)) p (map (\<lambda>j. qkey (job s j)) (j # js)) []" using s1(3,10) by simp
  from known_answers_sent [OF this lim snd, of junk] obtain ps as where
    k: "append_known_answers_and_send junk p s1 = Some (s1\<lparr>known_answers := [], sent := rev ps @ sent s1\<rparr>)"
      "query_packets (packet_limit (mtu s1)) ps (map (\<lambda>j. qkey (job s j)) (j # js)) as"
      "all_but_too_large (packet_limit (mtu s1)) (known_answers s1) as"
    by (auto simp: append_known_answers_and_send_def)
  let ?s = "s1\<lparr>known_answers := [], sent := rev ps @ sent s1\<rparr>"
  have run: "query_elapse_callback c junk now rnd j s = append_known_answers_and_send junk p s1"
    using s1(1) nd assms(3) by (auto simp: query_elapse_callback_def split: bind_splits prod.splits if_splits)
  have "qs_ok ?s" "queries ?s = queries s1" using qs_ok_cong [OF s1(4), of ?s] by simp_all
  with run k s1(2,5,7-11) show ?thesis
    by (intro exI [of _ js] exI [of _ rest] exI [of _ ps] exI [of _ as] exI [of _ ?s]) simp
qed

end
