(* ===== verification/Query_Properties.thy ===== *)
theory Query_Properties
  imports Query_Send Cache_Properties
begin

text \<open>
  The properties of the query scheduler: the states it can reach, posting and withdrawing queries, and what is sent.
\<close>

section \<open>The event loop\<close>

lemma qs_ok_queue:
  assumes "qs_ok s" "teq_ok q" "elapse_events q = elapse_events (queue s)"
  shows "qs_ok (s\<lparr>queue := q\<rparr>)" "queries (s\<lparr>queue := q\<rparr>) = queries s"
proof -
  note ok = qs_okD [OF assms(1)]
  show "qs_ok (s\<lparr>queue := q\<rparr>)"
    using ok(1-7) timers_other_ok [OF ok(8) assms(2,3)] by (simp add: qs_ok_def)
  show "queries (s\<lparr>queue := q\<rparr>) = queries s" by (simp add: queries_def)
qed

lemma qs_ok_timeout: "qs_ok s \<Longrightarrow> qs_ok (s\<lparr>queue := update_timeout (queue s)\<rparr>)"
  using update_timeout_ok [OF teq_pq [OF qs_okD(9)]] by (intro qs_ok_queue(1)) simp_all

text \<open>Between operations no known answer is waiting.\<close>

definition settled_scheduler :: "'o AvahiQueryScheduler \<Rightarrow> bool" where
  "settled_scheduler s = (qs_ok s \<and> known_answers s = [] \<and> mtu_ok s)"

lemma settled_same_rest: "settled_scheduler s \<Longrightarrow> same_rest s s' \<Longrightarrow> qs_ok s' \<Longrightarrow> settled_scheduler s'"
  by (simp add: settled_scheduler_def same_rest_def mtu_ok_def)

lemma query_elapse_ok:
  assumes "settled_scheduler s" "j \<in> set (qjobs s)" "sendable_cache c" "tv_norm now"
  shows "\<exists>s'. query_elapse_callback c junk now rnd j s = Some s' \<and> settled_scheduler s'"
proof (cases "j \<in> set (jobs s)")
  case True
  from query_elapse_due [OF _ True _ assms(3,4), of junk rnd] assms(1) show ?thesis
    unfolding settled_scheduler_def mtu_ok_def by metis
next
  case False
  then have "j \<in> set (history s)" using assms(2) by simp
  from query_elapse_done [OF _ this, of c junk now rnd] assms(1) settled_same_rest [OF assms(1)] show ?thesis
    unfolding settled_scheduler_def by blast
qed

lemma query_expiration_ok:
  assumes "settled_scheduler s" "sendable_cache c" "tv_norm now" "\<forall>x ev. harmless (\<lambda>q. map_option (Pair ()) (other x ev q))"
  shows "\<exists>s'. query_expiration other c junk now rnd s = Some s' \<and> settled_scheduler s'"
proof -
  have ok: "qs_ok s" using assms(1) by (simp add: settled_scheduler_def)
  have keep: "settled_scheduler (t\<lparr>queue := q\<rparr>)"
    if "settled_scheduler t" "teq_ok q" "elapse_events q = elapse_events (queue t)" for t :: "'a AvahiQueryScheduler" and q
    using that qs_ok_queue(1) [of t q] by (simp add: settled_scheduler_def mtu_ok_def)
  have tidy: "settled_scheduler (t\<lparr>queue := update_timeout (queue t)\<rparr>)" if "settled_scheduler t" for t :: "'a AvahiQueryScheduler"
    using that qs_ok_timeout [of t] by (simp add: settled_scheduler_def mtu_ok_def)
  show ?thesis
  proof (cases rule: expiration_start_ok [OF qs_okD(9) [OF ok], of now, case_names idle due])
    case idle
    with tidy [OF assms(1)] show ?thesis by (simp add: query_expiration_def)
  next
    case (due ev q)
    have s1: "settled_scheduler (s\<lparr>queue := q\<rparr>)" by (rule keep [OF assms(1) due(2,4)])
    show ?thesis
    proof (cases "callback (event q ev)")
      case (Elapse j)
      then have "j \<in> set (qjobs s)" using timers_owner(1) [OF qs_okD(8) [OF ok]] due(3,5,7) by simp
      then have "j \<in> set (qjobs (s\<lparr>queue := q\<rparr>))" by simp
      from query_elapse_ok [OF s1 this assms(2,3), of junk rnd] Elapse due(1) tidy show ?thesis
        by (auto simp: query_expiration_def)
    next
      case (Other x)
      from assms(4) [rule_format, of x ev] due(2) obtain q2 where
        q2: "other x ev q = Some q2" "teq_ok q2" "elapse_events q2 = elapse_events q" by (auto simp: harmless_def)
      have "settled_scheduler ((s\<lparr>queue := q\<rparr>)\<lparr>queue := q2\<rparr>)" by (rule keep [OF s1 q2(2)]) (simp add: q2(3))
      from tidy [OF this] Other due(1) q2(1) show ?thesis by (simp add: query_expiration_def)
    qed
  qed
qed

lemma find_unique_inj:
  assumes "inj_on f (set xs)" "x \<in> set xs" "f x = i"
  shows "find (\<lambda>x. f x = i) xs = Some x"
  using assms by (induction xs) (auto simp: inj_on_def)

section \<open>Reachable states\<close>

text \<open>
  What may happen to a query scheduler: keys are posted and withdrawn, packets bring queries of others, the event
  loop runs, and the queue changes in ways that do not concern it.
\<close>

inductive scheduler_reachable ::
  "('o \<Rightarrow> nat \<Rightarrow> 'o event_callback AvahiTimeEventQueue \<Rightarrow> 'o event_callback AvahiTimeEventQueue option) \<Rightarrow>
   nat \<Rightarrow> 'o AvahiQueryScheduler \<Rightarrow> bool" for other m where
  start: "teq_ok q \<Longrightarrow> elapse_events q = {} \<Longrightarrow> scheduler_reachable other m (avahi_query_scheduler_new q st m junk)"
| post: "scheduler_reachable other m s \<Longrightarrow> askable k \<Longrightarrow> tv_norm now \<Longrightarrow>
    avahi_query_scheduler_post now rnd k immediately s = Some (res, s') \<Longrightarrow> scheduler_reachable other m s'"
| withdraw: "scheduler_reachable other m s \<Longrightarrow> avahi_query_scheduler_withdraw_by_id i s = Some (b, s') \<Longrightarrow>
    scheduler_reachable other m s'"
| incoming: "scheduler_reachable other m s \<Longrightarrow> askable k \<Longrightarrow> tv_norm now \<Longrightarrow>
    avahi_query_scheduler_incoming now rnd k s = Some s' \<Longrightarrow> scheduler_reachable other m s'"
| elapse: "scheduler_reachable other m s \<Longrightarrow> sendable_cache (c :: 'o AvahiCache) \<Longrightarrow> tv_norm now \<Longrightarrow>
    query_expiration other c junk now rnd s = Some s' \<Longrightarrow> scheduler_reachable other m s'"
| clear: "scheduler_reachable other m s \<Longrightarrow> avahi_query_scheduler_clear s = Some s' \<Longrightarrow> scheduler_reachable other m s'"
| elsewhere: "scheduler_reachable other m s \<Longrightarrow> teq_ok q \<Longrightarrow> elapse_events q = elapse_events (queue s) \<Longrightarrow>
    scheduler_reachable other m (s\<lparr>queue := q\<rparr>)"

lemma scheduler_new_ok:
  assumes "teq_ok q" "elapse_events q = {}" "273 \<le> packet_limit m" "packet_limit m < 2 ^ 16"
  shows "settled_scheduler (avahi_query_scheduler_new q st m junk)"
  using assms by (simp add: settled_scheduler_def mtu_ok_def avahi_query_scheduler_new_def qs_ok_def timers_ok_def)

lemma withdraw_safe:
  assumes "settled_scheduler s"
  shows "\<exists>b s'. avahi_query_scheduler_withdraw_by_id i s = Some (b, s') \<and> settled_scheduler s'"
  using withdraw_loop_safe [of s "jobs s" i] assms settled_same_rest [OF assms]
  unfolding avahi_query_scheduler_withdraw_by_id_def settled_scheduler_def by blast

lemma scheduler_reachable_ok:
  assumes "scheduler_reachable other m s" "273 \<le> packet_limit m" "packet_limit m < 2 ^ 16"
    and "\<forall>x ev. harmless (\<lambda>q. map_option (Pair ()) (other x ev q))"
  shows "settled_scheduler s"
  using assms(1)
proof (induction rule: scheduler_reachable.induct)
  case (start q st junk)
  show ?case by (rule scheduler_new_ok [OF start assms(2,3)])
next
  case (post s k now rnd immediately res s')
  then have "qs_ok s" by (simp add: settled_scheduler_def)
  from query_post_ok [OF this post.hyps(2,3), of rnd immediately] post settled_same_rest [OF post.IH] show ?case by auto
next
  case (withdraw s i b s')
  then show ?case using withdraw_safe [OF withdraw.IH, of i] by auto
next
  case (incoming s k now rnd s')
  then have "qs_ok s" by (simp add: settled_scheduler_def)
  from query_incoming_ok [OF this incoming.hyps(2,3), of rnd] incoming settled_same_rest [OF incoming.IH] show ?case by auto
next
  case (elapse s c now junk rnd s')
  then show ?case using query_expiration_ok [OF elapse.IH elapse.hyps(2,3) assms(4), of junk rnd] by auto
next
  case (clear s s')
  then have "qs_ok s" by (simp add: settled_scheduler_def)
  from query_clear_ok [OF this] clear settled_same_rest [OF clear.IH] show ?case by auto
next
  case (elsewhere s q)
  then show ?case using qs_ok_queue(1) [of s q] by (simp add: settled_scheduler_def mtu_ok_def)
qed

section \<open>An example\<close>

definition example_scheduler :: "unit AvahiQueryScheduler" where
  "example_scheduler = avahi_query_scheduler_new (avahi_time_event_queue_new undefined) undefined 1500 undefined"

lemma example_limit: "273 \<le> packet_limit 1500" "packet_limit 1500 < 2 ^ 16" "packet_limit 1500 = 1452"
  by (simp_all add: packet_limit)

lemma example_scheduler_ok:
  "scheduler_reachable other 1500 example_scheduler" "settled_scheduler example_scheduler" "qs_ok example_scheduler"
  "queries example_scheduler = Map.empty" "jobs example_scheduler = []" "mtu example_scheduler = 1500"
  "sent example_scheduler = []" "history example_scheduler = []"
proof -
  have e: "elapse_events (avahi_time_event_queue_new undefined) = {}" by (simp add: elapse_events_def example_queue)
  show "scheduler_reachable other 1500 example_scheduler"
    unfolding example_scheduler_def by (rule scheduler_reachable.start [OF example_queue(1) e])
  show "settled_scheduler example_scheduler"
    unfolding example_scheduler_def by (rule scheduler_new_ok [OF example_queue(1) e example_limit(1,2)])
  then show "qs_ok example_scheduler" by (simp add: settled_scheduler_def)
qed (simp_all add: example_scheduler_def avahi_query_scheduler_new_def queries_def)

lemma example_askable: "askable (rkey example_a)" "tv_norm example_now" "sendable_cache example_cache"
proof -
  show "askable (rkey example_a)"
    using box_local by (auto simp: askable_def example_a_def avahi_key_new_def)
  show "sendable_cache example_cache"
    using example_cache_ok(1) by (simp add: sendable_cache_def example_cache_def avahi_cache_new_def)
qed (simp add: example_now_def tv_norm_def)

text \<open>A key that was posted.\<close>

lemma example_posted:
  obtains s j where "avahi_query_scheduler_post example_now 5 (rkey example_a) True example_scheduler = Some (Some (qid (job s j)), s)"
    "settled_scheduler s" "jobs s = [j]" "qkey (job s j) = rkey example_a" "history s = []" "mtu s = 1500" "sent s = []"
    "queries s = [question (rkey example_a) \<mapsto> (False, example_now)]" "n_posted (job s j) = 1"
proof -
  obtain s j where s: "avahi_query_scheduler_post example_now 5 (rkey example_a) True example_scheduler = Some (Some (qid (job s j)), s)"
    "qs_ok s" "same_rest example_scheduler s" "j \<in> set (jobs s)" "queries s = [question (rkey example_a) \<mapsto> (False, example_now)]"
    using query_post_ok [OF example_scheduler_ok(3) example_askable(1,2), of 5 True] example_scheduler_ok(4)
    by (auto simp: post_spec_def query_time_def)
  then have "jobs s = [j] \<and> history s = [] \<and> qkey (job s j) = rkey example_a \<and> n_posted (job s j) = 1"
    by (auto simp: avahi_query_scheduler_post_def schedule_query_def query_job_new_def example_scheduler_ok(5,8) Let_def
      elapse_time_plain split: bind_splits)
  with s settled_same_rest [OF example_scheduler_ok(2) s(3,2)] example_scheduler_ok(6,7) that show ?thesis
    by (simp add: same_rest_def)
qed

section \<open>Properties\<close>

text \<open>C7. Whatever is asked, heard and withdrawn and whenever the event loop runs, the query scheduler stays in order,
  provided that the other users of the queue of time events leave its events alone: no operation fails an
  assertion, a query always fits into a packet of its own, a job is on the list that its flag says and no two
  jobs ask the same; every job has exactly one event, no event refers to a job that was freed, and the timeout
  of the event loop is armed in time; and clearing leaves neither jobs nor events. That a query fits supposes packets of
  at least 273 bytes and names in normal form of less than 256 bytes.\<close>

theorem query_scheduler_invariant:
  assumes "scheduler_reachable other m s" "273 \<le> packet_limit m" "packet_limit m < 2 ^ 16"
    and "\<forall>x ev. harmless (\<lambda>q. map_option (Pair ()) (other x ev q))"
    and "sendable_cache (c :: 'o AvahiCache)" "tv_norm now" "askable k"
  shows "avahi_query_scheduler_post now rnd k immediately s \<noteq> None \<and> avahi_query_scheduler_incoming now rnd k s \<noteq> None \<and>
    avahi_query_scheduler_withdraw_by_id i s \<noteq> None \<and> query_expiration other c junk now rnd s \<noteq> None \<and>
    distinct (jobs s @ history s) \<and> known_answers s = [] \<and>
    (\<forall>j \<in> set (jobs s). \<not> qdone (job s j) \<and> 1 \<le> n_posted (job s j)) \<and> (\<forall>j \<in> set (history s). qdone (job s j)) \<and>
    (\<forall>j \<in> set (jobs s @ history s). \<forall>j' \<in> set (jobs s @ history s).
       avahi_key_equal (qkey (job s j)) (qkey (job s j')) = Some (j = j')) \<and>
    (\<forall>j \<in> set (jobs s @ history s). \<exists>!ev. ev \<in> events (queue s) \<and> callback (event (queue s) ev) = Elapse j) \<and>
    (\<forall>j \<in> set (jobs s @ history s). \<exists>t. timeout (queue s) = Some t \<and> avahi_timeval_compare t (qdue (job s j)) \<le> 0) \<and>
    (\<forall>ev \<in> events (queue s). \<forall>j. callback (event (queue s) ev) = Elapse j \<longrightarrow> j \<in> set (jobs s @ history s)) \<and>
    (\<exists>s'. avahi_query_scheduler_free s = Some s' \<and> jobs s' = [] \<and> history s' = [] \<and> elapse_events (queue s') = {})"
proof -
  have set: "settled_scheduler s" by (rule scheduler_reachable_ok [OF assms(1-4)])
  then have qs: "qs_ok s" "known_answers s = []" by (simp_all add: settled_scheduler_def)
  note ok = qs_okD [OF qs(1)]
  have eq: "avahi_key_equal (qkey (job s j)) (qkey (job s j')) = Some (j = j')"
    if "j \<in> set (qjobs s)" "j' \<in> set (qjobs s)" for j j'
    using key_equal_question [OF ok(10) [OF that(1)] ok(10) [OF that(2)]] inj_on_eq_iff [OF ok(2) that] by simp
  have "avahi_query_scheduler_post now rnd k immediately s \<noteq> None" using query_post_ok [OF qs(1) assms(7,6)] by blast
  moreover have "avahi_query_scheduler_incoming now rnd k s \<noteq> None" using query_incoming_ok [OF qs(1) assms(7,6)] by blast
  moreover have "avahi_query_scheduler_withdraw_by_id i s \<noteq> None" using withdraw_safe [OF set, of i] by auto
  moreover have "query_expiration other c junk now rnd s \<noteq> None" using query_expiration_ok [OF set assms(5,6,4)] by blast
  moreover have "\<exists>s'. avahi_query_scheduler_free s = Some s' \<and> jobs s' = [] \<and> history s' = [] \<and> elapse_events (queue s') = {}"
    using query_clear_ok [OF qs(1)] qs(2) by (auto simp: avahi_query_scheduler_free_def)
  ultimately show ?thesis
    using ok(1,3-5) qs(2) eq timers_one_event [OF ok(8)] timers_owner(1) [OF ok(8)]
    by (intro conjI ballI allI impI) blast+
qed

theorem query_scheduler_invariant_witness:
  "avahi_query_scheduler_post example_now 5 (rkey example_a) True example_scheduler \<noteq> None \<and>
   query_expiration (\<lambda>x ev q. Some q) example_cache undefined example_now 5 example_scheduler \<noteq> None"
  using query_scheduler_invariant [OF example_scheduler_ok(1) example_limit(1,2) quiet_harmless(3) example_askable(3,2,1)] by blast

text \<open>C14. The queries as a map from what is asked to whether it was asked and when: posting a key has the effect of
  \<open>post_spec\<close> on it. It fails only when the same was asked not more than 100 ms ago, by this host or another;
  it makes a waiting query earlier but never later, and otherwise adds a query, now or in 100 ms. The
  identifier that it returns is that of the job which asks the key. A query of another host makes the scheduler
  believe that the question was asked just now, and a query of its own that waited will not be sent. Nothing
  is sent at once.\<close>

theorem query_post_refines:
  assumes "qs_ok s" "askable k" "tv_norm now"
  shows "(\<exists>res s'. avahi_query_scheduler_post now rnd k immediately s = Some (res, s') \<and> qs_ok s' \<and> sent s' = sent s \<and>
      (case post_spec now immediately (question k) (queries s) of
         None \<Rightarrow> res = None \<and> s' = s
       | Some m \<Rightarrow> queries s' = m \<and> (\<exists>j \<in> set (jobs s'). asks s' j = question k \<and> res = Some (qid (job s' j))))) \<and>
    (\<exists>s'. avahi_query_scheduler_incoming now rnd k s = Some s' \<and> qs_ok s' \<and> sent s' = sent s \<and>
      queries s' = (queries s)(question k \<mapsto> (True, now)))"
  using query_post_ok [OF assms, of rnd immediately] query_incoming_ok [OF assms, of rnd] unfolding same_rest_def by blast

theorem query_post_refines_witness:
  "\<exists>res s. avahi_query_scheduler_post example_now 5 (rkey example_a) True example_scheduler = Some (res, s) \<and>
     queries s = [question (rkey example_a) \<mapsto> (False, example_now)]"
  using query_post_refines [OF example_scheduler_ok(3) example_askable(1,2), of 5 True]
  by (auto simp: post_spec_def query_time_def example_scheduler_ok(4))

text \<open>C4. When the event of a waiting job is due, the scheduler sends one or more packets. The first holds the key of
  this job and those of a prefix of the waiting jobs in their order; a receiver that parses the
  packets finds exactly these questions, and behind them the known answers: the records of the cache that match
  one of the questions and are in the first half of their lifetime, in order, but for records that do not fit
  into a packet of their own. Every packet is within the limit of the interface, all but the last carry the TC
  flag and only the first has questions. The jobs that were asked are in the history now, the others wait.\<close>

theorem query_packets_sent:
  assumes "qs_ok s" "j \<in> set (jobs s)" "known_answers s = []" "sendable_cache c" "tv_norm now"
    and "273 \<le> packet_limit (mtu s)" "packet_limit (mtu s) < 2 ^ 16"
  shows "\<exists>js ps as s'. query_elapse_callback c junk now rnd j s = Some s' \<and> qs_ok s' \<and>
     remove1 j (jobs s) = js @ jobs s' \<and> sent s' = rev ps @ sent s \<and>
     query_packets (packet_limit (mtu s)) ps (map (\<lambda>j. qkey (job s j)) (j # js)) as \<and>
     all_but_too_large (packet_limit (mtu s)) (answers_for now c (map (\<lambda>j. qkey (job s j)) (j # js))) as \<and>
     queries s' = asked now (asks s ` set (j # js)) (queries s) \<and> known_answers s' = []"
  using query_elapse_due [OF assms(1-5), of junk rnd] assms(6,7) unfolding mtu_ok_def by blast

theorem query_packets_sent_witness:
  "\<exists>s j s' p. avahi_query_scheduler_post example_now 5 (rkey example_a) True example_scheduler = Some (Some (qid (job s j)), s) \<and>
     query_elapse_callback example_cache undefined example_now 5 j s = Some s' \<and> last (sent s') = p \<and>
     packet_content p = Some ([(rkey example_a, False)], [])"
proof (rule example_posted)
  fix s j
  assume s: "avahi_query_scheduler_post example_now 5 (rkey example_a) True example_scheduler = Some (Some (qid (job s j)), s)"
    "settled_scheduler s" "jobs s = [j]" "qkey (job s j) = rkey example_a" "mtu s = 1500" "sent s = []"
  have "cache_entries example_cache = []" by (simp add: example_cache_def avahi_cache_new_def)
  then have empty: "answers_for example_now example_cache ks = []" for ks
    using answers_in_cache [of _ example_now example_cache ks] by (cases "answers_for example_now example_cache ks") auto
  from s(2,3) have "qs_ok s" "j \<in> set (jobs s)" "known_answers s = []" by (simp_all add: settled_scheduler_def)
  from query_packets_sent [OF this example_askable(3,2), of undefined 5] example_limit s(5) obtain js ps as s' where
    s': "query_elapse_callback example_cache undefined example_now 5 j s = Some s'" "remove1 j (jobs s) = js @ jobs s'"
      "sent s' = rev ps @ sent s" "query_packets 1452 ps (map (\<lambda>j. qkey (job s j)) (j # js)) as"
      "all_but_too_large 1452 (answers_for example_now example_cache (map (\<lambda>j. qkey (job s j)) (j # js))) as"
    by (simp del: answers_for_simps) blast
  have "as = []" using s'(5) unfolding empty by (cases rule: all_but_too_large.cases) simp
  moreover have "js = []" using s'(2) s(3) by simp
  ultimately have one: "query_packets 1452 ps [rkey example_a] []" using s'(4) s(4) by simp
  obtain p where p: "ps = p # tl ps" "packet_content p = Some ([(rkey example_a, False)], [])"
    using query_packets_first [OF one] by (auto simp: query_packet_def)
  show ?thesis
    by (intro exI [of _ s] exI [of _ j] exI [of _ s'] exI [of _ p], rule conjI [OF s(1) conjI [OF s'(1) conjI [OF _ p(2)]]]) (use s'(3) s(6) p(1) in \<open>metis append_Nil2 last_snoc rev.simps(2)\<close>)
qed

text \<open>C17. A query is withdrawn by its identifier, which waiting jobs do not share unless \<open>2 ^ 32\<close> queries were posted in
  between. As long as somebody else posted the same, only the count changes; the last one to withdraw takes the
  query away, with its event, and nothing else changes. A query that was already sent is not withdrawn.\<close>

theorem query_withdraw:
  assumes "qs_ok s" "inj_on (\<lambda>j. qid (job s j)) (set (jobs s))"
  shows "case find (\<lambda>j. qid (job s j) = i) (jobs s) of
      None \<Rightarrow> avahi_query_scheduler_withdraw_by_id i s = Some (False, s)
    | Some j \<Rightarrow> \<exists>b s'. avahi_query_scheduler_withdraw_by_id i s = Some (b, s') \<and> qs_ok s' \<and> sent s' = sent s \<and>
        history s' = history s \<and> b = (n_posted (job s j) = 1) \<and>
        (if b then jobs s' = remove1 j (jobs s) \<and> queries s' = (queries s)(asks s j := None)
         else jobs s' = jobs s \<and> queries s' = queries s \<and> n_posted (job s' j) = n_posted (job s j) - 1)"
proof (cases rule: query_withdraw_ok [OF assms, of i, case_names unknown shared last])
  case unknown
  then have "find (\<lambda>j. qid (job s j) = i) (jobs s) = None" by (simp add: find_None_iff)
  with unknown show ?thesis by simp
next
  case (shared j)
  moreover have "find (\<lambda>j. qid (job s j) = i) (jobs s) = Some j" by (rule find_unique_inj [OF assms(2) shared(1,2)])
  ultimately show ?thesis by auto
next
  case (last j s')
  moreover have "find (\<lambda>j. qid (job s j) = i) (jobs s) = Some j" by (rule find_unique_inj [OF assms(2) last(1,2)])
  ultimately show ?thesis by (auto simp: same_rest_def)
qed

theorem query_withdraw_witness:
  "\<exists>s i s'. avahi_query_scheduler_post example_now 5 (rkey example_a) True example_scheduler = Some (Some i, s) \<and>
     avahi_query_scheduler_withdraw_by_id i s = Some (True, s') \<and> jobs s' = []"
proof (rule example_posted)
  fix s j
  assume s: "avahi_query_scheduler_post example_now 5 (rkey example_a) True example_scheduler = Some (Some (qid (job s j)), s)"
    "settled_scheduler s" "jobs s = [j]" "n_posted (job s j) = 1"
  then have "qs_ok s" by (simp add: settled_scheduler_def)
  from query_withdraw [OF this, of "qid (job s j)"] s show ?thesis by auto
qed

end
