(* ===== verification/Job_Table.thy ===== *)
theory Job_Table
  imports Avahi_Prelude
begin

text \<open>
  Objects on lists as a map: every object has a key that no other on the lists has, and a value.
\<close>

definition table :: "(nat \<Rightarrow> 'k) \<Rightarrow> (nat \<Rightarrow> 'v) \<Rightarrow> nat list \<Rightarrow> 'k \<Rightarrow> 'v option" where
  "table key val js = map_of (map (\<lambda>j. (key j, val j)) js)"

lemma table_Nil [simp]: "table key val [] = Map.empty"
  by (simp add: table_def)

lemma table_none: "table key val js k = None \<longleftrightarrow> k \<notin> key ` set js"
  by (force simp: table_def map_of_eq_None_iff)

lemma table_job:
  assumes "inj_on key (set js)" "j \<in> set js"
  shows "table key val js (key j) = Some (val j)"
  using assms by (induction js) (auto simp: inj_on_def table_def)

lemma table_some:
  assumes "inj_on key (set js)" "table key val js k = Some v"
  obtains j where "j \<in> set js" "key j = k" "val j = v"
proof -
  obtain j where "j \<in> set js" "k = key j" using assms(2) table_none [of key val js k] by auto
  with table_job [OF assms(1), of j val] assms(2) that show ?thesis by simp
qed

text \<open>A map is the table of some objects if it agrees on every object and has nothing else.\<close>

lemma table_eqI:
  assumes "inj_on key (set js)" "\<And>j. j \<in> set js \<Longrightarrow> m (key j) = Some (val j)" "\<And>k. k \<notin> key ` set js \<Longrightarrow> m k = None"
  shows "table key val js = m"
proof
  fix k
  show "table key val js k = m k"
  proof (cases "k \<in> key ` set js")
    case True
    then obtain j where "j \<in> set js" "k = key j" by blast
    with assms(2) table_job [OF assms(1), of j val] show ?thesis by simp
  next
    case False
    with assms(3) table_none [of key val js k] show ?thesis by simp
  qed
qed

lemma table_cong:
  assumes "inj_on key (set js)" "set js' = set js" "\<And>j. j \<in> set js \<Longrightarrow> key' j = key j \<and> val' j = val j"
  shows "inj_on key' (set js') \<and> table key' val' js' = table key val js"
proof
  show inj: "inj_on key' (set js')" unfolding assms(2) using assms(1,3) by (simp add: inj_on_def)
  show "table key' val' js' = table key val js"
  proof (rule table_eqI [OF inj])
    show "table key val js (key' j) = Some (val' j)" if "j \<in> set js'" for j
      using that assms(2,3) table_job [OF assms(1), of j val] by simp
    show "table key val js k = None" if "k \<notin> key' ` set js'" for k
      using that assms(2,3) by (simp add: table_none)
  qed
qed

lemma table_remove:
  assumes "inj_on key (set js)" "j \<in> set js" "set js' = set js - {j}"
    and "\<And>i. i \<in> set js \<Longrightarrow> i \<noteq> j \<Longrightarrow> key' i = key i \<and> val' i = val i"
  shows "inj_on key' (set js') \<and> table key' val' js' = (table key val js)(key j := None)"
proof
  show inj: "inj_on key' (set js')" unfolding assms(3) using assms(1,4) by (simp add: inj_on_def)
  show "table key' val' js' = (table key val js)(key j := None)"
  proof (rule table_eqI [OF inj])
    fix i assume "i \<in> set js'"
    then have i: "i \<in> set js" "i \<noteq> j" unfolding assms(3) by auto
    then have "key i \<noteq> key j" using inj_onD [OF assms(1), of i j] assms(2) by auto
    with i assms(4) table_job [OF assms(1)] show "((table key val js)(key j := None)) (key' i) = Some (val' i)" by simp
  next
    fix k assume k: "k \<notin> key' ` set js'"
    show "((table key val js)(key j := None)) k = None"
    proof (cases "k = key j")
      case False
      have "k \<noteq> key i" if i: "i \<in> set js" for i
      proof (cases "i = j")
        case ij: False
        with i have "i \<in> set js'" unfolding assms(3) by blast
        with k have "k \<noteq> key' i" by blast
        with assms(4) [OF i ij] show ?thesis by simp
      qed (use False in simp)
      then have "k \<notin> key ` set js" by blast
      with False show ?thesis by (simp add: table_none)
    qed simp
  qed
qed

lemma table_put:
  assumes "inj_on key (set js)" "set js' = insert j (set js)"
    and "\<And>i. i \<in> set js \<Longrightarrow> i \<noteq> j \<Longrightarrow> key' i = key i \<and> val' i = val i \<and> key i \<noteq> k"
    and "key' j = k" "j \<in> set js \<Longrightarrow> key j = k"
  shows "inj_on key' (set js') \<and> table key' val' js' = (table key val js)(k \<mapsto> val' j)"
proof
  have ne: "key' i \<noteq> k" "key' i = key i" if "i \<in> set js" "i \<noteq> j" for i using assms(3) [OF that] by simp_all
  show inj: "inj_on key' (set js')"
    unfolding assms(2)
  proof (rule inj_onI)
    fix a b assume ab: "a \<in> insert j (set js)" "b \<in> insert j (set js)" "key' a = key' b"
    consider "a = j" "b = j" | "a = j" "b \<in> set js" "b \<noteq> j" | "b = j" "a \<in> set js" "a \<noteq> j"
      | "a \<in> set js" "a \<noteq> j" "b \<in> set js" "b \<noteq> j" using ab(1,2) by blast
    then show "a = b"
    proof cases
      case 4
      with ab(3) ne(2) have "key a = key b" by simp
      then show ?thesis by (rule inj_onD [OF assms(1) _ 4(1,3)])
    qed (use ab(3) ne(1) assms(4) in metis)+
  qed
  show "table key' val' js' = (table key val js)(k \<mapsto> val' j)"
  proof (rule table_eqI [OF inj])
    fix i assume "i \<in> set js'"
    then consider "i = j" | "i \<in> set js" "i \<noteq> j" unfolding assms(2) by blast
    then show "((table key val js)(k \<mapsto> val' j)) (key' i) = Some (val' i)"
    proof cases
      case 2
      with assms(3) [OF 2] table_job [OF assms(1) 2(1), of val] show ?thesis by simp
    qed (simp add: assms(4))
  next
    fix a assume a: "a \<notin> key' ` set js'"
    have out: "a \<noteq> key' i" if "i \<in> insert j (set js)" for i using a that unfolding assms(2) by blast
    have "a \<noteq> k" using out [of j] assms(4) by simp
    moreover have "a \<noteq> key i" if "i \<in> set js" for i
    proof (cases "i = j")
      case True
      with assms(5) that \<open>a \<noteq> k\<close> show ?thesis by simp
    next
      case False
      with out [of i] ne(2) [OF that False] that show ?thesis by simp
    qed
    then have "a \<notin> key ` set js" by blast
    ultimately show "((table key val js)(k \<mapsto> val' j)) a = None" by (simp add: table_none)
  qed
qed

end
