(* ===== verification/Response_Sched.thy ===== *)
theory Response_Sched
  imports RR_Same Timers DNS Address Job_Table
begin

text \<open>
  \<^verbatim>\<open>avahi-core/response-sched.c\<close>: the responses that wait to be sent on an interface, those that were sent or
  heard a short time ago, and those that a querier knows already. As in the scheduler of queries, jobs are
  addresses with their contents, linked lists are sequences, each job has an event \<open>Elapse\<close> of its address, and the
  packets handed to \<open>avahi_interface_send_packet\<close> are a log, the latest first. The records that
  \<open>avahi_server_enumerate_aux_records\<close> finds for a record, with their cache flush bits, are the parameter \<open>aux\<close>.
  \<^const>\<open>None\<close> is a failed assertion.
\<close>

section \<open>State\<close>

abbreviation (input) AVAHI_RESPONSE_HISTORY_MSEC :: nat where "AVAHI_RESPONSE_HISTORY_MSEC \<equiv> 500"
abbreviation (input) AVAHI_RESPONSE_DEFER_MSEC :: nat where "AVAHI_RESPONSE_DEFER_MSEC \<equiv> 20"
abbreviation (input) AVAHI_RESPONSE_JITTER_MSEC :: nat where "AVAHI_RESPONSE_JITTER_MSEC \<equiv> 100"
abbreviation (input) AVAHI_RESPONSE_SUPPRESS_MSEC :: nat where "AVAHI_RESPONSE_SUPPRESS_MSEC \<equiv> 700"

datatype AvahiResponseJobState = AVAHI_SCHEDULED | AVAHI_DONE | AVAHI_SUPPRESSED

record AvahiResponseJob =
  job_event :: "nat option"
  job_state :: AvahiResponseJobState
  delivery :: timeval
  job_record :: AvahiRecord
  job_flush :: bool
  querier :: AvahiAddress
  querier_valid :: bool

text \<open>
  \<open>statics\<close> are the static variables of \<open>avahi_elapse_time\<close>, \<open>mtu\<close> is that of the hardware of the interface.
\<close>

record 'o AvahiResponseScheduler =
  jobs :: "nat list"
  history :: "nat list"
  suppressed :: "nat list"
  job :: "nat \<Rightarrow> AvahiResponseJob"
  queue :: "'o event_callback AvahiTimeEventQueue"
  statics :: elapse_static
  mtu :: nat
  sent :: "AvahiDnsPacket list"

abbreviation upd_rjob :: "nat \<Rightarrow> (AvahiResponseJob \<Rightarrow> AvahiResponseJob) \<Rightarrow> 'o AvahiResponseScheduler \<Rightarrow> 'o AvahiResponseScheduler" where
  "upd_rjob j f s \<equiv> s\<lparr>job := (job s)(j := f (job s j))\<rparr>"

section \<open>Jobs\<close>

text \<open>The fields \<open>delivery\<close> and \<open>querier\<close> of a new job are not initialised.\<close>

definition response_job_new :: "AvahiRecord \<Rightarrow> AvahiResponseJobState \<Rightarrow> 'o AvahiResponseScheduler \<Rightarrow> nat \<times> 'o AvahiResponseScheduler" where
  "response_job_new r st s =
     (let j = fresh (set (jobs s) \<union> set (history s) \<union> set (suppressed s));
          s = upd_rjob j (\<lambda>x. x\<lparr>job_record := r, job_event := None, job_flush := False, querier_valid := False, job_state := st\<rparr>) s
      in (j, case st of
               AVAHI_SCHEDULED \<Rightarrow> s\<lparr>jobs := j # jobs s\<rparr>
             | AVAHI_DONE \<Rightarrow> s\<lparr>history := j # history s\<rparr>
             | AVAHI_SUPPRESSED \<Rightarrow> s\<lparr>suppressed := j # suppressed s\<rparr>))"

definition response_job_free :: "nat \<Rightarrow> 'o AvahiResponseScheduler \<Rightarrow> 'o AvahiResponseScheduler option" where
  "response_job_free j s =
     do {
       s \<leftarrow> (case job_event (job s j) of
               Some ev \<Rightarrow> do { q \<leftarrow> avahi_time_event_free ev (queue s); Some (s\<lparr>queue := q\<rparr>) }
             | None \<Rightarrow> Some s);
       case job_state (job s j) of
         AVAHI_SCHEDULED \<Rightarrow> do { l \<leftarrow> llist_remove j (jobs s); Some (s\<lparr>jobs := l\<rparr>) }
       | AVAHI_DONE \<Rightarrow> do { l \<leftarrow> llist_remove j (history s); Some (s\<lparr>history := l\<rparr>) }
       | AVAHI_SUPPRESSED \<Rightarrow> do { l \<leftarrow> llist_remove j (suppressed s); Some (s\<lparr>suppressed := l\<rparr>) }
     }"

definition response_job_set_elapse_time ::
  "timeval \<Rightarrow> int \<Rightarrow> nat \<Rightarrow> nat \<Rightarrow> nat \<Rightarrow> 'o AvahiResponseScheduler \<Rightarrow> 'o AvahiResponseScheduler option" where
  "response_job_set_elapse_time now rnd j msec jitter s =
     (let (tv, st) = avahi_elapse_time now (tv_sec now) rnd msec jitter (statics s);
          s = s\<lparr>statics := st\<rparr>
      in case job_event (job s j) of
           Some ev \<Rightarrow> do { q \<leftarrow> avahi_time_event_update ev tv (queue s); Some (s\<lparr>queue := q\<rparr>) }
         | None \<Rightarrow> do {
             let ev = fresh (events (queue s));
             q \<leftarrow> avahi_time_event_new ev (Some tv) (Elapse j) (queue s);
             Some (upd_rjob j (\<lambda>x. x\<lparr>job_event := Some ev\<rparr>) (s\<lparr>queue := q\<rparr>))
           })"

definition response_job_mark_done :: "timeval \<Rightarrow> int \<Rightarrow> nat \<Rightarrow> 'o AvahiResponseScheduler \<Rightarrow> 'o AvahiResponseScheduler option" where
  "response_job_mark_done now rnd j s =
     (if job_state (job s j) \<noteq> AVAHI_SCHEDULED then None
      else do {
        l \<leftarrow> llist_remove j (jobs s);
        let s = upd_rjob j (\<lambda>x. x\<lparr>job_state := AVAHI_DONE\<rparr>) (s\<lparr>jobs := l, history := j # history s\<rparr>);
        s \<leftarrow> response_job_set_elapse_time now rnd j AVAHI_RESPONSE_HISTORY_MSEC 0 s;
        Some (upd_rjob j (\<lambda>x. x\<lparr>delivery := now\<rparr>) s)
      })"

definition avahi_response_scheduler_new ::
  "'o event_callback AvahiTimeEventQueue \<Rightarrow> elapse_static \<Rightarrow> nat \<Rightarrow> (nat \<Rightarrow> AvahiResponseJob) \<Rightarrow> 'o AvahiResponseScheduler" where
  "avahi_response_scheduler_new q st m junk =
     \<lparr>jobs = [], history = [], suppressed = [], job = junk, queue = q, statics = st, mtu = m, sent = []\<rparr>"

text \<open>One of the three loops of \<open>avahi_response_scheduler_clear\<close>, over the list that \<open>f\<close> reads.\<close>

partial_function (option) free_responses ::
  "('o AvahiResponseScheduler \<Rightarrow> nat list) \<Rightarrow> 'o AvahiResponseScheduler \<Rightarrow> 'o AvahiResponseScheduler option" where
  "free_responses f s =
     (case f s of [] \<Rightarrow> Some s | j # _ \<Rightarrow> do { s \<leftarrow> response_job_free j s; free_responses f s })"

definition avahi_response_scheduler_clear :: "'o AvahiResponseScheduler \<Rightarrow> 'o AvahiResponseScheduler option" where
  "avahi_response_scheduler_clear s =
     do { s \<leftarrow> free_responses jobs s; s \<leftarrow> free_responses history s; free_responses suppressed s }"

text \<open>What the server and the interface keep.\<close>

definition avahi_response_scheduler_free :: "'o AvahiResponseScheduler \<Rightarrow> 'o AvahiResponseScheduler option" where
  "avahi_response_scheduler_free s = avahi_response_scheduler_clear s"

section \<open>Looking for a job\<close>

fun find_scheduled_response :: "'o AvahiResponseScheduler \<Rightarrow> AvahiRecord \<Rightarrow> nat list \<Rightarrow> nat option option" where
  "find_scheduled_response s r [] = Some None"
| "find_scheduled_response s r (j # js) =
     (if job_state (job s j) \<noteq> AVAHI_SCHEDULED then None
      else do {
        eq \<leftarrow> avahi_record_equal_no_ttl (job_record (job s j)) r;
        if eq then Some (Some j) else find_scheduled_response s r js
      })"

fun find_history_response ::
  "timeval \<Rightarrow> AvahiRecord \<Rightarrow> nat list \<Rightarrow> 'o AvahiResponseScheduler \<Rightarrow> (nat option \<times> 'o AvahiResponseScheduler) option" where
  "find_history_response now r [] s = Some (None, s)"
| "find_history_response now r (j # js) s =
     (if job_state (job s j) \<noteq> AVAHI_DONE then None
      else do {
        eq \<leftarrow> avahi_record_equal_no_ttl (job_record (job s j)) r;
        if eq then
          (if avahi_age now (delivery (job s j)) sdiv 1000 > int AVAHI_RESPONSE_HISTORY_MSEC
           then do { s \<leftarrow> response_job_free j s; Some (None, s) }
           else Some (Some j, s))
        else find_history_response now r js s
      })"

fun find_suppressed_response ::
  "timeval \<Rightarrow> AvahiRecord \<Rightarrow> AvahiAddress \<Rightarrow> nat list \<Rightarrow> 'o AvahiResponseScheduler \<Rightarrow>
   (nat option \<times> 'o AvahiResponseScheduler) option" where
  "find_suppressed_response now r a [] s = Some (None, s)"
| "find_suppressed_response now r a (j # js) s =
     (if job_state (job s j) \<noteq> AVAHI_SUPPRESSED \<or> \<not> querier_valid (job s j) then None
      else do {
        eq \<leftarrow> avahi_record_equal_no_ttl (job_record (job s j)) r;
        if eq \<and> avahi_address_cmp (querier (job s j)) a = 0 then
          (if avahi_age now (delivery (job s j)) > int AVAHI_RESPONSE_SUPPRESS_MSEC * 1000
           then do { s \<leftarrow> response_job_free j s; Some (None, s) }
           else Some (Some j, s))
        else find_suppressed_response now r a js s
      })"

section \<open>Posting\<close>

text \<open>
  The test that appears in all operations: both are goodbye records or both are not, and the TTL of the first is at
  least half of that of the second.
\<close>

definition supersedes :: "AvahiRecord \<Rightarrow> AvahiRecord \<Rightarrow> bool" where
  "supersedes old new = (avahi_record_is_goodbye new = avahi_record_is_goodbye old \<and> ttl old \<ge> ttl new div 2)"

text \<open>The part of \<open>avahi_response_scheduler_post\<close> behind the suppression.\<close>

definition schedule_response ::
  "timeval \<Rightarrow> int \<Rightarrow> AvahiRecord \<Rightarrow> bool \<Rightarrow> AvahiAddress option \<Rightarrow> bool \<Rightarrow> 'o AvahiResponseScheduler \<Rightarrow>
   'o AvahiResponseScheduler option" where
  "schedule_response now rnd r flush a immediately s =
     do {
       let (tv, st) = avahi_elapse_time now (tv_sec now) rnd
         (if immediately then 0 else AVAHI_RESPONSE_DEFER_MSEC) (if immediately then 0 else AVAHI_RESPONSE_JITTER_MSEC) (statics s);
       let s = s\<lparr>statics := st\<rparr>;
       f \<leftarrow> find_scheduled_response s r (jobs s);
       case f of
         Some j \<Rightarrow> do {
           s \<leftarrow> (if avahi_timeval_compare tv (delivery (job s j)) < 0 then do {
                   let s = upd_rjob j (\<lambda>x. x\<lparr>delivery := tv\<rparr>) s;
                   ev \<leftarrow> job_event (job s j);
                   q \<leftarrow> avahi_time_event_update ev (delivery (job s j)) (queue s);
                   Some (s\<lparr>queue := q\<rparr>)
                 } else Some s);
           let s = (if flush then upd_rjob j (\<lambda>x. x\<lparr>job_flush := True\<rparr>) s else s);
           let s = (case a of
                      None \<Rightarrow> upd_rjob j (\<lambda>x. x\<lparr>querier_valid := False\<rparr>) s
                    | Some b \<Rightarrow>
                        if querier_valid (job s j) \<and> avahi_address_cmp b (querier (job s j)) \<noteq> 0
                        then upd_rjob j (\<lambda>x. x\<lparr>querier_valid := False\<rparr>) s else s);
           Some (upd_rjob j (\<lambda>x. x\<lparr>job_record := r\<rparr>) s)
         }
       | None \<Rightarrow> do {
           let (j, s) = response_job_new r AVAHI_SCHEDULED s;
           let s = upd_rjob j (\<lambda>x. x\<lparr>delivery := tv\<rparr>) s;
           let ev = fresh (events (queue s));
           q \<leftarrow> avahi_time_event_new ev (Some (delivery (job s j))) (Elapse j) (queue s);
           let s = upd_rjob j (\<lambda>x. x\<lparr>job_event := Some ev, job_flush := flush, querier_valid := (a \<noteq> None)\<rparr>) (s\<lparr>queue := q\<rparr>);
           Some (case a of None \<Rightarrow> s | Some b \<Rightarrow> upd_rjob j (\<lambda>x. x\<lparr>querier := b\<rparr>) s)
         }
     }"

definition avahi_response_scheduler_post ::
  "timeval \<Rightarrow> int \<Rightarrow> AvahiRecord \<Rightarrow> bool \<Rightarrow> AvahiAddress option \<Rightarrow> bool \<Rightarrow> 'o AvahiResponseScheduler \<Rightarrow>
   (bool \<times> 'o AvahiResponseScheduler) option" where
  "avahi_response_scheduler_post now rnd r flush a immediately s =
     (if avahi_key_is_pattern (rkey r) then None
      else do {
        (f, s) \<leftarrow> (case a of
                     None \<Rightarrow> Some (None, s)
                   | Some b \<Rightarrow> find_suppressed_response now r b (suppressed s) s);
        if (case f of None \<Rightarrow> False | Some j \<Rightarrow> supersedes (job_record (job s j)) r) then Some (False, s)
        else do {
          (h, s) \<leftarrow> find_history_response now r (history s) s;
          if (case h of None \<Rightarrow> False
                | Some j \<Rightarrow> supersedes (job_record (job s j)) r \<and> (job_flush (job s j) \<or> \<not> flush))
          then Some (False, s)
          else do {
            s \<leftarrow> (case h of None \<Rightarrow> Some s | Some j \<Rightarrow> response_job_free j s);
            s \<leftarrow> schedule_response now rnd r flush a immediately s;
            Some (True, s)
          }
        }
      })"

section \<open>Sending\<close>

primrec post_aux_records ::
  "timeval \<Rightarrow> int \<Rightarrow> nat \<Rightarrow> (AvahiRecord \<times> bool) list \<Rightarrow> 'o AvahiResponseScheduler \<Rightarrow> 'o AvahiResponseScheduler option" where
  "post_aux_records now rnd j [] s = Some s"
| "post_aux_records now rnd j (rf # rfs) s =
     do {
       (_, s) \<leftarrow> avahi_response_scheduler_post now rnd (fst rf) (snd rf)
         (if querier_valid (job s j) then Some (querier (job s j)) else None) False s;
       post_aux_records now rnd j rfs s
     }"

definition packet_add_response_job ::
  "(AvahiRecord \<Rightarrow> (AvahiRecord \<times> bool) list) \<Rightarrow> timeval \<Rightarrow> int \<Rightarrow> AvahiDnsPacket \<Rightarrow> nat \<Rightarrow> 'o AvahiResponseScheduler \<Rightarrow>
   (bool \<times> AvahiDnsPacket \<times> 'o AvahiResponseScheduler) option" where
  "packet_add_response_job aux now rnd p j s =
     do {
       (a, p) \<leftarrow> avahi_dns_packet_append_record (job_record (job s j)) (job_flush (job s j)) 0 p;
       if a = None then Some (False, p, s)
       else do {
         s \<leftarrow> post_aux_records now rnd j (aux (job_record (job s j))) s;
         s \<leftarrow> response_job_mark_done now rnd j s;
         Some (True, p, s)
       }
     }"

text \<open>The loop that fills the packet with more responses; the result is the number of responses in it.\<close>

partial_function (option) fill_response_packet ::
  "(AvahiRecord \<Rightarrow> (AvahiRecord \<times> bool) list) \<Rightarrow> timeval \<Rightarrow> int \<Rightarrow> AvahiDnsPacket \<Rightarrow> nat \<Rightarrow> 'o AvahiResponseScheduler \<Rightarrow>
   (nat \<times> AvahiDnsPacket \<times> 'o AvahiResponseScheduler) option" where
  "fill_response_packet aux now rnd p n s =
     (case jobs s of
        [] \<Rightarrow> Some (n, p, s)
      | j # _ \<Rightarrow>
          do {
            (b, p, s) \<leftarrow> packet_add_response_job aux now rnd p j s;
            if b then fill_response_packet aux now rnd p (n + 1) s else Some (n, p, s)
          })"

text \<open>\<open>junk\<close> is the content of fresh memory.\<close>

definition send_response_packet ::
  "(AvahiRecord \<Rightarrow> (AvahiRecord \<times> bool) list) \<Rightarrow> memory \<Rightarrow> timeval \<Rightarrow> int \<Rightarrow> nat \<Rightarrow> 'o AvahiResponseScheduler \<Rightarrow>
   'o AvahiResponseScheduler option" where
  "send_response_packet aux junk now rnd j s =
     do {
       p \<leftarrow> avahi_dns_packet_new_response junk (mtu s) True;
       (b, p, s) \<leftarrow> packet_add_response_job aux now rnd p j s;
       (ready, s) \<leftarrow>
         (if b then do {
            (n, p, s) \<leftarrow> fill_response_packet aux now rnd p 1 s;
            Some (Some (n, p), s)
          } else do {
            size \<leftarrow> avahi_record_get_estimate_size (job_record (job s j));
            p \<leftarrow> avahi_dns_packet_new_response junk (size + AVAHI_DNS_PACKET_HEADER_SIZE + AVAHI_DNS_PACKET_EXTRA_SIZE) True;
            (b, p, s) \<leftarrow> packet_add_response_job aux now rnd p j s;
            if b then Some (Some (1, p), s)
            else do { s \<leftarrow> response_job_mark_done now rnd j s; Some (None, s) }
          });
       case ready of
         None \<Rightarrow> Some s
       | Some (n, p) \<Rightarrow> do {
           p \<leftarrow> avahi_dns_packet_set_field p AVAHI_DNS_FIELD_ANCOUNT (of_nat n);
           Some (s\<lparr>sent := p # sent s\<rparr>)
         }
     }"

definition response_elapse_callback ::
  "(AvahiRecord \<Rightarrow> (AvahiRecord \<times> bool) list) \<Rightarrow> memory \<Rightarrow> timeval \<Rightarrow> int \<Rightarrow> nat \<Rightarrow> 'o AvahiResponseScheduler \<Rightarrow>
   'o AvahiResponseScheduler option" where
  "response_elapse_callback aux junk now rnd j s =
     (if job_state (job s j) = AVAHI_DONE \<or> job_state (job s j) = AVAHI_SUPPRESSED then response_job_free j s
      else send_response_packet aux junk now rnd j s)"

partial_function (option) avahi_response_scheduler_force ::
  "(AvahiRecord \<Rightarrow> (AvahiRecord \<times> bool) list) \<Rightarrow> memory \<Rightarrow> timeval \<Rightarrow> int \<Rightarrow> 'o AvahiResponseScheduler \<Rightarrow>
   'o AvahiResponseScheduler option" where
  "avahi_response_scheduler_force aux junk now rnd s =
     (case jobs s of
        [] \<Rightarrow> Some s
      | j # _ \<Rightarrow> do {
          s \<leftarrow> send_response_packet aux junk now rnd j s;
          avahi_response_scheduler_force aux junk now rnd s
        })"

section \<open>Responses and known answers of others\<close>

definition avahi_response_scheduler_incoming ::
  "timeval \<Rightarrow> int \<Rightarrow> AvahiRecord \<Rightarrow> bool \<Rightarrow> 'o AvahiResponseScheduler \<Rightarrow> 'o AvahiResponseScheduler option" where
  "avahi_response_scheduler_incoming now rnd r flush s =
     do {
       f \<leftarrow> find_scheduled_response s r (jobs s);
       case f of
         Some j \<Rightarrow>
           if (\<not> job_flush (job s j) \<or> flush) \<and> supersedes r (job_record (job s j))
           then response_job_mark_done now rnd j s else Some s
       | None \<Rightarrow> do {
           (h, s) \<leftarrow> find_history_response now r (history s) s;
           let (j, s) = (case h of
                           Some j \<Rightarrow> (j, upd_rjob j (\<lambda>x. x\<lparr>job_record := r\<rparr>) s)
                         | None \<Rightarrow> response_job_new r AVAHI_DONE s);
           response_job_set_elapse_time now rnd j AVAHI_RESPONSE_HISTORY_MSEC 0
             (upd_rjob j (\<lambda>x. x\<lparr>job_flush := flush, querier_valid := False, delivery := now\<rparr>) s)
         }
     }"

definition avahi_response_scheduler_suppress ::
  "timeval \<Rightarrow> int \<Rightarrow> AvahiRecord \<Rightarrow> AvahiAddress \<Rightarrow> 'o AvahiResponseScheduler \<Rightarrow> 'o AvahiResponseScheduler option" where
  "avahi_response_scheduler_suppress now rnd r a s =
     do {
       f \<leftarrow> find_scheduled_response s r (jobs s);
       s \<leftarrow> (case f of
               Some j \<Rightarrow>
                 if querier_valid (job s j) \<and> avahi_address_cmp a (querier (job s j)) = 0 \<and> supersedes r (job_record (job s j))
                 then response_job_free j s else Some s
             | None \<Rightarrow> Some s);
       (h, s) \<leftarrow> find_suppressed_response now r a (suppressed s) s;
       let (j, s) = (case h of
                       Some j \<Rightarrow> (j, upd_rjob j (\<lambda>x. x\<lparr>job_record := r\<rparr>) s)
                     | None \<Rightarrow> (let (j, s) = response_job_new r AVAHI_SUPPRESSED s
                                in (j, upd_rjob j (\<lambda>x. x\<lparr>querier_valid := True, querier := a\<rparr>) s)));
       response_job_set_elapse_time now rnd j AVAHI_RESPONSE_SUPPRESS_MSEC 0 (upd_rjob j (\<lambda>x. x\<lparr>delivery := now\<rparr>) s)
     }"

section \<open>The event loop\<close>

text \<open>The expiration of the queue of time events, with the scheduler in the state.\<close>

definition response_expiration ::
  "('o \<Rightarrow> nat \<Rightarrow> 'o event_callback AvahiTimeEventQueue \<Rightarrow> 'o event_callback AvahiTimeEventQueue option) \<Rightarrow>
   (AvahiRecord \<Rightarrow> (AvahiRecord \<times> bool) list) \<Rightarrow> memory \<Rightarrow> timeval \<Rightarrow> int \<Rightarrow> 'o AvahiResponseScheduler \<Rightarrow>
   'o AvahiResponseScheduler option" where
  "response_expiration other aux junk now rnd s =
     do {
       (due, q) \<leftarrow> expiration_start now (queue s);
       let s = s\<lparr>queue := q\<rparr>;
       s \<leftarrow> (case due of
               None \<Rightarrow> Some s
             | Some ev \<Rightarrow>
                 (case callback (event q ev) of
                    Elapse j \<Rightarrow> response_elapse_callback aux junk now rnd j s
                  | Other x \<Rightarrow> do { q \<leftarrow> other x ev q; Some (s\<lparr>queue := q\<rparr>) }));
       Some (s\<lparr>queue := update_timeout (queue s)\<rparr>)
     }"

end
