(* ===== verification/Response_Jobs.thy ===== *)
theory Response_Jobs
  imports Response_Sched DNS_Content
begin

text \<open>
  The jobs of the response scheduler: its invariant, and the responses as a map from what is answered, or from what
  a querier knows, to the state of the answer.
\<close>

section \<open>The map\<close>

text \<open>Addresses that \<open>avahi_address_cmp\<close> does not distinguish.\<close>

type_synonym originator = "AvahiProtocol \<times> string"

definition originator :: "AvahiAddress \<Rightarrow> originator" where
  "originator a = (proto a, take (address_get_size a) (adata a))"

lemma address_cmp_origin: "avahi_address_cmp a b = 0 \<longleftrightarrow> originator a = originator b"
  by (auto simp: avahi_address_cmp_def originator_def address_get_size_def)

datatype response_id = Response answer | Known answer originator

record response =
  r_state :: AvahiResponseJobState
  r_time :: timeval
  r_record :: AvahiRecord
  r_flush :: bool
  r_querier :: "originator option"

definition rid :: "AvahiResponseJob \<Rightarrow> response_id" where
  "rid x = (if job_state x = AVAHI_SUPPRESSED then Known (answer (job_record x)) (originator (querier x))
            else Response (answer (job_record x)))"

definition view :: "AvahiResponseJob \<Rightarrow> response" where
  "view x = \<lparr>r_state = job_state x, r_time = delivery x, r_record = job_record x, r_flush = job_flush x,
     r_querier = (if querier_valid x then Some (originator (querier x)) else None)\<rparr>"

lemma view_fields [simp]:
  "r_state (view x) = job_state x" "r_time (view x) = delivery x" "r_record (view x) = job_record x"
  "r_flush (view x) = job_flush x" "r_querier (view x) = (if querier_valid x then Some (originator (querier x)) else None)"
  by (simp_all add: view_def)

abbreviation all_jobs :: "'o AvahiResponseScheduler \<Rightarrow> nat list" where
  "all_jobs s \<equiv> jobs s @ history s @ suppressed s"

definition responses :: "'o AvahiResponseScheduler \<Rightarrow> response_id \<Rightarrow> response option" where
  "responses s = table (\<lambda>j. rid (job s j)) (\<lambda>j. view (job s j)) (all_jobs s)"

section \<open>The invariant\<close>

text \<open>When the event of a job is due.\<close>

definition rdue :: "AvahiResponseJob \<Rightarrow> timeval" where
  "rdue x = (case job_state x of
     AVAHI_SCHEDULED \<Rightarrow> delivery x
   | AVAHI_DONE \<Rightarrow> avahi_timeval_add (delivery x) 500000
   | AVAHI_SUPPRESSED \<Rightarrow> avahi_timeval_add (delivery x) 700000)"

text \<open>What holds of a job by itself: what waits can be sent.\<close>

definition job_ok :: "AvahiResponseJob \<Rightarrow> bool" where
  "job_ok x = (record_ok (job_record x) \<and> tv_norm (delivery x) \<and>
     (job_state x = AVAHI_SCHEDULED \<longrightarrow> sendable (job_record x)) \<and> (job_state x = AVAHI_SUPPRESSED \<longrightarrow> querier_valid x \<and> \<not> job_flush x))"

definition statics_ok :: "elapse_static \<Rightarrow> bool" where
  "statics_ok st = (0 \<le> last_rand st \<and> last_rand st < 2 ^ 31)"

text \<open>
  Jobs are on the list that their state says; no two jobs that wait or are done have the same answer, no two known
  answers the same querier and answer; every job has exactly one event, which is due when the job is.
\<close>

definition rs_ok :: "'o AvahiResponseScheduler \<Rightarrow> bool" where
  "rs_ok s =
     (distinct (all_jobs s) \<and> inj_on (\<lambda>j. rid (job s j)) (set (all_jobs s)) \<and>
      (\<forall>j \<in> set (jobs s). job_state (job s j) = AVAHI_SCHEDULED) \<and>
      (\<forall>j \<in> set (history s). job_state (job s j) = AVAHI_DONE) \<and>
      (\<forall>j \<in> set (suppressed s). job_state (job s j) = AVAHI_SUPPRESSED) \<and>
      (\<forall>j \<in> set (all_jobs s). job_ok (job s j)) \<and> statics_ok (statics s) \<and>
      timers_ok (set (all_jobs s)) (\<lambda>j. job_event (job s j)) (\<lambda>j. rdue (job s j)) (queue s))"

lemma rs_okD:
  assumes "rs_ok s"
  shows "distinct (all_jobs s)" "inj_on (\<lambda>j. rid (job s j)) (set (all_jobs s))"
    "j \<in> set (jobs s) \<Longrightarrow> job_state (job s j) = AVAHI_SCHEDULED"
    "j \<in> set (history s) \<Longrightarrow> job_state (job s j) = AVAHI_DONE"
    "j \<in> set (suppressed s) \<Longrightarrow> job_state (job s j) = AVAHI_SUPPRESSED"
    "j \<in> set (all_jobs s) \<Longrightarrow> job_ok (job s j)" "statics_ok (statics s)"
    "timers_ok (set (all_jobs s)) (\<lambda>j. job_event (job s j)) (\<lambda>j. rdue (job s j)) (queue s)"
  using assms unfolding rs_ok_def by blast+

lemma responses_job: "rs_ok s \<Longrightarrow> j \<in> set (all_jobs s) \<Longrightarrow> responses s (rid (job s j)) = Some (view (job s j))"
  unfolding responses_def using table_job [OF rs_okD(2), of s j] by blast

lemma responses_some:
  assumes "rs_ok s" "responses s i = Some v"
  obtains j where "j \<in> set (all_jobs s)" "rid (job s j) = i" "view (job s j) = v"
  using table_some [OF rs_okD(2) [OF assms(1)] assms(2) [unfolded responses_def]] that by blast

lemma responses_none: "responses s i = None \<longleftrightarrow> i \<notin> (\<lambda>j. rid (job s j)) ` set (all_jobs s)"
  unfolding responses_def by (rule table_none)

text \<open>The list of a job, by its state.\<close>

lemma job_lists:
  assumes "rs_ok s" "j \<in> set (all_jobs s)"
  shows "j \<in> set (jobs s) \<longleftrightarrow> job_state (job s j) = AVAHI_SCHEDULED" "j \<in> set (history s) \<longleftrightarrow> job_state (job s j) = AVAHI_DONE"
    "j \<in> set (suppressed s) \<longleftrightarrow> job_state (job s j) = AVAHI_SUPPRESSED"
  using assms(2) rs_okD(3-5) [OF assms(1), of j] by auto

text \<open>What no operation on the jobs changes.\<close>

definition same_rest :: "'o AvahiResponseScheduler \<Rightarrow> 'o AvahiResponseScheduler \<Rightarrow> bool" where
  "same_rest s s' = (sent s' = sent s \<and> mtu s' = mtu s)"

lemma same_rest_simps [simp]: "same_rest s s"
  "same_rest s (s'\<lparr>job := a\<rparr>) = same_rest s s'" "same_rest s (s'\<lparr>queue := b\<rparr>) = same_rest s s'"
  "same_rest s (s'\<lparr>jobs := l\<rparr>) = same_rest s s'" "same_rest s (s'\<lparr>history := l\<rparr>) = same_rest s s'"
  "same_rest s (s'\<lparr>suppressed := l\<rparr>) = same_rest s s'" "same_rest s (s'\<lparr>statics := st\<rparr>) = same_rest s s'"
  by (simp_all add: same_rest_def)

lemma response_rest_trans: "same_rest s t \<Longrightarrow> same_rest t u \<Longrightarrow> same_rest s u"
  by (simp add: same_rest_def)

section \<open>Freeing\<close>

lemma response_job_free_ok:
  assumes "rs_ok s" "j \<in> set (all_jobs s)"
  shows "\<exists>s'. response_job_free j s = Some s' \<and> rs_ok s' \<and> responses s' = (responses s)(rid (job s j) := None) \<and>
    same_rest s s' \<and> job s' = job s \<and> statics s' = statics s \<and>
    jobs s' = remove1 j (jobs s) \<and> history s' = remove1 j (history s) \<and> suppressed s' = remove1 j (suppressed s)"
proof -
  note ok = rs_okD [OF assms(1)]
  obtain ev where ev: "job_event (job s j) = Some ev" using timers_event [OF ok(8) assms(2)] by blast
  obtain q where q: "avahi_time_event_free ev (queue s) = Some q"
    "timers_ok (set (all_jobs s) - {j}) (\<lambda>j. job_event (job s j)) (\<lambda>j. rdue (job s j)) q"
    by (rule timers_free [OF ok(8) assms(2), OF ev])
  let ?s = "s\<lparr>queue := q, jobs := remove1 j (jobs s), history := remove1 j (history s), suppressed := remove1 j (suppressed s)\<rparr>"
  have d: "distinct (jobs s)" "distinct (history s)" "distinct (suppressed s)" using ok(1) by auto
  have set: "set (jobs ?s) = set (jobs s) - {j}" "set (history ?s) = set (history s) - {j}"
    "set (suppressed ?s) = set (suppressed s) - {j}" using d by simp_all
  then have all: "set (all_jobs ?s) = set (all_jobs s) - {j}" by auto
  have free: "response_job_free j s = Some ?s"
    using ev q(1) job_lists [OF assms] remove1_idem [of j "jobs s"] remove1_idem [of j "history s"] remove1_idem [of j "suppressed s"]
    by (cases "job_state (job s j)") (simp_all add: response_job_free_def llist_remove_def)
  have t: "inj_on (\<lambda>j. rid (job ?s j)) (set (all_jobs ?s)) \<and> responses ?s = (responses s)(rid (job s j) := None)"
    unfolding responses_def by (rule table_remove [OF ok(2) assms(2) all]) simp
  have "rs_ok ?s"
    unfolding rs_ok_def
  proof (intro conjI)
    show "distinct (all_jobs ?s)" using ok(1) d by (auto simp: set)
    show "timers_ok (set (all_jobs ?s)) (\<lambda>j. job_event (job ?s j)) (\<lambda>j. rdue (job ?s j)) (queue ?s)"
      unfolding all using q(2) by simp
    show "\<forall>j \<in> set (all_jobs ?s). job_ok (job ?s j)" unfolding all using ok(6) by simp
  qed (use t ok(3-5,7) set in auto)
  with free t show ?thesis by (intro exI [of _ ?s]) simp
qed

section \<open>Putting and changing one job\<close>

lemma response_put:
  assumes ok: "rs_ok s" and d: "distinct (all_jobs s')" and job: "job s' = (job s)(j := x)"
    and other: "\<And>i. i \<in> set (all_jobs s) \<Longrightarrow> i \<noteq> j \<Longrightarrow> rid (job s i) \<noteq> rid x"
    and same: "j \<in> set (all_jobs s) \<Longrightarrow> rid (job s j) = rid x"
    and x: "job_ok x" and st: "statics_ok (statics s')"
    and lists: "set (jobs s') = (if job_state x = AVAHI_SCHEDULED then insert j (set (jobs s)) else set (jobs s) - {j})"
      "set (history s') = (if job_state x = AVAHI_DONE then insert j (set (history s)) else set (history s) - {j})"
      "set (suppressed s') = (if job_state x = AVAHI_SUPPRESSED then insert j (set (suppressed s)) else set (suppressed s) - {j})"
    and timers: "timers_ok (insert j (set (all_jobs s))) ((\<lambda>i. job_event (job s i))(j := job_event x))
      ((\<lambda>i. rdue (job s i))(j := rdue x)) (queue s')"
  shows "rs_ok s' \<and> responses s' = (responses s)(rid x \<mapsto> view x)"
proof
  note sok = rs_okD [OF ok]
  have all: "set (all_jobs s') = insert j (set (all_jobs s))"
    unfolding set_append lists by (cases "job_state x") auto
  have "inj_on (\<lambda>j. rid (job s' j)) (set (all_jobs s')) \<and> responses s' = (responses s)(rid x \<mapsto> view (job s' j))"
    unfolding responses_def by (rule table_put [OF sok(2) all]) (use other same in \<open>simp_all add: job\<close>)
  then have t: "inj_on (\<lambda>j. rid (job s' j)) (set (all_jobs s'))" "responses s' = (responses s)(rid x \<mapsto> view x)"
    by (simp_all add: job)
  have tm: "timers_ok (set (all_jobs s')) (\<lambda>i. job_event (job s' i)) (\<lambda>i. rdue (job s' i)) (queue s')"
    unfolding all by (rule timers_ok_cong [OF timers]) (simp add: job)
  show "rs_ok s'"
    unfolding rs_ok_def
  proof (intro conjI)
    show "\<forall>i \<in> set (jobs s'). job_state (job s' i) = AVAHI_SCHEDULED" using sok(3) by (auto simp: lists job)
    show "\<forall>i \<in> set (history s'). job_state (job s' i) = AVAHI_DONE" using sok(4) by (auto simp: lists job)
    show "\<forall>i \<in> set (suppressed s'). job_state (job s' i) = AVAHI_SUPPRESSED" using sok(5) by (auto simp: lists job)
    show "\<forall>i \<in> set (all_jobs s'). job_ok (job s' i)" unfolding all using sok(6) x by (simp add: job)
  qed (use d t(1) tm st in blast)+
  show "responses s' = (responses s)(rid x \<mapsto> view x)" by (rule t(2))
qed

text \<open>A job that stays on its list.\<close>

lemma response_change:
  assumes ok: "rs_ok s" "j \<in> set (all_jobs s)" and x: "rid x = rid (job s j)" "job_state x = job_state (job s j)" "job_ok x"
    and s': "all_jobs s' = all_jobs s" "jobs s' = jobs s" "history s' = history s" "suppressed s' = suppressed s"
      "job s' = (job s)(j := x)" "statics_ok (statics s')"
    and timers: "timers_ok (set (all_jobs s)) ((\<lambda>i. job_event (job s i))(j := job_event x))
      ((\<lambda>i. rdue (job s i))(j := rdue x)) (queue s')"
  shows "rs_ok s' \<and> responses s' = (responses s)(rid (job s j) \<mapsto> view x)"
proof -
  have "rs_ok s' \<and> responses s' = (responses s)(rid x \<mapsto> view x)"
  proof (rule response_put [OF ok(1), where j = j])
    show "rid (job s i) \<noteq> rid x" if "i \<in> set (all_jobs s)" "i \<noteq> j" for i
      using inj_on_eq_iff [OF rs_okD(2) [OF ok(1)] that(1) ok(2)] that(2) x(1) by simp
    show "timers_ok (insert j (set (all_jobs s))) ((\<lambda>i. job_event (job s i))(j := job_event x))
      ((\<lambda>i. rdue (job s i))(j := rdue x)) (queue s')" unfolding insert_absorb [OF ok(2)] by (rule timers)
    show "distinct (all_jobs s')" unfolding s'(1) by (rule rs_okD(1) [OF ok(1)])
    show "set (jobs s') = (if job_state x = AVAHI_SCHEDULED then insert j (set (jobs s)) else set (jobs s) - {j})"
      "set (history s') = (if job_state x = AVAHI_DONE then insert j (set (history s)) else set (history s) - {j})"
      "set (suppressed s') = (if job_state x = AVAHI_SUPPRESSED then insert j (set (suppressed s)) else set (suppressed s) - {j})"
      using job_lists [OF ok] unfolding x(2) s'(2-4) by auto
  qed (use x s'(5,6) in simp_all)
  then show ?thesis unfolding x(1) .
qed

lemma response_job_mark_done_ok:
  assumes "rs_ok s" "j \<in> set (jobs s)" "tv_norm now"
  shows "\<exists>s'. response_job_mark_done now rnd j s = Some s' \<and> rs_ok s' \<and>
    responses s' = (responses s)(rid (job s j) \<mapsto> (view (job s j))\<lparr>r_state := AVAHI_DONE, r_time := now\<rparr>) \<and>
    same_rest s s' \<and> jobs s' = remove1 j (jobs s) \<and> (\<forall>i. i \<noteq> j \<longrightarrow> job s' i = job s i) \<and> statics s' = statics s"
proof -
  note ok = rs_okD [OF assms(1)]
  have j: "j \<in> set (all_jobs s)" "j \<notin> set (history s)" "j \<notin> set (suppressed s)" using assms(2) ok(1) by auto
  obtain ev where ev: "job_event (job s j) = Some ev" using timers_event [OF ok(8) j(1)] by blast
  obtain q where q: "avahi_time_event_update ev (avahi_timeval_add now 500000) (queue s) = Some q"
    "timers_ok (set (all_jobs s)) (\<lambda>j. job_event (job s j)) ((\<lambda>j. rdue (job s j))(j := avahi_timeval_add now 500000)) q"
    by (rule timers_update [OF ok(8) j(1), OF ev])
  let ?x = "(job s j)\<lparr>job_state := AVAHI_DONE, delivery := now\<rparr>"
  let ?s = "s\<lparr>queue := q, jobs := remove1 j (jobs s), history := j # history s, job := (job s)(j := ?x)\<rparr>"
  have "response_job_mark_done now rnd j s = Some ?s"
    using assms(2) ok(3) [OF assms(2)] ev q(1)
    by (simp add: response_job_mark_done_def response_job_set_elapse_time_def elapse_time_plain llist_remove_def)
  moreover have tm: "timers_ok (set (all_jobs s)) ((\<lambda>i. job_event (job s i))(j := job_event ?x)) ((\<lambda>i. rdue (job s i))(j := rdue ?x)) q"
    by (rule timers_ok_cong [OF q(2)]) (simp add: rdue_def)
  have rid: "rid ?x = rid (job s j)" using ok(3) [OF assms(2)] by (simp add: rid_def)
  have "rs_ok ?s \<and> responses ?s = (responses s)(rid ?x \<mapsto> view ?x)"
  proof (rule response_put [OF assms(1), where j = j and x = ?x])
    show "rid (job s i) \<noteq> rid ?x" if "i \<in> set (all_jobs s)" "i \<noteq> j" for i
      using inj_on_eq_iff [OF ok(2) that(1) j(1)] that(2) rid by simp
    show "timers_ok (insert j (set (all_jobs s))) ((\<lambda>i. job_event (job s i))(j := job_event ?x)) ((\<lambda>i. rdue (job s i))(j := rdue ?x)) (queue ?s)"
      using tm unfolding insert_absorb [OF j(1)] by simp
    show "job_ok ?x" using ok(6) [OF j(1)] assms(3) by (simp add: job_ok_def)
  qed (use ok(1,7) j assms(2) rid in auto)
  moreover have "view ?x = (view (job s j))\<lparr>r_state := AVAHI_DONE, r_time := now\<rparr>" by (simp add: view_def)
  ultimately show ?thesis unfolding rid by (intro exI [of _ ?s]) simp
qed

end
