(* ===== verification/Response_Post.thy ===== *)
theory Response_Post
  imports Response_Jobs
begin

text \<open>
  Posting responses, and what responses and known answers of other hosts do: each is a function on the map of responses.
\<close>

section \<open>Looking for a job\<close>

lemma rid_response [simp]: "job_state x \<noteq> AVAHI_SUPPRESSED \<Longrightarrow> rid x = Response (answer (job_record x))"
  by (simp add: rid_def)

lemma rid_known [simp]: "job_state x = AVAHI_SUPPRESSED \<Longrightarrow> rid x = Known (answer (job_record x)) (originator (querier x))"
  by (simp add: rid_def)

lemma find_scheduled_response_ok:
  assumes "rs_ok s" "record_ok r"
  obtains (absent) "find_scheduled_response s r (jobs s) = Some None" "\<forall>j \<in> set (jobs s). answer (job_record (job s j)) \<noteq> answer r"
  | (found) j where "find_scheduled_response s r (jobs s) = Some (Some j)" "j \<in> set (jobs s)"
      "answer (job_record (job s j)) = answer r"
proof -
  have "find_scheduled_response s r js = Some None \<and> (\<forall>j \<in> set js. answer (job_record (job s j)) \<noteq> answer r) \<or>
    (\<exists>j \<in> set js. find_scheduled_response s r js = Some (Some j) \<and> answer (job_record (job s j)) = answer r)"
    if "set js \<subseteq> set (jobs s)" for js
    using that
  proof (induction js)
    case (Cons j js)
    then have "j \<in> set (jobs s)" by simp
    then have "record_ok (job_record (job s j))" "job_state (job s j) = AVAHI_SCHEDULED"
      using rs_okD(3,6) [OF assms(1), of j] by (simp_all add: job_ok_def)
    with Cons equal_no_ttl_answer [OF _ assms(2)] show ?case by auto
  qed simp
  with absent found show ?thesis by blast
qed

text \<open>
  The other two searches drop a job that is outdated. What is common to them: the job is on the list, has the
  identifier that is looked for, and is looked at for its age.
\<close>

definition found_or_dropped ::
  "'o AvahiResponseScheduler \<Rightarrow> nat list \<Rightarrow> response_id \<Rightarrow> (nat \<Rightarrow> bool) \<Rightarrow> (nat option \<times> 'o AvahiResponseScheduler) option \<Rightarrow> bool" where
  "found_or_dropped s js i old res =
     (res = Some (None, s) \<and> (\<forall>j \<in> set js. rid (job s j) \<noteq> i) \<or>
      (\<exists>j \<in> set js. rid (job s j) = i \<and>
         res = (if old j then map_option (Pair None) (response_job_free j s) else Some (Some j, s))))"

lemma find_history_found:
  assumes "rs_ok s" "record_ok r"
  shows "found_or_dropped s (history s) (Response (answer r)) (\<lambda>j. avahi_age now (delivery (job s j)) sdiv 1000 > 500)
    (find_history_response now r (history s) s)"
proof -
  have "found_or_dropped s js (Response (answer r)) (\<lambda>j. avahi_age now (delivery (job s j)) sdiv 1000 > 500)
      (find_history_response now r js s)"
    if "set js \<subseteq> set (history s)" for js
    using that
  proof (induction js)
    case (Cons j js)
    then have "j \<in> set (history s)" by simp
    then have j: "record_ok (job_record (job s j))" "job_state (job s j) = AVAHI_DONE"
      using rs_okD(4,6) [OF assms(1), of j] by (simp_all add: job_ok_def)
    note eq = equal_no_ttl_answer [OF j(1) assms(2)]
    show ?case
    proof (cases "answer (job_record (job s j)) = answer r")
      case True
      with eq j(2) show ?thesis
        unfolding found_or_dropped_def by (intro disjI2 bexI [of _ j]) (cases "response_job_free j s"; simp)+
    next
      case False
      with eq j(2) Cons show ?thesis by (auto simp: found_or_dropped_def)
    qed
  qed (simp add: found_or_dropped_def)
  then show ?thesis by blast
qed

lemma find_suppressed_found:
  assumes "rs_ok s" "record_ok r"
  shows "found_or_dropped s (suppressed s) (Known (answer r) (originator a)) (\<lambda>j. avahi_age now (delivery (job s j)) > 700000)
    (find_suppressed_response now r a (suppressed s) s)"
proof -
  have "found_or_dropped s js (Known (answer r) (originator a)) (\<lambda>j. avahi_age now (delivery (job s j)) > 700000)
      (find_suppressed_response now r a js s)"
    if "set js \<subseteq> set (suppressed s)" for js
    using that
  proof (induction js)
    case (Cons j js)
    then have "j \<in> set (suppressed s)" by simp
    then have j: "record_ok (job_record (job s j))" "job_state (job s j) = AVAHI_SUPPRESSED" "querier_valid (job s j)"
      using rs_okD(5,6) [OF assms(1), of j] by (simp_all add: job_ok_def)
    note eq = equal_no_ttl_answer [OF j(1) assms(2)]
    show ?case
    proof (cases "answer (job_record (job s j)) = answer r \<and> originator (querier (job s j)) = originator a")
      case True
      with eq j(2,3) show ?thesis
        unfolding found_or_dropped_def
        by (intro disjI2 bexI [of _ j]) (cases "response_job_free j s"; simp add: address_cmp_origin)+
    next
      case False
      with eq j(2,3) Cons show ?thesis by (auto simp: found_or_dropped_def address_cmp_origin)
    qed
  qed (simp add: found_or_dropped_def)
  then show ?thesis by blast
qed

text \<open>In terms of the map: an entry that is too old goes.\<close>

definition forget :: "(response \<Rightarrow> bool) \<Rightarrow> response_id \<Rightarrow> (response_id \<Rightarrow> response option) \<Rightarrow> response_id \<Rightarrow> response option" where
  "forget old i m = (case m i of Some v \<Rightarrow> if old v then m(i := None) else m | None \<Rightarrow> m)"

lemma found_or_dropped_ok:
  fixes s :: "'o AvahiResponseScheduler"
  assumes "rs_ok s" "found_or_dropped s js i (\<lambda>j. old (view (job s j))) res" "st \<noteq> AVAHI_SCHEDULED"
    and js: "\<And>j. j \<in> set js \<longleftrightarrow> j \<in> set (all_jobs s) \<and> job_state (job s j) = st"
  obtains (none) s' where "res = Some (None, s')" "rs_ok s'"
      "responses s' = forget (\<lambda>v. r_state v = st \<and> old v) i (responses s)" "\<forall>v. responses s' i = Some v \<longrightarrow> r_state v \<noteq> st"
      "same_rest s s'" "job s' = job s" "statics s' = statics s" "jobs s' = jobs s"
  | (some) j where "res = Some (Some j, s)" "j \<in> set (all_jobs s)" "rid (job s j) = i" "job_state (job s j) = st"
      "\<not> old (view (job s j))" "forget (\<lambda>v. r_state v = st \<and> old v) i (responses s) = responses s"
      "responses s i = Some (view (job s j))"
proof -
  note ok = rs_okD [OF assms(1)]
  from assms(2) consider "res = Some (None, s)" "\<forall>j \<in> set js. rid (job s j) \<noteq> i"
    | j where "j \<in> set js" "rid (job s j) = i" "old (view (job s j))" "res = map_option (Pair None) (response_job_free j s)"
    | j where "j \<in> set js" "rid (job s j) = i" "\<not> old (view (job s j))" "res = Some (Some j, s)"
    unfolding found_or_dropped_def by (metis (no_types))
  then show ?thesis
  proof cases
    case 1
    have st: "r_state v \<noteq> st" if v: "responses s i = Some v" for v
    proof -
      obtain j where "j \<in> set (all_jobs s)" "rid (job s j) = i" "view (job s j) = v" by (rule responses_some [OF assms(1) v])
      with 1(2) js [of j] show ?thesis by auto
    qed
    then have "forget (\<lambda>v. r_state v = st \<and> old v) i (responses s) = responses s"
      by (auto simp: forget_def split: option.split)
    with 1(1) assms(1) st show ?thesis by (intro none [of s]) simp_all
  next
    case (2 j)
    have j: "j \<in> set (all_jobs s)" "job_state (job s j) = st" using 2(1) js by simp_all
    have v: "responses s i = Some (view (job s j))" using responses_job [OF assms(1) j(1)] 2(2) by simp
    obtain s' where s': "response_job_free j s = Some s'" "rs_ok s'" "responses s' = (responses s)(i := None)"
      "same_rest s s'" "job s' = job s" "statics s' = statics s" "jobs s' = remove1 j (jobs s)"
      using response_job_free_ok [OF assms(1) j(1)] 2(2) by blast
    have "j \<notin> set (jobs s)" using job_lists(1) [OF assms(1) j(1)] j(2) assms(3) by simp
    with 2 s' v j(2) show ?thesis by (intro none [of s']) (simp_all add: forget_def remove1_idem)
  next
    case (3 j)
    have j: "j \<in> set (all_jobs s)" "job_state (job s j) = st" using 3(1) js by simp_all
    have "responses s i = Some (view (job s j))" using responses_job [OF assms(1) j(1)] 3(2) by simp
    with 3 j show ?thesis by (intro some [of j]) (simp_all add: forget_def)
  qed
qed

text \<open>What the two searches do to the map.\<close>

abbreviation forget_history :: "timeval \<Rightarrow> answer \<Rightarrow> (response_id \<Rightarrow> response option) \<Rightarrow> response_id \<Rightarrow> response option" where
  "forget_history now a \<equiv> forget (\<lambda>v. r_state v = AVAHI_DONE \<and> avahi_age now (r_time v) sdiv 1000 > 500) (Response a)"

abbreviation forget_known :: "timeval \<Rightarrow> answer \<Rightarrow> originator \<Rightarrow> (response_id \<Rightarrow> response option) \<Rightarrow> response_id \<Rightarrow> response option" where
  "forget_known now a b \<equiv> forget (\<lambda>v. r_state v = AVAHI_SUPPRESSED \<and> avahi_age now (r_time v) > 700000) (Known a b)"

lemma find_history_response_ok:
  fixes s :: "'o AvahiResponseScheduler"
  assumes "rs_ok s" "record_ok r"
  obtains (none) s' where "find_history_response now r (history s) s = Some (None, s')" "rs_ok s'"
      "responses s' = forget_history now (answer r) (responses s)"
      "\<forall>v. responses s' (Response (answer r)) = Some v \<longrightarrow> r_state v \<noteq> AVAHI_DONE"
      "same_rest s s'" "job s' = job s" "statics s' = statics s" "jobs s' = jobs s"
  | (some) j where "find_history_response now r (history s) s = Some (Some j, s)" "j \<in> set (all_jobs s)"
      "rid (job s j) = Response (answer r)" "job_state (job s j) = AVAHI_DONE"
      "forget_history now (answer r) (responses s) = responses s" "responses s (Response (answer r)) = Some (view (job s j))"
proof (rule found_or_dropped_ok [OF assms(1), of "history s" "Response (answer r)"
      "\<lambda>v. avahi_age now (r_time v) sdiv 1000 > 500" "find_history_response now r (history s) s" AVAHI_DONE])
  show "found_or_dropped s (history s) (Response (answer r)) (\<lambda>j. 500 < avahi_age now (r_time (view (job s j))) sdiv 1000)
     (find_history_response now r (history s) s)" using find_history_found [OF assms, of now] by simp
  show "j \<in> set (history s) \<longleftrightarrow> j \<in> set (all_jobs s) \<and> job_state (job s j) = AVAHI_DONE" for j
    using job_lists(2) [OF assms(1), of j] by auto
qed (simp, (rule none; assumption), (rule some; assumption))

lemma find_suppressed_response_ok:
  fixes s :: "'o AvahiResponseScheduler"
  assumes "rs_ok s" "record_ok r"
  obtains (none) s' where "find_suppressed_response now r a (suppressed s) s = Some (None, s')" "rs_ok s'"
      "responses s' = forget_known now (answer r) (originator a) (responses s)"
      "\<forall>v. responses s' (Known (answer r) (originator a)) = Some v \<longrightarrow> r_state v \<noteq> AVAHI_SUPPRESSED"
      "same_rest s s'" "job s' = job s" "statics s' = statics s" "jobs s' = jobs s"
  | (some) j where "find_suppressed_response now r a (suppressed s) s = Some (Some j, s)" "j \<in> set (all_jobs s)"
      "rid (job s j) = Known (answer r) (originator a)" "job_state (job s j) = AVAHI_SUPPRESSED"
      "forget_known now (answer r) (originator a) (responses s) = responses s"
      "responses s (Known (answer r) (originator a)) = Some (view (job s j))"
proof (rule found_or_dropped_ok [OF assms(1), of "suppressed s" "Known (answer r) (originator a)"
      "\<lambda>v. avahi_age now (r_time v) > 700000" "find_suppressed_response now r a (suppressed s) s" AVAHI_SUPPRESSED])
  show "found_or_dropped s (suppressed s) (Known (answer r) (originator a)) (\<lambda>j. 700000 < avahi_age now (r_time (view (job s j))))
     (find_suppressed_response now r a (suppressed s) s)" using find_suppressed_found [OF assms, of a now] by simp
  show "j \<in> set (suppressed s) \<longleftrightarrow> j \<in> set (all_jobs s) \<and> job_state (job s j) = AVAHI_SUPPRESSED" for j
    using job_lists(3) [OF assms(1), of j] by auto
qed (simp, (rule none; assumption), (rule some; assumption))

section \<open>New jobs\<close>

lemma response_job_new_fields:
  fixes s :: "'o AvahiResponseScheduler"
  assumes "response_job_new r st s = (j, s1)"
  shows "queue s1 = queue s" "same_rest s s1" "statics s1 = statics s"
    "jobs s1 = (if st = AVAHI_SCHEDULED then j # jobs s else jobs s)" "history s1 = (if st = AVAHI_DONE then j # history s else history s)"
    "suppressed s1 = (if st = AVAHI_SUPPRESSED then j # suppressed s else suppressed s)"
    "\<forall>i. i \<noteq> j \<longrightarrow> job s1 i = job s i" "(job s1)(j := x) = (job s)(j := x)"
    "job_state (job s1 j) = st" "job_record (job s1 j) = r" "job_event (job s1 j) = None" "\<not> querier_valid (job s1 j)"
    "\<not> job_flush (job s1 j)" "j \<notin> set (all_jobs s)"
proof -
  show "j \<notin> set (all_jobs s)"
    using assms fresh_not_in [of "set (jobs s) \<union> set (history s) \<union> set (suppressed s)"]
    by (auto simp: response_job_new_def Let_def)
qed (use assms in \<open>auto simp: response_job_new_def Let_def split: AvahiResponseJobState.splits\<close>)

text \<open>A new job with its event; \<open>x\<close> is its content in the end.\<close>

lemma response_job_start:
  fixes s :: "'o AvahiResponseScheduler"
  assumes "rs_ok s" "response_job_new r st s = (j, s1)" "responses s (rid x) = None" "job_ok x" "job_state x = st"
    and "job_event x = Some (fresh (events (queue s)))" "statics_ok t"
  obtains q where "avahi_time_event_new (fresh (events (queue s))) (Some (rdue x)) (Elapse j) (queue s) = Some q"
    "rs_ok (s1\<lparr>queue := q, job := (job s1)(j := x), statics := t\<rparr>)"
    "responses (s1\<lparr>queue := q, job := (job s1)(j := x), statics := t\<rparr>) = (responses s)(rid x \<mapsto> view x)"
proof -
  note ok = rs_okD [OF assms(1)]
  note s1 = response_job_new_fields [OF assms(2)]
  note j = s1(14)
  obtain q where q: "avahi_time_event_new (fresh (events (queue s))) (Some (rdue x)) (Elapse j) (queue s) = Some q"
    "timers_ok (insert j (set (all_jobs s))) ((\<lambda>i. job_event (job s i))(j := Some (fresh (events (queue s)))))
      ((\<lambda>i. rdue (job s i))(j := rdue x)) q"
    by (rule timers_new [OF ok(8) j refl])
  have "rs_ok (s1\<lparr>queue := q, job := (job s1)(j := x), statics := t\<rparr>) \<and>
    responses (s1\<lparr>queue := q, job := (job s1)(j := x), statics := t\<rparr>) = (responses s)(rid x \<mapsto> view x)"
  proof (rule response_put [OF assms(1), where j = j])
    show "rid (job s i) \<noteq> rid x" if "i \<in> set (all_jobs s)" "i \<noteq> j" for i
      using imageI [OF that(1), of "\<lambda>j. rid (job s j)"] assms(3) unfolding responses_none by metis
  qed (use j ok(1) assms(4-7) q(2) s1(1-7,9-13) in \<open>auto simp: s1(8)\<close>)
  with that [OF q(1)] show ?thesis by blast
qed

section \<open>Posting\<close>

text \<open>The time of a response: at once, or after 20 to 120 ms.\<close>

definition response_time :: "timeval \<Rightarrow> bool \<Rightarrow> timeval \<Rightarrow> bool" where
  "response_time now immediately t =
     (tv_norm t \<and> (if immediately then t = now else 20000 \<le> avahi_timeval_diff t now \<and> avahi_timeval_diff t now \<le> 120000))"

definition schedule_spec :: "timeval \<Rightarrow> AvahiRecord \<Rightarrow> bool \<Rightarrow> originator option \<Rightarrow> (response_id \<Rightarrow> response option) \<Rightarrow> response_id \<Rightarrow> response option" where
  "schedule_spec t r flush q m =
     m(Response (answer r) \<mapsto>
        (case m (Response (answer r)) of
           None \<Rightarrow> \<lparr>r_state = AVAHI_SCHEDULED, r_time = t, r_record = r, r_flush = flush, r_querier = q\<rparr>
         | Some v \<Rightarrow> v\<lparr>r_time := (if avahi_timeval_compare t (r_time v) < 0 then t else r_time v), r_record := r,
             r_flush := (flush \<or> r_flush v), r_querier := (if q = r_querier v then q else None)\<rparr>))"

lemma response_time_elapse:
  assumes "tv_norm now" "0 \<le> rnd \<and> rnd < 2 ^ 31" "statics_ok st"
    and "avahi_elapse_time now t rnd (if imm then 0 else 20) (if imm then 0 else 100) st = (tv, st')"
  shows "response_time now imm tv" "statics_ok st'"
proof -
  note r = avahi_elapse_time_range [OF assms(1,2) assms(3) [unfolded statics_ok_def] assms(4)]
  then show "statics_ok st'" by (simp add: statics_ok_def)
  show "response_time now imm tv"
  proof (cases imm)
    case True
    then have "tv = now" using assms(4) by (simp add: elapse_time_plain)
    with True assms(1) show ?thesis by (simp add: response_time_def)
  next
    case False
    with r show ?thesis by (simp add: response_time_def)
  qed
qed

text \<open>What posting leaves of the waiting jobs: they still wait for the same answer, and there is nothing new but the record.\<close>

definition jobs_kept :: "AvahiRecord set \<Rightarrow> 'o AvahiResponseScheduler \<Rightarrow> 'o AvahiResponseScheduler \<Rightarrow> bool" where
  "jobs_kept R s s' =
     ((\<forall>j \<in> set (jobs s). j \<in> set (jobs s') \<and> rid (job s' j) = rid (job s j)) \<and>
      (\<forall>j \<in> set (jobs s'). job_record (job s' j) \<in> R \<or> j \<in> set (jobs s) \<and> job_record (job s' j) = job_record (job s j)))"

lemma jobs_kept_refl [simp]: "jobs_kept R s s"
  by (simp add: jobs_kept_def)

lemma jobs_kept_same: "job s1 = job s \<Longrightarrow> jobs s1 = jobs s \<Longrightarrow> jobs_kept R s1 s' = jobs_kept R s s'"
  by (simp add: jobs_kept_def)

lemma schedule_response_ok:
  fixes s :: "'o AvahiResponseScheduler"
  assumes "rs_ok s" "sendable r" "tv_norm now" "0 \<le> rnd \<and> rnd < 2 ^ 31"
    and "\<forall>v. responses s (Response (answer r)) = Some v \<longrightarrow> r_state v \<noteq> AVAHI_DONE"
  shows "\<exists>t s'. schedule_response now rnd r flush a imm s = Some s' \<and> rs_ok s' \<and> same_rest s s' \<and> jobs_kept {r} s s' \<and>
    response_time now imm t \<and> responses s' = schedule_spec t r flush (map_option originator a) (responses s)"
proof -
  note ok = rs_okD [OF assms(1)]
  have r: "record_ok r" using assms(2) by (simp add: sendable_def)
  obtain t st where el: "avahi_elapse_time now (tv_sec now) rnd (if imm then 0 else 20) (if imm then 0 else 100) (statics s) = (t, st)"
    by fastforce
  note t = response_time_elapse [OF assms(3,4) ok(7) el]
  then have tv: "tv_norm t" by (simp add: response_time_def)
  let ?i = "Response (answer r)"
  have find: "find_scheduled_response (s\<lparr>statics := st\<rparr>) r js = find_scheduled_response s r js" for js
    by (induction js) (simp_all cong: if_cong)
  show ?thesis
  proof (rule find_scheduled_response_ok [OF assms(1) r])
    assume f: "find_scheduled_response s r (jobs s) = Some None" "\<forall>j \<in> set (jobs s). answer (job_record (job s j)) \<noteq> answer r"
    have none: "responses s ?i = None"
    proof (rule ccontr)
      assume "responses s ?i \<noteq> None"
      then obtain v where v: "responses s ?i = Some v" by blast
      obtain j where j: "j \<in> set (all_jobs s)" "rid (job s j) = ?i" "view (job s j) = v" by (rule responses_some [OF assms(1) v])
      then have "job_state (job s j) \<noteq> AVAHI_SUPPRESSED" "job_state (job s j) \<noteq> AVAHI_DONE"
        using assms(5) v by (auto simp: rid_def split: if_splits)
      then have "job_state (job s j) = AVAHI_SCHEDULED" by (cases "job_state (job s j)") simp_all
      with f(2) j job_lists(1) [OF assms(1) j(1)] show False by simp
    qed
    obtain j s1 where new: "response_job_new r AVAHI_SCHEDULED s = (j, s1)" by fastforce
    note s1 = response_job_new_fields [OF new]
    let ?b = "case a of None \<Rightarrow> querier (job s1 j) | Some b \<Rightarrow> b"
    let ?x = "(job s1 j)\<lparr>delivery := t, job_event := Some (fresh (events (queue s))), job_flush := flush,
      querier_valid := (a \<noteq> None), querier := ?b\<rparr>"
    have x: "job_ok ?x" "responses s (rid ?x) = None" "rid ?x = ?i" using assms(2) r tv none s1(9,10) by (simp_all add: job_ok_def)
    obtain q where q: "avahi_time_event_new (fresh (events (queue s))) (Some (rdue ?x)) (Elapse j) (queue s) = Some q"
      "rs_ok (s1\<lparr>queue := q, job := (job s1)(j := ?x), statics := st\<rparr>)"
      "responses (s1\<lparr>queue := q, job := (job s1)(j := ?x), statics := st\<rparr>) = (responses s)(rid ?x \<mapsto> view ?x)"
      by (rule response_job_start [OF assms(1) new x(2,1) _ _ t(2)]) (simp add: s1(9), simp, rule that)
    let ?s = "s1\<lparr>queue := q, job := (job s1)(j := ?x), statics := st\<rparr>"
    have new': "response_job_new r AVAHI_SCHEDULED (s\<lparr>statics := st\<rparr>) = (j, s1\<lparr>statics := st\<rparr>)"
      using new by (auto simp: response_job_new_def Let_def)
    have due: "rdue ?x = t" by (simp add: rdue_def s1(9))
    have "schedule_response now rnd r flush a imm s = Some ?s"
      using q(1) s1(1,9,10) unfolding due
      by (cases a) (simp_all add: schedule_response_def el find f(1) new' Let_def)
    moreover have "responses ?s = schedule_spec t r flush (map_option originator a) (responses s)"
      unfolding q(3) x(3) using s1(9,10) by (cases a) (simp_all add: schedule_spec_def none view_def)
    moreover have "jobs_kept {r} s ?s" using s1(4,7,10,14) by (auto simp: jobs_kept_def)
    ultimately show ?thesis using q(2) s1(2) t(1) by (intro exI [of _ t] exI [of _ ?s]) simp
  next
    fix j assume f: "find_scheduled_response s r (jobs s) = Some (Some j)" "j \<in> set (jobs s)" "answer (job_record (job s j)) = answer r"
    have j: "j \<in> set (all_jobs s)" "job_state (job s j) = AVAHI_SCHEDULED" using f(2) ok(3) by auto
    obtain ev where ev: "job_event (job s j) = Some ev" using timers_event [OF ok(8) j(1)] by blast
    define d where "d = (if avahi_timeval_compare t (delivery (job s j)) < 0 then t else delivery (job s j))"
    obtain q where q: "(if avahi_timeval_compare t (delivery (job s j)) < 0 then avahi_time_event_update ev t (queue s)
        else Some (queue s)) = Some q"
      "timers_ok (set (all_jobs s)) (\<lambda>j. job_event (job s j)) ((\<lambda>j. rdue (job s j))(j := d)) q"
    proof (cases "avahi_timeval_compare t (delivery (job s j)) < 0")
      case True
      with timers_update [OF ok(8) j(1), OF ev, of t] that show ?thesis by (auto simp: d_def)
    next
      case False
      have "timers_ok (set (all_jobs s)) (\<lambda>j. job_event (job s j)) ((\<lambda>j. rdue (job s j))(j := d)) (queue s)"
        by (rule timers_ok_cong [OF ok(8)]) (use False j in \<open>simp add: d_def rdue_def\<close>)
      with False that show ?thesis by simp
    qed
    let ?v = "querier_valid (job s j) \<and> map_option originator a = Some (originator (querier (job s j)))"
    let ?x = "(job s j)\<lparr>delivery := d, job_flush := (flush \<or> job_flush (job s j)), querier_valid := ?v, job_record := r\<rparr>"
    let ?s = "s\<lparr>statics := st, queue := q, job := (job s)(j := ?x)\<rparr>"
    let ?y = "(job s j)\<lparr>delivery := d, job_flush := (flush \<or> job_flush (job s j))\<rparr>"
    let ?z = "case a of None \<Rightarrow> ?y\<lparr>querier_valid := False\<rparr> | Some b \<Rightarrow>
       if querier_valid (job s j) \<and> avahi_address_cmp b (querier (job s j)) \<noteq> 0 then ?y\<lparr>querier_valid := False\<rparr> else ?y"
    have z: "?z = ?y\<lparr>querier_valid := ?v\<rparr>"
      by (auto simp: address_cmp_origin split: option.split intro!: AvahiResponseJob.equality)
    have "schedule_response now rnd r flush a imm s = Some (s\<lparr>statics := st, queue := q, job := (job s)(j := ?z\<lparr>job_record := r\<rparr>)\<rparr>)"
      using f(1) ev q(1)
      by (cases "avahi_timeval_compare t (delivery (job s j)) < 0"; cases flush; cases a)
        (simp_all add: schedule_response_def el find d_def Let_def)
    then have "schedule_response now rnd r flush a imm s = Some ?s" unfolding z by simp
    moreover have tm: "timers_ok (set (all_jobs s)) ((\<lambda>i. job_event (job s i))(j := job_event ?x)) ((\<lambda>i. rdue (job s i))(j := rdue ?x)) q"
      by (rule timers_ok_cong [OF q(2)]) (simp add: rdue_def j(2))
    have old: "responses s ?i = Some (view (job s j))" "rid (job s j) = ?i"
      using responses_job [OF assms(1) j(1)] j(2) f(3) by simp_all
    have "rs_ok ?s \<and> responses ?s = (responses s)(rid (job s j) \<mapsto> view ?x)"
    proof (rule response_change [OF assms(1) j(1)])
      show "job_ok ?x" using ok(6) [OF j(1)] j(2) assms(2) r tv by (simp add: job_ok_def d_def)
      show "timers_ok (set (all_jobs s)) ((\<lambda>i. job_event (job s i))(j := job_event ?x)) ((\<lambda>i. rdue (job s i))(j := rdue ?x)) (queue ?s)"
        using tm by simp
    qed (use j(2) f(3) t(2) in simp_all)
    moreover have "(responses s)(rid (job s j) \<mapsto> view ?x) = schedule_spec t r flush (map_option originator a) (responses s)"
      unfolding old(2) by (cases a) (auto simp: schedule_spec_def old(1) view_def d_def)
    moreover have "jobs_kept {r} s ?s" using f(3) j(2) by (auto simp: jobs_kept_def)
    ultimately show ?thesis using t(1) by (intro exI [of _ t] exI [of _ ?s]) simp
  qed
qed

lemma response_time_exists: "tv_norm now \<Longrightarrow> \<exists>t. response_time now imm t"
  by (rule exI [of _ "if imm then now else avahi_timeval_add now 20000"])
    (simp add: response_time_def avahi_timeval_diff_usecs avahi_timeval_add_norm, simp add: tv_norm_def)

text \<open>What posting does to the map, and whether the response will be sent.\<close>

definition post_spec :: "timeval \<Rightarrow> timeval \<Rightarrow> AvahiRecord \<Rightarrow> bool \<Rightarrow> originator option \<Rightarrow> (response_id \<Rightarrow> response option) \<Rightarrow>
    bool \<times> (response_id \<Rightarrow> response option)" where
  "post_spec now t r flush q m =
     (let m = (case q of None \<Rightarrow> m | Some b \<Rightarrow> forget_known now (answer r) b m) in
      if (case q of None \<Rightarrow> False | Some b \<Rightarrow>
            (case m (Known (answer r) b) of None \<Rightarrow> False | Some v \<Rightarrow> supersedes (r_record v) r))
      then (False, m)
      else
        let m = forget_history now (answer r) m in
        case m (Response (answer r)) of
          None \<Rightarrow> (True, schedule_spec t r flush q m)
        | Some v \<Rightarrow>
            if r_state v \<noteq> AVAHI_DONE then (True, schedule_spec t r flush q m)
            else if supersedes (r_record v) r \<and> (r_flush v \<or> \<not> flush) then (False, m)
            else (True, schedule_spec t r flush q (m(Response (answer r) := None))))"

lemma post_suppressed:
  fixes s :: "'o AvahiResponseScheduler"
  assumes "rs_ok s" "record_ok r"
  obtains f s1 where "(case a of None \<Rightarrow> Some (None, s) | Some b \<Rightarrow> find_suppressed_response now r b (suppressed s) s) = Some (f, s1)"
    "rs_ok s1" "same_rest s s1" "job s1 = job s" "jobs s1 = jobs s"
    "responses s1 = (case map_option originator a of None \<Rightarrow> responses s | Some b \<Rightarrow> forget_known now (answer r) b (responses s))"
    "(case f of None \<Rightarrow> False | Some j \<Rightarrow> supersedes (job_record (job s1 j)) r) =
     (case map_option originator a of None \<Rightarrow> False | Some b \<Rightarrow>
        (case responses s1 (Known (answer r) b) of None \<Rightarrow> False | Some v \<Rightarrow> supersedes (r_record v) r))"
proof (cases a)
  case None
  with assms(1) that [of None s] show ?thesis by simp
next
  case (Some b)
  show ?thesis
  proof (cases rule: find_suppressed_response_ok [OF assms, of now b, case_names none some])
    case (none s1)
    have "responses s1 (Known (answer r) (originator b)) = None"
    proof (rule ccontr)
      assume "responses s1 (Known (answer r) (originator b)) \<noteq> None"
      then obtain v where v: "responses s1 (Known (answer r) (originator b)) = Some v" by blast
      obtain j where "j \<in> set (all_jobs s1)" "rid (job s1 j) = Known (answer r) (originator b)" "view (job s1 j) = v"
        by (rule responses_some [OF none(2) v])
      with none(4) v show False by (auto simp: rid_def split: if_splits)
    qed
    with none Some that [of None s1] show ?thesis by simp
  next
    case (some j)
    with assms(1) Some that [of "Some j" s] show ?thesis by simp
  qed
qed

lemma response_post_ok:
  fixes s :: "'o AvahiResponseScheduler"
  assumes "rs_ok s" "sendable r" "\<not> avahi_key_is_pattern (rkey r)" "tv_norm now" "0 \<le> rnd \<and> rnd < 2 ^ 31"
  shows "\<exists>t b s'. avahi_response_scheduler_post now rnd r flush a imm s = Some (b, s') \<and> rs_ok s' \<and> same_rest s s' \<and>
    jobs_kept {r} s s' \<and> response_time now imm t \<and> (b, responses s') = post_spec now t r flush (map_option originator a) (responses s)"
proof -
  have r: "record_ok r" using assms(2) by (simp add: sendable_def)
  let ?i = "Response (answer r)"
  obtain t0 where t0: "response_time now imm t0" using response_time_exists [OF assms(4)] by blast
  obtain f s1 where s1: "(case a of None \<Rightarrow> Some (None, s) | Some b \<Rightarrow> find_suppressed_response now r b (suppressed s) s) = Some (f, s1)"
    "rs_ok s1" "same_rest s s1" "job s1 = job s" "jobs s1 = jobs s"
    "responses s1 = (case map_option originator a of None \<Rightarrow> responses s | Some b \<Rightarrow> forget_known now (answer r) b (responses s))"
    "(case f of None \<Rightarrow> False | Some j \<Rightarrow> supersedes (job_record (job s1 j)) r) =
     (case map_option originator a of None \<Rightarrow> False | Some b \<Rightarrow>
        (case responses s1 (Known (answer r) b) of None \<Rightarrow> False | Some v \<Rightarrow> supersedes (r_record v) r))"
    by (rule post_suppressed [OF assms(1) r])
  define known where "known = (case f of None \<Rightarrow> False | Some j \<Rightarrow> supersedes (job_record (job s1 j)) r)"
  have kept: "jobs_kept {r} s s2 = jobs_kept {r} s1 s2" for s2 by (simp add: jobs_kept_def s1(4,5))
  have spec: "post_spec now t r flush (map_option originator a) (responses s) =
    (if known then (False, responses s1)
     else case forget_history now (answer r) (responses s1) ?i of
          None \<Rightarrow> (True, schedule_spec t r flush (map_option originator a) (forget_history now (answer r) (responses s1)))
        | Some v \<Rightarrow>
            if r_state v \<noteq> AVAHI_DONE then (True, schedule_spec t r flush (map_option originator a) (forget_history now (answer r) (responses s1)))
            else if supersedes (r_record v) r \<and> (r_flush v \<or> \<not> flush) then (False, forget_history now (answer r) (responses s1))
            else (True, schedule_spec t r flush (map_option originator a) ((forget_history now (answer r) (responses s1))(?i := None))))" for t
    unfolding post_spec_def Let_def s1(6) [symmetric] known_def s1(7) ..
  have run: "avahi_response_scheduler_post now rnd r flush a imm s =
    (if known then Some (False, s1)
     else do {
          (h, s) \<leftarrow> find_history_response now r (history s1) s1;
          if (case h of None \<Rightarrow> False
                | Some j \<Rightarrow> supersedes (job_record (job s j)) r \<and> (job_flush (job s j) \<or> \<not> flush))
          then Some (False, s)
          else do {
            s \<leftarrow> (case h of None \<Rightarrow> Some s | Some j \<Rightarrow> response_job_free j s);
            s \<leftarrow> schedule_response now rnd r flush a imm s;
            Some (True, s)
          }
        })"
    using assms(3) s1(1) by (simp add: avahi_response_scheduler_post_def known_def)
  show ?thesis
  proof (cases known)
    case True
    with run spec [of t0] s1(2,3) t0 kept [of s1] show ?thesis by (intro exI [of _ t0] exI [of _ False] exI [of _ s1]) simp
  next
    case False
    show ?thesis
    proof (cases rule: find_history_response_ok [OF s1(2) r, of now, case_names none some])
      case (none s2)
      obtain t s3 where s3: "schedule_response now rnd r flush a imm s2 = Some s3" "rs_ok s3" "same_rest s2 s3" "jobs_kept {r} s2 s3"
        "response_time now imm t" "responses s3 = schedule_spec t r flush (map_option originator a) (responses s2)"
        using schedule_response_ok [OF none(2) assms(2,4,5) none(4)] by blast
      have "post_spec now t r flush (map_option originator a) (responses s) =
          (True, schedule_spec t r flush (map_option originator a) (responses s2))"
        using False none(4) unfolding spec none(3) by (auto split: option.split)
      with run False none(1) s3 response_rest_trans [OF response_rest_trans [OF s1(3) none(5)] s3(3)] kept [of s3] jobs_kept_same [OF none(6,8), of "{r}" s3]
      show ?thesis by (intro exI [of _ t] exI [of _ True] exI [of _ s3]) simp
    next
      case (some j)
      show ?thesis
      proof (cases "supersedes (job_record (job s1 j)) r \<and> (job_flush (job s1 j) \<or> \<not> flush)")
        case True
        have "post_spec now t0 r flush (map_option originator a) (responses s) = (False, responses s1)"
          unfolding spec some(5) using False some(4,6) True by simp
        with run False some(1) True s1(2,3) t0 kept [of s1] show ?thesis
          by (intro exI [of _ t0] exI [of _ False] exI [of _ s1]) simp
      next
        case no: False
        obtain s2 where s2: "response_job_free j s1 = Some s2" "rs_ok s2" "responses s2 = (responses s1)(?i := None)"
          "same_rest s1 s2" "job s2 = job s1" "jobs s2 = remove1 j (jobs s1)"
          using response_job_free_ok [OF s1(2) some(2)] some(3) by auto
        have "j \<notin> set (jobs s1)" using job_lists(1) [OF s1(2) some(2)] some(4) by simp
        then have jobs: "jobs s2 = jobs s1" using s2(6) by (simp add: remove1_idem)
        have "\<forall>v. responses s2 ?i = Some v \<longrightarrow> r_state v \<noteq> AVAHI_DONE" by (simp add: s2(3))
        from schedule_response_ok [OF s2(2) assms(2,4,5) this] obtain t s3 where
          s3: "schedule_response now rnd r flush a imm s2 = Some s3" "rs_ok s3" "same_rest s2 s3" "jobs_kept {r} s2 s3"
            "response_time now imm t" "responses s3 = schedule_spec t r flush (map_option originator a) (responses s2)" by blast
        have "post_spec now t r flush (map_option originator a) (responses s) =
            (True, schedule_spec t r flush (map_option originator a) (responses s2))"
          unfolding spec some(5) s2(3) using False some(4,6) no by simp
        with run False some(1) no s2(1) s3 response_rest_trans [OF response_rest_trans [OF s1(3) s2(4)] s3(3)] kept [of s3]
          jobs_kept_same [OF s2(5) jobs, of "{r}" s3]
        show ?thesis by (intro exI [of _ t] exI [of _ True] exI [of _ s3]) simp
      qed
    qed
  qed
qed

section \<open>Responses of others\<close>

text \<open>
  A response of another host. The one that waits is not sent if that of the other host is as good; otherwise it
  waits on. What does not wait counts as sent just now.
\<close>

definition incoming_spec :: "timeval \<Rightarrow> AvahiRecord \<Rightarrow> bool \<Rightarrow> (response_id \<Rightarrow> response option) \<Rightarrow> response_id \<Rightarrow> response option" where
  "incoming_spec now r flush m =
     (let i = Response (answer r);
          heard = m(i \<mapsto> \<lparr>r_state = AVAHI_DONE, r_time = now, r_record = r, r_flush = flush, r_querier = None\<rparr>)
      in case m i of
           None \<Rightarrow> heard
         | Some v \<Rightarrow>
             if r_state v \<noteq> AVAHI_SCHEDULED then heard
             else if (\<not> r_flush v \<or> flush) \<and> supersedes r (r_record v) then m(i \<mapsto> v\<lparr>r_state := AVAHI_DONE, r_time := now\<rparr>)
             else m)"

lemma scheduled_response:
  fixes s :: "'o AvahiResponseScheduler"
  assumes "rs_ok s" "record_ok r"
  obtains (absent) "find_scheduled_response s r (jobs s) = Some None"
      "\<And>v. responses s (Response (answer r)) = Some v \<Longrightarrow> r_state v = AVAHI_DONE"
  | (found) j where "find_scheduled_response s r (jobs s) = Some (Some j)" "j \<in> set (jobs s)" "j \<in> set (all_jobs s)"
      "rid (job s j) = Response (answer r)" "job_state (job s j) = AVAHI_SCHEDULED"
      "responses s (Response (answer r)) = Some (view (job s j))"
proof (rule find_scheduled_response_ok [OF assms])
  assume f: "find_scheduled_response s r (jobs s) = Some None" "\<forall>j \<in> set (jobs s). answer (job_record (job s j)) \<noteq> answer r"
  have "r_state v = AVAHI_DONE" if v: "responses s (Response (answer r)) = Some v" for v
  proof -
    obtain j where j: "j \<in> set (all_jobs s)" "rid (job s j) = Response (answer r)" "view (job s j) = v"
      by (rule responses_some [OF assms(1) v])
    then have "j \<notin> set (jobs s)" "job_state (job s j) \<noteq> AVAHI_SUPPRESSED" using f(2) by (auto simp: rid_def split: if_splits)
    then have "job_state (job s j) = AVAHI_DONE"
      using job_lists(1) [OF assms(1) j(1)] by (cases "job_state (job s j)") simp_all
    with j(3) show ?thesis by auto
  qed
  with absent f(1) show ?thesis by blast
next
  fix j assume f: "find_scheduled_response s r (jobs s) = Some (Some j)" "j \<in> set (jobs s)" "answer (job_record (job s j)) = answer r"
  have j: "j \<in> set (all_jobs s)" "job_state (job s j) = AVAHI_SCHEDULED" using f(2) rs_okD(3) [OF assms(1)] by auto
  then have "rid (job s j) = Response (answer r)" using f(3) by simp
  with found [OF f(1,2) j(1) _ j(2)] responses_job [OF assms(1) j(1)] show ?thesis by simp
qed

text \<open>A job that is on its list, whose contents and event are set anew.\<close>

lemma response_refresh:
  fixes s :: "'o AvahiResponseScheduler"
  assumes "rs_ok s" "j \<in> set (all_jobs s)" "rid x = rid (job s j)" "job_state x = job_state (job s j)" "job_ok x"
    and "job_event x = job_event (job s j)" "rdue x = (if msec = 0 then now else avahi_timeval_add now (int msec * 1000))"
  shows "\<exists>s'. response_job_set_elapse_time now rnd j msec 0 (s\<lparr>job := (job s)(j := x)\<rparr>) = Some s' \<and>
    rs_ok s' \<and> same_rest s s' \<and> responses s' = (responses s)(rid (job s j) \<mapsto> view x)"
proof -
  note ok = rs_okD [OF assms(1)]
  obtain ev where ev: "job_event (job s j) = Some ev" using timers_event [OF ok(8) assms(2)] by blast
  obtain q where q: "avahi_time_event_update ev (rdue x) (queue s) = Some q"
    "timers_ok (set (all_jobs s)) (\<lambda>j. job_event (job s j)) ((\<lambda>j. rdue (job s j))(j := rdue x)) q"
    by (rule timers_update [OF ok(8) assms(2), OF ev])
  let ?s = "s\<lparr>queue := q, job := (job s)(j := x)\<rparr>"
  have "response_job_set_elapse_time now rnd j msec 0 (s\<lparr>job := (job s)(j := x)\<rparr>) = Some ?s"
    using q(1) ev assms(6) unfolding assms(7) by (simp add: response_job_set_elapse_time_def elapse_time_plain)
  moreover have "timers_ok (set (all_jobs s)) ((\<lambda>i. job_event (job s i))(j := job_event x)) ((\<lambda>i. rdue (job s i))(j := rdue x)) q"
    by (rule timers_ok_cong [OF q(2)]) (simp add: assms(6))
  then have "rs_ok ?s \<and> responses ?s = (responses s)(rid (job s j) \<mapsto> view x)"
    by (intro response_change [OF assms(1,2)]) (use assms(3-5) ok(7) in simp_all)
  ultimately show ?thesis by simp
qed

text \<open>A new job whose event is set by \<open>job_set_elapse_time\<close>; \<open>x\<close> is its content but for the event.\<close>

lemma response_start_elapse:
  fixes s :: "'o AvahiResponseScheduler"
  assumes "rs_ok s" "response_job_new r st s = (j, s1)" "responses s (rid x) = None" "job_ok x" "job_state x = st"
    and "job_event x = None" "rdue x = (if msec = 0 then now else avahi_timeval_add now (int msec * 1000))"
  shows "\<exists>s'. response_job_set_elapse_time now rnd j msec 0 (s1\<lparr>job := (job s1)(j := x)\<rparr>) = Some s' \<and>
    rs_ok s' \<and> same_rest s s' \<and> responses s' = (responses s)(rid x \<mapsto> view x)"
proof -
  note s1 = response_job_new_fields [OF assms(2)]
  let ?x = "x\<lparr>job_event := Some (fresh (events (queue s)))\<rparr>"
  have x: "rid ?x = rid x" "job_ok ?x" "view ?x = view x" "rdue ?x = rdue x" "job_state ?x = st"
    using assms(4,5) by (simp_all add: rid_def job_ok_def view_def rdue_def split: AvahiResponseJobState.split)
  have none: "responses s (rid ?x) = None" using assms(3) x(1) by simp
  obtain q where q: "avahi_time_event_new (fresh (events (queue s))) (Some (rdue ?x)) (Elapse j) (queue s) = Some q"
    "rs_ok (s1\<lparr>queue := q, job := (job s1)(j := ?x), statics := statics s\<rparr>)"
    "responses (s1\<lparr>queue := q, job := (job s1)(j := ?x), statics := statics s\<rparr>) = (responses s)(rid ?x \<mapsto> view ?x)"
    by (rule response_job_start [OF assms(1,2) none x(2,5) _ rs_okD(7) [OF assms(1)]]) (simp, rule that)
  have "response_job_set_elapse_time now rnd j msec 0 (s1\<lparr>job := (job s1)(j := x)\<rparr>) =
      Some (s1\<lparr>queue := q, job := (job s1)(j := ?x), statics := statics s\<rparr>)"
    using q(1) assms(6) unfolding x(4) assms(7)
    by (simp add: response_job_set_elapse_time_def elapse_time_plain s1(1) s1(3) [symmetric])
  with q(2,3) x(1,3) s1(2) show ?thesis by simp
qed

lemma response_incoming_ok:
  fixes s :: "'o AvahiResponseScheduler"
  assumes "rs_ok s" "record_ok r" "tv_norm now"
  shows "\<exists>s'. avahi_response_scheduler_incoming now rnd r flush s = Some s' \<and> rs_ok s' \<and> same_rest s s' \<and>
    responses s' = incoming_spec now r flush (responses s)"
proof (cases rule: scheduled_response [OF assms(1,2), case_names absent found])
  case (found j)
  show ?thesis
  proof (cases "(\<not> job_flush (job s j) \<or> flush) \<and> supersedes r (job_record (job s j))")
    case True
    obtain s' where "response_job_mark_done now rnd j s = Some s'" "rs_ok s'" "same_rest s s'"
      "responses s' = (responses s)(rid (job s j) \<mapsto> (view (job s j))\<lparr>r_state := AVAHI_DONE, r_time := now\<rparr>)"
      using response_job_mark_done_ok [OF assms(1) found(2) assms(3)] by blast
    with True found show ?thesis by (simp add: avahi_response_scheduler_incoming_def incoming_spec_def Let_def)
  next
    case False
    with assms(1) found show ?thesis by (auto simp: avahi_response_scheduler_incoming_def incoming_spec_def Let_def)
  qed
next
  case absent
  let ?i = "Response (answer r)"
  let ?v = "\<lparr>r_state = AVAHI_DONE, r_time = now, r_record = r, r_flush = flush, r_querier = None\<rparr>"
  have spec: "incoming_spec now r flush (responses s) = (responses s)(?i \<mapsto> ?v)"
    using absent(2) by (auto simp: incoming_spec_def Let_def split: option.split)
  show ?thesis
  proof (cases rule: find_history_response_ok [OF assms(1,2), of now, case_names none some])
    case (some j)
    let ?x = "(job s j)\<lparr>job_record := r, job_flush := flush, querier_valid := False, delivery := now\<rparr>"
    have "\<exists>s'. response_job_set_elapse_time now rnd j 500 0 (s\<lparr>job := (job s)(j := ?x)\<rparr>) = Some s' \<and>
      rs_ok s' \<and> same_rest s s' \<and> responses s' = (responses s)(rid (job s j) \<mapsto> view ?x)"
      by (rule response_refresh [OF assms(1) some(2)]) (use some(3,4) assms(2,3) in \<open>simp_all add: job_ok_def rdue_def\<close>)
    moreover have "view ?x = ?v" using some(4) by (simp add: view_def)
    ultimately show ?thesis unfolding spec using absent(1) some(1,3)
      by (simp add: avahi_response_scheduler_incoming_def)
  next
    case (none s1)
    obtain j s2 where new: "response_job_new r AVAHI_DONE s1 = (j, s2)" by fastforce
    note s2 = response_job_new_fields [OF new]
    let ?x = "(job s2 j)\<lparr>job_flush := flush, querier_valid := False, delivery := now\<rparr>"
    have x: "job_ok ?x" "rid ?x = ?i" "view ?x = ?v" "rdue ?x = avahi_timeval_add now 500000"
      using assms(2,3) s2(9,10) by (simp_all add: job_ok_def view_def rdue_def)
    have free: "responses s1 (rid ?x) = None"
    proof (rule ccontr)
      assume "responses s1 (rid ?x) \<noteq> None"
      then obtain v where v: "responses s1 ?i = Some v" unfolding x(2) by blast
      then have "responses s ?i = Some v" unfolding none(3) by (auto simp: forget_def split: option.splits if_splits)
      with absent(2) none(4) v show False by blast
    qed
    have "\<exists>s'. response_job_set_elapse_time now rnd j 500 0 (s2\<lparr>job := (job s2)(j := ?x)\<rparr>) = Some s' \<and>
      rs_ok s' \<and> same_rest s1 s' \<and> responses s' = (responses s1)(rid ?x \<mapsto> view ?x)"
      by (rule response_start_elapse [OF none(2) new free x(1)]) (use s2(9,11) x(4) in simp_all)
    moreover have "(responses s1)(?i \<mapsto> ?v) = (responses s)(?i \<mapsto> ?v)"
      unfolding none(3) by (auto simp: forget_def split: option.splits)
    ultimately show ?thesis unfolding spec x(2,3) using absent(1) none(1) new response_rest_trans [OF none(5)]
      by (auto simp: avahi_response_scheduler_incoming_def)
  qed
qed

section \<open>Known answers of others\<close>

text \<open>
  A known answer of a querier: the response that waits for this querier alone is not sent if the known one is as good,
  and for some time none will be posted.
\<close>

definition suppress_spec :: "timeval \<Rightarrow> AvahiRecord \<Rightarrow> originator \<Rightarrow> (response_id \<Rightarrow> response option) \<Rightarrow> response_id \<Rightarrow> response option" where
  "suppress_spec now r b m =
     (case m (Response (answer r)) of
        None \<Rightarrow> m
      | Some v \<Rightarrow> if r_state v = AVAHI_SCHEDULED \<and> r_querier v = Some b \<and> supersedes r (r_record v)
                  then m(Response (answer r) := None) else m)
     (Known (answer r) b \<mapsto>
        \<lparr>r_state = AVAHI_SUPPRESSED, r_time = now, r_record = r, r_flush = False, r_querier = Some b\<rparr>)"

lemma suppress_drop:
  fixes s :: "'o AvahiResponseScheduler"
  assumes "rs_ok s" "record_ok r"
  shows "\<exists>s'. (do {
       f \<leftarrow> find_scheduled_response s r (jobs s);
       (case f of
               Some j \<Rightarrow>
                 if querier_valid (job s j) \<and> avahi_address_cmp a (querier (job s j)) = 0 \<and> supersedes r (job_record (job s j))
                 then response_job_free j s else Some s
             | None \<Rightarrow> Some s)
     }) = Some s' \<and> rs_ok s' \<and> same_rest s s' \<and>
     responses s' = (case responses s (Response (answer r)) of
        None \<Rightarrow> responses s
      | Some v \<Rightarrow> if r_state v = AVAHI_SCHEDULED \<and> r_querier v = Some (originator a) \<and> supersedes r (r_record v)
                  then (responses s)(Response (answer r) := None) else responses s)"
proof (cases rule: scheduled_response [OF assms(1,2), case_names absent found])
  case absent
  with assms(1) show ?thesis by (auto split: option.split)
next
  case (found j)
  show ?thesis
  proof (cases "querier_valid (job s j) \<and> originator a = originator (querier (job s j)) \<and> supersedes r (job_record (job s j))")
    case True
    with response_job_free_ok [OF assms(1) found(3)] found show ?thesis by (auto simp: address_cmp_origin)
  next
    case False
    with assms(1) found show ?thesis by (auto simp: address_cmp_origin)
  qed
qed

lemma response_suppress_ok:
  fixes s :: "'o AvahiResponseScheduler"
  assumes "rs_ok s" "record_ok r" "tv_norm now"
  shows "\<exists>s'. avahi_response_scheduler_suppress now rnd r a s = Some s' \<and> rs_ok s' \<and> same_rest s s' \<and>
    responses s' = suppress_spec now r (originator a) (responses s)"
proof -
  let ?i = "Known (answer r) (originator a)"
  let ?v = "\<lparr>r_state = AVAHI_SUPPRESSED, r_time = now, r_record = r, r_flush = False, r_querier = Some (originator a)\<rparr>"
  obtain f s1 where f: "find_scheduled_response s r (jobs s) = Some f"
    "(case f of
        Some j \<Rightarrow>
          if querier_valid (job s j) \<and> avahi_address_cmp a (querier (job s j)) = 0 \<and> supersedes r (job_record (job s j))
          then response_job_free j s else Some s
      | None \<Rightarrow> Some s) = Some s1" "rs_ok s1" "same_rest s s1"
    and spec: "suppress_spec now r (originator a) (responses s) = (responses s1)(?i \<mapsto> ?v)"
    using suppress_drop [OF assms(1,2), of a] by (auto simp: suppress_spec_def bind_eq_Some_conv)
  have run: "avahi_response_scheduler_suppress now rnd r a s = do {
       (h, s) \<leftarrow> find_suppressed_response now r a (suppressed s1) s1;
       let (j, s) = (case h of
                       Some j \<Rightarrow> (j, upd_rjob j (\<lambda>x. x\<lparr>job_record := r\<rparr>) s)
                     | None \<Rightarrow> (let (j, s) = response_job_new r AVAHI_SUPPRESSED s
                                in (j, upd_rjob j (\<lambda>x. x\<lparr>querier_valid := True, querier := a\<rparr>) s)));
       response_job_set_elapse_time now rnd j AVAHI_RESPONSE_SUPPRESS_MSEC 0 (upd_rjob j (\<lambda>x. x\<lparr>delivery := now\<rparr>) s)
     }"
    using f(1,2) by (simp add: avahi_response_scheduler_suppress_def)
  show ?thesis
  proof (cases rule: find_suppressed_response_ok [OF f(3) assms(2), of now a, case_names none some])
    case (some j)
    let ?x = "(job s1 j)\<lparr>job_record := r, delivery := now\<rparr>"
    have j: "job_ok (job s1 j)" by (rule rs_okD(6) [OF f(3) some(2)])
    have "\<exists>s'. response_job_set_elapse_time now rnd j 700 0 (s1\<lparr>job := (job s1)(j := ?x)\<rparr>) = Some s' \<and>
      rs_ok s' \<and> same_rest s1 s' \<and> responses s' = (responses s1)(rid (job s1 j) \<mapsto> view ?x)"
      by (rule response_refresh [OF f(3) some(2)]) (use some(3,4) assms(2,3) j in \<open>simp_all add: job_ok_def rdue_def\<close>)
    moreover have "view ?x = ?v" using some(3,4) j by (simp add: view_def job_ok_def)
    ultimately show ?thesis unfolding spec run using some(1,3) response_rest_trans [OF f(4)] by auto
  next
    case (none s2)
    obtain j s3 where new: "response_job_new r AVAHI_SUPPRESSED s2 = (j, s3)" by fastforce
    note s3 = response_job_new_fields [OF new]
    let ?x = "(job s3 j)\<lparr>querier_valid := True, querier := a, delivery := now\<rparr>"
    have x: "job_ok ?x" "rid ?x = ?i" "view ?x = ?v" "rdue ?x = avahi_timeval_add now 700000"
      using assms(2,3) s3(9,10,13) by (simp_all add: job_ok_def view_def rdue_def)
    have free: "responses s2 (rid ?x) = None"
    proof (rule ccontr)
      assume "responses s2 (rid ?x) \<noteq> None"
      then obtain v where v: "responses s2 ?i = Some v" unfolding x(2) by blast
      obtain i where "rid (job s2 i) = ?i" "view (job s2 i) = v" by (rule responses_some [OF none(2) v])
      with none(4) v show False by (auto simp: rid_def split: if_splits)
    qed
    have "\<exists>s'. response_job_set_elapse_time now rnd j 700 0 (s3\<lparr>job := (job s3)(j := ?x)\<rparr>) = Some s' \<and>
      rs_ok s' \<and> same_rest s2 s' \<and> responses s' = (responses s2)(rid ?x \<mapsto> view ?x)"
      by (rule response_start_elapse [OF none(2) new free x(1)]) (use s3(9,11) x(4) in simp_all)
    moreover have "(responses s2)(?i \<mapsto> ?v) = (responses s1)(?i \<mapsto> ?v)"
      unfolding none(3) by (auto simp: forget_def split: option.splits)
    ultimately show ?thesis unfolding spec run x(2,3) using none(1) new response_rest_trans [OF response_rest_trans [OF f(4) none(5)]]
      by auto
  qed
qed

end
