(* ===== verification/Response_Send.thy ===== *)
theory Response_Send
  imports Response_Post
begin

text \<open>
  What the response scheduler sends when a job is due, and that sending all that waits comes to an end.
\<close>

section \<open>Clearing\<close>

lemma free_responses_ok:
  fixes s :: "'o AvahiResponseScheduler"
  assumes "rs_ok s" "f \<in> {jobs, history, suppressed}"
  shows "\<exists>s'. free_responses f s = Some s' \<and> rs_ok s' \<and> f s' = [] \<and> same_rest s s' \<and>
    (\<forall>g \<in> {jobs, history, suppressed}. g s = [] \<longrightarrow> g s' = [])"
  using assms(1)
proof (induction "f s" arbitrary: s)
  case Nil
  then show ?case by (intro exI [of _ s], subst free_responses.simps) (simp add: Nil(1) [symmetric])
next
  case (Cons j js)
  have j: "j \<in> set (all_jobs s)" using Cons.hyps(2) [symmetric] assms(2) by auto
  obtain s1 where s1: "response_job_free j s = Some s1" "rs_ok s1" "same_rest s s1"
    "jobs s1 = remove1 j (jobs s)" "history s1 = remove1 j (history s)" "suppressed s1 = remove1 j (suppressed s)"
    using response_job_free_ok [OF Cons.prems j] by blast
  have f: "f s1 = remove1 j (f s)" using assms(2) s1(4-6) by auto
  then have "js = f s1" unfolding Cons.hyps(2) [symmetric] by simp
  from Cons.hyps(1) [OF this s1(2)] obtain s' where
    s': "free_responses f s1 = Some s'" "rs_ok s'" "f s' = []" "same_rest s1 s'"
    "\<forall>g \<in> {jobs, history, suppressed}. g s1 = [] \<longrightarrow> g s' = []" by blast
  have "\<forall>g \<in> {jobs, history, suppressed}. g s = [] \<longrightarrow> g s' = []" using s'(5) s1(4-6) by simp
  moreover have "free_responses f s = Some s'"
    using s1(1) s'(1) Cons.hyps(2) [symmetric] by (subst free_responses.simps) simp
  ultimately show ?case using s'(2-4) response_rest_trans [OF s1(3) s'(4)] by blast
qed

lemma response_clear_ok:
  assumes "rs_ok s"
  shows "\<exists>s'. avahi_response_scheduler_clear s = Some s' \<and> rs_ok s' \<and> all_jobs s' = [] \<and> same_rest s s' \<and> elapse_events (queue s') = {}"
proof -
  obtain s1 where s1: "free_responses jobs s = Some s1" "rs_ok s1" "jobs s1 = []" "same_rest s s1"
    using free_responses_ok [OF assms, of jobs] by blast
  obtain s2 where s2: "free_responses history s1 = Some s2" "rs_ok s2" "history s2 = []" "same_rest s1 s2" "jobs s2 = []"
    using free_responses_ok [OF s1(2), of history] s1(3) by auto
  obtain s3 where s3: "free_responses suppressed s2 = Some s3" "rs_ok s3" "suppressed s3 = []" "same_rest s2 s3"
    "jobs s3 = []" "history s3 = []" using free_responses_ok [OF s2(2), of suppressed] s2(3,5) by auto
  have none: "all_jobs s3 = []" using s3(3,5,6) by simp
  have "elapse_events (queue s3) = {}" using rs_okD(8) [OF s3(2)] unfolding none by (simp add: timers_ok_def)
  moreover have "avahi_response_scheduler_clear s = Some s3" using s1(1) s2(1) s3(1) by (simp add: avahi_response_scheduler_clear_def)
  ultimately show ?thesis
    using s3(2) none response_rest_trans [OF response_rest_trans [OF s1(4) s2(4)] s3(4)] by blast
qed

section \<open>Records that are sent\<close>

text \<open>What the database of the server must provide: records that can be sent.\<close>

definition aux_ok :: "(AvahiRecord \<Rightarrow> (AvahiRecord \<times> bool) list) \<Rightarrow> bool" where
  "aux_ok aux = (\<forall>r. \<forall>rf \<in> set (aux r). sendable (fst rf) \<and> \<not> avahi_key_is_pattern (rkey (fst rf)))"

definition waiting :: "'o AvahiResponseScheduler \<Rightarrow> AvahiRecord set" where
  "waiting s = (\<lambda>j. job_record (job s j)) ` set (jobs s)"

text \<open>The records that may be sent: those that wait, and with each its auxiliary records.\<close>

inductive_set due_records :: "(AvahiRecord \<Rightarrow> (AvahiRecord \<times> bool) list) \<Rightarrow> AvahiRecord set \<Rightarrow> AvahiRecord set"
  for aux W where
  waits: "r \<in> W \<Longrightarrow> r \<in> due_records aux W"
| auxiliary: "r \<in> due_records aux W \<Longrightarrow> rf \<in> set (aux r) \<Longrightarrow> fst rf \<in> due_records aux W"

lemma due_records_trans: "W' \<subseteq> due_records aux W \<Longrightarrow> r \<in> due_records aux W' \<Longrightarrow> r \<in> due_records aux W"
  by (rotate_tac, induction rule: due_records.induct) (auto intro: due_records.auxiliary)

section \<open>A database with one record for each answer\<close>

text \<open>
  The server usually has one record and cache flush bit for each answer, \<open>own\<close>. Then a response that was sent just now
  is never posted again.
\<close>

definition owns :: "(AvahiRecord \<Rightarrow> (AvahiRecord \<times> bool) list) \<Rightarrow> (answer \<Rightarrow> AvahiRecord \<times> bool) \<Rightarrow>
    (response_id \<Rightarrow> response option) \<Rightarrow> bool" where
  "owns aux own m =
     ((\<forall>r. \<forall>rf \<in> set (aux r). own (answer (fst rf)) = rf) \<and>
      (\<forall>a v. m (Response a) = Some v \<and> r_state v = AVAHI_SCHEDULED \<longrightarrow> (r_record v, r_flush v) = own a))"

definition just_sent :: "(answer \<Rightarrow> AvahiRecord \<times> bool) \<Rightarrow> timeval \<Rightarrow> (response_id \<Rightarrow> response option) \<Rightarrow> answer set" where
  "just_sent own now m = {a. \<exists>v. m (Response a) = Some v \<and> r_state v = AVAHI_DONE \<and> r_time v = now \<and> (r_record v, r_flush v) = own a}"

text \<open>The known answers that count at a time are left alone.\<close>

definition known_kept :: "timeval \<Rightarrow> (response_id \<Rightarrow> response option) \<Rightarrow> (response_id \<Rightarrow> response option) \<Rightarrow> bool" where
  "known_kept now m m' =
     (\<forall>a b v. m (Known a b) = Some v \<and> avahi_age now (r_time v) \<le> 700000 \<longrightarrow> m' (Known a b) = Some v)"

lemma known_kept_refl [simp]: "known_kept now m m"
  by (simp add: known_kept_def)

lemma known_kept_trans: "known_kept now m m' \<Longrightarrow> known_kept now m' m'' \<Longrightarrow> known_kept now m m''"
  unfolding known_kept_def by blast

lemma known_kept_response [simp]: "known_kept now m (m'(Response a := v)) = known_kept now m m'"
  by (simp add: known_kept_def)

text \<open>What sending keeps, in such a database and of the known answers; \<open>A\<close> is what is sent.\<close>

definition owned_step :: "(AvahiRecord \<Rightarrow> (AvahiRecord \<times> bool) list) \<Rightarrow> timeval \<Rightarrow> answer set \<Rightarrow> (response_id \<Rightarrow> response option) \<Rightarrow>
    (response_id \<Rightarrow> response option) \<Rightarrow> bool" where
  "owned_step aux now A m m' =
     (known_kept now m m' \<and>
      (\<forall>own. owns aux own m \<longrightarrow> owns aux own m' \<and> just_sent own now m \<subseteq> just_sent own now m' \<and> A \<subseteq> just_sent own now m'))"

lemma owned_step_refl: "owned_step aux now {} m m"
  by (simp add: owned_step_def)

lemma owned_step_trans: "owned_step aux now A m m' \<Longrightarrow> owned_step aux now B m' m'' \<Longrightarrow> owned_step aux now (A \<union> B) m m''"
  unfolding owned_step_def using known_kept_trans by blast

lemma owned_step_known: "owned_step aux now A m m' \<Longrightarrow> known_kept now m m'"
  by (simp add: owned_step_def)

lemma forget_other [simp]: "i \<noteq> k \<Longrightarrow> forget old i m k = m k"
  by (simp add: forget_def split: option.split)

lemma age_now: "avahi_age now now = 0"
  by (simp add: avahi_age_def avahi_timeval_diff_usecs)

lemma supersedes_refl: "supersedes r r"
  by (simp add: supersedes_def word_le_nat_alt unat_div)

lemma post_spec_cases:
  assumes "(b, m') = post_spec now t r f q m"
    and "m1 = (case q of None \<Rightarrow> m | Some b \<Rightarrow> forget_known now (answer r) b m)" "m2 = forget_history now (answer r) m1"
  shows "m' = m1 \<or> m' = m2 \<or>
    (\<forall>v. m2 (Response (answer r)) = Some v \<and> r_state v = AVAHI_DONE \<longrightarrow> \<not> (supersedes (r_record v) r \<and> (r_flush v \<or> \<not> f))) \<and>
    (\<exists>m3. (m3 = m2 \<or> m3 = m2(Response (answer r) := None)) \<and> m' = schedule_spec t r f q m3)"
  using assms(1) unfolding post_spec_def Let_def assms(2) [symmetric] assms(3) [symmetric]
  by (simp split: option.splits if_splits) blast+

lemma forget_known_kept:
  "known_kept now m (forget old (Response a) m)" "known_kept now m (forget_known now a b m)"
  by (auto simp: known_kept_def forget_def split: option.split)

lemma post_spec_known:
  assumes post: "(b, m') = post_spec now t r f q m"
  shows "known_kept now m m'"
proof -
  define m1 where "m1 = (case q of None \<Rightarrow> m | Some b \<Rightarrow> forget_known now (answer r) b m)"
  define m2 where "m2 = forget_history now (answer r) m1"
  have k: "known_kept now m m1" "known_kept now m1 m2"
    using forget_known_kept by (simp_all add: m1_def m2_def split: option.split)
  then have "known_kept now m m2" by (rule known_kept_trans)
  with k(1) post_spec_cases [OF post m1_def m2_def] show ?thesis by (auto simp: schedule_spec_def)
qed

lemma post_spec_owned:
  assumes post: "(b, m') = post_spec now t r f q m" and own: "own (answer r) = (r, f)" "owns aux own m"
  shows "owns aux own m' \<and> just_sent own now m \<subseteq> just_sent own now m'"
proof -
  define m1 where "m1 = (case q of None \<Rightarrow> m | Some b \<Rightarrow> forget_known now (answer r) b m)"
  let ?i = "Response (answer r)"
  define m2 where "m2 = forget_history now (answer r) m1"
  have m1: "m1 (Response a) = m (Response a)" for a by (simp add: m1_def split: option.split)
  have other: "m2 (Response a) = m (Response a)" if "a \<noteq> answer r" for a using that by (simp add: m2_def m1)
  have i: "m2 ?i = m ?i \<or> m2 ?i = None" by (simp add: m2_def forget_def m1 split: option.split)
  have kept: "m2 ?i = m ?i" if "answer r \<in> just_sent own now m"
    using that unfolding just_sent_def m2_def forget_def m1 by (auto simp: age_now m1)
  have old: "(r_record v, r_flush v) = own a" if "m (Response a) = Some v" "r_state v = AVAHI_SCHEDULED" for a v
    using own(2) that unfolding owns_def by blast
  have fine: ?thesis
    if same: "\<And>a. a \<noteq> answer r \<Longrightarrow> m' (Response a) = m (Response a)"
      and at: "\<And>v. m' ?i = Some v \<Longrightarrow> r_state v = AVAHI_SCHEDULED \<Longrightarrow> (r_record v, r_flush v) = own (answer r)"
      and sent: "answer r \<in> just_sent own now m \<Longrightarrow> m' ?i = m ?i"
  proof
    have "(r_record v, r_flush v) = own a" if "m' (Response a) = Some v" "r_state v = AVAHI_SCHEDULED" for a v
    proof (cases "a = answer r")
      case True
      with at that show ?thesis by simp
    next
      case False
      with old [of a v] same that show ?thesis by simp
    qed
    with own(2) show "owns aux own m'" unfolding owns_def by blast
    show "just_sent own now m \<subseteq> just_sent own now m'"
    proof
      fix a assume a: "a \<in> just_sent own now m"
      then have "m' (Response a) = m (Response a)" using same [of a] sent by (cases "a = answer r") simp_all
      with a show "a \<in> just_sent own now m'" by (simp add: just_sent_def)
    qed
  qed
  from post_spec_cases [OF post m1_def m2_def] consider "m' = m1" | "m' = m2"
    | m3 where "m3 = m2 \<or> m3 = m2(?i := None)" "m' = schedule_spec t r f q m3"
      "\<forall>v. m2 ?i = Some v \<and> r_state v = AVAHI_DONE \<longrightarrow> \<not> (supersedes (r_record v) r \<and> (r_flush v \<or> \<not> f))" by blast
  then show ?thesis
  proof cases
    case 1
    show ?thesis by (rule fine) (use old in \<open>simp_all add: 1 m1\<close>)
  next
    case 2
    show ?thesis
    proof (rule fine)
      show "(r_record v, r_flush v) = own (answer r)" if "m' ?i = Some v" "r_state v = AVAHI_SCHEDULED" for v
        using i old [of "answer r" v] that unfolding 2 by auto
    qed (simp_all add: 2 other kept)
  next
    case (3 m3)
    have "answer r \<notin> just_sent own now m"
    proof
      assume a: "answer r \<in> just_sent own now m"
      then obtain v where v: "m ?i = Some v" "r_state v = AVAHI_DONE" "(r_record v, r_flush v) = own (answer r)"
        by (auto simp: just_sent_def)
      then have "supersedes (r_record v) r" "r_flush v \<or> \<not> f" using own(1) by (simp_all add: supersedes_refl)
      with 3(3) kept [OF a] v(1,2) show False by auto
    qed
    moreover have "m3 ?i = m ?i \<or> m3 ?i = None" using 3(1) i by auto
    moreover have "m3 (Response a) = m (Response a)" if "a \<noteq> answer r" for a using 3(1) other [OF that] that by auto
    ultimately show ?thesis
    proof (intro fine, goal_cases)
      case (2 v)
      then show ?case using own(1) old [of "answer r"] unfolding 3(2) by (auto simp: schedule_spec_def split: option.splits)
    qed (simp_all add: 3(2) schedule_spec_def)
  qed
qed

section \<open>Adding a response to a packet\<close>

lemma jobs_kept_trans:
  assumes "jobs_kept R s t" "jobs_kept S t u"
  shows "jobs_kept (R \<union> S) s u"
  using assms unfolding jobs_kept_def by (metis (no_types, lifting) UnCI)

lemma post_aux_ok:
  fixes s :: "'o AvahiResponseScheduler"
  assumes "rs_ok s" "\<forall>rf \<in> set rfs. sendable (fst rf) \<and> \<not> avahi_key_is_pattern (rkey (fst rf))" "tv_norm now" "0 \<le> rnd \<and> rnd < 2 ^ 31"
  shows "\<exists>s'. post_aux_records now rnd j rfs s = Some s' \<and> rs_ok s' \<and> same_rest s s' \<and> jobs_kept (fst ` set rfs) s s' \<and>
    known_kept now (responses s) (responses s') \<and>
    (\<forall>aux own. (\<forall>rf \<in> set rfs. own (answer (fst rf)) = rf) \<and> owns aux own (responses s) \<longrightarrow>
       owns aux own (responses s') \<and> just_sent own now (responses s) \<subseteq> just_sent own now (responses s'))"
  using assms(1,2)
proof (induction rfs arbitrary: s)
  case Nil
  then show ?case by simp
next
  case (Cons rf rfs)
  let ?a = "if querier_valid (job s j) then Some (querier (job s j)) else None"
  have rf: "sendable (fst rf)" "\<not> avahi_key_is_pattern (rkey (fst rf))" using Cons.prems(2) by simp_all
  obtain t b s1 where s1: "avahi_response_scheduler_post now rnd (fst rf) (snd rf) ?a False s = Some (b, s1)" "rs_ok s1" "same_rest s s1"
    "jobs_kept {fst rf} s s1" "(b, responses s1) = post_spec now t (fst rf) (snd rf) (map_option originator ?a) (responses s)"
    using response_post_ok [OF Cons.prems(1) rf assms(3,4)] by blast
  obtain s' where s': "post_aux_records now rnd j rfs s1 = Some s'" "rs_ok s'" "same_rest s1 s'" "jobs_kept (fst ` set rfs) s1 s'"
    "known_kept now (responses s1) (responses s')"
    "\<forall>aux own. (\<forall>rf \<in> set rfs. own (answer (fst rf)) = rf) \<and> owns aux own (responses s1) \<longrightarrow>
       owns aux own (responses s') \<and> just_sent own now (responses s1) \<subseteq> just_sent own now (responses s')"
    using Cons.IH [OF s1(2)] Cons.prems(2) by auto
  have "owns aux own (responses s') \<and> just_sent own now (responses s) \<subseteq> just_sent own now (responses s')"
    if "\<forall>rf \<in> set (rf # rfs). own (answer (fst rf)) = rf" "owns aux own (responses s)" for aux own
  proof -
    have "own (answer (fst rf)) = (fst rf, snd rf)" using that(1) by simp
    from post_spec_owned [OF s1(5) this that(2)] s'(6) that(1) show ?thesis by auto
  qed
  moreover have "jobs_kept (fst ` set (rf # rfs)) s s'" using jobs_kept_trans [OF s1(4) s'(4)] by simp
  moreover have "post_aux_records now rnd j (rf # rfs) s = Some s'" using s1(1) s'(1) by simp
  moreover have "known_kept now (responses s) (responses s')"
    by (rule known_kept_trans [OF post_spec_known [OF s1(5)] s'(5)])
  ultimately show ?case using s'(2) response_rest_trans [OF s1(3) s'(3)] by blast
qed

lemma own_record:
  assumes "rs_ok s" "j \<in> set (jobs s)" "owns aux own (responses s)"
  shows "(job_record (job s j), job_flush (job s j)) = own (answer (job_record (job s j)))"
proof -
  have j: "j \<in> set (all_jobs s)" "job_state (job s j) = AVAHI_SCHEDULED" using assms(2) rs_okD(3) [OF assms(1)] by simp_all
  then have "responses s (Response (answer (job_record (job s j)))) = Some (view (job s j))"
    using responses_job [OF assms(1) j(1)] by simp
  moreover have "r_state (view (job s j)) = AVAHI_SCHEDULED" using j(2) by simp
  ultimately have "(r_record (view (job s j)), r_flush (view (job s j))) = own (answer (job_record (job s j)))"
    using assms(3) unfolding owns_def by blast
  then show ?thesis by simp
qed

text \<open>The records are those that the database has.\<close>

definition own_records :: "(AvahiRecord \<Rightarrow> (AvahiRecord \<times> bool) list) \<Rightarrow> (response_id \<Rightarrow> response option) \<Rightarrow>
    (AvahiRecord \<times> bool) list \<Rightarrow> bool" where
  "own_records aux m rs = (\<forall>own. owns aux own m \<longrightarrow> (\<forall>rf \<in> set rs. own (answer (fst rf)) = rf))"

lemma own_record_single:
  "rs_ok s \<Longrightarrow> j \<in> set (jobs s) \<Longrightarrow> own_records aux (responses s) [(job_record (job s j), job_flush (job s j))]"
  unfolding own_records_def by (simp add: own_record [symmetric])

lemma mark_done_owned:
  fixes s :: "'o AvahiResponseScheduler"
  assumes "rs_ok s" "j \<in> set (jobs s)" "a = answer (job_record (job s j))"
    and m': "m' = (responses s)(rid (job s j) \<mapsto> (view (job s j))\<lparr>r_state := AVAHI_DONE, r_time := now\<rparr>)"
  shows "owned_step aux now {a} (responses s) m'"
  unfolding owned_step_def
proof (intro conjI [OF _ allI [OF impI]])
  show "known_kept now (responses s) m'" using rs_okD(3) [OF assms(1,2)] m' by simp
  fix own assume own: "owns aux own (responses s)"
  have rid: "rid (job s j) = Response a" using rs_okD(3) [OF assms(1,2)] assms(3) by simp
  have v: "(job_record (job s j), job_flush (job s j)) = own a" using own_record [OF assms(1,2) own] assms(3) by simp
  have "owns aux own m'" using own unfolding owns_def m' rid by (auto split: if_splits)
  moreover have "just_sent own now (responses s) \<subseteq> just_sent own now m'"
    using v unfolding m' rid by (auto simp: just_sent_def)
  moreover have "a \<in> just_sent own now m'" using v unfolding m' rid by (simp add: just_sent_def)
  ultimately show "owns aux own m' \<and> just_sent own now (responses s) \<subseteq> just_sent own now m' \<and> {a} \<subseteq> just_sent own now m'" by simp
qed

lemma packet_add_response_job_ok:
  fixes s :: "'o AvahiResponseScheduler"
  assumes "rs_ok s" "j \<in> set (jobs s)" "aux_ok aux" "tv_norm now" "0 \<le> rnd \<and> rnd < 2 ^ 31" "holds p [] rs"
  obtains (added) p' s' where "packet_add_response_job aux now rnd p j s = Some (True, p', s')"
      "holds p' [] (rs @ [(job_record (job s j), job_flush (job s j))])" "extends p p'" "psize p < psize p'"
      "rs_ok s'" "same_rest s s'" "waiting s' \<subseteq> due_records aux (waiting s)"
      "answer ` waiting s \<subseteq> insert (answer (job_record (job s j))) (answer ` waiting s')"
      "owned_step aux now {answer (job_record (job s j))} (responses s) (responses s')"
  | (full) p' where "packet_add_response_job aux now rnd p j s = Some (False, p', s)" "holds p' [] rs" "extends p p'"
      "max_size p < psize p + record_space (job_record (job s j))"
proof -
  let ?r = "job_record (job s j)"
  have j: "j \<in> set (all_jobs s)" using assms(2) by simp
  have r: "sendable ?r" using rs_okD(6) [OF assms(1) j] rs_okD(3) [OF assms(1,2)] by (simp add: job_ok_def)
  show ?thesis
  proof (rule append_record_holds [OF assms(6) r, of "job_flush (job s j)"])
    fix p' assume p': "avahi_dns_packet_append_record ?r (job_flush (job s j)) 0 p = Some (None, p')" "holds p' [] rs" "extends p p'"
      "max_size p < psize p + record_space ?r"
    then show ?thesis using full [of p'] by (simp add: packet_add_response_job_def)
  next
    fix p' assume p': "avahi_dns_packet_append_record ?r (job_flush (job s j)) 0 p = Some (Some (psize p), p')"
      "holds p' [] (rs @ [(?r, job_flush (job s j))])" "extends p p'" "psize p < psize p'"
    have "\<forall>rf \<in> set (aux ?r). sendable (fst rf) \<and> \<not> avahi_key_is_pattern (rkey (fst rf))" using assms(3) by (simp add: aux_ok_def)
    from post_aux_ok [OF assms(1) this assms(4,5), of j] obtain s1 where
      s1: "post_aux_records now rnd j (aux ?r) s = Some s1" "rs_ok s1" "same_rest s s1" "jobs_kept (fst ` set (aux ?r)) s s1"
      and known: "known_kept now (responses s) (responses s1)"
      and own: "\<And>aux' own. \<forall>rf \<in> set (aux ?r). own (answer (fst rf)) = rf \<Longrightarrow> owns aux' own (responses s) \<Longrightarrow>
       owns aux' own (responses s1) \<and> just_sent own now (responses s) \<subseteq> just_sent own now (responses s1)" by blast
    have j1: "j \<in> set (jobs s1)" "rid (job s1 j) = rid (job s j)" using s1(4) assms(2) by (simp_all add: jobs_kept_def)
    then have ans: "answer (job_record (job s1 j)) = answer ?r"
      using rs_okD(3) [OF assms(1,2)] rs_okD(3) [OF s1(2) j1(1)] by simp
    obtain s2 where s2: "response_job_mark_done now rnd j s1 = Some s2" "rs_ok s2"
      "responses s2 = (responses s1)(rid (job s1 j) \<mapsto> (view (job s1 j))\<lparr>r_state := AVAHI_DONE, r_time := now\<rparr>)"
      "same_rest s1 s2" "jobs s2 = remove1 j (jobs s1)" "\<forall>i. i \<noteq> j \<longrightarrow> job s2 i = job s1 i"
      using response_job_mark_done_ok [OF s1(2) j1(1) assms(4)] by blast
    have "waiting s2 \<subseteq> waiting s1"
      using s2(5,6) rs_okD(1) [OF s1(2)] by (auto simp: waiting_def)
    also have "waiting s1 \<subseteq> due_records aux (waiting s)"
    proof
      fix r assume "r \<in> waiting s1"
      then obtain i where i: "i \<in> set (jobs s1)" "r = job_record (job s1 i)" by (auto simp: waiting_def)
      then consider "r \<in> fst ` set (aux ?r)" | "i \<in> set (jobs s)" "r = job_record (job s i)" using s1(4) by (auto simp: jobs_kept_def)
      then show "r \<in> due_records aux (waiting s)"
      proof cases
        case 1
        have "?r \<in> due_records aux (waiting s)" using assms(2) by (intro due_records.waits) (simp add: waiting_def)
        with 1 show ?thesis by (auto intro: due_records.auxiliary)
      next
        case 2
        then show ?thesis by (intro due_records.waits) (simp add: waiting_def)
      qed
    qed
    finally have w: "waiting s2 \<subseteq> due_records aux (waiting s)" .
    have left: "answer ` waiting s \<subseteq> insert (answer ?r) (answer ` waiting s2)"
    proof
      fix a assume "a \<in> answer ` waiting s"
      then obtain i where i: "i \<in> set (jobs s)" "a = answer (job_record (job s i))" by (auto simp: waiting_def)
      show "a \<in> insert (answer ?r) (answer ` waiting s2)"
      proof (cases "i = j")
        case False
        have i1: "i \<in> set (jobs s1)" "rid (job s1 i) = rid (job s i)" using s1(4) i(1) by (simp_all add: jobs_kept_def)
        then have "answer (job_record (job s1 i)) = a" using i(2) rs_okD(3) [OF assms(1) i(1)] rs_okD(3) [OF s1(2) i1(1)] by simp
        moreover have "i \<in> set (jobs s2)" "job s2 i = job s1 i" using i1(1) False s2(5,6) by simp_all
        ultimately show ?thesis by (force simp: waiting_def)
      qed (simp add: i(2))
    qed
    note sent1 = mark_done_owned [OF s1(2) j1(1) ans [symmetric] s2(3)]
    have "owned_step aux now {answer ?r} (responses s) (responses s2)"
      unfolding owned_step_def
    proof (intro conjI [OF _ allI [OF impI]])
      show "known_kept now (responses s) (responses s2)" by (rule known_kept_trans [OF known owned_step_known [OF sent1]])
      fix own assume o: "owns aux own (responses s)"
      then have "\<forall>rf \<in> set (aux ?r). own (answer (fst rf)) = rf" by (simp add: owns_def)
      from own [OF this o] sent1
      show "owns aux own (responses s2) \<and> just_sent own now (responses s) \<subseteq> just_sent own now (responses s2) \<and>
          {answer ?r} \<subseteq> just_sent own now (responses s2)"
        unfolding owned_step_def by blast
    qed
    moreover have "packet_add_response_job aux now rnd p j s = Some (True, p', s2)"
      using p'(1) s1(1) s2(1) by (simp add: packet_add_response_job_def)
    ultimately show ?thesis using added p'(2-4) s2(2) response_rest_trans [OF s1(3) s2(4)] w left by blast
  qed
qed

section \<open>Packets\<close>

text \<open>What has happened when the records \<open>rs\<close> were put into a packet.\<close>

definition responded :: "(AvahiRecord \<Rightarrow> (AvahiRecord \<times> bool) list) \<Rightarrow> timeval \<Rightarrow> (AvahiRecord \<times> bool) list \<Rightarrow>
    'o AvahiResponseScheduler \<Rightarrow> 'o AvahiResponseScheduler \<Rightarrow> bool" where
  "responded aux now rs s s' =
     (rs_ok s' \<and> same_rest s s' \<and> fst ` set rs \<subseteq> due_records aux (waiting s) \<and> waiting s' \<subseteq> due_records aux (waiting s) \<and>
      answer ` waiting s \<subseteq> answer ` (fst ` set rs) \<union> answer ` waiting s' \<and>
      owned_step aux now (answer ` (fst ` set rs)) (responses s) (responses s') \<and>
      own_records aux (responses s) rs)"

lemma responded_Nil: "rs_ok s \<Longrightarrow> responded aux now [] s s"
  using owned_step_refl by (auto simp: responded_def own_records_def intro: due_records.waits)

lemma responded_Cons:
  assumes "responded aux now [r] s t" "responded aux now rs t u"
  shows "responded aux now (r # rs) s u"
proof -
  have w: "waiting t \<subseteq> due_records aux (waiting s)" using assms(1) by (simp add: responded_def)
  have sub: "due_records aux (waiting t) \<subseteq> due_records aux (waiting s)"
    by (rule subsetI, rule due_records_trans [OF w])
  have "owned_step aux now (answer ` (fst ` set [r]) \<union> answer ` (fst ` set rs)) (responses s) (responses u)"
    using assms by (intro owned_step_trans [of _ _ _ _ "responses t"]) (simp_all add: responded_def)
  then have "owned_step aux now (answer ` (fst ` set (r # rs))) (responses s) (responses u)" by (simp add: image_Un)
  moreover have "answer ` waiting s \<subseteq> insert (answer (fst r)) (answer ` waiting t)"
    "answer ` waiting t \<subseteq> answer ` (fst ` set rs) \<union> answer ` waiting u"
    using assms by (simp_all add: responded_def)
  then have "answer ` waiting s \<subseteq> insert (answer (fst r)) (answer ` (fst ` set rs) \<union> answer ` waiting u)" by blast
  then have "answer ` waiting s \<subseteq> answer ` (fst ` set (r # rs)) \<union> answer ` waiting u" by simp
  moreover have "rs_ok u" "same_rest s u" using assms response_rest_trans [of s t u] by (simp_all add: responded_def)
  moreover have "fst ` set (r # rs) \<subseteq> due_records aux (waiting s)" "waiting u \<subseteq> due_records aux (waiting s)"
    using assms sub unfolding responded_def by auto
  moreover have "own_records aux (responses s) (r # rs)"
    using assms unfolding responded_def owned_step_def own_records_def by simp
  ultimately show ?thesis unfolding responded_def by blast
qed

lemma packet_add_responded:
  fixes s :: "'o AvahiResponseScheduler"
  assumes "rs_ok s" "j \<in> set (jobs s)" "aux_ok aux" "tv_norm now" "0 \<le> rnd \<and> rnd < 2 ^ 31" "holds p [] rs"
  obtains (added) p' s' where "packet_add_response_job aux now rnd p j s = Some (True, p', s')"
      "holds p' [] (rs @ [(job_record (job s j), job_flush (job s j))])" "extends p p'" "psize p < psize p'"
      "responded aux now [(job_record (job s j), job_flush (job s j))] s s'"
  | (full) p' where "packet_add_response_job aux now rnd p j s = Some (False, p', s)" "holds p' [] rs" "extends p p'"
      "max_size p < psize p + record_space (job_record (job s j))"
proof (rule packet_add_response_job_ok [OF assms])
  fix p' s' assume p': "packet_add_response_job aux now rnd p j s = Some (True, p', s')"
      "holds p' [] (rs @ [(job_record (job s j), job_flush (job s j))])" "extends p p'" "psize p < psize p'"
    and s': "rs_ok s'" "same_rest s s'" "waiting s' \<subseteq> due_records aux (waiting s)"
      "answer ` waiting s \<subseteq> insert (answer (job_record (job s j))) (answer ` waiting s')"
      "owned_step aux now {answer (job_record (job s j))} (responses s) (responses s')"
  have "job_record (job s j) \<in> due_records aux (waiting s)" using assms(2) by (intro due_records.waits) (simp add: waiting_def)
  moreover note own_record_single [OF assms(1,2)]
  ultimately have "responded aux now [(job_record (job s j), job_flush (job s j))] s s'"
    using s' unfolding responded_def by simp
  with p' show ?thesis by (rule added)
qed (rule full)

lemma fill_response_packet_ok:
  fixes s :: "'o AvahiResponseScheduler"
  assumes "rs_ok s" "aux_ok aux" "tv_norm now" "0 \<le> rnd \<and> rnd < 2 ^ 31" "holds p [] rs"
  shows "\<exists>new p' s'. fill_response_packet aux now rnd p n s = Some (n + length new, p', s') \<and>
    holds p' [] (rs @ new) \<and> extends p p' \<and> responded aux now new s s' \<and>
    (jobs s' \<noteq> [] \<longrightarrow> max_size p < psize p' + record_space (job_record (job s' (hd (jobs s')))))"
  using assms(1,5)
proof (induction "max_size p - psize p" arbitrary: p rs n s rule: less_induct)
  case less
  show ?case
  proof (cases "jobs s")
    case Nil
    with less.prems responded_Nil [OF less.prems(1)] show ?thesis
      by (intro exI [of _ "[]"] exI [of _ p] exI [of _ s]) (subst fill_response_packet.simps, simp)
  next
    case (Cons j js)
    then have j: "j \<in> set (jobs s)" by simp
    show ?thesis
    proof (rule packet_add_responded [OF less.prems(1) j assms(2-4) less.prems(2)])
      fix p' assume p': "packet_add_response_job aux now rnd p j s = Some (False, p', s)" "holds p' [] rs" "extends p p'"
        "max_size p < psize p + record_space (job_record (job s j))"
      have "psize p \<le> psize p'" by (rule extendsD [OF p'(3)])
      with p' Cons responded_Nil [OF less.prems(1)] show ?thesis
        by (intro exI [of _ "[]"] exI [of _ p'] exI [of _ s]) (subst fill_response_packet.simps, simp)
    next
      fix p1 s1 assume p1: "packet_add_response_job aux now rnd p j s = Some (True, p1, s1)"
        "holds p1 [] (rs @ [(job_record (job s j), job_flush (job s j))])" "extends p p1" "psize p < psize p1"
        "responded aux now [(job_record (job s j), job_flush (job s j))] s s1"
      have sz: "max_size p1 = max_size p" by (rule extendsD(2) [OF p1(3)])
      have "psize p1 \<le> max_size p1" using holds_ok(1) [OF p1(2)] by (simp add: packet_ok_def)
      with sz p1(4) have "max_size p1 - psize p1 < max_size p - psize p" by simp
      moreover have "rs_ok s1" using p1(5) by (simp add: responded_def)
      ultimately obtain new p' s' where r: "fill_response_packet aux now rnd p1 (n + 1) s1 = Some (n + 1 + length new, p', s')"
        "holds p' [] ((rs @ [(job_record (job s j), job_flush (job s j))]) @ new)" "extends p1 p'" "responded aux now new s1 s'"
        "jobs s' \<noteq> [] \<longrightarrow> max_size p1 < psize p' + record_space (job_record (job s' (hd (jobs s'))))"
        using less.hyps [of p1 s1 _ "n + 1"] p1(2) by blast
      have "fill_response_packet aux now rnd p n s = Some (n + length ((job_record (job s j), job_flush (job s j)) # new), p', s')"
        using p1(1) r(1) Cons by (subst fill_response_packet.simps) simp
      moreover have "holds p' [] (rs @ (job_record (job s j), job_flush (job s j)) # new)" using r(2) by simp
      ultimately show ?thesis using extends_trans [OF p1(3) r(3)] responded_Cons [OF p1(5) r(4)] r(5) sz by metis
    qed
  qed
qed

text \<open>A response with these records and cache flush bits, as a receiver finds them.\<close>

definition response_packet :: "AvahiDnsPacket \<Rightarrow> (AvahiRecord \<times> bool) list \<Rightarrow> bool" where
  "response_packet p rs =
     (packet_content p = Some ([], rs) \<and>
      avahi_dns_packet_get_field p AVAHI_DNS_FIELD_FLAGS = Some (AVAHI_DNS_FLAG_QR OR AVAHI_DNS_FLAG_AA))"

lemma response_finished:
  assumes "holds p [] rs" "extends p0 p" "holds p0 [] []" "length rs < 2 ^ 16"
    and "avahi_dns_packet_get_field p0 AVAHI_DNS_FIELD_FLAGS = Some (AVAHI_DNS_FLAG_QR OR AVAHI_DNS_FLAG_AA)"
    and "avahi_dns_packet_get_field p0 AVAHI_DNS_FIELD_QDCOUNT = Some 0"
  obtains p' where "avahi_dns_packet_set_field p AVAHI_DNS_FIELD_ANCOUNT (of_nat (length rs)) = Some p'"
    "response_packet p' rs" "psize p' = psize p"
proof -
  obtain p' where p': "avahi_dns_packet_set_field p AVAHI_DNS_FIELD_ANCOUNT (of_nat (length rs)) = Some p'"
    "holds p' [] rs" "psize p' = psize p" "max_size p' = max_size p"
    "\<And>j. j < 6 \<Longrightarrow> avahi_dns_packet_get_field p' j = (if j = AVAHI_DNS_FIELD_ANCOUNT then Some (of_nat (length rs)) else avahi_dns_packet_get_field p j)"
    by (rule holds_set_field [OF assms(1), of 3 "of_nat (length rs)"]) (simp, rule that)
  have f: "avahi_dns_packet_get_field p' 1 = Some (AVAHI_DNS_FLAG_QR OR AVAHI_DNS_FLAG_AA)" "avahi_dns_packet_get_field p' 2 = Some 0"
    using p'(5) [of 1] p'(5) [of 2] holds_fields [OF assms(3,2), of 1] holds_fields [OF assms(3,2), of 2] assms(5,6) by simp_all
  have "packet_content p' = Some ([], rs)"
    by (rule packet_content_counts [OF p'(2)]) (use assms(4) f(2) p'(5) in simp_all)
  with f(1) that [OF p'(1) _ p'(3)] show ?thesis by (simp add: response_packet_def)
qed

text \<open>What sending leaves: everything of \<open>responded\<close> but for the log.\<close>

definition responded_to :: "(AvahiRecord \<Rightarrow> (AvahiRecord \<times> bool) list) \<Rightarrow> timeval \<Rightarrow> (AvahiRecord \<times> bool) list \<Rightarrow>
    'o AvahiResponseScheduler \<Rightarrow> 'o AvahiResponseScheduler \<Rightarrow> bool" where
  "responded_to aux now rs s s' =
     (rs_ok s' \<and> mtu s' = mtu s \<and> fst ` set rs \<subseteq> due_records aux (waiting s) \<and> waiting s' \<subseteq> due_records aux (waiting s) \<and>
      answer ` waiting s \<subseteq> answer ` (fst ` set rs) \<union> answer ` waiting s' \<and>
      owned_step aux now (answer ` (fst ` set rs)) (responses s) (responses s') \<and>
      own_records aux (responses s) rs)"

lemma sent_ok [simp]:
  "rs_ok (s\<lparr>sent := l\<rparr>) = rs_ok s" "responses (s\<lparr>sent := l\<rparr>) = responses s" "waiting (s\<lparr>sent := l\<rparr>) = waiting s"
  by (simp_all add: rs_ok_def responses_def waiting_def)

lemma responded_to_sent: "responded aux now rs s s' \<Longrightarrow> responded_to aux now rs s (s'\<lparr>sent := l\<rparr>) \<and> responded_to aux now rs s s' \<and> sent s' = sent s"
  by (simp add: responded_def responded_to_def same_rest_def)

text \<open>
  Sending: a packet that begins with the record that is due, and has others as long as there is space; or a packet with
  this record alone, that is as large as the record needs; or, when the estimate of the size falls short, none.
\<close>

lemma send_response_packet_ok:
  fixes s :: "'o AvahiResponseScheduler"
  assumes "rs_ok s" "j \<in> set (jobs s)" "aux_ok aux" "tv_norm now" "0 \<le> rnd \<and> rnd < 2 ^ 31" "packet_limit (mtu s) < 2 ^ 16"
  shows "\<exists>s'. send_response_packet aux junk now rnd j s = Some s' \<and>
    ((\<exists>p rs. responded_to aux now ((job_record (job s j), job_flush (job s j)) # rs) s s' \<and> sent s' = p # sent s \<and>
        response_packet p ((job_record (job s j), job_flush (job s j)) # rs) \<and>
        (psize p \<le> packet_limit (mtu s) \<and>
         (jobs s' \<noteq> [] \<longrightarrow> packet_limit (mtu s) < psize p + record_space (job_record (job s' (hd (jobs s'))))) \<or>
         rs = [] \<and> packet_limit (mtu s) < 12 + record_space (job_record (job s j)))) \<or>
     responded_to aux now [(job_record (job s j), job_flush (job s j))] s s' \<and> sent s' = sent s \<and>
       packet_limit (mtu s) < 12 + record_space (job_record (job s j)) \<and>
       the (avahi_record_get_estimate_size (job_record (job s j))) < record_space (job_record (job s j)))"
proof -
  let ?r = "job_record (job s j)"
  let ?rf = "(?r, job_flush (job s j))"
  have j: "j \<in> set (all_jobs s)" "job_state (job s j) = AVAHI_SCHEDULED" using assms(2) rs_okD(3) [OF assms(1)] by simp_all
  have r: "sendable ?r" using rs_okD(6) [OF assms(1) j(1)] j(2) by (simp add: job_ok_def)
  obtain p0 where p0: "avahi_dns_packet_new_response junk (mtu s) True = Some p0" "holds p0 [] []" "psize p0 = 12"
    "max_size p0 = packet_limit (mtu s)"
    "avahi_dns_packet_get_field p0 AVAHI_DNS_FIELD_FLAGS = Some (AVAHI_DNS_FLAG_QR OR AVAHI_DNS_FLAG_AA)"
    "avahi_dns_packet_get_field p0 AVAHI_DNS_FIELD_QDCOUNT = Some 0"
    by (rule new_response_ok [of junk "mtu s"]) (rule that)
  show ?thesis
  proof (rule packet_add_responded [OF assms(1-5) p0(2)])
    fix p1 s1 assume p1: "packet_add_response_job aux now rnd p0 j s = Some (True, p1, s1)" "holds p1 [] ([] @ [?rf])" "extends p0 p1"
      "responded aux now [?rf] s s1"
    have "rs_ok s1" using p1(4) by (simp add: responded_def)
    from fill_response_packet_ok [OF this assms(3-5) p1(2), of 1] obtain new p2 s2 where
      f: "fill_response_packet aux now rnd p1 1 s1 = Some (1 + length new, p2, s2)" "holds p2 [] (([] @ [?rf]) @ new)" "extends p1 p2"
        "responded aux now new s1 s2"
        "jobs s2 \<noteq> [] \<longrightarrow> max_size p1 < psize p2 + record_space (job_record (job s2 (hd (jobs s2))))" by blast
    have ext: "extends p0 p2" by (rule extends_trans [OF p1(3) f(3)])
    have sz: "psize p2 \<le> packet_limit (mtu s)" "12 + length (?rf # new) \<le> psize p2"
      using holds_ok [OF f(2)] extendsD(2) [OF ext] p0(4) by (simp_all add: packet_ok_def)
    have "length (?rf # new) < 2 ^ 16" using sz assms(6) by linarith
    from response_finished [OF _ ext p0(2) this p0(5,6)] f(2) obtain p3 where
      p3: "avahi_dns_packet_set_field p2 AVAHI_DNS_FIELD_ANCOUNT (of_nat (length (?rf # new))) = Some p3"
        "response_packet p3 (?rf # new)" "psize p3 = psize p2" by auto
    note to = responded_to_sent [OF responded_Cons [OF p1(4) f(4)]]
    let ?s = "s2\<lparr>sent := p3 # sent s2\<rparr>"
    have "send_response_packet aux junk now rnd j s = Some ?s"
      using p0(1) p1(1) f(1) p3(1) by (simp add: send_response_packet_def)
    moreover have "sent ?s = p3 # sent s" "responded_to aux now (?rf # new) s ?s" using to by simp_all
    moreover have "jobs ?s \<noteq> [] \<longrightarrow> packet_limit (mtu s) < psize p3 + record_space (job_record (job ?s (hd (jobs ?s))))"
      using f(5) p3(3) extendsD(2) [OF p1(3)] p0(4) by simp
    ultimately show ?thesis using p3(2,3) sz(1) by metis
  next
    fix p1 assume p1: "packet_add_response_job aux now rnd p0 j s = Some (False, p1, s)"
      "max_size p0 < psize p0 + record_space ?r"
    obtain ls where ls: "normal_name (key_name (rkey ?r)) ls" "record_ok ?r" "rdata_wire_ok ?r" using r by (auto simp: sendable_def)
    obtain n where n: "avahi_record_get_estimate_size ?r = Some n" using estimate_size_ok [OF ls] by blast
    obtain q0 where q0: "avahi_dns_packet_new_response junk (n + 12 + 48) True = Some q0" "holds q0 [] []" "psize q0 = 12"
      "max_size q0 = packet_limit (n + 12 + 48)"
      "avahi_dns_packet_get_field q0 AVAHI_DNS_FIELD_FLAGS = Some (AVAHI_DNS_FLAG_QR OR AVAHI_DNS_FLAG_AA)"
      "avahi_dns_packet_get_field q0 AVAHI_DNS_FIELD_QDCOUNT = Some 0"
      by (rule new_response_ok [of junk "n + 12 + 48"]) (rule that)
    have large: "packet_limit (mtu s) < 12 + record_space ?r" using p1(2) p0(3,4) by simp
    show ?thesis
    proof (rule packet_add_responded [OF assms(1-5) q0(2)])
      fix q1 s1 assume q1: "packet_add_response_job aux now rnd q0 j s = Some (True, q1, s1)" "holds q1 [] ([] @ [?rf])" "extends q0 q1"
        "responded aux now [?rf] s s1"
      obtain q2 where q2: "avahi_dns_packet_set_field q1 AVAHI_DNS_FIELD_ANCOUNT (of_nat (length ([] @ [?rf]))) = Some q2"
        "response_packet q2 ([] @ [?rf])"
        by (rule response_finished [OF q1(2,3) q0(2) _ q0(5,6)]) (simp, rule that)
      let ?s = "s1\<lparr>sent := q2 # sent s1\<rparr>"
      have "send_response_packet aux junk now rnd j s = Some ?s"
        using p0(1) p1(1) n q0(1) q1(1) q2(1) by (simp add: send_response_packet_def add.assoc)
      moreover have "responded_to aux now [?rf] s ?s" "sent ?s = q2 # sent s"
        using responded_to_sent [OF q1(4)] by simp_all
      ultimately show ?thesis using q2(2) [unfolded append_Nil] large by blast
    next
      fix q1 assume q1: "packet_add_response_job aux now rnd q0 j s = Some (False, q1, s)"
        "max_size q0 < psize q0 + record_space ?r"
      have short: "n < record_space ?r" using q1(2) q0(3,4) by (simp add: packet_limit)
      obtain s' where s': "response_job_mark_done now rnd j s = Some s'" "rs_ok s'"
        "responses s' = (responses s)(rid (job s j) \<mapsto> (view (job s j))\<lparr>r_state := AVAHI_DONE, r_time := now\<rparr>)"
        "same_rest s s'" "jobs s' = remove1 j (jobs s)" "\<forall>i. i \<noteq> j \<longrightarrow> job s' i = job s i"
        using response_job_mark_done_ok [OF assms(1,2,4)] by blast
      have "send_response_packet aux junk now rnd j s = Some s'"
        using p0(1) p1(1) n q0(1) q1(1) s'(1) by (simp add: send_response_packet_def add.assoc)
      moreover have "responded aux now [?rf] s s'"
      proof -
        have d: "distinct (jobs s)" using rs_okD(1) [OF assms(1)] by simp
        have w: "?r \<in> due_records aux (waiting s)" "waiting s' \<subseteq> waiting s" "waiting s \<subseteq> insert ?r (waiting s')"
          using assms(2) s'(5,6) d by (auto simp: waiting_def intro!: due_records.waits)
        have "waiting s' \<subseteq> due_records aux (waiting s)" using w(2) by (blast intro: due_records.waits)
        moreover have "answer ` waiting s \<subseteq> insert (answer ?r) (answer ` waiting s')" using w(3) by blast
        moreover note own_record_single [OF assms(1,2)]
        ultimately show ?thesis
          using s'(2,4) w(1) mark_done_owned [OF assms(1,2) refl s'(3)] unfolding responded_def by simp
      qed
      ultimately show ?thesis using responded_to_sent large short n by (intro exI [of _ s']) (simp, blast)
    qed
  qed
qed

section \<open>Sending all\<close>

text \<open>A record is in one of the packets; or it is one that no packet of \<open>send_response_packet\<close> is large enough for.\<close>

definition went_out :: "AvahiDnsPacket list \<Rightarrow> AvahiRecord \<times> bool \<Rightarrow> bool" where
  "went_out ps rf = (\<exists>p \<in> set ps. \<exists>rs. response_packet p rs \<and> rf \<in> set rs)"

definition never_fits :: "nat \<Rightarrow> AvahiRecord \<Rightarrow> bool" where
  "never_fits m r = (packet_limit m < 12 + record_space r \<and> the (avahi_record_get_estimate_size r) < record_space r)"

lemma went_out_append: "went_out qs rf \<or> went_out ps rf \<Longrightarrow> went_out (qs @ ps) rf"
  by (auto simp: went_out_def)

text \<open>One step: what does not wait any more went out, or is dropped.\<close>

lemma send_response_packet_sent:
  fixes s :: "'o AvahiResponseScheduler"
  assumes "rs_ok s" "j \<in> set (jobs s)" "aux_ok aux" "tv_norm now" "0 \<le> rnd \<and> rnd < 2 ^ 31" "packet_limit (mtu s) < 2 ^ 16"
    and own: "owns aux own (responses s)"
  obtains ps rs s' where "send_response_packet aux junk now rnd j s = Some s'" "sent s' = ps @ sent s"
    "responded_to aux now ((job_record (job s j), job_flush (job s j)) # rs) s s'"
    "\<forall>a \<in> answer ` (fst ` set ((job_record (job s j), job_flush (job s j)) # rs)).
       went_out ps (own a) \<or> never_fits (mtu s) (fst (own a))"
proof -
  let ?rf = "(job_record (job s j), job_flush (job s j))"
  have own_rs: "own (answer (fst rf)) = rf" if "responded_to aux now rs s s'" "rf \<in> set rs" for rs s' rf
    using that own unfolding responded_to_def own_records_def by blast
  obtain s' where s': "send_response_packet aux junk now rnd j s = Some s'"
    "(\<exists>p rs. responded_to aux now (?rf # rs) s s' \<and> sent s' = p # sent s \<and> response_packet p (?rf # rs)) \<or>
     responded_to aux now [?rf] s s' \<and> sent s' = sent s \<and> never_fits (mtu s) (job_record (job s j))"
    using send_response_packet_ok [OF assms(1-6), of junk] unfolding never_fits_def by blast
  from s'(2) show ?thesis
  proof (elim disjE exE conjE)
    fix p rs assume p: "responded_to aux now (?rf # rs) s s'" "sent s' = p # sent s" "response_packet p (?rf # rs)"
    have "went_out [p] (own a)" if "a \<in> answer ` (fst ` set (?rf # rs))" for a
    proof -
      from that obtain rf where rf: "rf \<in> set (?rf # rs)" "a = answer (fst rf)" by blast
      then have "own a = rf" using own_rs [OF p(1)] by simp
      with rf(1) p(3) show ?thesis by (auto simp: went_out_def)
    qed
    with that [OF s'(1) _ p(1), of "[p]"] p(2) show ?thesis by simp
  next
    assume r: "responded_to aux now [?rf] s s'" "sent s' = sent s" "never_fits (mtu s) (job_record (job s j))"
    have "own (answer (fst ?rf)) = ?rf" by (rule own_rs [OF r(1)]) simp
    with that [OF s'(1) _ r(1), of "[]"] r(2,3) show ?thesis by simp
  qed
qed

lemma force_ok:
  fixes s :: "'o AvahiResponseScheduler"
  assumes "aux_ok aux" "tv_norm now" "0 \<le> rnd \<and> rnd < 2 ^ 31" "packet_limit m < 2 ^ 16" "finite (answer ` D)"
    and "\<And>r rf. r \<in> D \<Longrightarrow> rf \<in> set (aux r) \<Longrightarrow> fst rf \<in> D"
    and "rs_ok s" "mtu s = m" "owns aux own (responses s)" "waiting s \<subseteq> D"
  shows "\<exists>ps s'. avahi_response_scheduler_force aux junk now rnd s = Some s' \<and> rs_ok s' \<and> jobs s' = [] \<and> sent s' = ps @ sent s \<and>
    answer ` waiting s \<subseteq> just_sent own now (responses s') \<and> just_sent own now (responses s) \<subseteq> just_sent own now (responses s') \<and>
    (\<forall>a \<in> answer ` waiting s. went_out ps (own a) \<or> never_fits m (fst (own a)))"
  using assms(7-10)
proof (induction "card (answer ` D - just_sent own now (responses s))" arbitrary: s rule: less_induct)
  case less
  show ?case
  proof (cases "jobs s")
    case Nil
    with less.prems(1) show ?thesis
      by (intro exI [of _ "[]"] exI [of _ s], subst avahi_response_scheduler_force.simps) (simp add: waiting_def)
  next
    case (Cons j js)
    then have j: "j \<in> set (jobs s)" by simp
    let ?r = "job_record (job s j)"
    let ?rf = "(?r, job_flush (job s j))"
    have "packet_limit (mtu s) < 2 ^ 16" using assms(4) less.prems(2) by simp
    from send_response_packet_sent [OF less.prems(1) j assms(1-3) this less.prems(3), of junk] less.prems(2)
    obtain rs ps1 s1 where s1: "send_response_packet aux junk now rnd j s = Some s1" "sent s1 = ps1 @ sent s"
      "responded_to aux now (?rf # rs) s s1"
      "\<forall>a \<in> answer ` (fst ` set (?rf # rs)). went_out ps1 (own a) \<or> never_fits m (fst (own a))" by metis
    have D: "due_records aux (waiting s) \<subseteq> D"
    proof
      fix r assume "r \<in> due_records aux (waiting s)"
      then show "r \<in> D" by induction (use less.prems(4) assms(6) in auto)
    qed
    have s1': "rs_ok s1" "mtu s1 = m" "waiting s1 \<subseteq> D"
      "answer ` waiting s \<subseteq> answer ` (fst ` set (?rf # rs)) \<union> answer ` waiting s1"
      "owned_step aux now (answer ` (fst ` set (?rf # rs))) (responses s) (responses s1)"
      using s1(3) D less.prems(2) unfolding responded_to_def by blast+
    from s1'(5) less.prems(3) have own: "owns aux own (responses s1)" "just_sent own now (responses s) \<subseteq> just_sent own now (responses s1)"
      "answer ` (fst ` set (?rf # rs)) \<subseteq> just_sent own now (responses s1)" unfolding owned_step_def by blast+
    have r: "answer ?r \<in> answer ` D" using less.prems(4) j by (force simp: waiting_def)
    have "answer ?r \<notin> just_sent own now (responses s)"
    proof -
      have "job_state (job s j) = AVAHI_SCHEDULED" using rs_okD(3) [OF less.prems(1) j] .
      moreover from this responses_job [OF less.prems(1), of j] j
      have "responses s (Response (answer ?r)) = Some (view (job s j))" by simp
      ultimately show ?thesis by (simp add: just_sent_def)
    qed
    moreover have "answer ?r \<in> just_sent own now (responses s1)" using own(3) by simp
    ultimately have "card (answer ` D - just_sent own now (responses s1)) < card (answer ` D - just_sent own now (responses s))"
      using own(2) r assms(5) by (intro psubset_card_mono) auto
    from less.hyps [OF this s1'(1,2) own(1) s1'(3)] obtain ps s' where
      s': "avahi_response_scheduler_force aux junk now rnd s1 = Some s'" "rs_ok s'" "jobs s' = []" "sent s' = ps @ sent s1"
        "answer ` waiting s1 \<subseteq> just_sent own now (responses s')" "just_sent own now (responses s1) \<subseteq> just_sent own now (responses s')"
        "\<forall>a \<in> answer ` waiting s1. went_out ps (own a) \<or> never_fits m (fst (own a))"
      by blast
    have "avahi_response_scheduler_force aux junk now rnd s = Some s'"
      using Cons s1(1) s'(1) by (subst avahi_response_scheduler_force.simps) simp
    moreover have "answer ` waiting s \<subseteq> just_sent own now (responses s')" using s1'(4) own(3) s'(5,6) by blast
    moreover have "went_out (ps @ ps1) (own a) \<or> never_fits m (fst (own a))" if "a \<in> answer ` waiting s" for a
      using s1'(4) s1(4) s'(7) that went_out_append by blast
    moreover have "sent s' = (ps @ ps1) @ sent s" using s'(4) s1(2) by simp
    ultimately show ?thesis using s'(2,3,6) own(2) by blast
  qed
qed

text \<open>If it returns, whatever the database has, then it has kept the scheduler in order.\<close>

lemma force_partial:
  fixes s :: "'o AvahiResponseScheduler"
  assumes "avahi_response_scheduler_force aux junk now rnd s = Some s'"
    and "rs_ok s" "aux_ok aux" "tv_norm now" "0 \<le> rnd \<and> rnd < 2 ^ 31" "packet_limit (mtu s) < 2 ^ 16"
  shows "rs_ok s' \<and> mtu s' = mtu s \<and> jobs s' = [] \<and> known_kept now (responses s) (responses s')"
  using assms
proof (induction rule: avahi_response_scheduler_force.raw_induct [rotated, consumes 1, case_names run])
  case (run f aux junk now rnd s s')
  show ?case
  proof (cases "jobs s")
    case Nil
    with run show ?thesis by simp
  next
    case (Cons j js)
    then have "j \<in> set (jobs s)" by simp
    from send_response_packet_ok [OF run.prems(1) this run.prems(2-5)] obtain rs s1 where
      s1: "send_response_packet aux junk now rnd j s = Some s1" "responded_to aux now rs s s1" by blast
    then have s1': "rs_ok s1" "mtu s1 = mtu s" "known_kept now (responses s) (responses s1)"
      by (auto simp: responded_to_def owned_step_known)
    have "f aux junk now rnd s1 = Some s'" using run.hyps Cons s1(1) by simp
    with run.IH [OF this s1'(1) run.prems(2-4)] s1'(2,3) run.prems(5) known_kept_trans show ?thesis by auto
  qed
qed

end
