(* ===== verification/Response_Properties.thy ===== *)
theory Response_Properties
  imports Response_Send Cache_Properties
begin

text \<open>
  The properties of the response scheduler: the states it can reach, posting and suppressing responses, and what is sent.
\<close>

section \<open>The event loop\<close>

lemma rs_ok_queue:
  assumes "rs_ok s" "teq_ok q" "elapse_events q = elapse_events (queue s)"
  shows "rs_ok (s\<lparr>queue := q\<rparr>)"
proof -
  note ok = rs_okD [OF assms(1)]
  show "rs_ok (s\<lparr>queue := q\<rparr>)"
    using ok(1-7) timers_other_ok [OF ok(8) assms(2,3)] by (simp add: rs_ok_def)
qed

lemma rs_ok_timeout: "rs_ok s \<Longrightarrow> rs_ok (s\<lparr>queue := update_timeout (queue s)\<rparr>)"
  using update_timeout_ok [OF teq_pq [OF timers_ok_teq [OF rs_okD(8)]]] by (intro rs_ok_queue) simp_all

text \<open>The known answers of the last 700 ms are left alone; at 700 ms sharp their events are due.\<close>

definition known_held :: "timeval \<Rightarrow> (response_id \<Rightarrow> response option) \<Rightarrow> (response_id \<Rightarrow> response option) \<Rightarrow> bool" where
  "known_held now m m' =
     (\<forall>a b v. m (Known a b) = Some v \<and> usecs now < usecs (r_time v) + 700000 \<longrightarrow> m' (Known a b) = Some v)"

lemma known_held_refl [simp]: "known_held now m m"
  by (simp add: known_held_def)

lemma known_kept_held: "known_kept now m m' \<Longrightarrow> known_held now m m'"
  by (simp add: known_kept_def known_held_def avahi_age_def avahi_timeval_diff_usecs)

lemma known_due:
  assumes "rs_ok s" "j \<in> set (all_jobs s)" "tv_norm now" "0 \<le> avahi_timeval_compare now (rdue (job s j))"
  shows "known_held now (responses s) ((responses s)(rid (job s j) := None))"
  unfolding known_held_def
proof (intro allI impI)
  fix a b v assume v: "responses s (Known a b) = Some v \<and> usecs now < usecs (r_time v) + 700000"
  have "rid (job s j) \<noteq> Known a b"
  proof
    assume r: "rid (job s j) = Known a b"
    then have v': "v = view (job s j)" using responses_job [OF assms(1,2)] v by simp
    have st: "job_state (job s j) = AVAHI_SUPPRESSED" using r by (simp add: rid_def split: if_splits)
    have norm: "tv_norm (delivery (job s j))" using rs_okD(6) [OF assms(1,2)] by (simp add: job_ok_def)
    then have "tv_norm (avahi_timeval_add (delivery (job s j)) 700000)"
      unfolding avahi_timeval_add_norm by (simp add: tv_norm_def)
    then have "usecs (delivery (job s j)) + 700000 \<le> usecs now"
      using assms(4) st avahi_timeval_compare_norm [OF assms(3)] by (simp add: rdue_def usecs_add split: if_splits)
    with v v' show False by simp
  qed
  with v show "((responses s)(rid (job s j) := None)) (Known a b) = Some v" by simp
qed

lemma response_elapse_ok:
  fixes s :: "'o AvahiResponseScheduler"
  assumes "rs_ok s" "j \<in> set (all_jobs s)" "aux_ok aux" "tv_norm now" "0 \<le> rnd \<and> rnd < 2 ^ 31" "packet_limit (mtu s) < 2 ^ 16"
  shows "\<exists>s'. response_elapse_callback aux junk now rnd j s = Some s' \<and> rs_ok s' \<and> mtu s' = mtu s \<and>
    (0 \<le> avahi_timeval_compare now (rdue (job s j)) \<longrightarrow> known_held now (responses s) (responses s'))"
proof (cases "j \<in> set (jobs s)")
  case True
  then have st: "job_state (job s j) = AVAHI_SCHEDULED" using rs_okD(3) [OF assms(1)] by simp
  obtain rs s' where s': "send_response_packet aux junk now rnd j s = Some s'" "responded_to aux now rs s s'"
    using send_response_packet_ok [OF assms(1) True assms(3-6), of junk] by blast
  with st known_kept_held [OF owned_step_known] show ?thesis by (auto simp: response_elapse_callback_def responded_to_def)
next
  case False
  then have st: "job_state (job s j) = AVAHI_DONE \<or> job_state (job s j) = AVAHI_SUPPRESSED"
    using job_lists(1) [OF assms(1,2)] by (cases "job_state (job s j)") simp_all
  obtain s' where "response_job_free j s = Some s'" "rs_ok s'" "responses s' = (responses s)(rid (job s j) := None)" "same_rest s s'"
    using response_job_free_ok [OF assms(1,2)] by blast
  with st known_due [OF assms(1,2,4)] show ?thesis by (auto simp: response_elapse_callback_def same_rest_def)
qed

lemma responses_queue [simp]: "responses (s\<lparr>queue := q\<rparr>) = responses s"
  by (simp add: responses_def)

lemma response_expiration_ok:
  fixes s :: "'o AvahiResponseScheduler"
  assumes "rs_ok s" "aux_ok aux" "tv_norm now" "0 \<le> rnd \<and> rnd < 2 ^ 31" "packet_limit (mtu s) < 2 ^ 16"
    and "\<forall>x ev. harmless (\<lambda>q. map_option (Pair ()) (other x ev q))"
  shows "\<exists>s'. response_expiration other aux junk now rnd s = Some s' \<and> rs_ok s' \<and> mtu s' = mtu s \<and>
    known_held now (responses s) (responses s')"
proof (cases rule: expiration_start_ok [OF timers_ok_teq [OF rs_okD(8) [OF assms(1)]], of now, case_names idle due])
  case idle
  with rs_ok_timeout [OF assms(1)] show ?thesis by (simp add: response_expiration_def)
next
  case (due ev q)
  have s1: "rs_ok (s\<lparr>queue := q\<rparr>)" by (rule rs_ok_queue [OF assms(1) due(2,4)])
  show ?thesis
  proof (cases "callback (event q ev)")
    case (Elapse j)
    note owner = timers_owner [OF rs_okD(8) [OF assms(1)], of ev j]
    have j: "j \<in> set (all_jobs (s\<lparr>queue := q\<rparr>))" using owner(1) due(3,5,7) Elapse by simp
    have "0 \<le> avahi_timeval_compare now (rdue (job (s\<lparr>queue := q\<rparr>) j))" using owner(3) due(3,5-7) Elapse by simp
    with response_elapse_ok [OF s1 j assms(2-4), of junk] assms(5) Elapse due(1) rs_ok_timeout show ?thesis
      by (auto simp: response_expiration_def)
  next
    case (Other x)
    from assms(6) [rule_format, of x ev] due(2) obtain q2 where
      q2: "other x ev q = Some q2" "teq_ok q2" "elapse_events q2 = elapse_events q" by (auto simp: harmless_def)
    have "rs_ok ((s\<lparr>queue := q\<rparr>)\<lparr>queue := q2\<rparr>)" by (rule rs_ok_queue [OF s1 q2(2)]) (simp add: q2(3))
    from rs_ok_timeout [OF this] Other due(1) q2(1) show ?thesis by (simp add: response_expiration_def)
  qed
qed

section \<open>Reachable states\<close>

text \<open>
  What may happen to a response scheduler: records are posted, responses and known answers of others arrive, the event
  loop runs, the responses that wait are forced out (and this comes to an end), and the queue changes in ways that do not concern it.
\<close>

inductive responder_reachable ::
  "('o \<Rightarrow> nat \<Rightarrow> 'o event_callback AvahiTimeEventQueue \<Rightarrow> 'o event_callback AvahiTimeEventQueue option) \<Rightarrow>
   (AvahiRecord \<Rightarrow> (AvahiRecord \<times> bool) list) \<Rightarrow> nat \<Rightarrow> 'o AvahiResponseScheduler \<Rightarrow> bool" for other aux m where
  start: "teq_ok q \<Longrightarrow> elapse_events q = {} \<Longrightarrow> statics_ok st \<Longrightarrow>
    responder_reachable other aux m (avahi_response_scheduler_new q st m junk)"
| post: "responder_reachable other aux m s \<Longrightarrow> sendable r \<Longrightarrow> \<not> avahi_key_is_pattern (rkey r) \<Longrightarrow> clock_ok now rnd \<Longrightarrow>
    avahi_response_scheduler_post now rnd r flush a immediately s = Some (b, s') \<Longrightarrow> responder_reachable other aux m s'"
| incoming: "responder_reachable other aux m s \<Longrightarrow> record_ok r \<Longrightarrow> clock_ok now rnd \<Longrightarrow>
    avahi_response_scheduler_incoming now rnd r flush s = Some s' \<Longrightarrow> responder_reachable other aux m s'"
| suppress: "responder_reachable other aux m s \<Longrightarrow> record_ok r \<Longrightarrow> clock_ok now rnd \<Longrightarrow>
    avahi_response_scheduler_suppress now rnd r a' s = Some s' \<Longrightarrow> responder_reachable other aux m s'"
| elapse: "responder_reachable other aux m s \<Longrightarrow> clock_ok now rnd \<Longrightarrow>
    response_expiration other aux junk' now rnd s = Some s' \<Longrightarrow> responder_reachable other aux m s'"
| force: "responder_reachable other aux m s \<Longrightarrow> clock_ok now rnd \<Longrightarrow>
    avahi_response_scheduler_force aux junk' now rnd s = Some s' \<Longrightarrow> responder_reachable other aux m s'"
| clear: "responder_reachable other aux m s \<Longrightarrow> avahi_response_scheduler_clear s = Some s' \<Longrightarrow> responder_reachable other aux m s'"
| elsewhere: "responder_reachable other aux m s \<Longrightarrow> teq_ok q \<Longrightarrow> elapse_events q = elapse_events (queue s) \<Longrightarrow>
    responder_reachable other aux m (s\<lparr>queue := q\<rparr>)"

lemma responder_new_ok:
  assumes "teq_ok q" "elapse_events q = {}" "statics_ok st"
  shows "rs_ok (avahi_response_scheduler_new q st m junk)"
  using assms by (simp add: avahi_response_scheduler_new_def rs_ok_def timers_ok_def)

lemma clock_ok_iff: "clock_ok now rnd \<Longrightarrow> tv_norm now \<and> (0 \<le> rnd \<and> rnd < 2 ^ 31)"
  by (simp add: clock_ok_def)

lemma responder_reachable_ok:
  assumes "responder_reachable other aux m s" "packet_limit m < 2 ^ 16" "aux_ok aux"
    and "\<forall>x ev. harmless (\<lambda>q. map_option (Pair ()) (other x ev q))"
  shows "rs_ok s \<and> mtu s = m"
  using assms(1)
proof (induction rule: responder_reachable.induct)
  case (start q st junk)
  then show ?case using responder_new_ok by (simp add: avahi_response_scheduler_new_def)
next
  case (post s r now rnd flush a immediately b s')
  then show ?case using response_post_ok [of s r now rnd flush a immediately] clock_ok_iff by (auto simp: same_rest_def)
next
  case (incoming s r now rnd flush s')
  then show ?case using response_incoming_ok [of s r now rnd flush] clock_ok_iff by (auto simp: same_rest_def)
next
  case (suppress s r now rnd a s')
  then show ?case using response_suppress_ok [of s r now rnd a] clock_ok_iff by (auto simp: same_rest_def)
next
  case (elapse s now rnd junk s')
  then show ?case using response_expiration_ok [of s aux now rnd other junk] clock_ok_iff assms(2-4) by auto
next
  case (force s now rnd junk s')
  then show ?case using force_partial [of aux junk now rnd s s'] clock_ok_iff assms(2,3) by auto
next
  case (clear s s')
  then show ?case using response_clear_ok [of s] by (auto simp: same_rest_def)
next
  case (elsewhere s q)
  then show ?case using rs_ok_queue [of s q] by simp
qed

section \<open>An example\<close>

definition example_responder :: "unit AvahiResponseScheduler" where
  "example_responder = avahi_response_scheduler_new (avahi_time_event_queue_new undefined) \<lparr>last_rand = 5, timestamp = 0\<rparr> 1500 undefined"

lemma example_responder_ok:
  "responder_reachable other aux 1500 example_responder" "rs_ok example_responder" "mtu example_responder = 1500"
  "responses example_responder = Map.empty" "sent example_responder = []" "jobs example_responder = []"
proof -
  have e: "elapse_events (avahi_time_event_queue_new undefined) = {}" by (simp add: elapse_events_def example_queue)
  have st: "statics_ok \<lparr>last_rand = 5, timestamp = 0\<rparr>" by (simp add: statics_ok_def)
  show "responder_reachable other aux 1500 example_responder"
    unfolding example_responder_def by (rule responder_reachable.start [OF example_queue(1) e st])
  show "rs_ok example_responder"
    unfolding example_responder_def by (rule responder_new_ok [OF example_queue(1) e st])
qed (simp_all add: example_responder_def avahi_response_scheduler_new_def responses_def)

lemma example_sendable: "sendable example_a" "aux_ok (\<lambda>r. [])" "packet_limit 1500 < 2 ^ 16" "clock_ok example_now 5"
  "tv_norm example_now" "0 \<le> (5 :: int) \<and> (5 :: int) < 2 ^ 31"
proof -
  show "sendable example_a"
    using box_local example_a_ok by (auto simp: sendable_def example_a_def rdata_wire_ok_def rr_kind_def)
  show "clock_ok example_now 5" by (rule example_cache_ok(3))
  then show "tv_norm example_now" by (simp add: clock_ok_def)
qed (simp_all add: aux_ok_def packet_limit)

lemma distinct_singleton:
  assumes "distinct xs" "set xs = {x}"
  shows "xs = [x]"
proof (cases xs)
  case (Cons a ys)
  with assms have a: "a = x" "set ys \<subseteq> {x}" "x \<notin> set ys" by auto
  have "ys = []" using a(3) subset_singletonD [OF a(2)] by auto
  with Cons a(1) show ?thesis by simp
qed (use assms(2) in simp)

text \<open>A record that was posted.\<close>

lemma example_responded:
  obtains s j where "avahi_response_scheduler_post example_now 5 example_a False None True example_responder = Some (True, s)"
    "rs_ok s" "jobs s = [j]" "job_record (job s j) = example_a" "\<not> job_flush (job s j)" "mtu s = 1500" "sent s = []"
    "responses s = [Response (answer example_a) \<mapsto>
       \<lparr>r_state = AVAHI_SCHEDULED, r_time = example_now, r_record = example_a, r_flush = False, r_querier = None\<rparr>]"
proof -
  obtain s where s: "avahi_response_scheduler_post example_now 5 example_a False None True example_responder = Some (True, s)"
    "rs_ok s" "same_rest example_responder s" "responses s = [Response (answer example_a) \<mapsto>
       \<lparr>r_state = AVAHI_SCHEDULED, r_time = example_now, r_record = example_a, r_flush = False, r_querier = None\<rparr>]"
    "jobs_kept {example_a} example_responder s"
    using response_post_ok [OF example_responder_ok(2) example_sendable(1) example_record(2) example_sendable(5,6), of False None True]
    by (auto simp: example_responder_ok(4) post_spec_def forget_def schedule_spec_def response_time_def)
  obtain j where j: "j \<in> set (all_jobs s)" "rid (job s j) = Response (answer example_a)"
    "view (job s j) = \<lparr>r_state = AVAHI_SCHEDULED, r_time = example_now, r_record = example_a, r_flush = False, r_querier = None\<rparr>"
    by (rule responses_some [OF s(2), of "Response (answer example_a)"]) (use s(4) in simp, rule that)
  have st: "job_state (job s j) = AVAHI_SCHEDULED" "job_record (job s j) = example_a" "\<not> job_flush (job s j)"
    using arg_cong [OF j(3), of r_state] arg_cong [OF j(3), of r_record] arg_cong [OF j(3), of r_flush] by simp_all
  have only: "i = j" if "i \<in> set (jobs s)" for i
  proof -
    have i: "i \<in> set (all_jobs s)" using that by simp
    have "responses s (rid (job s i)) \<noteq> None" using responses_job [OF s(2) i] by simp
    then have "rid (job s i) = rid (job s j)" using s(4) j(2) by (simp split: if_splits)
    then show "i = j" by (rule inj_onD [OF rs_okD(2) [OF s(2)] _ i j(1)])
  qed
  have "j \<in> set (jobs s)" using job_lists(1) [OF s(2) j(1)] st(1) by simp
  with only have "set (jobs s) = {j}" by blast
  moreover have "distinct (jobs s)" using rs_okD(1) [OF s(2)] by simp
  ultimately have "jobs s = [j]" by (metis distinct_singleton)
  with s st that example_responder_ok(3,5) show ?thesis by (simp add: same_rest_def)
qed

section \<open>Properties\<close>

text \<open>C3. Whatever is posted, heard and forced out and whenever the event loop runs, the response scheduler stays in order, provided
  that the other users of the queue of time events leave its events alone and that the database has only records
  that can be sent: no operation fails an assertion; a job is on the list that its state says; what waits and what
  was sent are different answers, and the known answers of a querier are different; every job has exactly one event,
  no event refers to a job that was freed, and the timeout of the event loop is armed in time; and clearing
  leaves neither jobs nor events.\<close>

theorem response_scheduler_invariant:
  assumes "responder_reachable other aux m s" "packet_limit m < 2 ^ 16" "aux_ok aux"
    and "\<forall>x ev. harmless (\<lambda>q. map_option (Pair ()) (other x ev q))"
    and "clock_ok now rnd" "sendable r" "\<not> avahi_key_is_pattern (rkey r)" "record_ok r'"
  shows "avahi_response_scheduler_post now rnd r flush a immediately s \<noteq> None \<and>
    avahi_response_scheduler_incoming now rnd r' flush s \<noteq> None \<and> avahi_response_scheduler_suppress now rnd r' b s \<noteq> None \<and>
    response_expiration other aux junk now rnd s \<noteq> None \<and> distinct (jobs s @ history s @ suppressed s) \<and>
    (\<forall>j \<in> set (jobs s). job_state (job s j) = AVAHI_SCHEDULED) \<and> (\<forall>j \<in> set (history s). job_state (job s j) = AVAHI_DONE) \<and>
    (\<forall>j \<in> set (suppressed s). job_state (job s j) = AVAHI_SUPPRESSED \<and> querier_valid (job s j)) \<and>
    (\<forall>i \<in> set (jobs s @ history s). \<forall>j \<in> set (jobs s @ history s).
       avahi_record_equal_no_ttl (job_record (job s i)) (job_record (job s j)) = Some (i = j)) \<and>
    (\<forall>i \<in> set (suppressed s). \<forall>j \<in> set (suppressed s).
       avahi_record_equal_no_ttl (job_record (job s i)) (job_record (job s j)) = Some True \<and>
       avahi_address_cmp (querier (job s i)) (querier (job s j)) = 0 \<longrightarrow> i = j) \<and>
    (\<forall>j \<in> set (jobs s @ history s @ suppressed s).
       (\<exists>!ev. ev \<in> events (queue s) \<and> callback (event (queue s) ev) = Elapse j) \<and>
       (\<exists>t. timeout (queue s) = Some t \<and> avahi_timeval_compare t (rdue (job s j)) \<le> 0)) \<and>
    (\<forall>ev \<in> events (queue s). \<forall>j. callback (event (queue s) ev) = Elapse j \<longrightarrow> j \<in> set (jobs s @ history s @ suppressed s)) \<and>
    (\<exists>s'. avahi_response_scheduler_free s = Some s' \<and> jobs s' = [] \<and> history s' = [] \<and> suppressed s' = [] \<and>
       elapse_events (queue s') = {})"
proof -
  have rs: "rs_ok s" "mtu s = m" using responder_reachable_ok [OF assms(1-4)] by simp_all
  note ok = rs_okD [OF rs(1)] and now = clock_ok_iff [OF assms(5), THEN conjunct1] clock_ok_iff [OF assms(5), THEN conjunct2]
  have rec: "record_ok (job_record (job s j))" if "j \<in> set (all_jobs s)" for j using ok(6) [OF that] by (simp add: job_ok_def)
  have eq: "avahi_record_equal_no_ttl (job_record (job s i)) (job_record (job s j)) =
      Some (answer (job_record (job s i)) = answer (job_record (job s j)))" if "i \<in> set (all_jobs s)" "j \<in> set (all_jobs s)" for i j
    by (rule equal_no_ttl_answer [OF rec [OF that(1)] rec [OF that(2)]])
  have same: "avahi_record_equal_no_ttl (job_record (job s i)) (job_record (job s j)) = Some (i = j)"
    if ij: "i \<in> set (jobs s @ history s)" "j \<in> set (jobs s @ history s)" for i j
  proof -
    have m: "i \<in> set (all_jobs s)" "j \<in> set (all_jobs s)" using ij by auto
    have "job_state (job s i) \<noteq> AVAHI_SUPPRESSED" "job_state (job s j) \<noteq> AVAHI_SUPPRESSED"
      using ij ok(3,4) by auto
    then have "rid (job s i) = rid (job s j) \<longleftrightarrow> answer (job_record (job s i)) = answer (job_record (job s j))" by simp
    with inj_on_eq_iff [OF ok(2) m] eq [OF m] show ?thesis by simp
  qed
  have known: "i = j" if ij: "i \<in> set (suppressed s)" "j \<in> set (suppressed s)"
    and e: "avahi_record_equal_no_ttl (job_record (job s i)) (job_record (job s j)) = Some True \<and>
       avahi_address_cmp (querier (job s i)) (querier (job s j)) = 0" for i j
  proof -
    have m: "i \<in> set (all_jobs s)" "j \<in> set (all_jobs s)" using ij by auto
    with e eq [OF m] ok(5) ij have "rid (job s i) = rid (job s j)" by (simp add: address_cmp_origin)
    then show ?thesis by (rule inj_onD [OF ok(2) _ m])
  qed
  have "avahi_response_scheduler_post now rnd r flush a immediately s \<noteq> None"
    using response_post_ok [OF rs(1) assms(6,7) now] by blast
  moreover have "avahi_response_scheduler_incoming now rnd r' flush s \<noteq> None"
    using response_incoming_ok [OF rs(1) assms(8) now(1), of rnd flush] by auto
  moreover have "avahi_response_scheduler_suppress now rnd r' b s \<noteq> None"
    using response_suppress_ok [OF rs(1) assms(8) now(1), of rnd b] by auto
  moreover have "response_expiration other aux junk now rnd s \<noteq> None"
  proof -
    have "packet_limit (mtu s) < 2 ^ 16" using assms(2) rs(2) by simp
    from response_expiration_ok [OF rs(1) assms(3) now this assms(4), of junk] show ?thesis by (elim exE conjE) simp
  qed
  moreover have "\<exists>s'. avahi_response_scheduler_free s = Some s' \<and> jobs s' = [] \<and> history s' = [] \<and> suppressed s' = [] \<and>
       elapse_events (queue s') = {}"
    using response_clear_ok [OF rs(1)] by (auto simp: avahi_response_scheduler_free_def)
  moreover have "\<forall>j \<in> set (suppressed s). job_state (job s j) = AVAHI_SUPPRESSED \<and> querier_valid (job s j)"
    using ok(5,6) by (simp add: job_ok_def)
  ultimately show ?thesis
    using ok(1,3,4) same known timers_one_event [OF ok(8)] timers_owner(1) [OF ok(8)]
    by (intro conjI ballI allI impI) (blast | assumption)+
qed

theorem response_scheduler_invariant_witness:
  "avahi_response_scheduler_post example_now 5 example_a True None False example_responder \<noteq> None \<and>
   response_expiration (\<lambda>x ev q. Some q) (\<lambda>r. []) undefined example_now 5 example_responder \<noteq> None"
  using response_scheduler_invariant [OF example_responder_ok(1) example_sendable(3,2) quiet_harmless(3) example_sendable(4,1)
      example_record(2) example_record(1)] by blast

text \<open>C6. The responses as a map from answers, and known answers of queriers, to their state. Posting a record has the effect of
  \<open>post_spec\<close>: it is refused when the querier is known to have it, or when it was sent or heard not more than 500 ms
  ago with a TTL of at least half and the cache flush bit if that is wanted; otherwise it waits, at once or
  for 20 to 120 ms, and a response that waits already becomes earlier but never later, with the new record. A
  response of another host has the effect of \<open>incoming_spec\<close>, a known answer that of \<open>suppress_spec\<close>.\<close>

theorem response_post_refines:
  assumes "rs_ok s" "record_ok r" "clock_ok now rnd"
  shows "(sendable r \<and> \<not> avahi_key_is_pattern (rkey r) \<longrightarrow>
      (\<exists>t res s'. avahi_response_scheduler_post now rnd r flush a immediately s = Some (res, s') \<and> rs_ok s' \<and> sent s' = sent s \<and>
         response_time now immediately t \<and> (res, responses s') = post_spec now t r flush (map_option originator a) (responses s))) \<and>
    (\<exists>s'. avahi_response_scheduler_incoming now rnd r flush s = Some s' \<and> rs_ok s' \<and> sent s' = sent s \<and>
       responses s' = incoming_spec now r flush (responses s)) \<and>
    (\<exists>s'. avahi_response_scheduler_suppress now rnd r b s = Some s' \<and> rs_ok s' \<and> sent s' = sent s \<and>
       responses s' = suppress_spec now r (originator b) (responses s))"
proof (intro conjI impI)
  have now: "tv_norm now" "0 \<le> rnd \<and> rnd < 2 ^ 31" using clock_ok_iff [OF assms(3)] by simp_all
  show "\<exists>t res s'. avahi_response_scheduler_post now rnd r flush a immediately s = Some (res, s') \<and> rs_ok s' \<and> sent s' = sent s \<and>
         response_time now immediately t \<and> (res, responses s') = post_spec now t r flush (map_option originator a) (responses s)"
    if "sendable r \<and> \<not> avahi_key_is_pattern (rkey r)"
    using response_post_ok [OF assms(1) that [THEN conjunct1] that [THEN conjunct2] now, of flush a immediately]
    unfolding same_rest_def by blast
  show "\<exists>s'. avahi_response_scheduler_incoming now rnd r flush s = Some s' \<and> rs_ok s' \<and> sent s' = sent s \<and>
       responses s' = incoming_spec now r flush (responses s)"
    using response_incoming_ok [OF assms(1,2) now(1)] unfolding same_rest_def by blast
  show "\<exists>s'. avahi_response_scheduler_suppress now rnd r b s = Some s' \<and> rs_ok s' \<and> sent s' = sent s \<and>
       responses s' = suppress_spec now r (originator b) (responses s)"
    using response_suppress_ok [OF assms(1,2) now(1)] unfolding same_rest_def by blast
qed

theorem response_post_refines_witness:
  "\<exists>s. avahi_response_scheduler_incoming example_now 5 example_a True example_responder = Some s \<and>
     responses s = [Response (answer example_a) \<mapsto>
       \<lparr>r_state = AVAHI_DONE, r_time = example_now, r_record = example_a, r_flush = True, r_querier = None\<rparr>]"
  using response_post_refines [OF example_responder_ok(2) example_record(1) example_sendable(4), of True None False example_address]
  by (auto simp: example_responder_ok(4) incoming_spec_def)

text \<open>C2. When the event of a waiting response is due, one packet is sent, with the flags QR and AA and no questions. A
  receiver that parses it finds the record of this response with its cache flush bit, and behind it only records
  that waited or are auxiliary to one that may be sent; the packet is within the limit of the interface and is
  filled until the next waiting record may not fit. A record that does not fit into such a packet is sent alone in a larger
  one, or not at all when \<open>avahi_record_get_estimate_size\<close> falls short of what it takes. No answer that waited is
  forgotten, and if the database has one record for each answer then all that was sent is in the history now.\<close>

theorem response_packet_sent:
  assumes "rs_ok s" "j \<in> set (jobs s)" "aux_ok aux" "clock_ok now rnd" "packet_limit (mtu s) < 2 ^ 16"
    and "r = job_record (job s j)" "f = job_flush (job s j)"
  shows "\<exists>s' rs. response_elapse_callback aux junk now rnd j s = Some s' \<and> rs_ok s' \<and>
    ((\<exists>p. sent s' = p # sent s \<and> response_packet p ((r, f) # rs) \<and>
        (psize p \<le> packet_limit (mtu s) \<and>
         (jobs s' \<noteq> [] \<longrightarrow> packet_limit (mtu s) < psize p + record_space (job_record (job s' (hd (jobs s'))))) \<or>
         rs = [] \<and> packet_limit (mtu s) < 12 + record_space r)) \<or>
     sent s' = sent s \<and> rs = [] \<and> packet_limit (mtu s) < 12 + record_space r \<and>
       the (avahi_record_get_estimate_size r) < record_space r) \<and>
    fst ` set rs \<subseteq> due_records aux (waiting s) \<and> waiting s' \<subseteq> due_records aux (waiting s) \<and>
    answer ` waiting s \<subseteq> answer ` (fst ` set ((r, f) # rs)) \<union> answer ` waiting s' \<and>
    (\<forall>own. owns aux own (responses s) \<longrightarrow> answer ` (fst ` set ((r, f) # rs)) \<subseteq> just_sent own now (responses s'))"
proof -
  note now = clock_ok_iff [OF assms(4), THEN conjunct1] clock_ok_iff [OF assms(4), THEN conjunct2]
  have run: "response_elapse_callback aux junk now rnd j s = send_response_packet aux junk now rnd j s"
    using rs_okD(3) [OF assms(1,2)] by (simp add: response_elapse_callback_def)
  have what: "rs_ok s' \<and> fst ` set rs \<subseteq> due_records aux (waiting s) \<and> waiting s' \<subseteq> due_records aux (waiting s) \<and>
    answer ` waiting s \<subseteq> answer ` (fst ` set ((r, f) # rs)) \<union> answer ` waiting s' \<and>
    (\<forall>own. owns aux own (responses s) \<longrightarrow> answer ` (fst ` set ((r, f) # rs)) \<subseteq> just_sent own now (responses s'))"
    if "responded_to aux now ((r, f) # rs) s s'" for rs s'
    using that unfolding responded_to_def owned_step_def by simp
  obtain s' where s': "response_elapse_callback aux junk now rnd j s = Some s'"
    "(\<exists>p rs. responded_to aux now ((r, f) # rs) s s' \<and> sent s' = p # sent s \<and> response_packet p ((r, f) # rs) \<and>
        (psize p \<le> packet_limit (mtu s) \<and>
         (jobs s' \<noteq> [] \<longrightarrow> packet_limit (mtu s) < psize p + record_space (job_record (job s' (hd (jobs s'))))) \<or>
         rs = [] \<and> packet_limit (mtu s) < 12 + record_space r)) \<or>
     responded_to aux now [(r, f)] s s' \<and> sent s' = sent s \<and> packet_limit (mtu s) < 12 + record_space r \<and>
       the (avahi_record_get_estimate_size r) < record_space r"
    using send_response_packet_ok [OF assms(1-3) now assms(5), of junk, folded assms(6,7), folded run] by (elim exE conjE) (rule that)
  from s'(2) show ?thesis
  proof (elim disjE exE)
    fix p rs
    assume a: "responded_to aux now ((r, f) # rs) s s' \<and> sent s' = p # sent s \<and> response_packet p ((r, f) # rs) \<and>
        (psize p \<le> packet_limit (mtu s) \<and>
         (jobs s' \<noteq> [] \<longrightarrow> packet_limit (mtu s) < psize p + record_space (job_record (job s' (hd (jobs s'))))) \<or>
         rs = [] \<and> packet_limit (mtu s) < 12 + record_space r)"
    note w = what [OF a [THEN conjunct1]]
    show ?thesis
      by (rule exI [of _ s'], rule exI [of _ rs], rule conjI [OF s'(1)], rule conjI [OF w [THEN conjunct1]],
        rule conjI [OF _ w [THEN conjunct2]], rule disjI1, rule exI [of _ p], rule a [THEN conjunct2])
  next
    assume a: "responded_to aux now [(r, f)] s s' \<and> sent s' = sent s \<and> packet_limit (mtu s) < 12 + record_space r \<and>
      the (avahi_record_get_estimate_size r) < record_space r"
    note w = what [OF a [THEN conjunct1]]
    show ?thesis
      by (rule exI [of _ s'], rule exI [of _ "[]"], rule conjI [OF s'(1)], rule conjI [OF w [THEN conjunct1]],
        rule conjI [OF _ w [THEN conjunct2]], rule disjI2, rule conjI [OF _ conjI [OF refl]], rule a [THEN conjunct2, THEN conjunct1],
        rule a [THEN conjunct2, THEN conjunct2])
  qed
qed

theorem response_packet_sent_witness:
  "\<exists>s j s' p rs. avahi_response_scheduler_post example_now 5 example_a False None True example_responder = Some (True, s) \<and>
     response_elapse_callback (\<lambda>r. []) undefined example_now 5 j s = Some s' \<and> sent s' = [p] \<and>
     packet_content p = Some ([], (example_a, False) # rs)"
proof (rule example_responded)
  fix s j
  assume s: "avahi_response_scheduler_post example_now 5 example_a False None True example_responder = Some (True, s)"
    "rs_ok s" "jobs s = [j]" "job_record (job s j) = example_a" "\<not> job_flush (job s j)" "mtu s = 1500" "sent s = []"
  have "j \<in> set (jobs s)" "packet_limit (mtu s) < 2 ^ 16" using s(3,6) by (simp_all add: packet_limit)
  note sent_example = response_packet_sent [OF s(2) this(1) example_sendable(2,4) this(2) s(4) [symmetric] refl, of undefined]
  have "\<not> packet_limit (mtu s) < 12 + record_space example_a"
    using name_ok_the [OF box_local] s(6) by (simp add: packet_limit record_space_def example_a_def wire_len_def)
  with sent_example obtain s' p rs where "response_elapse_callback (\<lambda>r. []) undefined example_now 5 j s = Some s'"
    "sent s' = p # sent s" "response_packet p ((example_a, job_flush (job s j)) # rs)"
    by (elim exE conjE disjE) simp_all
  then have "sent s' = [p]" "packet_content p = Some ([], (example_a, False) # rs)"
    using s(5,7) by (simp_all add: response_packet_def)
  with s(1) \<open>response_elapse_callback _ _ _ _ _ _ = Some s'\<close> show ?thesis
    by (intro exI [of _ s] exI [of _ j] exI [of _ s'] exI [of _ p] exI [of _ rs]) simp
qed

text \<open>C19. If the auxiliary records that the waiting ones lead to are finitely many and the database has one record and cache
  flush bit for each answer, then \<open>avahi_response_scheduler_force\<close> ends, although sending a record posts its
  auxiliary ones. Then nothing waits any more, and every response that waited has been sent: a receiver that
  parses the packets of this call finds it in one of them with its cache flush bit. The only exceptions are
  records that fit neither into a packet of the interface nor into one of the size that
  \<open>avahi_record_get_estimate_size\<close> gives. All answers that waited are in the history.\<close>

theorem response_force_ends:
  assumes "rs_ok s" "aux_ok aux" "clock_ok now rnd" "packet_limit (mtu s) < 2 ^ 16"
    and "finite (answer ` due_records aux (waiting s))" "owns aux own (responses s)"
  shows "\<exists>ps s'. avahi_response_scheduler_force aux junk now rnd s = Some s' \<and> rs_ok s' \<and> jobs s' = [] \<and> sent s' = ps @ sent s \<and>
    (\<forall>j \<in> set (jobs s).
       (\<exists>p \<in> set ps. \<exists>rs. response_packet p rs \<and> (job_record (job s j), job_flush (job s j)) \<in> set rs) \<or>
       packet_limit (mtu s) < 12 + record_space (job_record (job s j)) \<and>
         the (avahi_record_get_estimate_size (job_record (job s j))) < record_space (job_record (job s j))) \<and>
    answer ` waiting s \<subseteq> just_sent own now (responses s')"
proof -
  have "\<exists>ps s'. avahi_response_scheduler_force aux junk now rnd s = Some s' \<and> rs_ok s' \<and> jobs s' = [] \<and> sent s' = ps @ sent s \<and>
    answer ` waiting s \<subseteq> just_sent own now (responses s') \<and> just_sent own now (responses s) \<subseteq> just_sent own now (responses s') \<and>
    (\<forall>a \<in> answer ` waiting s. went_out ps (own a) \<or> never_fits (mtu s) (fst (own a)))"
  proof (rule force_ok [OF assms(2) clock_ok_iff [OF assms(3), THEN conjunct1] clock_ok_iff [OF assms(3), THEN conjunct2]
        assms(4,5) _ assms(1) refl assms(6)])
    show "waiting s \<subseteq> due_records aux (waiting s)" by (blast intro: due_records.waits)
  qed (rule due_records.auxiliary)
  then obtain ps s' where s': "avahi_response_scheduler_force aux junk now rnd s = Some s'" "rs_ok s'" "jobs s' = []" "sent s' = ps @ sent s"
    "answer ` waiting s \<subseteq> just_sent own now (responses s')"
    "\<forall>a \<in> answer ` waiting s. went_out ps (own a) \<or> never_fits (mtu s) (fst (own a))" by (elim exE conjE) (rule that)
  have sent: "went_out ps (job_record (job s j), job_flush (job s j)) \<or> never_fits (mtu s) (job_record (job s j))"
    if "j \<in> set (jobs s)" for j
  proof -
    have "answer (job_record (job s j)) \<in> answer ` waiting s" using that by (simp add: waiting_def)
    from bspec [OF s'(6) this] own_record [OF assms(1) that assms(6), symmetric] show ?thesis by simp
  qed
  show ?thesis
    using sent s'(1-5) unfolding went_out_def never_fits_def
    by (intro exI [of _ ps] exI [of _ s'] conjI) blast+
qed

text \<open>The example: the first record of a host brings the second one along.\<close>

definition example_b :: AvahiRecord where
  "example_b = example_a\<lparr>rdata := RD_A [CHR 0x0A, CHR 0x00, CHR 0x00, CHR 0x02]\<rparr>"

definition example_aux :: "AvahiRecord \<Rightarrow> (AvahiRecord \<times> bool) list" where
  "example_aux r = (if r = example_a then [(example_b, False)] else [])"

lemma example_aux_set: "rf \<in> set (example_aux r) \<longleftrightarrow> r = example_a \<and> rf = (example_b, False)"
  by (auto simp: example_aux_def)

lemma example_b_facts: "sendable example_b" "\<not> avahi_key_is_pattern (rkey example_b)" "aux_ok example_aux"
  "answer example_b \<noteq> answer example_a"
proof -
  show b: "sendable example_b" "\<not> avahi_key_is_pattern (rkey example_b)"
    using example_sendable(1) example_record(2)
    by (auto simp: sendable_def example_b_def example_a_def rdata_wire_ok_def rr_kind_def record_ok_def)
  then show "aux_ok example_aux" by (simp add: aux_ok_def example_aux_set)
  show "answer example_b \<noteq> answer example_a" by (simp add: answer_def example_b_def example_a_def)
qed

theorem response_force_ends_witness:
  "\<exists>s s' ps. avahi_response_scheduler_post example_now 5 example_a False None True example_responder = Some (True, s) \<and>
     avahi_response_scheduler_force example_aux undefined example_now 5 s = Some s' \<and> jobs s' = [] \<and> sent s' = ps \<and>
     (\<exists>p \<in> set ps. \<exists>rs. response_packet p rs \<and> (example_a, False) \<in> set rs)"
proof (rule example_responded)
  fix s j
  assume s: "avahi_response_scheduler_post example_now 5 example_a False None True example_responder = Some (True, s)"
    "rs_ok s" "jobs s = [j]" "job_record (job s j) = example_a" "\<not> job_flush (job s j)" "mtu s = 1500" "sent s = []"
    "responses s = [Response (answer example_a) \<mapsto>
       \<lparr>r_state = AVAHI_SCHEDULED, r_time = example_now, r_record = example_a, r_flush = False, r_querier = None\<rparr>]"
  have w: "waiting s = {example_a}" using s(3,4) by (simp add: waiting_def)
  have "r = example_a \<or> r = example_b" if "r \<in> due_records example_aux (waiting s)" for r
    using that
  proof induction
    case (auxiliary r rf)
    then show ?case by (simp add: example_aux_set)
  qed (simp add: w)
  then have "due_records example_aux (waiting s) \<subseteq> {example_a, example_b}" by blast
  then have "finite (due_records example_aux (waiting s))" by (rule finite_subset) simp
  then have fin: "finite (answer ` due_records example_aux (waiting s))" by simp
  have lim: "packet_limit (mtu s) < 2 ^ 16" using s(6) by (simp add: packet_limit)
  have "owns example_aux (\<lambda>a. if a = answer example_b then (example_b, False) else (example_a, False)) (responses s)"
    unfolding owns_def s(8)
  proof (intro conjI allI ballI impI)
    show "(if answer (fst rf) = answer example_b then (example_b, False) else (example_a, False)) = rf" if "rf \<in> set (example_aux r)" for r rf
      using that by (simp add: example_aux_set)
    show "(r_record v, r_flush v) = (if a = answer example_b then (example_b, False) else (example_a, False))"
      if "[Response (answer example_a) \<mapsto> \<lparr>r_state = AVAHI_SCHEDULED, r_time = example_now, r_record = example_a,
        r_flush = False, r_querier = None\<rparr>] (Response a) = Some v \<and> r_state v = AVAHI_SCHEDULED" for a v
      using that example_b_facts(4) by (cases "a = answer example_a") auto
  qed
  from response_force_ends [OF s(2) example_b_facts(3) example_sendable(4) lim fin this, of undefined, unfolded s(3,7)]
  obtain ps s' where f: "avahi_response_scheduler_force example_aux undefined example_now 5 s = Some s'" "jobs s' = []"
    "sent s' = ps @ []"
    "\<forall>j \<in> set [j]. (\<exists>p \<in> set ps. \<exists>rs. response_packet p rs \<and> (job_record (job s j), job_flush (job s j)) \<in> set rs) \<or>
       packet_limit (mtu s) < 12 + record_space (job_record (job s j)) \<and>
         the (avahi_record_get_estimate_size (job_record (job s j))) < record_space (job_record (job s j))"
    by (elim exE conjE) (rule that)
  have "\<not> packet_limit (mtu s) < 12 + record_space example_a"
    using name_ok_the [OF box_local] s(6) by (simp add: packet_limit record_space_def example_a_def wire_len_def)
  with bspec [OF f(4), of j] s(4,5) have "\<exists>p \<in> set ps. \<exists>rs. response_packet p rs \<and> (example_a, False) \<in> set rs" by simp
  with f(1-3) s(1) show ?thesis by (intro exI [of _ s] exI [of _ s'] exI [of _ ps]) simp
qed

section \<open>Known answers\<close>

text \<open>
  What happens to a response scheduler at times of a kind: everything of \<open>responder_reachable\<close> but that all is
  cleared, and that the known answer \<open>i\<close> is heard again.
\<close>

inductive responder_steps ::
  "('o \<Rightarrow> nat \<Rightarrow> 'o event_callback AvahiTimeEventQueue \<Rightarrow> 'o event_callback AvahiTimeEventQueue option) \<Rightarrow>
   (AvahiRecord \<Rightarrow> (AvahiRecord \<times> bool) list) \<Rightarrow> (timeval \<Rightarrow> bool) \<Rightarrow> response_id \<Rightarrow>
   'o AvahiResponseScheduler \<Rightarrow> 'o AvahiResponseScheduler \<Rightarrow> bool" for other aux during i s where
  none: "responder_steps other aux during i s s"
| post: "responder_steps other aux during i s s1 \<Longrightarrow> clock_ok t rnd \<Longrightarrow> during t \<Longrightarrow> sendable r \<Longrightarrow> \<not> avahi_key_is_pattern (rkey r) \<Longrightarrow>
    avahi_response_scheduler_post t rnd r flush a immediately s1 = Some (b, s2) \<Longrightarrow> responder_steps other aux during i s s2"
| incoming: "responder_steps other aux during i s s1 \<Longrightarrow> clock_ok t rnd \<Longrightarrow> during t \<Longrightarrow> record_ok r \<Longrightarrow>
    avahi_response_scheduler_incoming t rnd r flush s1 = Some s2 \<Longrightarrow> responder_steps other aux during i s s2"
| suppress: "responder_steps other aux during i s s1 \<Longrightarrow> clock_ok t rnd \<Longrightarrow> during t \<Longrightarrow> record_ok r \<Longrightarrow>
    Known (answer r) (originator a') \<noteq> i \<Longrightarrow>
    avahi_response_scheduler_suppress t rnd r a' s1 = Some s2 \<Longrightarrow> responder_steps other aux during i s s2"
| elapse: "responder_steps other aux during i s s1 \<Longrightarrow> clock_ok t rnd \<Longrightarrow> during t \<Longrightarrow>
    response_expiration other aux junk t rnd s1 = Some s2 \<Longrightarrow> responder_steps other aux during i s s2"
| force: "responder_steps other aux during i s s1 \<Longrightarrow> clock_ok t rnd \<Longrightarrow> during t \<Longrightarrow>
    avahi_response_scheduler_force aux junk t rnd s1 = Some s2 \<Longrightarrow> responder_steps other aux during i s s2"
| elsewhere: "responder_steps other aux during i s s1 \<Longrightarrow> teq_ok q \<Longrightarrow> elapse_events q = elapse_events (queue s1) \<Longrightarrow>
    responder_steps other aux during i s (s1\<lparr>queue := q\<rparr>)"

lemma known_held_at:
  assumes "known_held t m m'" "m (Known a b) = Some v" "avahi_age t (r_time v) < 700000"
  shows "m' (Known a b) = Some v"
proof -
  have "usecs t < usecs (r_time v) + 700000" using assms(3) by (simp add: avahi_age_def avahi_timeval_diff_usecs)
  with assms(1,2) show ?thesis unfolding known_held_def by blast
qed

lemma responder_steps_ok:
  fixes s :: "'o AvahiResponseScheduler"
  assumes "responder_steps other aux (\<lambda>t. avahi_age t (r_time v) < 700000) (Known a b) s s'"
    and "rs_ok s" "packet_limit (mtu s) < 2 ^ 16" "aux_ok aux" "\<forall>x ev. harmless (\<lambda>q. map_option (Pair ()) (other x ev q))"
    and "responses s (Known a b) = Some v"
  shows "rs_ok s' \<and> mtu s' = mtu s \<and> responses s' (Known a b) = Some v"
  using assms(1)
proof (induction rule: responder_steps.induct)
  case none
  with assms(2,6) show ?case by simp
next
  case (post s1 t rnd r flush c imm d s2)
  then obtain u where p: "rs_ok s2" "mtu s2 = mtu s1" "(d, responses s2) = post_spec t u r flush (map_option originator c) (responses s1)"
    using response_post_ok [of s1 r t rnd flush c imm] clock_ok_iff by (auto simp: same_rest_def)
  with post.IH post.hyps(3) known_held_at [OF known_kept_held [OF post_spec_known [OF p(3)]]] show ?case by auto
next
  case (incoming s1 t rnd r flush s2)
  then have p: "rs_ok s2" "mtu s2 = mtu s1" "responses s2 = incoming_spec t r flush (responses s1)"
    using response_incoming_ok [of s1 r t rnd flush] clock_ok_iff by (auto simp: same_rest_def)
  then have "responses s2 (Known a b) = responses s1 (Known a b)"
    by (simp add: incoming_spec_def Let_def split: option.splits)
  with p incoming.IH show ?case by simp
next
  case (suppress s1 t rnd r c s2)
  then have p: "rs_ok s2" "mtu s2 = mtu s1" "responses s2 = suppress_spec t r (originator c) (responses s1)"
    using response_suppress_ok [of s1 r t rnd c] clock_ok_iff by (auto simp: same_rest_def)
  then have "responses s2 (Known a b) = responses s1 (Known a b)"
    using suppress.hyps(5) by (auto simp: suppress_spec_def split: option.splits)
  with p suppress.IH show ?case by simp
next
  case (elapse s1 t rnd junk s2)
  then have "rs_ok s2 \<and> mtu s2 = mtu s1 \<and> known_held t (responses s1) (responses s2)"
    using response_expiration_ok [of s1 aux t rnd other junk] clock_ok_iff assms(3-5) by auto
  with elapse.IH elapse.hyps(3) known_held_at [of t "responses s1" "responses s2"] show ?case by simp
next
  case (force s1 t rnd junk s2)
  then have "rs_ok s2 \<and> mtu s2 = mtu s1 \<and> known_held t (responses s1) (responses s2)"
    using force_partial [of aux junk t rnd s1 s2] clock_ok_iff assms(3,4) known_kept_held by auto
  with force.IH force.hyps(3) known_held_at [of t "responses s1" "responses s2"] show ?case by simp
next
  case (elsewhere s1 q)
  then show ?case using rs_ok_queue [of s1 q] by simp
qed

text \<open>C8. Known answer suppression: once a querier has said that it knows an answer, then for 700 ms no response to this
  querier with that answer is accepted whose TTL is at most about twice the known one (goodbyes and other
  records are distinguished), whatever happens in between: other records and responses are posted and heard,
  the event loop runs as often as it wants within the 700 ms, and responses are sent. Such a post is refused and
  changes nothing. A response of this kind to this querier alone that waited when the known answer came is
  withdrawn.\<close>

theorem known_answer_suppression:
  assumes "rs_ok s" "record_ok r" "clock_ok now rnd" "packet_limit (mtu s) < 2 ^ 16" "aux_ok aux"
    and "\<forall>x ev. harmless (\<lambda>q. map_option (Pair ()) (other x ev q))"
    and "clock_ok later rnd'" "avahi_age later now \<le> 700000"
    and "sendable r'" "\<not> avahi_key_is_pattern (rkey r')" "avahi_record_equal_no_ttl r r' = Some True"
    and "avahi_record_is_goodbye r = avahi_record_is_goodbye r'" "ttl r \<ge> ttl r' div 2"
  shows "\<exists>s1. avahi_response_scheduler_suppress now rnd r a s = Some s1 \<and>
    \<not> (\<exists>v. responses s1 (Response (answer r')) = Some v \<and> r_state v = AVAHI_SCHEDULED \<and> r_querier v = Some (originator a) \<and>
        supersedes r (r_record v)) \<and>
    (\<forall>s2. responder_steps other aux (\<lambda>t. avahi_age t now < 700000) (Known (answer r) (originator a)) s1 s2 \<longrightarrow>
       (\<exists>s3. avahi_response_scheduler_post later rnd' r' flush (Some a) immediately s2 = Some (False, s3) \<and>
          responses s3 = responses s2))"
proof -
  note now = clock_ok_iff [OF assms(3)] clock_ok_iff [OF assms(7), THEN conjunct1] clock_ok_iff [OF assms(7), THEN conjunct2]
  have r': "record_ok r'" using assms(9) by (simp add: sendable_def)
  have ans: "answer r = answer r'" using assms(11) equal_no_ttl_answer [OF assms(2) r'] by simp
  have sup: "supersedes r r'" using assms(12,13) by (simp add: supersedes_def)
  obtain s1 where s1: "avahi_response_scheduler_suppress now rnd r a s = Some s1" "rs_ok s1" "mtu s1 = mtu s"
    "responses s1 = suppress_spec now r (originator a) (responses s)"
    using response_suppress_ok [OF assms(1,2)] now(1) unfolding same_rest_def by blast
  let ?v = "\<lparr>r_state = AVAHI_SUPPRESSED, r_time = now, r_record = r, r_flush = False, r_querier = Some (originator a)\<rparr>"
  have k: "responses s1 (Known (answer r') (originator a)) = Some ?v" by (simp add: s1(4) suppress_spec_def ans)
  have "\<exists>s3. avahi_response_scheduler_post later rnd' r' flush (Some a) immediately s2 = Some (False, s3) \<and> responses s3 = responses s2"
    if steps: "responder_steps other aux (\<lambda>t. avahi_age t now < 700000) (Known (answer r) (originator a)) s1 s2" for s2
  proof -
    have s2: "rs_ok s2" "responses s2 (Known (answer r') (originator a)) = Some ?v"
      using responder_steps_ok [of other aux ?v "answer r'" "originator a" s1 s2] steps s1(2,3) assms(4-6) k ans by simp_all
    obtain t b s3 where s3: "avahi_response_scheduler_post later rnd' r' flush (Some a) immediately s2 = Some (b, s3)"
      "(b, responses s3) = post_spec later t r' flush (map_option originator (Some a)) (responses s2)"
      using response_post_ok [OF s2(1) assms(9,10) now(2,3)] by blast
    have "forget_known later (answer r') (originator a) (responses s2) = responses s2"
      using s2(2) assms(8) by (simp add: forget_def)
    then have "(b, responses s3) = (False, responses s2)" using s3(2) s2(2) sup by (simp add: post_spec_def)
    with s3(1) show ?thesis by simp
  qed
  moreover have "\<not> (\<exists>v. responses s1 (Response (answer r')) = Some v \<and> r_state v = AVAHI_SCHEDULED \<and> r_querier v = Some (originator a) \<and>
        supersedes r (r_record v))"
    unfolding s1(4) by (auto simp: suppress_spec_def ans split: option.splits if_splits)
  ultimately show ?thesis using s1(1) by blast
qed

text \<open>In the example another record is posted and sent by the event loop before the post that is refused.\<close>

theorem known_answer_suppression_witness:
  "\<exists>s1 s2 s3 s4 b. avahi_response_scheduler_suppress example_now 5 example_a example_address example_responder = Some s1 \<and>
     avahi_response_scheduler_post example_now 5 example_b False None True s1 = Some (b, s2) \<and>
     response_expiration (\<lambda>x ev q. Some q) example_aux undefined \<lparr>tv_sec = 100, tv_usec = 699999\<rparr> 5 s2 = Some s3 \<and>
     avahi_response_scheduler_post \<lparr>tv_sec = 100, tv_usec = 700000\<rparr> 5 example_a False (Some example_address) True s3 = Some (False, s4)"
proof -
  let ?other = "\<lambda>(x :: unit) (ev :: nat) (q :: unit event_callback AvahiTimeEventQueue). Some q"
  let ?t = "\<lparr>tv_sec = 100, tv_usec = 699999\<rparr>" and ?u = "\<lparr>tv_sec = 100, tv_usec = 700000\<rparr>"
  have clock: "clock_ok ?t 5" "clock_ok ?u 5" "avahi_age ?u example_now \<le> 700000" "avahi_age ?t example_now < 700000"
    by (simp_all add: clock_ok_def tv_norm_def avahi_age_def avahi_timeval_diff_usecs usecs_def example_now_def)
  have lim: "packet_limit (mtu example_responder) < 2 ^ 16" using example_responder_ok(3) example_sendable(3) by simp
  have other: "\<forall>x ev. harmless (\<lambda>q. map_option (Pair ()) (?other x ev q))" by (rule quiet_harmless(3))
  have same: "avahi_record_equal_no_ttl example_a example_a = Some True" "ttl example_a \<ge> ttl example_a div 2"
    by (simp_all add: avahi_record_equal_no_ttl_def word_le_nat_alt unat_div)
  from known_answer_suppression [OF example_responder_ok(2) example_record(1) example_sendable(4) lim example_b_facts(3) other
      clock(2,3) example_sendable(1) example_record(2) same(1) refl same(2), of example_address False True]
  obtain s1 where s1: "avahi_response_scheduler_suppress example_now 5 example_a example_address example_responder = Some s1"
    "\<And>s2. responder_steps ?other example_aux (\<lambda>t. avahi_age t example_now < 700000)
        (Known (answer example_a) (originator example_address)) s1 s2 \<longrightarrow>
       (\<exists>s3. avahi_response_scheduler_post ?u 5 example_a False (Some example_address) True s2 = Some (False, s3))"
    by (elim exE conjE) (erule that, blast)
  have ok1: "rs_ok s1" "mtu s1 = 1500" using response_suppress_ok [OF example_responder_ok(2) example_record(1) example_sendable(5), of 5 example_address]
      s1(1) example_responder_ok(3) by (auto simp: same_rest_def)
  obtain b s2 where s2: "avahi_response_scheduler_post example_now 5 example_b False None True s1 = Some (b, s2)" "rs_ok s2" "mtu s2 = 1500"
    using response_post_ok [OF ok1(1) example_b_facts(1,2) example_sendable(5,6)] ok1(2) unfolding same_rest_def by metis
  obtain s3 where s3: "response_expiration ?other example_aux undefined ?t 5 s2 = Some s3"
    using response_expiration_ok [OF s2(2) example_b_facts(3) _ example_sendable(6) _ other] clock(1) s2(3) example_sendable(3)
    by (auto simp: clock_ok_def)
  have "responder_steps ?other example_aux (\<lambda>t. avahi_age t example_now < 700000)
      (Known (answer example_a) (originator example_address)) s1 s3"
  proof (rule responder_steps.elapse [OF responder_steps.post [OF responder_steps.none _ _ _ _ s2(1)] _ _ s3])
    show "avahi_age example_now example_now < 700000" by (simp add: age_now)
  qed (use clock example_sendable(4) example_b_facts in simp_all)
  with s1 s2(1) s3 show ?thesis by blast
qed

end
