(* ===== verification/Spec2Isabelle.thy ===== *)
theory Spec2Isabelle
  imports Service_Names Utf8 Strlst Alternative Timeval DNS_Packets Rrlist Cache_Properties Cache_Causes Query_Properties Response_Properties
begin

text \<open>
  A verification library for the mDNS/DNS-SD engine of QtZeroConf: the copy of Avahi under
  \<^verbatim>\<open>src/avahi-common\<close> and \<^verbatim>\<open>src/avahi-core\<close>, in C, that the Qt classes of the repository drive.

  \<^bold>\<open>The program.\<close> \<^verbatim>\<open>avahi-common\<close> holds values: domain names and their escaping (\<^verbatim>\<open>domain.c\<close>), UTF-8
  (\<^verbatim>\<open>utf8.c\<close>), the strings of TXT records (\<^verbatim>\<open>strlst.c\<close>), points in time (\<^verbatim>\<open>timeval.c\<close>), addresses
  (\<^verbatim>\<open>address.c\<close>) and the choice of another name after a conflict (\<^verbatim>\<open>alternative.c\<close>). \<^verbatim>\<open>avahi-core\<close> is the
  engine: keys and records (\<^verbatim>\<open>rr.c\<close>) are encoded into and decoded from packets (\<^verbatim>\<open>dns.c\<close>), kept in hash
  tables (\<^verbatim>\<open>hashmap.c\<close>) and in lists of what is to be sent (\<^verbatim>\<open>rrlist.c\<close>); everything that happens later is
  an event in a queue (\<^verbatim>\<open>timeeventq.c\<close>) that rests on a priority queue (\<^verbatim>\<open>prioq.c\<close>). What other hosts
  announce is kept in a cache (\<^verbatim>\<open>cache.c\<close>), which uses the hash table for its index and the event queue for
  the end of the records' lifetimes. Questions go out through the query scheduler of an interface (\<^verbatim>\<open>query-sched.c\<close>),
  which puts several of them into one packet with what the cache knows already. Answers go out through the response
  scheduler (\<^verbatim>\<open>response-sched.c\<close>), which drops those that other hosts have given or that the querier knows.

  \<^bold>\<open>The theories.\<close>
  \<^item> \<open>Avahi_Prelude\<close>: C types and strings, comparison functions as the locale \<open>c_compare\<close>, lemmas on bits,
    lists, options and words.
  \<^item> \<open>Utf8\<close>: \<^verbatim>\<open>utf8.c\<close>. The validator is equivalent to a grammar of encodings.
  \<^item> \<open>Domain\<close>, \<open>Domain_Labels\<close>, \<open>Domain_Compare\<close>, \<open>Service_Names\<close>: \<^verbatim>\<open>domain.c\<close> and the comparisons of
    \<^verbatim>\<open>domain-util.c\<close>. Escaping and reading labels are inverse and stay within their buffers;
    normalisation, equality, hashing and the splitting of service names are characterised by the labels
    of a name.
  \<^item> \<open>Strlst\<close>: \<^verbatim>\<open>strlst.c\<close>; round trips of the wire format and of key and value pairs.
  \<^item> \<open>Timeval\<close>: \<^verbatim>\<open>timeval.c\<close>; exact arithmetic, the order, and the range of random delays.
  \<^item> \<open>Alternative\<close>: \<^verbatim>\<open>alternative.c\<close>; the names chosen are valid and different.
  \<^item> \<open>Hashmap\<close>: \<^verbatim>\<open>hashmap.c\<close>; refinement of a finite map, each key and value is freed once.
  \<^item> \<open>Address\<close>: \<^verbatim>\<open>address.c\<close> and \<^verbatim>\<open>addr-util.c\<close>.
  \<^item> \<open>RR\<close>: \<^verbatim>\<open>rr.c\<close>; keys and records, their equality, patterns and total order.
  \<^item> \<open>DNS\<close>: the definitions of \<^verbatim>\<open>dns.c\<close>. \<open>DNS_Names\<close> shows that compressed names are stored and read back,
    \<open>DNS_Rdata\<close> and \<open>DNS_Records\<close> the same for record data, keys and records, \<open>DNS_Reading\<close> that packets of
    any content are read safely, and \<open>DNS_Packets\<close> states the properties. \<open>DNS_Content\<close> is what a packet holds
    while it is filled and what a receiver finds in it.
  \<^item> \<open>Prioq\<close>: the definitions of \<^verbatim>\<open>prioq.c\<close> on nodes with seven pointers each. \<open>Prioq_Heap\<close> relates the
    linked nodes to a sequence, \<open>Prioq_Ops\<close> treats the operations, and \<open>Prioq_Contract\<close> states the
    contract as the locale \<open>prio_queue\<close> and proves it for the model.
  \<^item> \<open>Timeeventq\<close>: \<^verbatim>\<open>timeeventq.c\<close>, a client of that contract; an event that is due is not starved by others.
    \<open>Timers\<close>: a client of the queue that has one event for each of its objects.
  \<^item> \<open>RR_Same\<close>: records that are equal but for the TTL. \<open>Rrlist\<close>: \<^verbatim>\<open>rrlist.c\<close>, which never holds two of them.
  \<^item> \<open>Cache\<close>: the definitions of \<^verbatim>\<open>cache.c\<close>. \<open>Cache_Index\<close> is the agreement of the hash table with the entries,
    \<open>Cache_Events\<close> that of the entries with the events, \<open>Cache_Ops\<close> puts them together as the invariant and
    treats what all operations share, \<open>Cache_Update\<close> the records that arrive, \<open>Cache_Expiry\<close> the entries
    whose queries are not answered, \<open>Cache_Clock\<close> the expiration of events, and \<open>Cache_Properties\<close> states the
    properties, on the states that the operations reach. \<open>Cache_Causes\<close> adds the history of what arrived and was asked,
    and traces every removal back to it.
  \<^item> \<open>Query_Sched\<close>: the definitions of \<^verbatim>\<open>query-sched.c\<close>. \<open>Query_Jobs\<close> is the invariant of the jobs and their events
    and the refinement of a map from questions to times, \<open>Query_Send\<close> the packets, and \<open>Query_Properties\<close> states the
    properties.
  \<^item> \<open>Job_Table\<close>: linked lists of jobs with distinct keys, and the map from keys to jobs. \<open>Response_Sched\<close>: the definitions of
    \<^verbatim>\<open>response-sched.c\<close>. \<open>Response_Jobs\<close> is the invariant and the abstraction to a map from answers to what is known
    of them, \<open>Response_Post\<close> the refinement of this map by the operations, \<open>Response_Send\<close> the packets, and
    \<open>Response_Properties\<close> states the properties, those on known answers for all that may happen in their 700 ms.

  \<^bold>\<open>How the code is modelled.\<close> C strings are lists of nonzero characters and byte buffers are lists of
  bytes with their length; a pointer into a string is the rest of the string, an output buffer is the
  list written and the space that is left, so that writing past its end is visible. A structure is a
  record, a linked list whose identity does not matter is a list, and the nodes of the priority queue are
  addresses with a map for each field. A function that may fail an assertion returns an option with
  \<^const>\<open>None\<close> for the failure; an error return of the code is an inner option or an error code. Integers
  are words or integers with the reduction written out where they can overflow. Reference counts and calls
  of \<^verbatim>\<open>free\<close> do not appear except in \<open>Hashmap\<close>, where a log records them. A read of record data beyond the packet is
  a failure too. Memory is taken to suffice.

  \<^bold>\<open>Loops.\<close> Structural loops are recursive functions. The label loop of \<^verbatim>\<open>consume_labels\<close> carries the
  bound of the code, 127 iterations (63 labels with a pointer each, and the end); the loops of the priority
  queue, the event queue and the flush of the cache are partial functions, and the properties state that they
  return.

  \<^bold>\<open>Parameters.\<close> The clock, random numbers, callbacks of users, and the event loop are arguments. An
  operation of the cache or of the elapse of time takes place at one time \<open>now\<close>. The scaling of a random number in
  double precision is computed exactly, with its rounding. \<^verbatim>\<open>malloc\<close> is \<open>fresh\<close>, an address that is not in
  use. For the cache, \<open>shall_refresh\<close> is the question to the querier whether somebody is interested in a key,
  \<open>post_query\<close> sends a query, and the other users of the event queue are the callbacks \<open>Other\<close>; the properties
  suppose of them that they do not touch the events of the cache; the same holds for the schedulers. \<open>aux\<close> are the records that
  the server sends along with a record (\<^verbatim>\<open>avahi_server_enumerate_aux_records\<close>). The interface of the schedulers is a
  parameter too: packets that are sent are a log, and the properties suppose that the packets of the interface have at
  least 273 bytes, the header and the largest question, and less than 65536, the range of the counters in the header.

  \<^bold>\<open>Not modelled.\<close> Sockets, netlink and network interfaces (\<^verbatim>\<open>socket.c\<close>, \<^verbatim>\<open>netlink.c\<close>, \<^verbatim>\<open>iface.c\<close>,
  \<^verbatim>\<open>iface-linux.c\<close>) and the event loops (\<^verbatim>\<open>simple-watch.c\<close>, \<^verbatim>\<open>thread-watch.c\<close>), which are system calls;
  allocation, logging and messages; the server with its entry groups, probing and announcing, queriers, browsers and
  resolvers, which connect the parts above by callbacks into each other and into the user's program; the vendored Bonjour SDK
  and the Qt, Java and Objective-C++ classes, which are not part of the engine.
\<close>

end
